(* ===== verification/Prelude.thy ===== *)
theory Prelude
  imports Main "HOL-Library.Word" "HOL-Library.Monad_Syntax"
begin

text \<open>
  Shared vocabulary of the development.

  \<^item> Machine integers are words of the library theory \<open>Word\<close>; Rust's \<open>wrapping_*\<close>
    operations are the word operations, \<open>as\<close> casts between unsigned types are \<open>ucast\<close>.
  \<^item> A byte slice, a byte array and a raw pointer together with the bytes it may access are all
    lists of bytes.
  \<^item> A computation that may panic (slice bounds, \<open>assert!\<close>, \<open>expect\<close>) or that may perform an
    out-of-bounds raw access (undefined behaviour) returns \<open>'a option\<close>, with \<open>None\<close> for the
    fault.  So every theorem of the form \<open>f x = Some y\<close> states memory safety and absence of
    panics together with the functional result.
  \<^item> Loops are the combinators \<open>foldM\<close> (a \<open>for\<close> loop over a range) and \<open>scan_while\<close>
    (a \<open>while offset + width <= len\<close> loop with a fixed stride).
\<close>

unbundle bit_operations_syntax

type_synonym u8 = "8 word"
type_synonym u16 = "16 word"
type_synonym u32 = "32 word"
type_synonym u64 = "64 word"
type_synonym u128 = "128 word"
type_synonym bytes = "u8 list"

named_theorems lane_simps "how vector operations act on the lanes of a vector"
named_theorems slice_simps "checked slices, loads and stores inside their bounds"

section \<open>Checked access\<close>

definition guard :: "bool \<Rightarrow> unit option" where
  "guard b = (if b then Some () else None)"

definition get :: "'a list \<Rightarrow> nat \<Rightarrow> 'a option" where
  "get xs i = (if i < length xs then Some (xs ! i) else None)"

definition slice :: "'a list \<Rightarrow> nat \<Rightarrow> nat \<Rightarrow> 'a list option" where
  "slice xs off n = (if off + n \<le> length xs then Some (take n (drop off xs)) else None)"

definition store :: "'a list \<Rightarrow> nat \<Rightarrow> 'a list \<Rightarrow> 'a list option" where
  "store xs off ys =
     (if off + length ys \<le> length xs
      then Some (take off xs @ ys @ drop (off + length ys) xs) else None)"

declare Let_def [slice_simps]

lemma guard_True [simp]: "guard True = Some ()"
  by (simp add: guard_def)

lemma guard_False [simp]: "guard False = None"
  by (simp add: guard_def)

lemma guard_bind [slice_simps]: "b \<Longrightarrow> guard b \<bind> f = f ()"
  by simp

lemma get_Some [slice_simps]: "i < length xs \<Longrightarrow> get xs i = Some (xs ! i)"
  by (simp add: get_def)

lemma slice_Some [slice_simps]:
  "off + n \<le> length xs \<Longrightarrow> slice xs off n = Some (take n (drop off xs))"
  by (simp add: slice_def)

lemma slice_SomeD: "slice xs off n = Some ys \<Longrightarrow> length ys = n"
  by (auto simp: slice_def split: if_splits)

lemma store_Some [slice_simps]:
  "off + length ys \<le> length xs \<Longrightarrow>
   store xs off ys = Some (take off xs @ ys @ drop (off + length ys) xs)"
  by (simp add: store_def)

lemma length_store: "store xs off ys = Some zs \<Longrightarrow> length zs = length xs"
  by (auto simp: store_def split: if_splits)

text \<open>A store leaves every position outside its window alone.\<close>

lemma store_frame:
  assumes "store xs off ys = Some zs"
  shows "take off zs = take off xs"
    and "drop (off + length ys) zs = drop (off + length ys) xs"
  using assms by (auto simp: store_def split: if_splits)

text \<open>Short lists by their elements.\<close>

lemma length_eq_1: "length xs = Suc 0 \<longleftrightarrow> (\<exists>a. xs = [a])"
  by (auto simp: numeral_eq_Suc length_Suc_conv)

lemma length_eq_2: "length xs = 2 \<longleftrightarrow> (\<exists>a b. xs = [a, b])"
  by (auto simp: numeral_eq_Suc length_Suc_conv)

lemma length_eq_3: "length xs = 3 \<longleftrightarrow> (\<exists>a b c. xs = [a, b, c])"
  by (auto simp: numeral_eq_Suc length_Suc_conv)

lemma length_eq_4: "length xs = 4 \<longleftrightarrow> (\<exists>a b c d. xs = [a, b, c, d])"
  by (auto simp: numeral_eq_Suc length_Suc_conv)

lemma length_eq_5: "length xs = 5 \<longleftrightarrow> (\<exists>a b c d e. xs = [a, b, c, d, e])"
  by (auto simp: numeral_eq_Suc length_Suc_conv)

lemma length_eq_6: "length xs = 6 \<longleftrightarrow> (\<exists>a b c d e f. xs = [a, b, c, d, e, f])"
  by (auto simp: numeral_eq_Suc length_Suc_conv)

lemma length_eq_7: "length xs = 7 \<longleftrightarrow> (\<exists>a b c d e f g. xs = [a, b, c, d, e, f, g])"
  by (auto simp: numeral_eq_Suc length_Suc_conv)

lemma length_eq_8: "length xs = 8 \<longleftrightarrow> (\<exists>a b c d e f g h. xs = [a, b, c, d, e, f, g, h])"
  by (auto simp: numeral_eq_Suc length_Suc_conv)

lemmas lists_of_length = length_eq_1 length_eq_2 length_eq_3 length_eq_4 length_eq_5 length_eq_6
  length_eq_7 length_eq_8

section \<open>Loops\<close>

primrec foldM :: "('a \<Rightarrow> 's \<Rightarrow> 's option) \<Rightarrow> 'a list \<Rightarrow> 's \<Rightarrow> 's option" where
  "foldM f [] s = Some s"
| "foldM f (x # xs) s = f x s \<bind> foldM f xs"

lemma foldM_Nil_fun [simp]: "foldM f [] = Some"
  by (rule ext) simp

lemma foldM_single [simp]: "foldM f [x] = f x"
  by (rule ext) simp

lemma foldM_skip: "(\<And>x. x \<in> set xs \<Longrightarrow> f x s = Some s) \<Longrightarrow> foldM f xs s = Some s"
  by (induction xs) auto

lemma foldM_append: "foldM f (xs @ ys) s = foldM f xs s \<bind> foldM f ys"
  by (induction xs arbitrary: s) (auto split: bind_splits)

lemma foldM_Some:
  assumes "\<And>x s. x \<in> set xs \<Longrightarrow> f x s = Some (g x s)"
  shows "foldM f xs s = Some (fold g xs s)"
  using assms by (induction xs arbitrary: s) auto

lemma foldM_inv:
  assumes "\<And>x s. x \<in> set xs \<Longrightarrow> P s \<Longrightarrow> f x s = Some (g x s) \<and> P (g x s)"
    and "P s"
  shows "foldM f xs s = Some (fold g xs s) \<and> P (fold g xs s)"
  using assms by (induction xs arbitrary: s) auto

lemma foldM_cong: "(\<And>x s. x \<in> set xs \<Longrightarrow> f x s = g x s) \<Longrightarrow> foldM f xs s = foldM g xs s"
proof (induction xs arbitrary: s)
  case Nil
  then show ?case by simp
next
  case (Cons x xs)
  then have "foldM f xs = foldM g xs" by (intro ext) simp
  with Cons.prems show ?case by simp
qed

text \<open>A loop over a representation \<open>v\<close> that keeps \<open>ok\<close> refines the fold over the abstract values.\<close>

lemma foldM_refines:
  assumes "\<And>x s. x \<in> set xs \<Longrightarrow> ok s \<Longrightarrow> \<exists>s'. f x s = Some s' \<and> ok s' \<and> v s' = g x (v s)"
    and "ok s"
  shows "\<exists>s'. foldM f xs s = Some s' \<and> ok s' \<and> v s' = fold g xs (v s)"
  using assms
proof (induction xs arbitrary: s)
  case Nil
  then show ?case by simp
next
  case (Cons x xs)
  obtain s' where s': "f x s = Some s'" "ok s'" "v s' = g x (v s)" using Cons.prems by force
  have "\<exists>s''. foldM f xs s' = Some s'' \<and> ok s'' \<and> v s'' = fold g xs (v s')"
    using Cons.prems(1) s'(2) by (intro Cons.IH) auto
  with s' show ?case by simp
qed

text \<open>Apply a partial function to every element, in order.\<close>

primrec traverse :: "('a \<Rightarrow> 'b option) \<Rightarrow> 'a list \<Rightarrow> 'b list option" where
  "traverse f [] = Some []"
| "traverse f (x # xs) = do { y \<leftarrow> f x; ys \<leftarrow> traverse f xs; Some (y # ys) }"

lemma traverse_Some: "(\<And>x. x \<in> set xs \<Longrightarrow> f x = Some (g x)) \<Longrightarrow> traverse f xs = Some (map g xs)"
  by (induction xs) simp_all

lemma traverse_zip:
  assumes "list_all2 P xs ys" "\<And>x y. x \<in> set xs \<Longrightarrow> P x y \<Longrightarrow> \<exists>z. f x y = Some z \<and> Q x z"
  shows "\<exists>zs. traverse (\<lambda>(x, y). f x y) (zip xs ys) = Some zs \<and> list_all2 Q xs zs"
  using assms
proof (induction xs ys rule: list_all2_induct)
  case (Cons x xs y ys)
  moreover obtain z where "f x y = Some z" "Q x z" using Cons.prems Cons.hyps by auto
  ultimately show ?case by auto
qed simp

lemma traverse_list_all2:
  assumes "list_all2 P xs ys" "\<And>x y. P x y \<Longrightarrow> \<exists>z. f y = Some z \<and> Q x z"
  shows "\<exists>zs. traverse f ys = Some zs \<and> list_all2 Q xs zs"
  using assms
proof (induction xs ys rule: list_all2_induct)
  case (Cons x xs y ys)
  moreover obtain z where "f y = Some z" "Q x z" using Cons.prems Cons.hyps by auto
  ultimately show ?case by auto
qed simp

text \<open>A loop whose state is related to a value that evolves beside it.\<close>

lemma foldM_tracked:
  assumes "\<And>x w s. x \<in> set xs \<Longrightarrow> R w s \<Longrightarrow> \<exists>s'. F x s = Some s' \<and> R (G x w) s'" and "R w s"
  shows "\<exists>s'. foldM F xs s = Some s' \<and> R (fold G xs w) s'"
  using assms
proof (induction xs arbitrary: w s)
  case (Cons x xs)
  obtain s' where s': "F x s = Some s'" "R (G x w) s'"
    using Cons.prems(1) [of x w s] Cons.prems(2) by auto
  show ?case using Cons.IH [of "G x w" s'] Cons.prems s' by auto
qed simp

lemma fold_pointwise: "fold (\<lambda>x w d. g x d (w d)) xs w d = fold (\<lambda>x. g x d) xs (w d)"
  by (induction xs arbitrary: w) simp_all

text \<open>
  \<open>scan_while len width stride body off s\<close> is
  \<open>while off + width <= len { body; off += stride }\<close>.  The strides of the program are positive
  constants; the guard on the stride only makes the definition total.
\<close>

function scan_while ::
  "nat \<Rightarrow> nat \<Rightarrow> nat \<Rightarrow> (nat \<Rightarrow> 's \<Rightarrow> 's option) \<Rightarrow> nat \<Rightarrow> 's \<Rightarrow> (nat \<times> 's) option" where
  "scan_while len width stride body off s =
     (if off + width \<le> len \<and> 0 < stride
      then body off s \<bind> scan_while len width stride body (off + stride)
      else Some (off, s))"
  by pat_completeness auto
termination
  by (relation "measure (\<lambda>(len, width, stride, body, off, s). Suc len - off)") auto

declare scan_while.simps [simp del]

lemma scan_while_done: "len < off + width \<Longrightarrow> scan_while len width stride body off s = Some (off, s)"
  by (simp add: scan_while.simps)

lemma scan_while_step:
  "off + width \<le> len \<Longrightarrow> 0 < stride \<Longrightarrow>
   scan_while len width stride body off s =
     body off s \<bind> scan_while len width stride body (off + stride)"
  by (simp add: scan_while.simps)

text \<open>Total correctness of a scanning loop, by an invariant of the offset and the state.\<close>

lemma scan_while_total:
  assumes "0 < stride" and "I off s"
    and step: "\<And>off s. I off s \<Longrightarrow> off + width \<le> len \<Longrightarrow>
      \<exists>s'. body off s = Some s' \<and> I (off + stride) s'"
  shows "\<exists>off' s'. scan_while len width stride body off s = Some (off', s')
           \<and> I off' s' \<and> len < off' + width"
  using assms(2)
proof (induction "Suc len - off" arbitrary: off s rule: less_induct)
  case less
  show ?case
  proof (cases "off + width \<le> len")
    case True
    then obtain s' where s': "body off s = Some s'" "I (off + stride) s'"
      using step less.prems by blast
    have "Suc len - (off + stride) < Suc len - off"
      using True \<open>0 < stride\<close> by arith
    then show ?thesis
      using less.hyps [OF _ s'(2)] s'(1) True \<open>0 < stride\<close>
      by (simp add: scan_while_step)
  next
    case False
    then show ?thesis using less.prems by (simp add: scan_while_done)
  qed
qed

section \<open>Chunks of a list\<close>

text \<open>\<open>chunks n xs\<close> are the complete \<open>n\<close>-element groups of \<open>xs\<close>, a shorter rest dropped.\<close>

function chunks :: "nat \<Rightarrow> 'a list \<Rightarrow> 'a list list" where
  "chunks n xs =
     (if n = 0 \<or> length xs < n then [] else take n xs # chunks n (drop n xs))"
  by pat_completeness auto
termination
  by (relation "measure (\<lambda>(n, xs). length xs)") auto

declare chunks.simps [simp del]

lemma chunks_short [simp]: "length xs < n \<Longrightarrow> chunks n xs = []"
  by (simp add: chunks.simps)

lemma chunks_Nil [simp]: "chunks n [] = []"
  by (auto simp: chunks.simps)

lemma chunks_append1: "0 < n \<Longrightarrow> length xs = n \<Longrightarrow> chunks n (xs @ ys) = xs # chunks n ys"
  by (simp add: chunks.simps)

lemma chunks_single [simp]: "0 < n \<Longrightarrow> length xs = n \<Longrightarrow> chunks n xs = [xs]"
  using chunks_append1 [of n xs "[]"] by simp

lemma chunks_append:
  assumes "n dvd length xs"
  shows "chunks n (xs @ ys) = chunks n xs @ chunks n ys"
proof (cases "n = 0")
  case True
  then show ?thesis by (simp add: chunks.simps)
next
  case False
  show ?thesis using assms
  proof (induction n xs rule: chunks.induct)
    case (1 n xs)
    show ?case
    proof (cases "xs = [] \<or> n = 0")
      case True
      then show ?thesis by (auto simp: chunks.simps [of 0])
    next
      case False
      with "1.prems" have len: "n \<le> length xs" by (simp add: dvd_imp_le)
      have "n dvd length (drop n xs)"
        using "1.prems" len by (simp add: dvd_diff_nat)
      then have "chunks n (drop n xs @ ys) = chunks n (drop n xs) @ chunks n ys"
        using "1.IH" False len by simp
      then show ?thesis
        using False len
        by (simp add: chunks.simps [of n "xs @ ys"] chunks.simps [of n xs])
    qed
  qed
qed

lemma length_chunks: "0 < n \<Longrightarrow> length (chunks n xs) = length xs div n"
proof (induction n xs rule: chunks.induct)
  case (1 n xs)
  show ?case
  proof (cases "length xs < n")
    case True
    then show ?thesis by simp
  next
    case False
    with 1 have "length (chunks n (drop n xs)) = (length xs - n) div n" by simp
    with False 1 show ?thesis
      by (simp add: chunks.simps [of n xs] le_div_geq)
  qed
qed

lemma chunks_lengths: "c \<in> set (chunks n xs) \<Longrightarrow> length c = n"
proof (induction n xs rule: chunks.induct)
  case (1 n xs)
  then show ?case
    by (cases "n = 0 \<or> length xs < n") (auto simp: chunks.simps [of n xs])
qed

lemma concat_chunks: "n dvd length xs \<Longrightarrow> 0 < n \<Longrightarrow> concat (chunks n xs) = xs"
proof (induction n xs rule: chunks.induct)
  case (1 n xs)
  show ?case
  proof (cases "xs = []")
    case True
    then show ?thesis by simp
  next
    case False
    with 1 have "n \<le> length xs" by (simp add: dvd_imp_le)
    with 1 have "concat (chunks n (drop n xs)) = drop n xs"
      by (simp add: dvd_diff_nat)
    with \<open>n \<le> length xs\<close> \<open>0 < n\<close> show ?thesis
      by (simp add: chunks.simps [of n xs])
  qed
qed

lemma nth_chunks: "0 < n \<Longrightarrow> j < length xs div n \<Longrightarrow> chunks n xs ! j = take n (drop (j * n) xs)"
proof (induction j arbitrary: xs)
  case 0
  then show ?case by (simp add: chunks.simps [of n xs] div_greater_zero_iff)
next
  case (Suc j)
  then have len: "\<not> length xs < n" by (auto simp: div_less)
  with Suc.prems have "j < length (drop n xs) div n" by (simp add: le_div_geq)
  with Suc.IH [of "drop n xs"] Suc.prems(1) len show ?case
    by (simp add: chunks.simps [of n xs] add.commute)
qed

lemma chunks_concat:
  assumes "0 < n" and "\<And>x. x \<in> set xss \<Longrightarrow> length x = n"
  shows "chunks n (concat xss) = xss"
  using assms(2) by (induction xss) (auto simp: chunks_append1 assms(1))

lemma chunks_take_mult:
  assumes "m dvd off" and "off \<le> length xs"
  shows "chunks m (take off xs) @ chunks m (drop off xs) = chunks m xs"
  using chunks_append [of m "take off xs" "drop off xs"] assms by (simp add: min_absorb2)

lemma take_add_slice: "take (off + n) xs = take off xs @ take n (drop off xs)"
  by (simp add: take_add)

lemma chunks_take_add:
  assumes "m dvd n" and "n \<le> length xs"
  shows "chunks m (take (n + k) xs) = chunks m (take n xs) @ chunks m (take k (drop n xs))"
  using chunks_append [of m "take n xs" "take k (drop n xs)"] assms
  by (simp add: take_add min_absorb2)

lemma dvd_fits:
  assumes "b dvd off" and "b dvd len" and "off < len"
  shows "off + b \<le> (len :: nat)"
  using assms by (metis dvd_diff_nat dvd_imp_le le_add_diff_inverse less_imp_le_nat
      nat_add_left_cancel_le zero_less_diff)

text \<open>Stores that fill an array window by window.\<close>

lemma store_fill:
  "length ys = n \<Longrightarrow> n \<le> length zs \<Longrightarrow> m = length xs \<Longrightarrow>
   store (xs @ zs) m ys = Some (xs @ ys @ drop n zs)"
  by (simp add: store_def)

lemma store_fill0:
  "length ys = n \<Longrightarrow> n \<le> length zs \<Longrightarrow> store zs 0 ys = Some (ys @ drop n zs)"
  by (simp add: store_def)

lemma store_store:
  assumes "length ys = k"
  shows "store xs off ys \<bind> (\<lambda>zs. store zs (off + k) ws) = store xs off (ys @ ws)"
  using assms by (auto simp: store_def add.commute add.left_commute split: bind_splits)

text \<open>The elements after the complete groups.\<close>

definition leftover :: "nat \<Rightarrow> 'a list \<Rightarrow> 'a list" where
  "leftover n xs = drop (length xs div n * n) xs"

lemma leftover_Nil [simp]: "leftover n [] = []"
  by (simp add: leftover_def)

lemma leftover_short [simp]: "length xs < n \<Longrightarrow> leftover n xs = xs"
  by (simp add: leftover_def)

lemma leftover_append: "n dvd length xs \<Longrightarrow> leftover n (xs @ ys) = leftover n ys"
  by (auto simp: leftover_def elim!: dvdE) (cases "n = 0"; simp add: add_mult_distrib)

lemma length_leftover: "0 < n \<Longrightarrow> length (leftover n xs) < n"
  by (simp add: leftover_def minus_div_mult_eq_mod)

lemma split_leftover:
  "take (length xs div n * n) xs @ leftover n xs = xs" "n dvd length (take (length xs div n * n) xs)"
  by (simp_all add: leftover_def min_absorb2)

lemma leftover_leftover_append: "leftover n (leftover n xs @ ys) = leftover n (xs @ ys)"
  using leftover_append [OF split_leftover(2) [of n xs], of "leftover n xs @ ys"]
  by (simp add: split_leftover(1) flip: append_assoc)

lemma chunks_body: "0 < n \<Longrightarrow> chunks n (take (length xs div n * n) xs) = chunks n xs"
  using chunks_append [OF split_leftover(2) [of n xs], of "leftover n xs"]
  by (simp add: split_leftover(1) length_leftover)

lemma chunks_append_leftover:
  assumes "0 < n"
  shows "chunks n (xs @ ys) = chunks n xs @ chunks n (leftover n xs @ ys)"
  using chunks_append [OF split_leftover(2) [of n xs], of "leftover n xs @ ys"]
  by (simp add: split_leftover(1) chunks_body [OF assms] flip: append_assoc)

text \<open>
  The rule that all block loops use: a loop that advances by a multiple of the block size and
  whose body folds a step function over the blocks it passes, folds it over all of them.  The
  state may hold scratch storage beside the folded value \<open>v s\<close>; \<open>J\<close> is what the body needs
  to know of it.
\<close>

lemma scan_while_blocks:
  assumes "0 < stride" and "b dvd stride" and "b dvd off" and "off \<le> length xs" and "J s"
    and body: "\<And>off s. b dvd off \<Longrightarrow> off + width \<le> length xs \<Longrightarrow> J s \<Longrightarrow>
      off + stride \<le> length xs \<and>
      (\<exists>s'. body off s = Some s' \<and> J s' \<and>
        v s' = fold g (chunks b (take stride (drop off xs))) (v s))"
  obtains off' s' where
    "scan_while (length xs) width stride body off s = Some (off', s')" "J s'"
    "b dvd off'" "off \<le> off'" "off' \<le> length xs" "length xs < off' + width"
    "fold g (chunks b (drop off' xs)) (v s') = fold g (chunks b (drop off xs)) (v s)"
proof -
  let ?I = "\<lambda>o' s'. J s' \<and> b dvd o' \<and> off \<le> o' \<and> o' \<le> length xs \<and>
     fold g (chunks b (drop o' xs)) (v s') = fold g (chunks b (drop off xs)) (v s)"
  have "\<exists>off' s'. scan_while (length xs) width stride body off s = Some (off', s')
           \<and> ?I off' s' \<and> length xs < off' + width"
  proof (rule scan_while_total)
    show "0 < stride" by fact
    show "?I off s" using assms by simp
  next
    fix o' s' assume I: "?I o' s'" and w: "o' + width \<le> length xs"
    then obtain s'' where fit: "o' + stride \<le> length xs"
      and st: "body o' s' = Some s''" "J s''"
        "v s'' = fold g (chunks b (take stride (drop o' xs))) (v s')"
      using body by blast
    have "chunks b (drop o' xs) =
        chunks b (take stride (drop o' xs)) @ chunks b (drop (o' + stride) xs)"
      using chunks_take_mult [of b stride "drop o' xs"] assms(2) fit by (simp add: add.commute)
    then show "\<exists>s''. body o' s' = Some s'' \<and> ?I (o' + stride) s''"
      using I st fit assms(2) by auto
  qed
  then show thesis using that by blast
qed

text \<open>
  The vector kernels run a wide loop and then a narrow loop; together they leave less than the
  narrow width.
\<close>

lemma scan_while_two:
  assumes "0 < w" "b dvd w" "0 < w'" "b dvd w'" "J s"
    and body: "\<And>off s. off + w \<le> length xs \<Longrightarrow> J s \<Longrightarrow>
      \<exists>s'. body off s = Some s' \<and> J s' \<and> v s' = fold g (chunks b (take w (drop off xs))) (v s)"
    and body': "\<And>off s. off + w' \<le> length xs \<Longrightarrow> J s \<Longrightarrow>
      \<exists>s'. body' off s = Some s' \<and> J s' \<and> v s' = fold g (chunks b (take w' (drop off xs))) (v s)"
  obtains o1 s1 o2 s2 where
    "scan_while (length xs) w w body 0 s = Some (o1, s1)"
    "scan_while (length xs) w' w' body' o1 s1 = Some (o2, s2)" "J s2"
    "b dvd o2" "o2 \<le> length xs" "length xs < o2 + w'"
    "fold g (chunks b (drop o2 xs)) (v s2) = fold g (chunks b xs) (v s)"
proof -
  obtain o1 s1 where 1: "scan_while (length xs) w w body 0 s = Some (o1, s1)" "J s1"
    "b dvd o1" "o1 \<le> length xs"
    "fold g (chunks b (drop o1 xs)) (v s1) = fold g (chunks b (drop 0 xs)) (v s)"
    by (rule scan_while_blocks [where xs = xs and width = w and stride = w and body = body
          and off = 0 and s = s and J = J and v = v and g = g and b = b])
      (use assms in \<open>auto intro: body\<close>)
  obtain o2 s2 where 2: "scan_while (length xs) w' w' body' o1 s1 = Some (o2, s2)" "J s2"
    "b dvd o2" "o2 \<le> length xs" "length xs < o2 + w'"
    "fold g (chunks b (drop o2 xs)) (v s2) = fold g (chunks b (drop o1 xs)) (v s1)"
    by (rule scan_while_blocks [where xs = xs and width = w' and stride = w' and body = body'
          and off = o1 and s = s1 and J = J and v = v and g = g and b = b])
      (use assms 1 in \<open>auto intro: body'\<close>)
  show thesis by (rule that [OF 1(1) 2(1)]) (use 1 2 in simp_all)
qed

text \<open>The same when the state is a value and a scratch array of fixed length.\<close>

lemma scan_while_scratch:
  assumes "0 < w" "b dvd w" "0 < w'" "b dvd w'" "length m = k"
    and body: "\<And>off h m. off + w \<le> length xs \<Longrightarrow> length m = k \<Longrightarrow>
      \<exists>m'. length m' = k \<and> body off (h, m) = Some (fold g (chunks b (take w (drop off xs))) h, m')"
    and body': "\<And>off h m. off + w' \<le> length xs \<Longrightarrow> length m = k \<Longrightarrow>
      \<exists>m'. length m' = k \<and> body' off (h, m) = Some (fold g (chunks b (take w' (drop off xs))) h, m')"
  obtains o1 s1 o2 h2 m2 where
    "scan_while (length xs) w w body 0 (h, m) = Some (o1, s1)"
    "scan_while (length xs) w' w' body' o1 s1 = Some (o2, h2, m2)"
    "b dvd o2" "o2 \<le> length xs" "length xs < o2 + w'"
    "fold g (chunks b (drop o2 xs)) h2 = fold g (chunks b xs) h"
proof -
  have 1: "\<exists>s'. body off s = Some s' \<and> length (snd s') = k
      \<and> fst s' = fold g (chunks b (take w (drop off xs))) (fst s)"
    if "off + w \<le> length xs" "length (snd s) = k" for off s
    using body [OF that, of "fst s"] by (metis fst_conv prod.collapse snd_conv)
  have 2: "\<exists>s'. body' off s = Some s' \<and> length (snd s') = k
      \<and> fst s' = fold g (chunks b (take w' (drop off xs))) (fst s)"
    if "off + w' \<le> length xs" "length (snd s) = k" for off s
    using body' [OF that, of "fst s"] by (metis fst_conv prod.collapse snd_conv)
  obtain o1 s1 o2 s2 where l: "scan_while (length xs) w w body 0 (h, m) = Some (o1, s1)"
    "scan_while (length xs) w' w' body' o1 s1 = Some (o2, s2)"
    "b dvd o2" "o2 \<le> length xs" "length xs < o2 + w'"
    "fold g (chunks b (drop o2 xs)) (fst s2) = fold g (chunks b xs) h"
    by (rule scan_while_two [where J = "\<lambda>s. length (snd s) = k" and s = "(h, m)" and v = fst,
          OF assms(1-4) _ 1 2]) (use assms(5) in auto)
  show thesis by (rule that [of o1 s1 o2 "fst s2" "snd s2"]) (use l in simp_all)
qed

section \<open>Loops over windows\<close>

text \<open>Chunks of chunks are chunks.\<close>

lemma chunks_chunks:
  assumes "m dvd n" "0 < n" "n dvd length xs"
  shows "concat (map (chunks m) (chunks n xs)) = chunks m xs"
  using assms
proof (induction n xs rule: chunks.induct)
  case (1 n xs)
  show ?case
  proof (cases "length xs < n")
    case True
    with "1.prems" show ?thesis by (auto dest: dvd_imp_le)
  next
    case False
    with 1 have "concat (map (chunks m) (chunks n (drop n xs))) = chunks m (drop n xs)"
      by (simp add: dvd_diff_nat)
    with False "1.prems" show ?thesis
      by (simp add: chunks.simps [of n xs] chunks_take_mult)
  qed
qed

lemma concat_map_concat: "concat (map f (concat xss)) = concat (map (\<lambda>xs. concat (map f xs)) xss)"
  by (induction xss) simp_all

lemma length_concat_const:
  "(\<And>x. x \<in> set xs \<Longrightarrow> length (f x) = k) \<Longrightarrow> length (concat (map f xs)) = length xs * k"
  by (induction xs) simp_all

lemma concat_windows:
  assumes "m dvd n" "0 < n" "n dvd length v"
    and "\<And>b. length b = n \<Longrightarrow> f b = concat (map p (chunks m b))"
  shows "concat (map f (chunks n v)) = concat (map p (chunks m v))"
proof -
  have "concat (map f (chunks n v)) = concat (map (\<lambda>b. concat (map p (chunks m b))) (chunks n v))"
    by (intro arg_cong [where f = concat] map_cong refl) (auto dest: chunks_lengths intro: assms(4))
  also have "\<dots> = concat (map p (concat (map (chunks m) (chunks n v))))"
    by (simp add: concat_map_concat comp_def)
  finally show ?thesis by (simp add: chunks_chunks assms)
qed

lemma chunks_take_Suc:
  assumes "0 < w" "n * w + w \<le> length ys"
  shows "chunks w (take (n * w + w) ys) = chunks w (take (n * w) ys) @ [take w (drop (n * w) ys)]"
  using chunks_take_add [of w "n * w" ys w] assms by simp

text \<open>A \<open>for i in 0..n\<close> loop that loads window \<open>i\<close> and stores its image as window \<open>i\<close>.\<close>

lemma foldM_windows:
  assumes "0 < w" "\<And>v. length v = w \<Longrightarrow> length (f v) = k"
    and "off + n * w \<le> length xs" "n * k \<le> length m"
    and body: "\<And>i m. i < n \<Longrightarrow> body i m = do { v \<leftarrow> slice xs (off + i * w) w; store m (i * k) (f v) }"
  shows "foldM body [0..<n] m
    = Some (concat (map f (chunks w (take (n * w) (drop off xs)))) @ drop (n * k) m)"
  using assms(3,4) body
proof (induction n)
  case 0
  then show ?case by simp
next
  case (Suc n)
  let ?c = "\<lambda>j. concat (map f (chunks w (take (j * w) (drop off xs))))"
  have l: "length (chunks w (take (n * w) (drop off xs))) = n"
    using Suc.prems(1) assms(1) by (simp add: length_chunks)
  have "length (?c n) = length (chunks w (take (n * w) (drop off xs))) * k"
    by (rule length_concat_const) (auto dest: chunks_lengths intro: assms(2))
  then have len: "length (?c n) = n * k" using l by simp
  have "foldM body [0..<n] m = Some (?c n @ drop (n * k) m)" using Suc by simp
  moreover have "slice xs (off + n * w) w = Some (take w (drop (n * w) (drop off xs)))"
    using Suc.prems(1) by (simp add: slice_simps add.commute)
  moreover have "?c (Suc n) = ?c n @ f (take w (drop (n * w) (drop off xs)))"
    using chunks_take_Suc [of w n "drop off xs"] assms(1) Suc.prems(1)
    by (simp add: add.commute)
  moreover have "length (f (take w (drop (n * w) (drop off xs)))) = k"
    using Suc.prems(1) by (intro assms(2)) simp
  ultimately show ?case
    using Suc.prems len by (simp add: foldM_append store_fill add.commute)
qed

text \<open>A \<open>for i in 0..n\<close> loop that rewrites window \<open>i\<close> of an array in place.\<close>

lemma foldM_update:
  assumes "\<And>i o'. i < n \<Longrightarrow> length o' = k \<Longrightarrow> length (f i o') = k" and "n * k \<le> length m"
    and body: "\<And>i m. i < n \<Longrightarrow> body i m = do { o' \<leftarrow> slice m (i * k) k; store m (i * k) (f i o') }"
  shows "foldM body [0..<n] m
    = Some (concat (map (\<lambda>i. f i (take k (drop (i * k) m))) [0..<n]) @ drop (n * k) m)"
  using assms
proof (induction n)
  case 0
  then show ?case by simp
next
  case (Suc n)
  let ?c = "concat (map (\<lambda>i. f i (take k (drop (i * k) m))) [0..<n])"
  have "length ?c = length [0..<n] * k"
  proof (rule length_concat_const)
    fix i assume "i \<in> set [0..<n]"
    then have "Suc i * k \<le> Suc n * k" by (intro mult_le_mono) simp_all
    from order_trans [OF this Suc.prems(2)] have "i * k + k \<le> length m" by simp
    then have "length (take k (drop (i * k) m)) = k" by simp
    then show "length (f i (take k (drop (i * k) m))) = k"
      using Suc.prems(1) \<open>i \<in> set [0..<n]\<close> by simp
  qed
  then have len: "length ?c = n * k" by simp
  have "foldM body [0..<n] m = Some (?c @ drop (n * k) m)" using Suc by simp
  moreover have "slice (?c @ drop (n * k) m) (n * k) k = Some (take k (drop (n * k) m))"
    using len Suc.prems(2) by (simp add: slice_simps)
  moreover have "length (f n (take k (drop (n * k) m))) = k"
    using Suc.prems(1,2) by simp
  ultimately show ?case
    using Suc.prems(2,3) len by (simp add: foldM_append store_fill add.commute)
qed

text \<open>A \<open>for i in 0..n\<close> loop over the windows of a slice.\<close>

lemma foldM_slices:
  assumes "0 < w" "off + n * w \<le> length xs"
    and body: "\<And>i s. i < n \<Longrightarrow> body i s = do { v \<leftarrow> slice xs (off + i * w) w; act v s }"
  shows "foldM body [0..<n] s = foldM act (chunks w (take (n * w) (drop off xs))) s"
  using assms(2) body
proof (induction n)
  case 0
  then show ?case by simp
next
  case (Suc n)
  have "slice xs (off + n * w) w = Some (take w (drop (n * w) (drop off xs)))"
    using Suc.prems(1) by (simp add: slice_simps add.commute)
  then have "foldM body [n] s' = foldM act [take w (drop (n * w) (drop off xs))] s'" for s'
    using Suc.prems(2) [of n s'] by (simp del: foldM.simps)
  then have "foldM body [n] = foldM act [take w (drop (n * w) (drop off xs))]" by (rule ext)
  moreover have "foldM body [0..<n] s = foldM act (chunks w (take (n * w) (drop off xs))) s"
    using Suc by simp
  moreover have "chunks w (take (Suc n * w) (drop off xs))
      = chunks w (take (n * w) (drop off xs)) @ [take w (drop (n * w) (drop off xs))]"
    using chunks_take_Suc [of w n "drop off xs"] assms(1) Suc.prems(1) by (simp add: add.commute)
  moreover have "[0..<Suc n] = [0..<n] @ [n]" by simp
  ultimately show ?case by (simp only: foldM_append)
qed

end
