(* ===== verification/Byte_Words.thy ===== *)
theory Byte_Words
  imports Prelude
begin

text \<open>
  Little-endian conversions between bytes and words, and the view of a vector register or of a
  byte buffer as lanes of words.  \<open>le_word\<close> is Rust's \<open>uN::from_le_bytes\<close>, \<open>to_le\<close> is
  \<open>uN::to_le_bytes\<close>; \<open>lanes\<close> reads consecutive words, \<open>unlanes\<close> lays words out in memory.
\<close>

definition le_word :: "bytes \<Rightarrow> 'a::len word" where
  "le_word bs = foldr (\<lambda>b acc. ucast b OR push_bit 8 acc) bs 0"

definition to_le :: "'a::len word \<Rightarrow> bytes" where
  "to_le w = map (\<lambda>i. ucast (drop_bit (8 * i) w)) [0..<LENGTH('a) div 8]"

definition lanes :: "bytes \<Rightarrow> 'a::len word list" where
  "lanes bs = map le_word (chunks (LENGTH('a) div 8) bs)"

definition unlanes :: "'a::len word list \<Rightarrow> bytes" where
  "unlanes ws = concat (map to_le ws)"

section \<open>Words\<close>

lemma le_word_Nil [simp]: "le_word [] = 0"
  by (simp add: le_word_def)

lemma le_word_Cons: "le_word (b # bs) = ucast b OR push_bit 8 (le_word bs)"
  by (simp add: le_word_def)

text \<open>The bytes do not overlap, so exclusive or assembles the same word.\<close>

lemma le_word_Cons_xor: "le_word (b # bs) = (ucast b XOR push_bit 8 (le_word bs) :: 'a::len word)"
  unfolding le_word_Cons by (rule bit_word_eqI) (auto simp: bit_simps dest: bit_imp_le_length)

lemma bit_le_word:
  "bit (le_word bs :: 'a::len word) n \<longleftrightarrow>
     n < LENGTH('a) \<and> n div 8 < length bs \<and> bit (bs ! (n div 8)) (n mod 8)"
proof (induction bs arbitrary: n)
  case Nil
  then show ?case by simp
next
  case (Cons b bs)
  show ?case
  proof (cases "n < 8")
    case True
    then show ?thesis
      by (auto simp: le_word_Cons bit_simps)
  next
    case False
    then have "n div 8 = Suc ((n - 8) div 8)" "n mod 8 = (n - 8) mod 8"
      by (simp_all add: le_div_geq le_mod_geq)
    with False show ?thesis
      by (auto simp: le_word_Cons bit_simps Cons.IH not_less dest: bit_imp_le_length)
  qed
qed

lemma length_to_le [simp]: "length (to_le (w :: 'a::len word)) = LENGTH('a) div 8"
  by (simp add: to_le_def)

lemma nth_to_le:
  "i < LENGTH('a) div 8 \<Longrightarrow> to_le (w :: 'a::len word) ! i = ucast (drop_bit (8 * i) w)"
  by (simp add: to_le_def)

lemma bit_nth_to_le:
  assumes "i < LENGTH('a) div 8"
  shows "bit (to_le (w :: 'a::len word) ! i) n \<longleftrightarrow> n < 8 \<and> bit w (8 * i + n)"
  using assms by (auto simp: nth_to_le bit_simps)

lemma le_word_to_le:
  assumes "8 dvd LENGTH('a)"
  shows "le_word (to_le w) = (w :: 'a::len word)"
proof (rule bit_word_eqI)
  fix n assume n: "n < LENGTH('a)"
  then have "n div 8 < LENGTH('a) div 8"
    using assms by (metis div_less_iff_less_mult dvd_div_mult_self zero_less_numeral)
  with n show "bit (le_word (to_le w) :: 'a word) n = bit w n"
    by (simp add: bit_le_word bit_nth_to_le)
qed

lemma to_le_le_word:
  assumes "length bs = LENGTH('a) div 8"
  shows "to_le (le_word bs :: 'a::len word) = bs"
proof (rule nth_equalityI)
  show "length (to_le (le_word bs :: 'a word)) = length bs" using assms by simp
next
  fix i assume i: "i < length (to_le (le_word bs :: 'a word))"
  show "to_le (le_word bs :: 'a word) ! i = bs ! i"
  proof (rule bit_word_eqI)
    fix n assume n: "n < LENGTH(8)"
    have "8 * i + n < LENGTH('a)" using i n by auto
    with i n assms show "bit (to_le (le_word bs :: 'a word) ! i) n = bit (bs ! i) n"
      by (simp add: bit_nth_to_le bit_le_word)
  qed
qed

lemma le_word_inject:
  assumes "length bs = LENGTH('a) div 8" "length cs = LENGTH('a) div 8"
    and "(le_word bs :: 'a::len word) = le_word cs"
  shows "bs = cs"
  using assms to_le_le_word by metis

text \<open>Widening casts of words assembled from bytes.\<close>

lemma ucast_or: "ucast (x OR y) = (ucast x OR ucast y :: 'b::len word)" for x y :: "'a::len word"
  by (rule bit_word_eqI) (auto simp: bit_simps)

lemma ucast_byte [simp]:
  "8 \<le> LENGTH('b) \<Longrightarrow> ucast (ucast (b :: u8) :: 'b::len word) = (ucast b :: 'c::len word)"
  by (rule bit_word_eqI) (auto simp: bit_simps dest: bit_imp_le_length)

lemma ucast_push_byte [simp]:
  "n + 8 \<le> LENGTH('b) \<Longrightarrow>
   ucast (push_bit n (ucast (b :: u8)) :: 'b::len word) = (push_bit n (ucast b) :: 'c::len word)"
  by (rule bit_word_eqI) (auto simp: bit_simps dest: bit_imp_le_length)

lemmas byte_casts = ucast_or ucast_byte ucast_push_byte

lemma ucast_le_word:
  "8 * length bs \<le> LENGTH('b) \<Longrightarrow>
   ucast (le_word bs :: 'b::len word) = (le_word bs :: 'a::len word)"
  by (rule bit_word_eqI) (auto simp: bit_simps bit_le_word)

lemma le_word_append:
  "le_word (xs @ ys) = (le_word xs OR push_bit (8 * length xs) (le_word ys) :: 'a::len word)"
  by (induction xs) (simp_all add: le_word_Cons or.assoc push_bit_or add.commute)

text \<open>Bitwise operations act byte by byte.\<close>

lemma le_word_xor:
  assumes "length bs = length cs"
  shows "le_word (map2 (XOR) bs cs) = (le_word bs XOR le_word cs :: 'a::len word)"
  by (rule bit_word_eqI) (use assms in \<open>auto simp: bit_le_word bit_simps\<close>)

lemma le_word_or:
  assumes "length bs = length cs"
  shows "le_word (map2 (OR) bs cs) = (le_word bs OR le_word cs :: 'a::len word)"
  by (rule bit_word_eqI) (use assms in \<open>auto simp: bit_le_word bit_simps\<close>)

lemma le_word_and:
  assumes "length bs = length cs"
  shows "le_word (map2 (AND) bs cs) = (le_word bs AND le_word cs :: 'a::len word)"
  by (rule bit_word_eqI) (use assms in \<open>auto simp: bit_le_word bit_simps\<close>)

section \<open>Lanes\<close>

lemma lane_width_pos: "8 dvd LENGTH('a::len) \<Longrightarrow> 0 < LENGTH('a) div 8"
  by (auto simp: div_greater_zero_iff dvd_imp_le)

lemma length_unlanes: "length (unlanes (ws :: 'a::len word list)) = LENGTH('a) div 8 * length ws"
  by (induction ws) (simp_all add: unlanes_def)

lemma length_lanes:
  "0 < LENGTH('a) div 8 \<Longrightarrow> length (lanes bs :: 'a::len word list) = length bs div (LENGTH('a) div 8)"
  by (simp add: lanes_def length_chunks)

lemma nth_lanes:
  "0 < LENGTH('a) div 8 \<Longrightarrow> j < length bs div (LENGTH('a) div 8) \<Longrightarrow>
   (lanes bs ! j :: 'a::len word) = le_word (take (LENGTH('a) div 8) (drop (j * (LENGTH('a) div 8)) bs))"
  by (simp add: lanes_def length_chunks nth_chunks)

lemma le_word_zeros [simp]: "le_word (replicate n 0) = 0"
  by (induction n) (simp_all add: le_word_Cons)

text \<open>Or-ing a byte into a zero byte of the memory of a lane.\<close>

lemma lanes_or_byte:
  assumes "i < length bs" "4 dvd length bs" "bs ! i = 0"
  shows "lanes (bs[i := x]) = (lanes bs :: u32 list)
    [i div 4 := lanes bs ! (i div 4) OR push_bit (i mod 4 * 8) (ucast x)]"
proof (rule nth_equalityI)
  show "length (lanes (bs[i := x]) :: u32 list) = length ((lanes bs :: u32 list)
    [i div 4 := lanes bs ! (i div 4) OR push_bit (i mod 4 * 8) (ucast x)])"
    by (simp add: length_lanes)
next
  fix j assume "j < length (lanes (bs[i := x]) :: u32 list)"
  then have j: "j < length bs div 4" by (simp add: length_lanes)
  then have fit: "j * 4 + 4 \<le> length bs" using assms(2) by auto
  have b: "bit (lanes cs ! j :: u32) n \<longleftrightarrow> bit (cs ! (j * 4 + n div 8)) (n mod 8)"
    if "length cs = length bs" "n < 32" for cs n
    using that j fit by (auto simp: nth_lanes bit_le_word)
  show "lanes (bs[i := x]) ! j = (lanes bs :: u32 list)
    [i div 4 := lanes bs ! (i div 4) OR push_bit (i mod 4 * 8) (ucast x)] ! j"
  proof (rule bit_word_eqI)
    fix n assume "n < LENGTH(32)"
    then have n: "n < 32" by simp
    show "bit (lanes (bs[i := x]) ! j :: u32) n = bit ((lanes bs :: u32 list)
      [i div 4 := lanes bs ! (i div 4) OR push_bit (i mod 4 * 8) (ucast x)] ! j) n"
    proof (cases "j * 4 + n div 8 = i")
      case True
      then have "i div 4 = j" "i mod 4 = n div 8" using n by auto
      moreover have "n mod 8 < 32" using n by simp
      moreover have "n - n div 8 * 8 = n mod 8" by (simp add: minus_div_mult_eq_mod)
      ultimately show ?thesis
        using True n j assms(1,3) b [of "bs[i := x]" n] b [of bs n]
        by (simp add: length_lanes bit_simps)
    next
      case False
      then have "\<not> (i div 4 = j \<and> i mod 4 = n div 8)" by (metis div_mult_mod_eq)
      then have "i div 4 = j \<Longrightarrow> \<not> bit (push_bit (i mod 4 * 8) (ucast x :: u32)) n"
        by (auto simp: bit_simps dest!: bit_imp_le_length)
      then show ?thesis
        using False n j b [of "bs[i := x]" n] b [of bs n]
        by (cases "i div 4 = j") (auto simp: length_lanes bit_simps)
    qed
  qed
qed

lemma lanes_unlanes:
  assumes "8 dvd LENGTH('a)"
  shows "lanes (unlanes ws) = (ws :: 'a::len word list)"
proof -
  have "0 < LENGTH('a) div 8" using assms by (simp add: lane_width_pos)
  then have "chunks (LENGTH('a) div 8) (unlanes ws) = map to_le ws"
    unfolding unlanes_def by (intro chunks_concat) auto
  then show ?thesis
    by (simp add: lanes_def le_word_to_le assms comp_def)
qed

lemma unlanes_lanes:
  assumes "8 dvd LENGTH('a)" and "LENGTH('a) div 8 dvd length bs"
  shows "unlanes (lanes bs :: 'a::len word list) = bs"
proof -
  have pos: "0 < LENGTH('a) div 8" using assms by (simp add: lane_width_pos)
  have "map (to_le \<circ> (le_word :: bytes \<Rightarrow> 'a word)) (chunks (LENGTH('a) div 8) bs)
      = chunks (LENGTH('a) div 8) bs"
    by (rule map_idI) (auto dest: chunks_lengths simp: to_le_le_word)
  then have "concat (map to_le (lanes bs :: 'a word list)) = concat (chunks (LENGTH('a) div 8) bs)"
    by (simp add: lanes_def comp_def)
  then show ?thesis
    unfolding unlanes_def using pos assms(2) by (simp add: concat_chunks)
qed

lemma lanes_append:
  "LENGTH('a) div 8 dvd length bs \<Longrightarrow>
   lanes (bs @ cs) = (lanes bs @ lanes cs :: 'a::len word list)"
  by (simp add: lanes_def chunks_append)

lemma unlanes_append: "unlanes (vs @ ws) = unlanes vs @ unlanes ws"
  by (simp add: unlanes_def)

lemma lanes_Nil [simp]: "lanes [] = []"
  by (simp add: lanes_def)

lemma unlanes_Nil [simp]: "unlanes [] = []"
  by (simp add: unlanes_def)

lemma map_chunks_map2:
  assumes "length bs = length cs"
    and "\<And>xs ys. length xs = length ys \<Longrightarrow> h (map2 f xs ys) = g (h xs) (h ys)"
  shows "map h (chunks n (map2 f bs cs)) = map2 g (map h (chunks n bs)) (map h (chunks n cs))"
  using assms(1)
proof (induction n bs arbitrary: cs rule: chunks.induct)
  case (1 n xs)
  show ?case
  proof (cases "n = 0 \<or> length xs < n")
    case True
    with "1.prems" show ?thesis by (auto simp: chunks.simps)
  next
    case False
    have "drop n (map2 f xs cs) = map2 f (drop n xs) (drop n cs)"
      "take n (map2 f xs cs) = map2 f (take n xs) (take n cs)"
      by (simp_all add: drop_map take_map drop_zip take_zip)
    with False 1 show ?thesis
      by (simp add: chunks.simps [of n "map2 f xs cs"] chunks.simps [of n xs]
          chunks.simps [of n cs] assms(2))
  qed
qed

lemma lanes_map2_xor:
  "length bs = length cs \<Longrightarrow>
   (lanes (map2 (XOR) bs cs) :: 'a::len word list) = map2 (XOR) (lanes bs) (lanes cs)"
  unfolding lanes_def by (rule map_chunks_map2) (simp_all add: le_word_xor)

lemma lanes_map2_or:
  "length bs = length cs \<Longrightarrow>
   (lanes (map2 (OR) bs cs) :: 'a::len word list) = map2 (OR) (lanes bs) (lanes cs)"
  unfolding lanes_def by (rule map_chunks_map2) (simp_all add: le_word_or)

lemma lanes_map2_and:
  "length bs = length cs \<Longrightarrow>
   (lanes (map2 (AND) bs cs) :: 'a::len word list) = map2 (AND) (lanes bs) (lanes cs)"
  unfolding lanes_def by (rule map_chunks_map2) (simp_all add: le_word_and)

end
