(* ===== verification/Cpu_Backend.thy ===== *)
theory Cpu_Backend
  imports Prelude
begin

text \<open>
  CPU capabilities: \<open>src/backend.rs\<close>.  A \<open>Capabilities\<close> value is a 16-bit set of feature bits.
  What the processor reports (\<open>is_x86_feature_detected!\<close>, \<open>is_aarch64_feature_detected!\<close>) is
  the environment, a predicate \<open>detected\<close>; the target architecture of the build (\<open>cfg\<close>) is a
  parameter as well.  The cells that cache the detection (\<open>OnceLock\<close>) return the value that the
  first call computed; as detection is a function of its parameters, the cache is not modelled.
\<close>

datatype target_arch = Arch_X86 | Arch_X86_64 | Arch_AArch64 | Arch_Other

definition is_x86 :: "target_arch \<Rightarrow> bool" where
  "is_x86 arch \<longleftrightarrow> arch = Arch_X86 \<or> arch = Arch_X86_64"

datatype cpu_feature = Neon | Ssse3 | Sse41 | Avx2 | Avx512F | Avx512Bw | Avx512Vbmi | Bmi2

fun feature_bit :: "cpu_feature \<Rightarrow> u16" where
  "feature_bit Neon = push_bit 0 1"
| "feature_bit Ssse3 = push_bit 1 1"
| "feature_bit Sse41 = push_bit 2 1"
| "feature_bit Avx2 = push_bit 3 1"
| "feature_bit Avx512F = push_bit 4 1"
| "feature_bit Avx512Bw = push_bit 5 1"
| "feature_bit Avx512Vbmi = push_bit 6 1"
| "feature_bit Bmi2 = push_bit 7 1"

record capabilities =
  features :: u16

definition scalar_capabilities :: capabilities where
  "scalar_capabilities = \<lparr>features = 0\<rparr>"

definition supports :: "capabilities \<Rightarrow> cpu_feature \<Rightarrow> bool" where
  "supports c f \<longleftrightarrow> features c AND feature_bit f \<noteq> 0"

definition supports_all :: "capabilities \<Rightarrow> cpu_feature list \<Rightarrow> bool" where
  "supports_all c fs \<longleftrightarrow> list_all (supports c) fs"

definition from_feature_flags :: "(cpu_feature \<times> bool) list \<Rightarrow> capabilities" where
  "from_feature_flags flags =
     \<lparr>features = fold (\<lambda>(f, available) fs. if available then fs OR feature_bit f else fs) flags 0\<rparr>"

definition x86_capabilities_from_feature_flags ::
  "bool \<Rightarrow> bool \<Rightarrow> bool \<Rightarrow> bool \<Rightarrow> bool \<Rightarrow> bool \<Rightarrow> bool \<Rightarrow> capabilities" where
  "x86_capabilities_from_feature_flags avx512_vbmi avx512_bw avx512_f avx2 sse41 ssse3 bmi2 =
     from_feature_flags
       [(Avx512Vbmi, avx512_vbmi), (Avx512Bw, avx512_bw), (Avx512F, avx512_f), (Avx2, avx2),
        (Sse41, sse41), (Ssse3, ssse3), (Bmi2, bmi2)]"

definition aarch64_capabilities_from_feature_flag :: "bool \<Rightarrow> capabilities" where
  "aarch64_capabilities_from_feature_flag neon = from_feature_flags [(Neon, neon)]"

definition detect_cpu_capabilities :: "target_arch \<Rightarrow> (cpu_feature \<Rightarrow> bool) \<Rightarrow> capabilities" where
  "detect_cpu_capabilities arch detected =
     (if is_x86 arch then
        x86_capabilities_from_feature_flags (detected Avx512Vbmi) (detected Avx512Bw)
          (detected Avx512F) (detected Avx2) (detected Sse41) (detected Ssse3) (detected Bmi2)
      else if arch = Arch_AArch64 then aarch64_capabilities_from_feature_flag (detected Neon)
      else scalar_capabilities)"

text \<open>The features of each family, for the statement of what detection reports.\<close>

fun arch_features :: "target_arch \<Rightarrow> cpu_feature set" where
  "arch_features Arch_AArch64 = {Neon}"
| "arch_features Arch_Other = {}"
| "arch_features _ = {Ssse3, Sse41, Avx2, Avx512F, Avx512Bw, Avx512Vbmi, Bmi2}"

section \<open>The bit set is a set\<close>

fun feature_index :: "cpu_feature \<Rightarrow> nat" where
  "feature_index Neon = 0"
| "feature_index Ssse3 = 1"
| "feature_index Sse41 = 2"
| "feature_index Avx2 = 3"
| "feature_index Avx512F = 4"
| "feature_index Avx512Bw = 5"
| "feature_index Avx512Vbmi = 6"
| "feature_index Bmi2 = 7"

lemma feature_bit_index: "feature_bit f = push_bit (feature_index f) 1"
  by (cases f) simp_all

lemma feature_index_inject: "feature_index f = feature_index g \<longleftrightarrow> f = g"
  by (cases f; cases g) simp_all

lemma feature_index_less: "feature_index f < 8"
  by (cases f) simp_all

lemma supports_bit: "supports c f \<longleftrightarrow> bit (features c) (feature_index f)"
  by (simp add: supports_def feature_bit_index push_bit_of_1 and_exp_eq_0_iff_not_bit)

lemma bit_feature_bit:
  "bit (feature_bit g) (feature_index f) \<longleftrightarrow> f = g"
  by (cases f; cases g) simp_all

lemma supports_or:
  "supports \<lparr>features = a OR feature_bit g\<rparr> f \<longleftrightarrow> supports \<lparr>features = a\<rparr> f \<or> f = g"
  by (simp only: supports_bit capabilities.select_convs bit_or_iff bit_feature_bit)

lemma supports_fold:
  "supports \<lparr>features = fold (\<lambda>(f, av) fs. if av then fs OR feature_bit f else fs) flags a\<rparr> f
   \<longleftrightarrow> supports \<lparr>features = a\<rparr> f \<or> (f, True) \<in> set flags"
proof (induction flags arbitrary: a)
  case Nil
  show ?case by simp
next
  case (Cons x flags)
  then show ?case by (cases x) (auto simp: supports_or)
qed

lemma supports_from_feature_flags:
  "supports (from_feature_flags flags) f \<longleftrightarrow> (f, True) \<in> set flags"
  unfolding from_feature_flags_def by (simp add: supports_fold) (simp add: supports_def)

lemma supports_scalar: "\<not> supports scalar_capabilities f"
  by (simp add: scalar_capabilities_def supports_def)

lemma supports_detected:
  "supports (detect_cpu_capabilities arch detected) f
   \<longleftrightarrow> f \<in> arch_features arch \<and> detected f"
  by (cases arch; cases f)
    (simp_all add: detect_cpu_capabilities_def is_x86_def supports_from_feature_flags
      x86_capabilities_from_feature_flags_def aarch64_capabilities_from_feature_flag_def
      supports_scalar)

text \<open>
  C9: detection is exact. The capability set of a build supports a feature exactly when the
  processor reports it and the feature belongs to the build's architecture family; on other
  architectures nothing is supported.
\<close>

theorem detect_cpu_capabilities_exact:
  "supports (detect_cpu_capabilities arch detected) f
   \<longleftrightarrow> f \<in> arch_features arch \<and> detected f"
  by (rule supports_detected)

section \<open>Code compiled for a feature\<close>

text \<open>
  A function marked \<open>#[target_feature(enable = ...)]\<close> is undefined on a processor without the
  features; the model's value is then \<open>None\<close>.
\<close>

definition target_feature :: "(cpu_feature \<Rightarrow> bool) \<Rightarrow> cpu_feature list \<Rightarrow> 'a option \<Rightarrow> 'a option" where
  "target_feature detected fs call = do { guard (list_all detected fs); call }"

lemma target_feature_detected [simp]:
  "list_all detected fs \<Longrightarrow> target_feature detected fs call = call"
  by (simp add: target_feature_def)

lemma target_feature_missing: "\<not> list_all detected fs \<Longrightarrow> target_feature detected fs call = None"
  by (simp add: target_feature_def)

text \<open>Capabilities that claim no feature the processor lacks.\<close>

definition sound_capabilities :: "(cpu_feature \<Rightarrow> bool) \<Rightarrow> capabilities \<Rightarrow> bool" where
  "sound_capabilities detected c \<longleftrightarrow> (\<forall>f. supports c f \<longrightarrow> detected f)"

lemma sound_capabilitiesD: "sound_capabilities detected c \<Longrightarrow> supports c f \<Longrightarrow> detected f"
  by (simp add: sound_capabilities_def)

lemma sound_detected: "sound_capabilities detected (detect_cpu_capabilities arch detected)"
  by (simp add: sound_capabilities_def supports_detected)

end
