(* ===== verification/Murmur_Common.thy ===== *)
theory Murmur_Common
  imports Byte_Words Cpu_Backend
begin

text \<open>
  What the three MurmurHash3 variants share: \<open>src/murmur3/primitives.rs\<close>,
  \<open>src/murmur3/dispatch.rs\<close> and \<open>src/murmur3/block_buffer.rs\<close>, the incremental state of the
  hashers, and the locale \<open>block_hash\<close>, the contract between a variant (its block mixer and its
  finalisation) and the buffering around it.
\<close>

section \<open>Primitives\<close>

definition fmix32 :: "u32 \<Rightarrow> u32" where
  "fmix32 hash0 =
     (let hash = hash0 XOR drop_bit 16 hash0;
          hash = hash * 0x85ebca6b;
          hash = hash XOR drop_bit 13 hash;
          hash = hash * 0xc2b2ae35
      in hash XOR drop_bit 16 hash)"

definition fmix64 :: "u64 \<Rightarrow> u64" where
  "fmix64 hash0 =
     (let hash = hash0 XOR drop_bit 33 hash0;
          hash = hash * 0xff51afd7ed558ccd;
          hash = hash XOR drop_bit 33 hash;
          hash = hash * 0xc4ceb9fe1a85ec53
      in hash XOR drop_bit 33 hash)"

definition read_u16_le :: "bytes \<Rightarrow> nat \<Rightarrow> u16 option" where
  "read_u16_le input offset = do { b \<leftarrow> slice input offset 2; Some (le_word b) }"

definition read_u32_le :: "bytes \<Rightarrow> nat \<Rightarrow> u32 option" where
  "read_u32_le input offset = do { b \<leftarrow> slice input offset 4; Some (le_word b) }"

definition read_u64_le :: "bytes \<Rightarrow> nat \<Rightarrow> u64 option" where
  "read_u64_le input offset = do { b \<leftarrow> slice input offset 8; Some (le_word b) }"

definition read_partial_u64_le :: "bytes \<Rightarrow> u64 option" where
  "read_partial_u64_le input =
     do {
       guard (length input \<le> 8);
       if length input = 0 then Some 0
       else if length input = 1 then do { a \<leftarrow> get input 0; Some (ucast a) }
       else if length input = 2 then do { a \<leftarrow> read_u16_le input 0; Some (ucast a) }
       else if length input = 3 then do {
         a \<leftarrow> read_u16_le input 0; b \<leftarrow> get input 2;
         Some (ucast a OR push_bit 16 (ucast b)) }
       else if length input = 4 then do { a \<leftarrow> read_u32_le input 0; Some (ucast a) }
       else if length input = 5 then do {
         a \<leftarrow> read_u32_le input 0; b \<leftarrow> get input 4;
         Some (ucast a OR push_bit 32 (ucast b)) }
       else if length input = 6 then do {
         a \<leftarrow> read_u32_le input 0; b \<leftarrow> read_u16_le input 4;
         Some (ucast a OR push_bit 32 (ucast b)) }
       else if length input = 7 then do {
         a \<leftarrow> read_u32_le input 0; b \<leftarrow> read_u16_le input 4; c \<leftarrow> get input 6;
         Some (ucast a OR push_bit 32 (ucast b) OR push_bit 48 (ucast c)) }
       else do { guard (length input = 8); read_u64_le input 0 }
     }"

section \<open>Dispatch\<close>

datatype murmur_backend = Murmur_Scalar | Murmur_Sse41 | Murmur_Avx2

definition X86_32_SSE41_MIN :: nat where "X86_32_SSE41_MIN = 16"
definition X86_32_AVX2_MIN :: nat where "X86_32_AVX2_MIN = 32"
definition X86_128_AVX2_MIN :: nat where "X86_128_AVX2_MIN = 128"
definition X86_128_SSE41_MIN :: nat where "X86_128_SSE41_MIN = 16 * 1024 * 1024"
definition X64_128_SIMD_MIN :: nat where "X64_128_SIMD_MIN = 512"
definition X64_128_SSE41_MAX :: nat where "X64_128_SSE41_MAX = 8 * 1024 * 1024"

definition select_x86_32_backend :: "nat \<Rightarrow> capabilities \<Rightarrow> murmur_backend" where
  "select_x86_32_backend len caps =
     (if supports caps Avx2 \<and> X86_32_AVX2_MIN \<le> len then Murmur_Avx2
      else if supports caps Sse41 \<and> X86_32_SSE41_MIN \<le> len then Murmur_Sse41
      else Murmur_Scalar)"

definition select_x86_128_backend :: "nat \<Rightarrow> capabilities \<Rightarrow> murmur_backend" where
  "select_x86_128_backend len caps =
     (if supports caps Avx2 \<and> X86_128_AVX2_MIN \<le> len then Murmur_Avx2
      else if supports caps Sse41 \<and> X86_128_SSE41_MIN \<le> len then Murmur_Sse41
      else Murmur_Scalar)"

definition select_x64_128_backend :: "nat \<Rightarrow> capabilities \<Rightarrow> murmur_backend" where
  "select_x64_128_backend len caps =
     (if supports caps Avx2 \<and> X64_128_SIMD_MIN \<le> len then Murmur_Avx2
      else if supports caps Sse41 \<and> X64_128_SIMD_MIN \<le> len \<and> len \<le> X64_128_SSE41_MAX
      then Murmur_Sse41
      else Murmur_Scalar)"

text \<open>The instruction set a kernel needs, the safety precondition of the \<open>unsafe\<close> kernel calls.\<close>

fun murmur_backend_feature :: "murmur_backend \<Rightarrow> cpu_feature option" where
  "murmur_backend_feature Murmur_Scalar = None"
| "murmur_backend_feature Murmur_Sse41 = Some Sse41"
| "murmur_backend_feature Murmur_Avx2 = Some Avx2"

text \<open>
  C8: whatever the input length, a selector only returns a backend whose instruction set the
  processor supports, so the \<open>unsafe\<close> kernel calls meet their target-feature precondition.
\<close>

theorem murmur_selection_supported:
  "list_all (\<lambda>b. case murmur_backend_feature b of None \<Rightarrow> True | Some f \<Rightarrow> supports caps f)
     [select_x86_32_backend n caps, select_x86_128_backend n caps, select_x64_128_backend n caps]"
  by (simp add: select_x86_32_backend_def select_x86_128_backend_def select_x64_128_backend_def)

section \<open>Full blocks and the block buffer\<close>

definition full_blocks_new :: "nat \<Rightarrow> bytes \<Rightarrow> bytes option" where
  "full_blocks_new n bs = (if n \<noteq> 0 \<and> length bs mod n = 0 then Some bs else None)"

definition full_blocks_split :: "nat \<Rightarrow> bytes \<Rightarrow> (bytes \<times> bytes) option" where
  "full_blocks_split n input =
     do {
       guard (n \<noteq> 0);
       let body_len = length input div n * n;
       body \<leftarrow> slice input 0 body_len;
       rest \<leftarrow> slice input body_len (length input - body_len);
       Some (body, rest)
     }"

record block_buffer =
  buf_bytes :: bytes
  buf_len :: nat

definition block_buffer_new :: "nat \<Rightarrow> block_buffer" where
  "block_buffer_new n = \<lparr>buf_bytes = replicate n 0, buf_len = 0\<rparr>"

definition buffer_blocks ::
  "nat \<Rightarrow> (bytes \<Rightarrow> 's \<Rightarrow> 's option) \<Rightarrow> block_buffer \<Rightarrow> bytes \<Rightarrow> 's \<Rightarrow> (block_buffer \<times> 's) option" where
  "buffer_blocks n consume b input s =
     do {
       (blocks, remaining) \<leftarrow> full_blocks_split n input;
       s \<leftarrow> (if length blocks \<noteq> 0 then consume blocks s else Some s);
       bs \<leftarrow> store (buf_bytes b) 0 remaining;
       Some (\<lparr>buf_bytes = bs, buf_len = length remaining\<rparr>, s)
     }"

definition buffer_consume ::
  "nat \<Rightarrow> (bytes \<Rightarrow> 's \<Rightarrow> 's option) \<Rightarrow> block_buffer \<Rightarrow> bytes \<Rightarrow> 's \<Rightarrow> (block_buffer \<times> 's) option" where
  "buffer_consume n consume b input s =
     (if buf_len b \<noteq> 0 then do {
        guard (buf_len b \<le> n);
        let copied = min (n - buf_len b) (length input);
        src \<leftarrow> slice input 0 copied;
        bs \<leftarrow> store (buf_bytes b) (buf_len b) src;
        let len = buf_len b + copied;
        rest \<leftarrow> slice input copied (length input - copied);
        if len \<noteq> n then Some (\<lparr>buf_bytes = bs, buf_len = len\<rparr>, s)
        else do {
          s \<leftarrow> consume bs s;
          buffer_blocks n consume \<lparr>buf_bytes = bs, buf_len = 0\<rparr> rest s
        }
      }
      else buffer_blocks n consume b input s)"

definition buffer_remaining :: "block_buffer \<Rightarrow> bytes option" where
  "buffer_remaining b = slice (buf_bytes b) 0 (buf_len b)"

section \<open>Incremental hashers\<close>

text \<open>
  The three hasher structs have the same shape: the mixing state, the pending bytes and the
  wrapping total length, at the width of the variant.
\<close>

record ('s, 'l) hasher =
  h_state :: 's
  h_tail :: block_buffer
  h_total :: 'l

definition hasher_new :: "nat \<Rightarrow> 's \<Rightarrow> ('s, 'l::semiring_1) hasher" where
  "hasher_new n s = \<lparr>h_state = s, h_tail = block_buffer_new n, h_total = 0\<rparr>"

definition hasher_update ::
  "nat \<Rightarrow> (bytes \<Rightarrow> 's \<Rightarrow> 's option) \<Rightarrow> ('s, 'l::semiring_1) hasher \<Rightarrow> bytes \<Rightarrow> ('s, 'l) hasher option" where
  "hasher_update n mix h input =
     do {
       (t, s) \<leftarrow> buffer_consume n mix (h_tail h) input (h_state h);
       Some \<lparr>h_state = s, h_tail = t, h_total = h_total h + of_nat (length input)\<rparr>
     }"

definition hasher_digest ::
  "(bytes \<Rightarrow> 's \<Rightarrow> 'l \<Rightarrow> 'd option) \<Rightarrow> ('s, 'l) hasher \<Rightarrow> 'd option" where
  "hasher_digest finish h = do { r \<leftarrow> buffer_remaining (h_tail h); finish r (h_state h) (h_total h) }"

text \<open>A hasher that went through any sequence of \<open>update\<close> calls.\<close>

inductive hasher_reaches ::
  "('h \<Rightarrow> bytes \<Rightarrow> 'h option) \<Rightarrow> 'h \<Rightarrow> bytes \<Rightarrow> 'h \<Rightarrow> bool" for upd and h0 where
  start: "hasher_reaches upd h0 [] h0"
| update: "hasher_reaches upd h0 m h \<Longrightarrow> upd h x = Some h' \<Longrightarrow> hasher_reaches upd h0 (m @ x) h'"

section \<open>Properties of the primitives\<close>

lemma read_u16_le_Some [slice_simps]:
  "off + 2 \<le> length xs \<Longrightarrow> read_u16_le xs off = Some (le_word (take 2 (drop off xs)))"
  by (simp add: read_u16_le_def slice_simps)

lemma read_u32_le_Some [slice_simps]:
  "off + 4 \<le> length xs \<Longrightarrow> read_u32_le xs off = Some (le_word (take 4 (drop off xs)))"
  by (simp add: read_u32_le_def slice_simps)

lemma read_u64_le_Some [slice_simps]:
  "off + 8 \<le> length xs \<Longrightarrow> read_u64_le xs off = Some (le_word (take 8 (drop off xs)))"
  by (simp add: read_u64_le_def slice_simps)

lemma read_partial_u64_le_Some [slice_simps]:
  assumes "length input \<le> 8"
  shows "read_partial_u64_le input = Some (le_word input)"
proof -
  have "length input \<in> {0, 1, 2, 3, 4, 5, 6, 7, 8}"
    using assms by (auto simp: numeral_eq_Suc le_Suc_eq)
  then show ?thesis
    by (elim insertE emptyE)
      (auto simp: lists_of_length read_partial_u64_le_def slice_simps get_def le_word_Cons
        byte_casts or.assoc)
qed

section \<open>The contract between a variant and the buffering around it\<close>

definition buffer_ok :: "nat \<Rightarrow> block_buffer \<Rightarrow> bool" where
  "buffer_ok n b \<longleftrightarrow> length (buf_bytes b) = n \<and> buf_len b < n"

definition pending :: "block_buffer \<Rightarrow> bytes" where
  "pending b = take (buf_len b) (buf_bytes b)"

lemma buffer_remaining_pending [slice_simps]:
  "buffer_ok n b \<Longrightarrow> buffer_remaining b = Some (pending b)"
  by (simp add: buffer_remaining_def buffer_ok_def pending_def slice_simps)

lemma full_blocks_split_Some [slice_simps]:
  "0 < n \<Longrightarrow> full_blocks_split n xs = Some (take (length xs div n * n) xs, leftover n xs)"
  by (simp add: full_blocks_split_def slice_simps leftover_def)

lemma buffer_ok_new: "0 < n \<Longrightarrow> buffer_ok n (block_buffer_new n)"
  by (simp add: buffer_ok_def block_buffer_new_def)

lemma pending_new [simp]: "pending (block_buffer_new n) = []"
  by (simp add: pending_def block_buffer_new_def)

text \<open>
  A variant is a block size, a mixer that folds a step over the blocks of its argument, and a
  finalisation that accepts every tail shorter than a block.
\<close>

locale block_hash =
  fixes n :: nat
    and mix :: "bytes \<Rightarrow> 's \<Rightarrow> 's option"
    and step :: "bytes \<Rightarrow> 's \<Rightarrow> 's"
    and finish :: "bytes \<Rightarrow> 's \<Rightarrow> 'l::semiring_1 \<Rightarrow> 'd option"
    and final :: "bytes \<Rightarrow> 's \<Rightarrow> 'l \<Rightarrow> 'd"
  assumes block_pos: "0 < n"
    and mix_folds: "n dvd length bs \<Longrightarrow> mix bs s = Some (fold step (chunks n bs) s)"
    and finish_final: "length t < n \<Longrightarrow> finish t s l = Some (final t s l)"
begin

text \<open>The digest of a message, as the algorithm defines it.\<close>

definition digest_of :: "'s \<Rightarrow> bytes \<Rightarrow> 'd" where
  "digest_of s0 msg = final (leftover n msg) (fold step (chunks n msg) s0) (of_nat (length msg))"

text \<open>What a hasher that was started in \<open>s0\<close> and has absorbed \<open>msg\<close> looks like.\<close>

definition absorbed :: "'s \<Rightarrow> bytes \<Rightarrow> ('s, 'l) hasher \<Rightarrow> bool" where
  "absorbed s0 msg h \<longleftrightarrow>
     buffer_ok n (h_tail h) \<and> pending (h_tail h) = leftover n msg \<and>
     h_state h = fold step (chunks n msg) s0 \<and> h_total h = of_nat (length msg)"

lemma buffer_blocks_Some:
  assumes "length (buf_bytes b) = n"
  obtains b' where "buffer_blocks n mix b input s = Some (b', fold step (chunks n input) s)"
    "buffer_ok n b'" "pending b' = leftover n input"
proof -
  have left: "length (leftover n input) < n" by (rule length_leftover [OF block_pos])
  let ?body = "take (length input div n * n) input"
  have "(if length ?body \<noteq> 0 then mix ?body s else Some s) = Some (fold step (chunks n input) s)"
  proof (cases "?body = []")
    case True
    have "chunks n input = chunks n ?body" by (simp add: chunks_body block_pos)
    also have "\<dots> = []" unfolding True by simp
    finally have "chunks n input = []" .
    then show ?thesis unfolding True by simp
  next
    case False
    then show ?thesis
      using mix_folds [OF split_leftover(2), of input] by (simp add: chunks_body block_pos)
  qed
  then show thesis
    using left assms
    by (intro that) (auto simp: buffer_blocks_def slice_simps block_pos buffer_ok_def pending_def)
qed

lemma buffer_consume_Some:
  assumes "buffer_ok n b"
  obtains b' where
    "buffer_consume n mix b input s = Some (b', fold step (chunks n (pending b @ input)) s)"
    "buffer_ok n b'" "pending b' = leftover n (pending b @ input)"
proof (cases "buf_len b = 0")
  case True
  then show thesis
    using assms buffer_blocks_Some [of b input s] that
    by (auto simp: buffer_consume_def buffer_ok_def pending_def)
next
  case False
  let ?c = "min (n - buf_len b) (length input)"
  let ?bs = "pending b @ take ?c input @ drop (buf_len b + ?c) (buf_bytes b)"
  have len: "length (buf_bytes b) = n" "buf_len b < n"
    using assms by (simp_all add: buffer_ok_def)
  have st: "store (buf_bytes b) (buf_len b) (take ?c input) = Some ?bs"
    using len by (simp add: slice_simps pending_def)
  show thesis
  proof (cases "buf_len b + ?c = n")
    case False
    then have short: "buf_len b + length input < n" and c: "?c = length input"
      using len by auto
    show thesis
      by (rule that [of "\<lparr>buf_bytes = ?bs, buf_len = buf_len b + ?c\<rparr>"])
        (use \<open>buf_len b \<noteq> 0\<close> False short st len in
          \<open>auto simp: buffer_consume_def slice_simps c buffer_ok_def pending_def\<close>)
  next
    case True
    then have bs: "?bs = pending b @ take ?c input" and fit: "n - buf_len b \<le> length input"
      using len by auto
    have lp: "length (pending b @ take ?c input) = n"
      using len fit by (simp add: pending_def)
    have split: "pending b @ input = (pending b @ take ?c input) @ drop ?c input" by simp
    obtain b' where b': "buffer_blocks n mix \<lparr>buf_bytes = pending b @ take ?c input, buf_len = 0\<rparr>
        (drop ?c input) (step (pending b @ take ?c input) s)
        = Some (b', fold step (chunks n (drop ?c input)) (step (pending b @ take ?c input) s))"
      "buffer_ok n b'" "pending b' = leftover n (drop ?c input)"
      using buffer_blocks_Some [of "\<lparr>buf_bytes = pending b @ take ?c input, buf_len = 0\<rparr>"] lp
      by auto
    have "chunks n (pending b @ input) = (pending b @ take ?c input) # chunks n (drop ?c input)"
      by (subst split) (rule chunks_append1 [OF block_pos lp])
    moreover have "leftover n (pending b @ input) = leftover n (drop ?c input)"
      by (subst split) (rule leftover_append, simp add: lp [simplified])
    moreover have "mix (pending b @ take ?c input) s = Some (step (pending b @ take ?c input) s)"
      using mix_folds [of "pending b @ take ?c input" s] lp block_pos by simp
    ultimately show thesis
      using \<open>buf_len b \<noteq> 0\<close> True st bs b' len
      by (intro that [of b']) (simp_all add: buffer_consume_def slice_simps)
  qed
qed

lemma absorbed_new: "absorbed s0 [] (hasher_new n s0)"
  by (simp add: absorbed_def hasher_new_def buffer_ok_new block_pos)

lemma update_absorbs:
  assumes "absorbed s0 msg h"
  obtains h' where "hasher_update n mix h x = Some h'" "absorbed s0 (msg @ x) h'"
proof -
  have ok: "buffer_ok n (h_tail h)" and p: "pending (h_tail h) = leftover n msg"
    and hs: "h_state h = fold step (chunks n msg) s0" and t: "h_total h = of_nat (length msg)"
    using assms by (auto simp: absorbed_def)
  obtain b' where b': "buffer_consume n mix (h_tail h) x (h_state h)
      = Some (b', fold step (chunks n (leftover n msg @ x)) (h_state h))"
    "buffer_ok n b'" "pending b' = leftover n (leftover n msg @ x)"
    using buffer_consume_Some [OF ok, of x "h_state h"] unfolding p by blast
  show thesis
    by (rule that [of "\<lparr>h_state = fold step (chunks n (leftover n msg @ x)) (h_state h), h_tail = b',
        h_total = h_total h + of_nat (length x)\<rparr>"])
      (simp_all add: hasher_update_def b' [unfolded hs] absorbed_def hs t leftover_leftover_append
        chunks_append_leftover [OF block_pos, of msg x])
qed

lemma digest_absorbed: "absorbed s0 msg h \<Longrightarrow> hasher_digest finish h = Some (digest_of s0 msg)"
  by (auto simp: absorbed_def hasher_digest_def digest_of_def slice_simps finish_final
      length_leftover block_pos)

text \<open>One-shot hashing, as the three public functions do it.\<close>

lemma one_shot:
  "do { (blocks, t) \<leftarrow> full_blocks_split n input; s \<leftarrow> mix blocks s0;
        finish t s (of_nat (length input)) } = Some (digest_of s0 input)"
  using mix_folds [OF split_leftover(2), of input]
  by (simp add: slice_simps block_pos chunks_body finish_final length_leftover digest_of_def)

lemma updates_absorb:
  assumes "absorbed s0 msg h"
  shows "\<exists>h'. foldM (\<lambda>x h. hasher_update n mix h x) xs h = Some h' \<and> absorbed s0 (msg @ concat xs) h'"
  using assms
proof (induction xs arbitrary: msg h)
  case Nil
  then show ?case by simp
next
  case (Cons x xs)
  obtain h' where "hasher_update n mix h x = Some h'" "absorbed s0 (msg @ x) h'"
    using update_absorbs [OF Cons.prems] by blast
  then show ?case using Cons.IH [of "msg @ x" h'] by simp
qed

lemma updates_digest:
  "(foldM (\<lambda>x h. hasher_update n mix h x) xs (hasher_new n s0) \<bind> hasher_digest finish)
   = Some (digest_of s0 (concat xs))"
proof -
  obtain h where "foldM (\<lambda>x h. hasher_update n mix h x) xs (hasher_new n s0) = Some h"
    and "absorbed s0 (concat xs) h"
    using updates_absorb [OF absorbed_new, of xs s0] by auto
  then show ?thesis by (simp add: digest_absorbed)
qed

text \<open>Every state that \<open>update\<close> can reach describes the bytes absorbed so far, and can go on.\<close>

lemma reaches_absorbed:
  "hasher_reaches (hasher_update n mix) (hasher_new n s0) msg h \<Longrightarrow> absorbed s0 msg h"
proof (induction rule: hasher_reaches.induct)
  case start
  show ?case by (rule absorbed_new)
next
  case (update m h x h')
  from update.IH obtain h'' where "hasher_update n mix h x = Some h''" "absorbed s0 (m @ x) h''"
    by (rule update_absorbs)
  with update.hyps show ?case by simp
qed

lemma reaches_progress:
  fixes h :: "('s, 'l) hasher"
  assumes "hasher_reaches (hasher_update n mix) (hasher_new n s0) msg h"
  shows "\<exists>h'. hasher_update n mix h x = Some h'"
  using update_absorbs [OF reaches_absorbed [OF assms]] by metis

end

end
