(* ===== verification/Vector_Ops.thy ===== *)
theory Vector_Ops
  imports Byte_Words
begin

text \<open>
  The vector instructions the kernels use, from the vendors' definitions of the intrinsics in
  \<open>std::arch\<close>.  A register is the list of its bytes in memory order (16, 32 or 64 of them), so
  \<open>loadu\<close> and \<open>storeu\<close> are the checked \<open>slice\<close> and \<open>store\<close>; a lane-wise instruction
  reads the register as lanes of its element width, works on each lane, and lays the lanes out
  again.  The \<open>_mm_\<close>, \<open>_mm256_\<close> and \<open>_mm512_\<close> forms of a lane-wise instruction are one
  definition, at different register widths.  Instructions that move data inside each 128-bit
  half are defined on 16-byte halves.
\<close>

section \<open>Lane-wise instructions\<close>

definition lanewise1 :: "('a::len word \<Rightarrow> 'b::len word) \<Rightarrow> bytes \<Rightarrow> bytes" where
  "lanewise1 f v = unlanes (map f (lanes v))"

definition lanewise2 ::
  "('a::len word \<Rightarrow> 'b::len word \<Rightarrow> 'c::len word) \<Rightarrow> bytes \<Rightarrow> bytes \<Rightarrow> bytes" where
  "lanewise2 f v w = unlanes (map2 f (lanes v) (lanes w))"

definition mullo_epi32 :: "bytes \<Rightarrow> bytes \<Rightarrow> bytes" where
  "mullo_epi32 = lanewise2 ((*) :: u32 \<Rightarrow> u32 \<Rightarrow> u32)"

definition slli_epi32 :: "nat \<Rightarrow> bytes \<Rightarrow> bytes" where
  "slli_epi32 n = lanewise1 (push_bit n :: u32 \<Rightarrow> u32)"

definition srli_epi32 :: "nat \<Rightarrow> bytes \<Rightarrow> bytes" where
  "srli_epi32 n = lanewise1 (drop_bit n :: u32 \<Rightarrow> u32)"

text \<open>Variable shifts: counts of 32 (64) or more give zero, as \<open>push_bit\<close> does.\<close>

definition sllv_epi32 :: "bytes \<Rightarrow> bytes \<Rightarrow> bytes" where
  "sllv_epi32 = lanewise2 (\<lambda>(x :: u32) (n :: u32). push_bit (unat n) x)"

definition srlv_epi32 :: "bytes \<Rightarrow> bytes \<Rightarrow> bytes" where
  "srlv_epi32 = lanewise2 (\<lambda>(x :: u32) (n :: u32). drop_bit (unat n) x)"

definition add_epi64 :: "bytes \<Rightarrow> bytes \<Rightarrow> bytes" where
  "add_epi64 = lanewise2 ((+) :: u64 \<Rightarrow> u64 \<Rightarrow> u64)"

definition slli_epi64 :: "nat \<Rightarrow> bytes \<Rightarrow> bytes" where
  "slli_epi64 n = lanewise1 (push_bit n :: u64 \<Rightarrow> u64)"

definition srli_epi64 :: "nat \<Rightarrow> bytes \<Rightarrow> bytes" where
  "srli_epi64 n = lanewise1 (drop_bit n :: u64 \<Rightarrow> u64)"

definition sllv_epi64 :: "bytes \<Rightarrow> bytes \<Rightarrow> bytes" where
  "sllv_epi64 = lanewise2 (\<lambda>(x :: u64) (n :: u64). push_bit (unat n) x)"

definition srlv_epi64 :: "bytes \<Rightarrow> bytes \<Rightarrow> bytes" where
  "srlv_epi64 = lanewise2 (\<lambda>(x :: u64) (n :: u64). drop_bit (unat n) x)"

text \<open>\<open>mul_epu32\<close> multiplies the low halves of the 64-bit lanes into full 64-bit products.\<close>

definition low32 :: "u64 \<Rightarrow> u64" where
  "low32 x = ucast (ucast x :: u32)"

definition mul_epu32 :: "bytes \<Rightarrow> bytes \<Rightarrow> bytes" where
  "mul_epu32 = lanewise2 (\<lambda>(x :: u64) (y :: u64). low32 x * low32 y)"

definition xor_si :: "bytes \<Rightarrow> bytes \<Rightarrow> bytes" where
  "xor_si v w = map2 (XOR) v w"

definition or_si :: "bytes \<Rightarrow> bytes \<Rightarrow> bytes" where
  "or_si v w = map2 (OR) v w"

definition set_lanes :: "'a::len word list \<Rightarrow> bytes" where
  "set_lanes ws = unlanes ws"

definition set1 :: "nat \<Rightarrow> 'a::len word \<Rightarrow> bytes" where
  "set1 n w = unlanes (replicate n w)"

section \<open>Instructions within 128-bit halves\<close>

text \<open>\<open>halves f v\<close> applies \<open>f\<close> to the 16-byte halves of one, \<open>halves2\<close> of two registers.\<close>

definition halves :: "(bytes \<Rightarrow> bytes) \<Rightarrow> bytes \<Rightarrow> bytes" where
  "halves f v = concat (map f (chunks 16 v))"

definition halves2 :: "(bytes \<Rightarrow> bytes \<Rightarrow> bytes) \<Rightarrow> bytes \<Rightarrow> bytes \<Rightarrow> bytes" where
  "halves2 f v w = concat (map2 f (chunks 16 v) (chunks 16 w))"

text \<open>\<open>shuffle_epi32 imm\<close>: result word \<open>i\<close> of a half is its word \<open>(imm >> 2 i) & 3\<close>.\<close>

definition shuffle_epi32 :: "nat \<Rightarrow> bytes \<Rightarrow> bytes" where
  "shuffle_epi32 imm = halves (\<lambda>h. let ws = (lanes h :: u32 list) in
     unlanes (map (\<lambda>i. ws ! (imm div 4 ^ i mod 4)) [0..<4]))"

definition unpacklo_epi32 :: "bytes \<Rightarrow> bytes \<Rightarrow> bytes" where
  "unpacklo_epi32 = halves2 (\<lambda>g h. let a = (lanes g :: u32 list); b = lanes h in
     unlanes [a ! 0, b ! 0, a ! 1, b ! 1])"

definition unpackhi_epi32 :: "bytes \<Rightarrow> bytes \<Rightarrow> bytes" where
  "unpackhi_epi32 = halves2 (\<lambda>g h. let a = (lanes g :: u32 list); b = lanes h in
     unlanes [a ! 2, b ! 2, a ! 3, b ! 3])"

definition unpacklo_epi64 :: "bytes \<Rightarrow> bytes \<Rightarrow> bytes" where
  "unpacklo_epi64 = halves2 (\<lambda>g h. let a = (lanes g :: u64 list); b = lanes h in
     unlanes [a ! 0, b ! 0])"

definition unpackhi_epi64 :: "bytes \<Rightarrow> bytes \<Rightarrow> bytes" where
  "unpackhi_epi64 = halves2 (\<lambda>g h. let a = (lanes g :: u64 list); b = lanes h in
     unlanes [a ! 1, b ! 1])"

text \<open>\<open>_mm_blend_epi16::<imm>\<close>: 16-bit lane \<open>i\<close> comes from the second operand when bit \<open>i\<close> is set.\<close>

definition blend_epi16 :: "nat \<Rightarrow> bytes \<Rightarrow> bytes \<Rightarrow> bytes" where
  "blend_epi16 imm v w = unlanes (map (\<lambda>(i, a, b). if bit imm i then b else a)
     (zip [0..<8] (zip (lanes v :: u16 list) (lanes w))))"

section \<open>The lanes of a result\<close>

lemma lanes32_unlanes [lane_simps]: "lanes (unlanes (ws :: u32 list)) = ws"
  by (rule lanes_unlanes) simp

lemma lanes64_unlanes [lane_simps]: "lanes (unlanes (ws :: u64 list)) = ws"
  by (rule lanes_unlanes) simp

lemma lanes16_unlanes [lane_simps]: "lanes (unlanes (ws :: u16 list)) = ws"
  by (rule lanes_unlanes) simp

lemma unlanes32_lanes: "4 dvd length bs \<Longrightarrow> unlanes (lanes bs :: u32 list) = bs"
  by (rule unlanes_lanes) simp_all

lemma unlanes64_lanes: "8 dvd length bs \<Longrightarrow> unlanes (lanes bs :: u64 list) = bs"
  by (rule unlanes_lanes) simp_all

lemma lanes_lanewise1:
  "8 dvd LENGTH('b) \<Longrightarrow> lanes (lanewise1 (f :: 'a::len word \<Rightarrow> 'b::len word) v) = map f (lanes v)"
  by (simp add: lanewise1_def lanes_unlanes)

lemma lanes_lanewise2:
  "8 dvd LENGTH('c) \<Longrightarrow>
   lanes (lanewise2 (f :: 'a::len word \<Rightarrow> 'b::len word \<Rightarrow> 'c::len word) v w)
   = map2 f (lanes v) (lanes w)"
  by (simp add: lanewise2_def lanes_unlanes)

lemma lanes_set1 [lane_simps]:
  "8 dvd LENGTH('a) \<Longrightarrow> lanes (set1 n (w :: 'a::len word)) = replicate n w"
  by (simp add: set1_def lanes_unlanes)

lemma lanes_set_lanes [lane_simps]:
  "8 dvd LENGTH('a) \<Longrightarrow> lanes (set_lanes ws) = (ws :: 'a::len word list)"
  by (simp add: set_lanes_def lanes_unlanes)

lemma lanes_mullo_epi32 [lane_simps]:
  "(lanes (mullo_epi32 v w) :: u32 list) = map2 (*) (lanes v) (lanes w)"
  by (simp add: mullo_epi32_def lanes_lanewise2)

lemma lanes_sllv_epi32 [lane_simps]:
  "(lanes (sllv_epi32 v w) :: u32 list) = map2 (\<lambda>(x :: u32) (n :: u32). push_bit (unat n) x) (lanes v) (lanes w)"
  by (simp add: sllv_epi32_def lanes_lanewise2)

lemma lanes_srlv_epi32 [lane_simps]:
  "(lanes (srlv_epi32 v w) :: u32 list) = map2 (\<lambda>(x :: u32) (n :: u32). drop_bit (unat n) x) (lanes v) (lanes w)"
  by (simp add: srlv_epi32_def lanes_lanewise2)

lemma lanes_slli_epi32 [lane_simps]:
  "(lanes (slli_epi32 n v) :: u32 list) = map (push_bit n) (lanes v)"
  by (simp add: slli_epi32_def lanes_lanewise1)

lemma lanes_srli_epi32 [lane_simps]:
  "(lanes (srli_epi32 n v) :: u32 list) = map (drop_bit n) (lanes v)"
  by (simp add: srli_epi32_def lanes_lanewise1)

lemma lanes_add_epi64 [lane_simps]:
  "(lanes (add_epi64 v w) :: u64 list) = map2 (+) (lanes v) (lanes w)"
  by (simp add: add_epi64_def lanes_lanewise2)

lemma lanes_sllv_epi64 [lane_simps]:
  "(lanes (sllv_epi64 v w) :: u64 list) = map2 (\<lambda>(x :: u64) (n :: u64). push_bit (unat n) x) (lanes v) (lanes w)"
  by (simp add: sllv_epi64_def lanes_lanewise2)

lemma lanes_srlv_epi64 [lane_simps]:
  "(lanes (srlv_epi64 v w) :: u64 list) = map2 (\<lambda>(x :: u64) (n :: u64). drop_bit (unat n) x) (lanes v) (lanes w)"
  by (simp add: srlv_epi64_def lanes_lanewise2)

lemma lanes_mul_epu32 [lane_simps]:
  "(lanes (mul_epu32 v w) :: u64 list) = map2 (\<lambda>x y. low32 x * low32 y) (lanes v) (lanes w)"
  by (simp add: mul_epu32_def lanes_lanewise2)

lemma lanes_slli_epi64 [lane_simps]:
  "(lanes (slli_epi64 n v) :: u64 list) = map (push_bit n) (lanes v)"
  by (simp add: slli_epi64_def lanes_lanewise1)

lemma lanes_srli_epi64 [lane_simps]:
  "(lanes (srli_epi64 n v) :: u64 list) = map (drop_bit n) (lanes v)"
  by (simp add: srli_epi64_def lanes_lanewise1)

lemma lanes_xor [lane_simps]:
  "length v = length w \<Longrightarrow> (lanes (xor_si v w) :: 'a::len word list) = map2 (XOR) (lanes v) (lanes w)"
  by (simp add: xor_si_def lanes_map2_xor)

lemma lanes_or [lane_simps]:
  "length v = length w \<Longrightarrow> (lanes (or_si v w) :: 'a::len word list) = map2 (OR) (lanes v) (lanes w)"
  by (simp add: or_si_def lanes_map2_or)

text \<open>Lengths: a register keeps its width.\<close>

lemma length_lanewise1:
  "LENGTH('b) = LENGTH('a) \<Longrightarrow> 8 dvd LENGTH('a) \<Longrightarrow> LENGTH('a) div 8 dvd length v \<Longrightarrow>
   length (lanewise1 (f :: 'a::len word \<Rightarrow> 'b::len word) v) = length v"
  by (simp add: lanewise1_def length_unlanes length_lanes lane_width_pos)

lemma length_lanewise2:
  "LENGTH('b) = LENGTH('a) \<Longrightarrow> LENGTH('c) = LENGTH('a) \<Longrightarrow> 8 dvd LENGTH('a) \<Longrightarrow>
   LENGTH('a) div 8 dvd length v \<Longrightarrow> length w = length v \<Longrightarrow>
   length (lanewise2 (f :: 'a::len word \<Rightarrow> 'b::len word \<Rightarrow> 'c::len word) v w) = length v"
  by (simp add: lanewise2_def length_unlanes length_lanes lane_width_pos)

lemma length_xor_si [simp]: "length (xor_si v w) = min (length v) (length w)"
  by (simp add: xor_si_def)

lemma length_or_si [simp]: "length (or_si v w) = min (length v) (length w)"
  by (simp add: or_si_def)

lemma length_set1 [lane_simps]: "length (set1 n (w :: 'a::len word)) = LENGTH('a) div 8 * n"
  by (simp add: set1_def length_unlanes)

lemma length_set_lanes [lane_simps]:
  "length (set_lanes (ws :: 'a::len word list)) = LENGTH('a) div 8 * length ws"
  by (simp add: set_lanes_def length_unlanes)

lemma length_lanes16: "length (lanes bs :: u16 list) = length bs div 2"
  by (simp add: length_lanes)

lemma length_lanes32: "length (lanes bs :: u32 list) = length bs div 4"
  by (simp add: length_lanes)

lemma length_lanes64: "length (lanes bs :: u64 list) = length bs div 8"
  by (simp add: length_lanes)

lemmas length_lanes_simps [lane_simps] = length_lanes16 length_lanes32 length_lanes64

text \<open>Lengths of the lane-wise results, for registers of whole lanes.\<close>

lemma length_mullo_epi32 [lane_simps]:
  "4 dvd length v \<Longrightarrow> length w = length v \<Longrightarrow> length (mullo_epi32 v w) = length v"
  by (simp add: mullo_epi32_def length_lanewise2)

lemma length_sllv_epi32 [lane_simps]:
  "4 dvd length v \<Longrightarrow> length w = length v \<Longrightarrow> length (sllv_epi32 v w) = length v"
  by (simp add: sllv_epi32_def length_lanewise2)

lemma length_srlv_epi32 [lane_simps]:
  "4 dvd length v \<Longrightarrow> length w = length v \<Longrightarrow> length (srlv_epi32 v w) = length v"
  by (simp add: srlv_epi32_def length_lanewise2)

lemma length_slli_epi32 [lane_simps]: "4 dvd length v \<Longrightarrow> length (slli_epi32 n v) = length v"
  by (simp add: slli_epi32_def length_lanewise1)

lemma length_srli_epi32 [lane_simps]: "4 dvd length v \<Longrightarrow> length (srli_epi32 n v) = length v"
  by (simp add: srli_epi32_def length_lanewise1)

lemma length_add_epi64 [lane_simps]:
  "8 dvd length v \<Longrightarrow> length w = length v \<Longrightarrow> length (add_epi64 v w) = length v"
  by (simp add: add_epi64_def length_lanewise2)

lemma length_sllv_epi64 [lane_simps]:
  "8 dvd length v \<Longrightarrow> length w = length v \<Longrightarrow> length (sllv_epi64 v w) = length v"
  by (simp add: sllv_epi64_def length_lanewise2)

lemma length_srlv_epi64 [lane_simps]:
  "8 dvd length v \<Longrightarrow> length w = length v \<Longrightarrow> length (srlv_epi64 v w) = length v"
  by (simp add: srlv_epi64_def length_lanewise2)

lemma length_mul_epu32 [lane_simps]:
  "8 dvd length v \<Longrightarrow> length w = length v \<Longrightarrow> length (mul_epu32 v w) = length v"
  by (simp add: mul_epu32_def length_lanewise2)

lemma length_slli_epi64 [lane_simps]: "8 dvd length v \<Longrightarrow> length (slli_epi64 n v) = length v"
  by (simp add: slli_epi64_def length_lanewise1)

lemma length_srli_epi64 [lane_simps]: "8 dvd length v \<Longrightarrow> length (srli_epi64 n v) = length v"
  by (simp add: srli_epi64_def length_lanewise1)

lemma map2_replicate [lane_simps]:
  "length xs = n \<Longrightarrow> map2 f xs (replicate n c) = map (\<lambda>x. f x c) xs"
  by (induction xs arbitrary: n) auto

lemmas map2_same_source [lane_simps] = map2_map_map

text \<open>The interleaving instructions on one 16-byte register.\<close>

lemma halves2_single: "length g = 16 \<Longrightarrow> length h = 16 \<Longrightarrow> halves2 f g h = f g h"
  by (simp add: halves2_def)

lemma lanes64_pair:
  fixes g :: bytes
  assumes "length g = 16"
  shows "lanes g = [le_word (take 8 g), (le_word (drop 8 g) :: u64)]"
  using assms by (simp add: lanes_def chunks.simps)

lemma unpacklo_epi64_bytes:
  "length g = 16 \<Longrightarrow> length h = 16 \<Longrightarrow> unpacklo_epi64 g h = take 8 g @ take 8 h"
  by (simp add: unpacklo_epi64_def halves2_single lanes64_pair unlanes_def to_le_le_word)

lemma unpackhi_epi64_bytes:
  "length g = 16 \<Longrightarrow> length h = 16 \<Longrightarrow> unpackhi_epi64 g h = drop 8 g @ drop 8 h"
  by (simp add: unpackhi_epi64_def halves2_single lanes64_pair unlanes_def to_le_le_word)

lemma length_unpack_epi32:
  "length g = 16 \<Longrightarrow> length h = 16 \<Longrightarrow> length (unpacklo_epi32 g h) = 16"
  "length g = 16 \<Longrightarrow> length h = 16 \<Longrightarrow> length (unpackhi_epi32 g h) = 16"
  by (simp_all add: unpacklo_epi32_def unpackhi_epi32_def halves2_single length_unlanes Let_def)

lemma length_unpack_epi64:
  "length g = 16 \<Longrightarrow> length h = 16 \<Longrightarrow> length (unpacklo_epi64 g h) = 16"
  "length g = 16 \<Longrightarrow> length h = 16 \<Longrightarrow> length (unpackhi_epi64 g h) = 16"
  by (simp_all add: unpacklo_epi64_bytes unpackhi_epi64_bytes)

text \<open>Two rounds of interleaving transpose four rows of four words.\<close>

lemma unlanes_four: "unlanes [a, b, c, d :: u32] = unlanes [a, b] @ unlanes [c, d]"
  by (simp add: unlanes_def)

lemma transpose_epi32:
  assumes len: "length r0 = 16" "length r1 = 16" "length r2 = 16" "length r3 = 16"
    and r: "lanes r0 = [a0, a1, a2, a3 :: u32]" "lanes r1 = [b0, b1, b2, b3 :: u32]"
      "lanes r2 = [c0, c1, c2, c3 :: u32]" "lanes r3 = [d0, d1, d2, d3 :: u32]"
  shows "lanes (unpacklo_epi64 (unpacklo_epi32 r0 r1) (unpacklo_epi32 r2 r3)) = [a0, b0, c0, d0]"
    and "lanes (unpackhi_epi64 (unpacklo_epi32 r0 r1) (unpacklo_epi32 r2 r3)) = [a1, b1, c1, d1]"
    and "lanes (unpacklo_epi64 (unpackhi_epi32 r0 r1) (unpackhi_epi32 r2 r3)) = [a2, b2, c2, d2]"
    and "lanes (unpackhi_epi64 (unpackhi_epi32 r0 r1) (unpackhi_epi32 r2 r3)) = [a3, b3, c3, d3]"
proof -
  have lo: "unpacklo_epi32 r0 r1 = unlanes [a0, b0] @ unlanes [a1, b1]"
    "unpacklo_epi32 r2 r3 = unlanes [c0, d0] @ unlanes [c1, d1]"
    using assms by (simp_all add: unpacklo_epi32_def halves2_single unlanes_four)
  have hi: "unpackhi_epi32 r0 r1 = unlanes [a2, b2] @ unlanes [a3, b3]"
    "unpackhi_epi32 r2 r3 = unlanes [c2, d2] @ unlanes [c3, d3]"
    using assms by (simp_all add: unpackhi_epi32_def halves2_single unlanes_four)
  have l: "length (unlanes [x, y :: u32]) = 8" for x y by (simp add: length_unlanes)
  show "lanes (unpacklo_epi64 (unpacklo_epi32 r0 r1) (unpacklo_epi32 r2 r3)) = [a0, b0, c0, d0]"
    "lanes (unpackhi_epi64 (unpacklo_epi32 r0 r1) (unpacklo_epi32 r2 r3)) = [a1, b1, c1, d1]"
    "lanes (unpacklo_epi64 (unpackhi_epi32 r0 r1) (unpackhi_epi32 r2 r3)) = [a2, b2, c2, d2]"
    "lanes (unpackhi_epi64 (unpackhi_epi32 r0 r1) (unpackhi_epi32 r2 r3)) = [a3, b3, c3, d3]"
    unfolding lo hi
    by (simp_all add: unpacklo_epi64_bytes unpackhi_epi64_bytes l lanes32_unlanes lanes_append)
qed

text \<open>A rotation as the two shifts of the kernels.\<close>

lemma rotl_shifts:
  fixes x :: "'a::len word"
  assumes "0 < n" "n < LENGTH('a)" "m = LENGTH('a) - n"
  shows "push_bit n x OR drop_bit m x = word_rotl n x"
proof (rule bit_word_eqI)
  fix k assume k: "k < LENGTH('a)"
  show "bit (push_bit n x OR drop_bit m x) k = bit (word_rotl n x) k"
  proof (cases "k < n")
    case True
    then have "(k + (LENGTH('a) - n)) mod LENGTH('a) = k + (LENGTH('a) - n)"
      using assms by simp
    with True k assms show ?thesis by (auto simp: bit_simps add.commute)
  next
    case False
    then have "(k + (LENGTH('a) - n)) mod LENGTH('a) = k - n"
      using assms k by (simp add: le_mod_geq)
    moreover have "\<not> m + k < LENGTH('a)" using False assms by simp
    ultimately show ?thesis using False k assms
      by (auto simp: bit_simps dest: bit_imp_le_length)
  qed
qed

section \<open>64-bit products from 32-bit products\<close>

lemma low32_and: "low32 x = x AND mask 32"
  unfolding low32_def by (rule bit_word_eqI) (auto simp: bit_simps)

lemma split64: "x = low32 x + push_bit 32 (drop_bit 32 x)" for x :: u64
proof -
  have "low32 x + push_bit 32 (drop_bit 32 x) = low32 x OR push_bit 32 (drop_bit 32 x)"
    unfolding low32_and
    by (rule disjunctive_add) (auto simp: bit_simps)
  also have "\<dots> = x"
    unfolding low32_and
  proof (rule bit_word_eqI)
    fix n assume "n < LENGTH(64)"
    then show "bit (x AND mask 32 OR push_bit 32 (drop_bit 32 x)) n = bit x n"
      by (cases "n < 32") (auto simp: bit_simps)
  qed
  finally show ?thesis by simp
qed

lemma low32_drop: "low32 (drop_bit 32 x) = drop_bit 32 x"
  unfolding low32_and by (rule bit_word_eqI) (auto simp: bit_simps dest: bit_imp_le_length)

text \<open>
  The schoolbook identity behind every 64-bit multiplication in the SSE4.1 and AVX2 kernels,
  which only have a 32 by 32 bit multiplier.
\<close>

lemma mul64_by_32:
  fixes x y :: u64
  shows "low32 x * low32 y +
     push_bit 32 (drop_bit 32 x * low32 y + low32 x * drop_bit 32 y) = x * y"
proof -
  let ?l = "low32 x" and ?h = "drop_bit 32 x" and ?m = "low32 y" and ?k = "drop_bit 32 y"
  have p: "push_bit 32 z = 4294967296 * z" for z :: u64
    by (simp add: push_bit_eq_mult)
  have "(4294967296 * ?h) * (4294967296 * ?k) = (4294967296 * 4294967296) * (?h * ?k)"
    by (simp only: ac_simps)
  moreover have "(4294967296 * 4294967296 :: u64) = 0" by simp
  ultimately have cross: "(4294967296 * ?h) * (4294967296 * ?k) = 0"
    by (simp only: mult_zero_left)
  have "x * y = (?l + 4294967296 * ?h) * (?m + 4294967296 * ?k)"
    using split64 [of x] split64 [of y] unfolding p by metis
  also have "\<dots> = ?l * ?m + 4294967296 * (?h * ?m + ?l * ?k)"
    using cross by (simp add: algebra_simps)
  finally show ?thesis by (simp add: p)
qed

end
