(* ===== verification/Murmur_X86_32.thy ===== *)
theory Murmur_X86_32
  imports Murmur_Common Vector_Ops
begin

text \<open>
  MurmurHash3 x86 32-bit: \<open>src/murmur3/x86_32/murmur3_x86_hasher32.rs\<close> (scalar kernel,
  finalisation, one-shot and incremental API) and \<open>src/murmur3/x86_32/x86.rs\<close> (the SSE4.1 and
  AVX2 kernels).  The kernels premix blocks in vector registers, store them to a scratch array
  and feed them to the sequential state update.
\<close>

section \<open>Scalar kernel and finalisation\<close>

definition X86_32_C1 :: u32 where "X86_32_C1 = 0xcc9e2d51"
definition X86_32_C2 :: u32 where "X86_32_C2 = 0x1b873593"

definition mix_hash32 :: "u32 \<Rightarrow> u32 \<Rightarrow> u32" where
  "mix_hash32 hash block = word_rotl 13 (hash XOR block) * 5 + 0xe6546b64"

definition scalar_step32 :: "bytes \<Rightarrow> nat \<Rightarrow> u32 \<Rightarrow> u32 option" where
  "scalar_step32 input offset hash =
     do {
       w \<leftarrow> read_u32_le input offset;
       let block = word_rotl 15 (w * X86_32_C1) * X86_32_C2;
       Some (mix_hash32 hash block)
     }"

definition mix_body_scalar32 :: "bytes \<Rightarrow> u32 \<Rightarrow> u32 option" where
  "mix_body_scalar32 input hash =
     do { (_, hash) \<leftarrow> scan_while (length input) 1 4 (scalar_step32 input) 0 hash; Some hash }"

definition finish_tail32 :: "bytes \<Rightarrow> u32 \<Rightarrow> u32 \<Rightarrow> u32 option" where
  "finish_tail32 tail_bytes hash0 len =
     do {
       guard (length tail_bytes < 4);
       let tail_len = length tail_bytes;
       tail \<leftarrow> (if tail_len = 3 then do { b \<leftarrow> get tail_bytes 2; Some (0 XOR push_bit 16 (ucast b)) }
                else Some 0);
       tail \<leftarrow> (if 2 \<le> tail_len then do { b \<leftarrow> get tail_bytes 1; Some (tail XOR push_bit 8 (ucast b)) }
                else Some tail);
       hash \<leftarrow> (if tail_len \<noteq> 0 then do {
                  b \<leftarrow> get tail_bytes 0;
                  let tail = tail XOR ucast b;
                  Some (hash0 XOR word_rotl 15 (tail * X86_32_C1) * X86_32_C2) }
                else Some hash0);
       Some (fmix32 (hash XOR len))
     }"

section \<open>Vector kernels\<close>

text \<open>The register width in 32-bit lanes is 8 for AVX2 and 4 for SSE4.1.\<close>

definition premix32_avx2 :: "bytes \<Rightarrow> bytes" where
  "premix32_avx2 blocks0 =
     (let blocks = mullo_epi32 blocks0 (set1 8 X86_32_C1);
          blocks = or_si (slli_epi32 15 blocks) (srli_epi32 17 blocks)
      in mullo_epi32 blocks (set1 8 X86_32_C2))"

definition premix32_sse41 :: "bytes \<Rightarrow> bytes" where
  "premix32_sse41 blocks0 =
     (let blocks = mullo_epi32 blocks0 (set1 4 X86_32_C1);
          blocks = or_si (slli_epi32 15 blocks) (srli_epi32 17 blocks)
      in mullo_epi32 blocks (set1 4 X86_32_C2))"

definition avx2_group32 :: "bytes \<Rightarrow> nat \<Rightarrow> u32 \<times> u32 list \<Rightarrow> (u32 \<times> u32 list) option" where
  "avx2_group32 input offset = (\<lambda>(value, mixed).
     do {
       first \<leftarrow> slice input offset 32;
       second \<leftarrow> slice input (offset + 32) 32;
       third \<leftarrow> slice input (offset + 64) 32;
       fourth \<leftarrow> slice input (offset + 96) 32;
       mixed \<leftarrow> store mixed 0 (lanes (premix32_avx2 first));
       mixed \<leftarrow> store mixed 8 (lanes (premix32_avx2 second));
       mixed \<leftarrow> store mixed 16 (lanes (premix32_avx2 third));
       mixed \<leftarrow> store mixed 24 (lanes (premix32_avx2 fourth));
       Some (fold (\<lambda>block v. mix_hash32 v block) mixed value, mixed)
     })"

definition avx2_single32 :: "bytes \<Rightarrow> nat \<Rightarrow> u32 \<times> u32 list \<Rightarrow> (u32 \<times> u32 list) option" where
  "avx2_single32 input offset = (\<lambda>(value, mixed).
     do {
       blocks \<leftarrow> slice input offset 32;
       mixed \<leftarrow> store mixed 0 (lanes (premix32_avx2 blocks));
       used \<leftarrow> slice mixed 0 8;
       Some (fold (\<lambda>block v. mix_hash32 v block) used value, mixed)
     })"

definition mix_body_avx2_32 :: "bytes \<Rightarrow> u32 \<Rightarrow> u32 option" where
  "mix_body_avx2_32 input hash =
     do {
       (offset, st) \<leftarrow> scan_while (length input) 128 128 (avx2_group32 input) 0 (hash, replicate 32 0);
       (offset, value, mixed) \<leftarrow> scan_while (length input) 32 32 (avx2_single32 input) offset st;
       (offset, value) \<leftarrow> scan_while (length input) 1 4 (scalar_step32 input) offset value;
       Some value
     }"

definition sse41_group32 :: "bytes \<Rightarrow> nat \<Rightarrow> u32 \<times> u32 list \<Rightarrow> (u32 \<times> u32 list) option" where
  "sse41_group32 input offset = (\<lambda>(value, mixed).
     do {
       first \<leftarrow> slice input offset 16;
       second \<leftarrow> slice input (offset + 16) 16;
       third \<leftarrow> slice input (offset + 32) 16;
       fourth \<leftarrow> slice input (offset + 48) 16;
       mixed \<leftarrow> store mixed 0 (lanes (premix32_sse41 first));
       mixed \<leftarrow> store mixed 4 (lanes (premix32_sse41 second));
       mixed \<leftarrow> store mixed 8 (lanes (premix32_sse41 third));
       mixed \<leftarrow> store mixed 12 (lanes (premix32_sse41 fourth));
       Some (fold (\<lambda>block v. mix_hash32 v block) mixed value, mixed)
     })"

definition sse41_single32 :: "bytes \<Rightarrow> nat \<Rightarrow> u32 \<times> u32 list \<Rightarrow> (u32 \<times> u32 list) option" where
  "sse41_single32 input offset = (\<lambda>(value, mixed).
     do {
       blocks \<leftarrow> slice input offset 16;
       mixed \<leftarrow> store mixed 0 (lanes (premix32_sse41 blocks));
       used \<leftarrow> slice mixed 0 4;
       Some (fold (\<lambda>block v. mix_hash32 v block) used value, mixed)
     })"

definition mix_body_sse41_32 :: "bytes \<Rightarrow> u32 \<Rightarrow> u32 option" where
  "mix_body_sse41_32 input hash =
     do {
       (offset, st) \<leftarrow> scan_while (length input) 64 64 (sse41_group32 input) 0 (hash, replicate 16 0);
       (offset, value, mixed) \<leftarrow> scan_while (length input) 16 16 (sse41_single32 input) offset st;
       (offset, value) \<leftarrow> scan_while (length input) 1 4 (scalar_step32 input) offset value;
       Some value
     }"

fun mix_body_x86_32 :: "bytes \<Rightarrow> u32 \<Rightarrow> murmur_backend \<Rightarrow> u32 option" where
  "mix_body_x86_32 blocks hash Murmur_Avx2 = mix_body_avx2_32 blocks hash"
| "mix_body_x86_32 blocks hash Murmur_Sse41 = mix_body_sse41_32 blocks hash"
| "mix_body_x86_32 blocks hash Murmur_Scalar = mix_body_scalar32 blocks hash"

section \<open>Dispatch and API\<close>

definition mix_body32 :: "target_arch \<Rightarrow> capabilities \<Rightarrow> bytes \<Rightarrow> u32 \<Rightarrow> u32 option" where
  "mix_body32 arch caps blocks hash =
     (if is_x86 arch then
        (if length blocks < X86_32_SSE41_MIN then mix_body_scalar32 blocks hash
         else mix_body_x86_32 blocks hash (select_x86_32_backend (length blocks) caps))
      else mix_body_scalar32 blocks hash)"

definition murmur3_x86_32 :: "target_arch \<Rightarrow> capabilities \<Rightarrow> bytes \<Rightarrow> u32 \<Rightarrow> u32 option" where
  "murmur3_x86_32 arch caps input seed =
     do {
       (blocks, tail) \<leftarrow> full_blocks_split 4 input;
       hash \<leftarrow> mix_body32 arch caps blocks seed;
       finish_tail32 tail hash (of_nat (length input))
     }"

type_synonym hasher32 = "(u32, u32) hasher"

definition hasher32_new :: "u32 \<Rightarrow> hasher32" where
  "hasher32_new seed = hasher_new 4 seed"

definition hasher32_update ::
  "target_arch \<Rightarrow> capabilities \<Rightarrow> hasher32 \<Rightarrow> bytes \<Rightarrow> hasher32 option" where
  "hasher32_update arch caps = hasher_update 4 (mix_body32 arch caps)"

definition hasher32_digest :: "hasher32 \<Rightarrow> u32 option" where
  "hasher32_digest = hasher_digest finish_tail32"

section \<open>Reference algorithm\<close>

definition premix32 :: "u32 \<Rightarrow> u32" where
  "premix32 w = word_rotl 15 (w * X86_32_C1) * X86_32_C2"

definition block_step32 :: "bytes \<Rightarrow> u32 \<Rightarrow> u32" where
  "block_step32 block hash = mix_hash32 hash (premix32 (le_word block))"

definition final32 :: "bytes \<Rightarrow> u32 \<Rightarrow> u32 \<Rightarrow> u32" where
  "final32 tail hash len =
     fmix32 ((if tail = [] then hash else hash XOR premix32 (le_word tail)) XOR len)"

text \<open>MurmurHash3 x86 32 as the algorithm is published: a fold over the blocks, then the tail.\<close>

definition murmur3_x86_32_spec :: "bytes \<Rightarrow> u32 \<Rightarrow> u32" where
  "murmur3_x86_32_spec input seed =
     final32 (leftover 4 input) (fold block_step32 (chunks 4 input) seed) (of_nat (length input))"

section \<open>The kernels compute the reference\<close>

lemma fold_lanes32: "fold (\<lambda>block v. mix_hash32 v block) (map premix32 (lanes bs)) v
    = fold block_step32 (chunks 4 bs) v"
  by (simp add: lanes_def fold_map comp_def block_step32_def [abs_def])

lemma lanes_premix32_avx2:
  "length v = 32 \<Longrightarrow> lanes (premix32_avx2 v) = map premix32 (lanes v)"
  by (simp add: premix32_avx2_def Let_def lane_simps rotl_shifts premix32_def comp_def)

lemma lanes_premix32_sse41:
  "length v = 16 \<Longrightarrow> lanes (premix32_sse41 v) = map premix32 (lanes v)"
  by (simp add: premix32_sse41_def Let_def lane_simps rotl_shifts premix32_def comp_def)

lemma scalar_step32_Some:
  "offset + 4 \<le> length input \<Longrightarrow>
   scalar_step32 input offset h = Some (block_step32 (take 4 (drop offset input)) h)"
  by (simp add: scalar_step32_def slice_simps block_step32_def premix32_def)

lemma scalar_loop32:
  assumes "4 dvd off" "4 dvd length input" "off \<le> length input"
  shows "scan_while (length input) 1 4 (scalar_step32 input) off h
    = Some (length input, fold block_step32 (chunks 4 (drop off input)) h)"
proof -
  obtain off' h' where l: "scan_while (length input) 1 4 (scalar_step32 input) off h = Some (off', h')"
    "off' \<le> length input" "length input < off' + 1"
    "fold block_step32 (chunks 4 (drop off' input)) h' = fold block_step32 (chunks 4 (drop off input)) h"
  proof (rule scan_while_blocks [where v = "\<lambda>h. h" and J = "\<lambda>_. True" and b = 4
        and g = block_step32 and width = 1 and stride = 4 and xs = input and off = off
        and s = h and body = "scalar_step32 input"])
    fix o' h' assume "4 dvd o'" "o' + 1 \<le> length input"
    then have "o' + 4 \<le> length input" using assms(2) dvd_fits by simp
    then show "o' + 4 \<le> length input \<and> (\<exists>s'. scalar_step32 input o' h' = Some s' \<and> True
        \<and> s' = fold block_step32 (chunks 4 (take 4 (drop o' input))) h')"
      by (simp add: scalar_step32_Some)
  qed (use assms in auto)
  then show ?thesis by auto
qed

lemma avx2_group32_Some:
  assumes "off + 128 \<le> length input" "length mixed = 32"
  obtains mixed' where "length mixed' = 32" "avx2_group32 input off (value, mixed)
    = Some (fold block_step32 (chunks 4 (take 128 (drop off input))) value, mixed')"
proof -
  let ?q = "\<lambda>k. lanes (take 32 (drop (off + k) input)) :: u32 list"
  let ?m = "map premix32 (?q 0 @ ?q 32 @ ?q 64 @ ?q 96)"
  have "take 128 (drop off input) = take 32 (drop off input) @ take 32 (drop (off + 32) input) @
      take 32 (drop (off + 64) input) @ take 32 (drop (off + 96) input)"
    using take_add [of 32 96 "drop off input"] take_add [of 32 64 "drop (off + 32) input"]
      take_add [of 32 32 "drop (off + 64) input"] by (simp add: ac_simps)
  then have "?q 0 @ ?q 32 @ ?q 64 @ ?q 96 = lanes (take 128 (drop off input))"
    using assms by (simp add: lanes_append)
  then have f: "fold (\<lambda>block v. mix_hash32 v block) ?m value
      = fold block_step32 (chunks 4 (take 128 (drop off input))) value"
    by (simp only: fold_lanes32)
  show thesis
    by (rule that [of ?m])
      (use assms in \<open>simp_all add: f [simplified] avx2_group32_def slice_simps lanes_premix32_avx2 lane_simps
        store_fill store_fill0\<close>)
qed

lemma avx2_single32_Some:
  assumes "off + 32 \<le> length input" "length mixed = 32"
  obtains mixed' where "length mixed' = 32" "avx2_single32 input off (value, mixed)
    = Some (fold block_step32 (chunks 4 (take 32 (drop off input))) value, mixed')"
proof -
  let ?m = "map premix32 (lanes (take 32 (drop off input))) @ drop 8 mixed"
  show thesis
    by (rule that [of ?m])
      (use assms in \<open>simp_all add: avx2_single32_def slice_simps lanes_premix32_avx2 lane_simps
        store_fill0 fold_lanes32\<close>)
qed

lemma sse41_group32_Some:
  assumes "off + 64 \<le> length input" "length mixed = 16"
  obtains mixed' where "length mixed' = 16" "sse41_group32 input off (value, mixed)
    = Some (fold block_step32 (chunks 4 (take 64 (drop off input))) value, mixed')"
proof -
  let ?q = "\<lambda>k. lanes (take 16 (drop (off + k) input)) :: u32 list"
  let ?m = "map premix32 (?q 0 @ ?q 16 @ ?q 32 @ ?q 48)"
  have "take 64 (drop off input) = take 16 (drop off input) @ take 16 (drop (off + 16) input) @
      take 16 (drop (off + 32) input) @ take 16 (drop (off + 48) input)"
    using take_add [of 16 48 "drop off input"] take_add [of 16 32 "drop (off + 16) input"]
      take_add [of 16 16 "drop (off + 32) input"] by (simp add: ac_simps)
  then have "?q 0 @ ?q 16 @ ?q 32 @ ?q 48 = lanes (take 64 (drop off input))"
    using assms by (simp add: lanes_append)
  then have f: "fold (\<lambda>block v. mix_hash32 v block) ?m value
      = fold block_step32 (chunks 4 (take 64 (drop off input))) value"
    by (simp only: fold_lanes32)
  show thesis
    by (rule that [of ?m])
      (use assms in \<open>simp_all add: f [simplified] sse41_group32_def slice_simps lanes_premix32_sse41 lane_simps
        store_fill store_fill0\<close>)
qed

lemma sse41_single32_Some:
  assumes "off + 16 \<le> length input" "length mixed = 16"
  obtains mixed' where "length mixed' = 16" "sse41_single32 input off (value, mixed)
    = Some (fold block_step32 (chunks 4 (take 16 (drop off input))) value, mixed')"
proof -
  let ?m = "map premix32 (lanes (take 16 (drop off input))) @ drop 4 mixed"
  show thesis
    by (rule that [of ?m])
      (use assms in \<open>simp_all add: sse41_single32_def slice_simps lanes_premix32_sse41 lane_simps
        store_fill0 fold_lanes32\<close>)
qed

text \<open>Both vector kernels run a four-register loop, a one-register loop and the scalar loop.\<close>

lemma two_stage_kernel32:
  fixes mixed :: "u32 list" and grp sgl :: "nat \<Rightarrow> u32 \<times> u32 list \<Rightarrow> (u32 \<times> u32 list) option"
  assumes len: "4 dvd length input" and w: "4 dvd w" "4 dvd w'" "0 < w" "0 < w'"
    and m: "length mixed = k"
    and group: "\<And>off value mixed. off + w \<le> length input \<Longrightarrow> length mixed = k \<Longrightarrow>
      \<exists>mixed'. length mixed' = k \<and> grp off (value, mixed)
        = Some (fold block_step32 (chunks 4 (take w (drop off input))) value, mixed')"
    and single: "\<And>off value mixed. off + w' \<le> length input \<Longrightarrow> length mixed = k \<Longrightarrow>
      \<exists>mixed'. length mixed' = k \<and> sgl off (value, mixed)
        = Some (fold block_step32 (chunks 4 (take w' (drop off input))) value, mixed')"
  shows "do {
       (offset, st) \<leftarrow> scan_while (length input) w w grp 0 (h, mixed);
       (offset, value, mixed) \<leftarrow> scan_while (length input) w' w' sgl offset st;
       (offset, value) \<leftarrow> scan_while (length input) 1 4 (scalar_step32 input) offset value;
       Some value } = Some (fold block_step32 (chunks 4 input) h)"
proof -
  obtain o1 s1 o2 h2 m2 where l: "scan_while (length input) w w grp 0 (h, mixed) = Some (o1, s1)"
    "scan_while (length input) w' w' sgl o1 s1 = Some (o2, h2, m2)" "4 dvd o2" "o2 \<le> length input"
    "fold block_step32 (chunks 4 (drop o2 input)) h2 = fold block_step32 (chunks 4 input) h"
    by (rule scan_while_scratch [OF w(3,1,4,2) m group single])
  show ?thesis
    using l scalar_loop32 [OF l(3) len l(4), of h2] by simp
qed

lemma mix_body_scalar32_folds:
  "4 dvd length input \<Longrightarrow>
   mix_body_scalar32 input h = Some (fold block_step32 (chunks 4 input) h)"
  using scalar_loop32 [of 0 input h] by (simp add: mix_body_scalar32_def)

lemma mix_body_avx2_32_folds:
  assumes "4 dvd length input"
  shows "mix_body_avx2_32 input h = Some (fold block_step32 (chunks 4 input) h)"
  unfolding mix_body_avx2_32_def
proof (rule two_stage_kernel32 [OF assms])
  fix off :: nat and v :: u32 and mixed :: "u32 list"
  assume "off + 128 \<le> length input" "length mixed = 32"
  then show "\<exists>mixed'. length mixed' = 32 \<and> avx2_group32 input off (v, mixed)
        = Some (fold block_step32 (chunks 4 (take 128 (drop off input))) v, mixed')"
    using avx2_group32_Some by metis
next
  fix off :: nat and v :: u32 and mixed :: "u32 list"
  assume "off + 32 \<le> length input" "length mixed = 32"
  then show "\<exists>mixed'. length mixed' = 32 \<and> avx2_single32 input off (v, mixed)
        = Some (fold block_step32 (chunks 4 (take 32 (drop off input))) v, mixed')"
    using avx2_single32_Some by metis
qed simp_all

lemma mix_body_sse41_32_folds:
  assumes "4 dvd length input"
  shows "mix_body_sse41_32 input h = Some (fold block_step32 (chunks 4 input) h)"
  unfolding mix_body_sse41_32_def
proof (rule two_stage_kernel32 [OF assms])
  fix off :: nat and v :: u32 and mixed :: "u32 list"
  assume "off + 64 \<le> length input" "length mixed = 16"
  then show "\<exists>mixed'. length mixed' = 16 \<and> sse41_group32 input off (v, mixed)
        = Some (fold block_step32 (chunks 4 (take 64 (drop off input))) v, mixed')"
    using sse41_group32_Some by metis
next
  fix off :: nat and v :: u32 and mixed :: "u32 list"
  assume "off + 16 \<le> length input" "length mixed = 16"
  then show "\<exists>mixed'. length mixed' = 16 \<and> sse41_single32 input off (v, mixed)
        = Some (fold block_step32 (chunks 4 (take 16 (drop off input))) v, mixed')"
    using sse41_single32_Some by metis
qed simp_all

lemma mix_body_x86_32_folds:
  "4 dvd length input \<Longrightarrow>
   mix_body_x86_32 input h backend = Some (fold block_step32 (chunks 4 input) h)"
  by (cases backend)
    (simp_all add: mix_body_avx2_32_folds mix_body_sse41_32_folds mix_body_scalar32_folds)

lemma mix_body32_folds:
  "4 dvd length input \<Longrightarrow>
   mix_body32 arch caps input h = Some (fold block_step32 (chunks 4 input) h)"
  by (simp add: mix_body32_def mix_body_x86_32_folds mix_body_scalar32_folds)

lemma finish_tail32_final:
  assumes "length t < 4"
  shows "finish_tail32 t h l = Some (final32 t h l)"
proof -
  have "length t \<in> {0, 1, 2, 3}" using assms by (auto simp: numeral_eq_Suc less_Suc_eq)
  then show ?thesis
    by (elim insertE emptyE)
      (auto simp: lists_of_length finish_tail32_def final32_def slice_simps get_def le_word_Cons_xor
        premix32_def push_bit_xor ac_simps)
qed

lemma block_hash_murmur32:
  "block_hash 4 (mix_body32 arch caps) block_step32 finish_tail32 final32"
  by unfold_locales (simp_all add: mix_body32_folds finish_tail32_final)

interpretation mm32: block_hash 4 "mix_body32 arch caps" block_step32 finish_tail32 final32
  for arch caps
  by (rule block_hash_murmur32)

lemma digest_of_murmur32: "mm32.digest_of seed msg = murmur3_x86_32_spec msg seed"
  by (simp add: mm32.digest_of_def murmur3_x86_32_spec_def)

lemma murmur3_x86_32_eq:
  "murmur3_x86_32 arch caps input seed = Some (murmur3_x86_32_spec input seed)"
  using mm32.one_shot [where input = input and ?s0.0 = seed and arch = arch and caps = caps]
  by (simp add: murmur3_x86_32_def digest_of_murmur32)

text \<open>The reference vector of \<open>src/murmur3/tests/reference.rs\<close>: the bytes of \<open>hello\<close>.\<close>

lemma murmur3_x86_32_hello:
  "murmur3_x86_32 arch caps [0x68, 0x65, 0x6c, 0x6c, 0x6f] 0 = Some 0x248bfa47"
  unfolding murmur3_x86_32_eq by code_simp

section \<open>Properties\<close>

text \<open>
  C1: the one-shot MurmurHash3 x86 32 never panics and never reads out of bounds, and on every
  architecture and for every CPU capability set - whichever of the scalar, SSE4.1 and AVX2 kernels
  is selected - it returns the hash the algorithm defines.
\<close>

theorem murmur3_x86_32_correct:
  "murmur3_x86_32 arch caps input seed = Some (murmur3_x86_32_spec input seed)"
  by (rule murmur3_x86_32_eq)

text \<open>
  C4: the incremental hasher is the one-shot hash. Any sequence of updates, whatever the sizes
  of its pieces, succeeds and its digest is the one-shot hash of their concatenation.
\<close>

theorem hasher32_incremental:
  "(foldM (\<lambda>piece h. hasher32_update arch caps h piece) pieces (hasher32_new seed) \<bind> hasher32_digest)
   = murmur3_x86_32 arch' caps' (concat pieces) seed"
  using mm32.updates_digest [where arch = arch and caps = caps and xs = pieces and ?s0.0 = seed]
  by (simp add: hasher32_update_def hasher32_new_def hasher32_digest_def murmur3_x86_32_eq
      digest_of_murmur32)

text \<open>
  C7: the state invariant of the incremental hasher. After any sequence of updates the buffer holds
  fewer than four bytes, the length counter is the number of bytes absorbed modulo \<open>2 ^ 32\<close>, the
  digest is that of the bytes absorbed (reading it changes nothing), and a further update of any
  size succeeds.
\<close>

theorem hasher32_reachable:
  assumes "hasher_reaches (hasher32_update arch caps) (hasher32_new seed) msg h"
  shows "buf_len (h_tail h) < 4 \<and> h_total h = of_nat (length msg) \<and>
    hasher32_digest h = Some (murmur3_x86_32_spec msg seed) \<and>
    (\<exists>h'. hasher32_update arch caps h x = Some h')"
proof -
  have reach: "hasher_reaches (hasher_update 4 (mix_body32 arch caps)) (hasher_new 4 seed) msg h"
    using assms by (simp add: hasher32_update_def hasher32_new_def)
  then have "mm32.absorbed seed msg h" by (rule mm32.reaches_absorbed)
  then show ?thesis
    using mm32.digest_absorbed [of seed msg h] mm32.reaches_progress [OF reach, of x]
    by (simp add: mm32.absorbed_def buffer_ok_def hasher32_digest_def hasher32_update_def
        digest_of_murmur32)
qed

theorem hasher32_reachable_witness:
  "\<exists>h. hasher_reaches (hasher32_update Arch_X86_64 scalar_capabilities) (hasher32_new 7) [1, 2, 3, 4, 5] h \<and>
     buf_len (h_tail h) < 4 \<and> h_total h = 5 \<and>
     hasher32_digest h = Some (murmur3_x86_32_spec [1, 2, 3, 4, 5] 7)"
proof -
  obtain h1 where h1: "hasher32_update Arch_X86_64 scalar_capabilities (hasher32_new 7) [1, 2, 3, 4, 5] = Some h1"
    unfolding hasher32_update_def hasher32_new_def
    using mm32.update_absorbs [OF mm32.absorbed_new] by blast
  have r: "hasher_reaches (hasher32_update Arch_X86_64 scalar_capabilities) (hasher32_new 7) [1, 2, 3, 4, 5] h1"
    using hasher_reaches.update [where upd = "hasher32_update Arch_X86_64 scalar_capabilities",
        OF hasher_reaches.start h1] by simp
  show ?thesis
    using hasher32_reachable [OF r, of "[]"] r by auto
qed

end
