(* ===== verification/Murmur_X86_128.thy ===== *)
theory Murmur_X86_128
  imports Murmur_Common Vector_Ops
begin

text \<open>
  MurmurHash3 x86 128-bit: \<open>src/murmur3/x86_128/murmur3_x86_hasher128.rs\<close> and its SSE4.1 and
  AVX2 kernels in \<open>src/murmur3/x86_128/x86.rs\<close>.  The four state words are a tuple.  The scratch
  array of a vector kernel is uninitialised memory in the source; the model starts it with
  zeroes, and no result depends on them.
\<close>

section \<open>Scalar kernel and finalisation\<close>

type_synonym hashes128 = "u32 \<times> u32 \<times> u32 \<times> u32"

definition X86_128_C1 :: "u32 list" where
  "X86_128_C1 = [0x239b961b, 0xab0e9789, 0x38b34ae5, 0xa1e38b93]"

definition X86_128_C2 :: "u32 list" where
  "X86_128_C2 = [0xab0e9789, 0x38b34ae5, 0xa1e38b93, 0x239b961b]"

definition ROTATE_K :: "nat list" where "ROTATE_K = [15, 16, 17, 18]"

text \<open>
  \<open>lea value:e, [value + value * 4 + addend]\<close> on x86 adds at pointer width (64 or 32 bits) with
  the displacement sign-extended, and keeps the low 32 bits.
\<close>

definition scale_hash128 :: "target_arch \<Rightarrow> u32 \<Rightarrow> u32 \<Rightarrow> u32" where
  "scale_hash128 arch addend hash =
     (case arch of
        Arch_X86_64 \<Rightarrow> (let value = (ucast hash :: u64) in ucast (value + value * 4 + scast addend))
      | Arch_X86 \<Rightarrow> hash + hash * 4 + addend
      | _ \<Rightarrow> hash * 5 + addend)"

definition mix_hashes128 ::
  "target_arch \<Rightarrow> hashes128 \<Rightarrow> u32 \<Rightarrow> u32 \<Rightarrow> u32 \<Rightarrow> u32 \<Rightarrow> hashes128" where
  "mix_hashes128 arch = (\<lambda>(h0, h1, h2, h3) block1 block2 block3 block4.
     let h0 = scale_hash128 arch 0x561ccd1b (word_rotl 19 (h0 XOR block1) + h1);
         h1 = scale_hash128 arch 0x0bcaa747 (word_rotl 17 (h1 XOR block2) + h2);
         h2 = scale_hash128 arch 0x96cd1c35 (word_rotl 15 (h2 XOR block3) + h3);
         h3 = scale_hash128 arch 0x32ac3b17 (word_rotl 13 (h3 XOR block4) + h0)
     in (h0, h1, h2, h3))"

definition scalar_step128 :: "target_arch \<Rightarrow> bytes \<Rightarrow> nat \<Rightarrow> hashes128 \<Rightarrow> hashes128 option" where
  "scalar_step128 arch input offset hashes =
     do {
       w1 \<leftarrow> read_u32_le input offset;
       let block1 = word_rotl (ROTATE_K ! 0) (w1 * X86_128_C1 ! 0) * X86_128_C2 ! 0;
       w2 \<leftarrow> read_u32_le input (offset + 4);
       let block2 = word_rotl (ROTATE_K ! 1) (w2 * X86_128_C1 ! 1) * X86_128_C2 ! 1;
       w3 \<leftarrow> read_u32_le input (offset + 8);
       let block3 = word_rotl (ROTATE_K ! 2) (w3 * X86_128_C1 ! 2) * X86_128_C2 ! 2;
       w4 \<leftarrow> read_u32_le input (offset + 12);
       let block4 = word_rotl (ROTATE_K ! 3) (w4 * X86_128_C1 ! 3) * X86_128_C2 ! 3;
       Some (mix_hashes128 arch hashes block1 block2 block3 block4)
     }"

definition mix_body_scalar128 :: "target_arch \<Rightarrow> bytes \<Rightarrow> hashes128 \<Rightarrow> hashes128 option" where
  "mix_body_scalar128 arch input hashes =
     do { (_, hashes) \<leftarrow> scan_while (length input) 1 16 (scalar_step128 arch input) 0 hashes;
          Some hashes }"

definition finalize128 :: "hashes128 \<Rightarrow> u32 \<Rightarrow> hashes128" where
  "finalize128 = (\<lambda>(h0, h1, h2, h3) len.
     let h0 = h0 XOR len; h1 = h1 XOR len; h2 = h2 XOR len; h3 = h3 XOR len;
         h0 = h0 + h1 + h2 + h3; h1 = h1 + h0; h2 = h2 + h0; h3 = h3 + h0;
         h0 = fmix32 h0; h1 = fmix32 h1; h2 = fmix32 h2; h3 = fmix32 h3;
         h0 = h0 + h1 + h2 + h3; h1 = h1 + h0; h2 = h2 + h0; h3 = h3 + h0
     in (h0, h1, h2, h3))"

definition tail_words128 :: "bytes \<Rightarrow> u32 list option" where
  "tail_words128 tail_bytes =
     foldM (\<lambda>(index, byte) blocks. do {
         b \<leftarrow> get blocks (index div 4);
         Some (blocks[index div 4 := b OR push_bit (index mod 4 * 8) (ucast byte)]) })
       (enumerate 0 tail_bytes) [0, 0, 0, 0]"

definition finish_tail128 :: "bytes \<Rightarrow> hashes128 \<Rightarrow> u32 \<Rightarrow> hashes128 option" where
  "finish_tail128 tail_bytes = (\<lambda>(h0, h1, h2, h3) len.
     do {
       guard (length tail_bytes < 16);
       blocks \<leftarrow> tail_words128 tail_bytes;
       let h3 = (if 12 < length tail_bytes
                 then h3 XOR word_rotl 18 (blocks ! 3 * X86_128_C1 ! 3) * X86_128_C2 ! 3 else h3);
       let h2 = (if 8 < length tail_bytes
                 then h2 XOR word_rotl 17 (blocks ! 2 * X86_128_C1 ! 2) * X86_128_C2 ! 2 else h2);
       let h1 = (if 4 < length tail_bytes
                 then h1 XOR word_rotl 16 (blocks ! 1 * X86_128_C1 ! 1) * X86_128_C2 ! 1 else h1);
       let h0 = (if tail_bytes \<noteq> []
                 then h0 XOR word_rotl 15 (blocks ! 0 * X86_128_C1 ! 0) * X86_128_C2 ! 0 else h0);
       Some (finalize128 (h0, h1, h2, h3) len)
     })"

section \<open>Vector kernels\<close>

definition mix_blocks128 :: "target_arch \<Rightarrow> u32 list \<Rightarrow> hashes128 \<Rightarrow> hashes128" where
  "mix_blocks128 arch blocks hashes =
     fold (\<lambda>b hashes. mix_hashes128 arch hashes (b ! 0) (b ! 1) (b ! 2) (b ! 3)) (chunks 4 blocks) hashes"

definition premix128_avx2 :: "bytes \<Rightarrow> bytes \<Rightarrow> bytes \<Rightarrow> bytes \<Rightarrow> bytes \<Rightarrow> bytes" where
  "premix128_avx2 blocks0 c1 c2 rotate_left rotate_right =
     (let blocks = mullo_epi32 blocks0 c1;
          blocks = or_si (sllv_epi32 blocks rotate_left) (srlv_epi32 blocks rotate_right)
      in mullo_epi32 blocks c2)"

definition premixed128_avx2 :: "bytes \<Rightarrow> bytes" where
  "premixed128_avx2 blocks =
     premix128_avx2 blocks (set_lanes (X86_128_C1 @ X86_128_C1)) (set_lanes (X86_128_C2 @ X86_128_C2))
       (set_lanes [15, 16, 17, 18, 15, 16, 17, 18 :: u32])
       (set_lanes [17, 16, 15, 14, 17, 16, 15, 14 :: u32])"

definition avx2_group128 ::
  "target_arch \<Rightarrow> bytes \<Rightarrow> nat \<Rightarrow> hashes128 \<times> u32 list \<Rightarrow> (hashes128 \<times> u32 list) option" where
  "avx2_group128 arch input offset = (\<lambda>(hashes, mixed).
     do {
       mixed \<leftarrow> foldM (\<lambda>vector mixed. do {
           blocks \<leftarrow> slice input (offset + vector * 32) 32;
           store mixed (vector * 8) (lanes (premixed128_avx2 blocks)) }) [0..<4] mixed;
       words \<leftarrow> slice mixed 0 32;
       Some (mix_blocks128 arch words hashes, mixed)
     })"

definition avx2_single128 ::
  "target_arch \<Rightarrow> bytes \<Rightarrow> nat \<Rightarrow> hashes128 \<times> u32 list \<Rightarrow> (hashes128 \<times> u32 list) option" where
  "avx2_single128 arch input offset = (\<lambda>(hashes, mixed).
     do {
       blocks \<leftarrow> slice input offset 32;
       mixed \<leftarrow> store mixed 0 (lanes (premixed128_avx2 blocks));
       words \<leftarrow> slice mixed 0 8;
       Some (mix_blocks128 arch words hashes, mixed)
     })"

text \<open>Both kernels leave a rest that is again made of full blocks, or the \<open>expect\<close> panics.\<close>

definition mix_rest128 :: "target_arch \<Rightarrow> bytes \<Rightarrow> nat \<Rightarrow> hashes128 \<Rightarrow> hashes128 option" where
  "mix_rest128 arch input offset hashes =
     do {
       rest \<leftarrow> slice input offset (length input - offset);
       remaining \<leftarrow> full_blocks_new 16 rest;
       mix_body_scalar128 arch remaining hashes
     }"

definition mix_body_avx2_128 :: "target_arch \<Rightarrow> bytes \<Rightarrow> hashes128 \<Rightarrow> hashes128 option" where
  "mix_body_avx2_128 arch input hashes =
     do {
       (offset, st) \<leftarrow>
         scan_while (length input) 128 128 (avx2_group128 arch input) 0 (hashes, replicate 32 0);
       (offset, hashes, mixed) \<leftarrow> scan_while (length input) 32 32 (avx2_single128 arch input) offset st;
       mix_rest128 arch input offset hashes
     }"

definition premix_lane_sse41 :: "nat \<Rightarrow> nat \<Rightarrow> bytes \<Rightarrow> u32 \<Rightarrow> u32 \<Rightarrow> bytes" where
  "premix_lane_sse41 left right blocks0 c1 c2 =
     (let blocks = mullo_epi32 blocks0 (set1 4 c1);
          blocks = or_si (slli_epi32 left blocks) (srli_epi32 right blocks)
      in mullo_epi32 blocks (set1 4 c2))"

definition premix_group_sse41 :: "bytes \<Rightarrow> nat \<Rightarrow> u32 list \<Rightarrow> nat \<Rightarrow> u32 list option" where
  "premix_group_sse41 input offset mixed at =
     do {
       row0 \<leftarrow> slice input offset 16;
       row1 \<leftarrow> slice input (offset + 16) 16;
       row2 \<leftarrow> slice input (offset + 32) 16;
       row3 \<leftarrow> slice input (offset + 48) 16;
       let low01 = unpacklo_epi32 row0 row1;
       let high01 = unpackhi_epi32 row0 row1;
       let low23 = unpacklo_epi32 row2 row3;
       let high23 = unpackhi_epi32 row2 row3;
       let block1 = premix_lane_sse41 15 17 (unpacklo_epi64 low01 low23) (X86_128_C1 ! 0) (X86_128_C2 ! 0);
       let block2 = premix_lane_sse41 16 16 (unpackhi_epi64 low01 low23) (X86_128_C1 ! 1) (X86_128_C2 ! 1);
       let block3 = premix_lane_sse41 17 15 (unpacklo_epi64 high01 high23) (X86_128_C1 ! 2) (X86_128_C2 ! 2);
       let block4 = premix_lane_sse41 18 14 (unpackhi_epi64 high01 high23) (X86_128_C1 ! 3) (X86_128_C2 ! 3);
       mixed \<leftarrow> store mixed at (lanes block1);
       mixed \<leftarrow> store mixed (at + 4) (lanes block2);
       mixed \<leftarrow> store mixed (at + 8) (lanes block3);
       store mixed (at + 12) (lanes block4)
     }"

definition mix_transposed_group :: "target_arch \<Rightarrow> u32 list \<Rightarrow> hashes128 \<Rightarrow> hashes128 option" where
  "mix_transposed_group arch mixed hashes =
     foldM (\<lambda>index hashes. do {
         a \<leftarrow> get mixed index;
         b \<leftarrow> get mixed (4 + index);
         c \<leftarrow> get mixed (8 + index);
         d \<leftarrow> get mixed (12 + index);
         Some (mix_hashes128 arch hashes a b c d) }) [0..<4] hashes"

definition sse41_group128 ::
  "target_arch \<Rightarrow> bytes \<Rightarrow> nat \<Rightarrow> hashes128 \<times> u32 list \<Rightarrow> (hashes128 \<times> u32 list) option" where
  "sse41_group128 arch input offset = (\<lambda>(hashes, mixed).
     do {
       mixed \<leftarrow> foldM (\<lambda>group mixed. premix_group_sse41 input (offset + group * 64) mixed (group * 16))
         [0..<4] mixed;
       hashes \<leftarrow> foldM (\<lambda>group hashes. do {
           words \<leftarrow> slice mixed (group * 16) 16;
           mix_transposed_group arch words hashes }) [0..<4] hashes;
       Some (hashes, mixed)
     })"

definition sse41_single128 ::
  "target_arch \<Rightarrow> bytes \<Rightarrow> nat \<Rightarrow> hashes128 \<times> u32 list \<Rightarrow> (hashes128 \<times> u32 list) option" where
  "sse41_single128 arch input offset = (\<lambda>(hashes, mixed).
     do {
       mixed \<leftarrow> premix_group_sse41 input offset mixed 0;
       words \<leftarrow> slice mixed 0 16;
       hashes \<leftarrow> mix_transposed_group arch words hashes;
       Some (hashes, mixed)
     })"

definition mix_body_sse41_128 :: "target_arch \<Rightarrow> bytes \<Rightarrow> hashes128 \<Rightarrow> hashes128 option" where
  "mix_body_sse41_128 arch input hashes =
     do {
       (offset, st) \<leftarrow>
         scan_while (length input) 256 256 (sse41_group128 arch input) 0 (hashes, replicate 64 0);
       (offset, hashes, mixed) \<leftarrow> scan_while (length input) 64 64 (sse41_single128 arch input) offset st;
       mix_rest128 arch input offset hashes
     }"

fun mix_body_x86_128 ::
  "target_arch \<Rightarrow> bytes \<Rightarrow> hashes128 \<Rightarrow> murmur_backend \<Rightarrow> hashes128 option" where
  "mix_body_x86_128 arch blocks hashes Murmur_Avx2 = mix_body_avx2_128 arch blocks hashes"
| "mix_body_x86_128 arch blocks hashes Murmur_Sse41 = mix_body_sse41_128 arch blocks hashes"
| "mix_body_x86_128 arch blocks hashes Murmur_Scalar = mix_body_scalar128 arch blocks hashes"

section \<open>Dispatch and API\<close>

definition mix_body128 :: "target_arch \<Rightarrow> capabilities \<Rightarrow> bytes \<Rightarrow> hashes128 \<Rightarrow> hashes128 option" where
  "mix_body128 arch caps blocks hashes =
     (if is_x86 arch then
        (if length blocks < X86_128_AVX2_MIN then mix_body_scalar128 arch blocks hashes
         else mix_body_x86_128 arch blocks hashes (select_x86_128_backend (length blocks) caps))
      else mix_body_scalar128 arch blocks hashes)"

definition murmur3_x86_128 :: "target_arch \<Rightarrow> capabilities \<Rightarrow> bytes \<Rightarrow> u32 \<Rightarrow> hashes128 option" where
  "murmur3_x86_128 arch caps input seed =
     do {
       (blocks, tail) \<leftarrow> full_blocks_split 16 input;
       hashes \<leftarrow> mix_body128 arch caps blocks (seed, seed, seed, seed);
       finish_tail128 tail hashes (of_nat (length input))
     }"

type_synonym hasher_x86_128 = "(hashes128, u32) hasher"

definition hasher_x86_128_new :: "u32 \<Rightarrow> hasher_x86_128" where
  "hasher_x86_128_new seed = hasher_new 16 (seed, seed, seed, seed)"

definition hasher_x86_128_update ::
  "target_arch \<Rightarrow> capabilities \<Rightarrow> hasher_x86_128 \<Rightarrow> bytes \<Rightarrow> hasher_x86_128 option" where
  "hasher_x86_128_update arch caps = hasher_update 16 (mix_body128 arch caps)"

definition hasher_x86_128_digest :: "hasher_x86_128 \<Rightarrow> hashes128 option" where
  "hasher_x86_128_digest = hasher_digest finish_tail128"

section \<open>Reference algorithm\<close>

text \<open>The published algorithm: premixed words of a block, the step, and the tail zero-padded.\<close>

definition premix_words128 :: "bytes \<Rightarrow> u32 list" where
  "premix_words128 block =
     map2 (\<lambda>(k, c1, c2) w. word_rotl k (w * c1) * c2)
       (zip ROTATE_K (zip X86_128_C1 X86_128_C2)) (lanes block)"

definition mix_words128 :: "u32 list \<Rightarrow> hashes128 \<Rightarrow> hashes128" where
  "mix_words128 ws = (\<lambda>(h0, h1, h2, h3).
     let h0 = (word_rotl 19 (h0 XOR ws ! 0) + h1) * 5 + 0x561ccd1b;
         h1 = (word_rotl 17 (h1 XOR ws ! 1) + h2) * 5 + 0x0bcaa747;
         h2 = (word_rotl 15 (h2 XOR ws ! 2) + h3) * 5 + 0x96cd1c35;
         h3 = (word_rotl 13 (h3 XOR ws ! 3) + h0) * 5 + 0x32ac3b17
     in (h0, h1, h2, h3))"

definition block_step128 :: "bytes \<Rightarrow> hashes128 \<Rightarrow> hashes128" where
  "block_step128 block = mix_words128 (premix_words128 block)"

definition final128 :: "bytes \<Rightarrow> hashes128 \<Rightarrow> u32 \<Rightarrow> hashes128" where
  "final128 tail = (\<lambda>(h0, h1, h2, h3) len.
     let ws = premix_words128 (tail @ replicate (16 - length tail) 0)
     in finalize128 (h0 XOR ws ! 0, h1 XOR ws ! 1, h2 XOR ws ! 2, h3 XOR ws ! 3) len)"

definition murmur3_x86_128_spec :: "bytes \<Rightarrow> u32 \<Rightarrow> hashes128" where
  "murmur3_x86_128_spec input seed =
     final128 (leftover 16 input) (fold block_step128 (chunks 16 input) (seed, seed, seed, seed))
       (of_nat (length input))"


section \<open>The kernels compute the reference\<close>

lemma take_bit_narrow:
  "take_bit 32 (take_bit 64 x + take_bit 64 y) = take_bit 32 (x + y)"
  "take_bit 32 (take_bit 64 x * take_bit 64 y) = take_bit 32 (x * y)" for x y :: int
  using take_bit_add [of 32 "take_bit 64 x" "take_bit 64 y"] take_bit_add [of 32 x y]
    take_bit_mult [of 32 "take_bit 64 x" "take_bit 64 y"] take_bit_mult [of 32 x y]
  by simp_all

lemma ucast_down_add: "(ucast (x + y :: u64) :: u32) = ucast x + ucast y"
  by transfer (simp add: take_bit_add take_bit_narrow)

lemma ucast_down_mult: "(ucast (x * y :: u64) :: u32) = ucast x * ucast y"
  by transfer (simp add: take_bit_mult take_bit_narrow)

lemma ucast_scast_up: "(ucast (scast (x :: u32) :: u64) :: u32) = x"
  by (rule bit_word_eqI) (auto simp: bit_simps)

lemma ucast_ucast_up: "(ucast (ucast (x :: u32) :: u64) :: u32) = x"
  by (rule bit_word_eqI) (auto simp: bit_simps)

lemma scale_hash128_eq: "scale_hash128 arch addend h = h * 5 + addend"
  by (simp add: scale_hash128_def Let_def ucast_down_add ucast_down_mult ucast_scast_up
      ucast_ucast_up split: target_arch.split)

lemma mix_hashes128_words:
  "mix_hashes128 arch h (ws ! 0) (ws ! 1) (ws ! 2) (ws ! 3) = mix_words128 ws h"
  by (simp add: mix_hashes128_def mix_words128_def scale_hash128_eq split: prod.split)

lemma lanes_of_block:
  assumes "length v = 16"
  obtains a b c d :: u32 where "lanes v = [a, b, c, d]"
proof -
  have "length (lanes v :: u32 list) = 4" using assms by (simp add: lane_simps)
  then show thesis using that by (auto simp: length_eq_4)
qed

lemma length_premix_words128: "length v = 16 \<Longrightarrow> length (premix_words128 v) = 4"
  by (simp add: premix_words128_def lane_simps ROTATE_K_def X86_128_C1_def X86_128_C2_def)

lemma mix_blocks128_premixed:
  "mix_blocks128 arch (concat (map premix_words128 (chunks 16 v))) h = fold block_step128 (chunks 16 v) h"
proof -
  have "chunks 4 (concat (map premix_words128 (chunks 16 v))) = map premix_words128 (chunks 16 v)"
    by (rule chunks_concat) (auto dest: chunks_lengths simp: length_premix_words128)
  then show ?thesis
    by (simp add: mix_blocks128_def fold_map mix_hashes128_words comp_def block_step128_def [abs_def]
        del: One_nat_def)
qed

lemma lanes_quarters:
  fixes v :: bytes
  assumes "length v = 16"
  shows "lanes v = [le_word (take 4 v), le_word (take 4 (drop 4 v)), le_word (take 4 (drop 8 v)),
    (le_word (take 4 (drop 12 v)) :: u32)]"
  using assms by (simp add: lanes_def chunks.simps)

lemma scalar_step128_Some:
  "offset + 16 \<le> length input \<Longrightarrow>
   scalar_step128 arch input offset h = Some (block_step128 (take 16 (drop offset input)) h)"
  by (simp add: scalar_step128_def slice_simps block_step128_def premix_words128_def lanes_quarters
      mix_hashes128_def mix_words128_def scale_hash128_eq
      ROTATE_K_def X86_128_C1_def X86_128_C2_def drop_take add.commute split: prod.split)

lemma mix_body_scalar128_folds:
  assumes "16 dvd length input"
  shows "mix_body_scalar128 arch input h = Some (fold block_step128 (chunks 16 input) h)"
proof -
  obtain off' h' where l: "scan_while (length input) 1 16 (scalar_step128 arch input) 0 h = Some (off', h')"
    "off' \<le> length input" "length input < off' + 1"
    "fold block_step128 (chunks 16 (drop off' input)) h' = fold block_step128 (chunks 16 (drop 0 input)) h"
  proof (rule scan_while_blocks [where v = "\<lambda>h. h" and J = "\<lambda>_. True" and b = 16
        and g = block_step128 and width = 1 and stride = 16 and xs = input and off = 0
        and s = h and body = "scalar_step128 arch input"])
    fix o' h' assume "16 dvd o'" "o' + 1 \<le> length input"
    then have "o' + 16 \<le> length input" using assms dvd_fits by simp
    then show "o' + 16 \<le> length input \<and> (\<exists>s'. scalar_step128 arch input o' h' = Some s' \<and> True
        \<and> s' = fold block_step128 (chunks 16 (take 16 (drop o' input))) h')"
      by (simp add: scalar_step128_Some)
  qed auto
  then show ?thesis by (simp add: mix_body_scalar128_def)
qed

lemma mix_rest128_folds:
  assumes "16 dvd off" "16 dvd length input" "off \<le> length input"
  shows "mix_rest128 arch input off h = Some (fold block_step128 (chunks 16 (drop off input)) h)"
  using assms by (simp add: mix_rest128_def slice_simps full_blocks_new_def mix_body_scalar128_folds
      dvd_diff_nat flip: dvd_eq_mod_eq_0)

lemma lanes_premixed128_avx2:
  assumes "length v = 32"
  shows "lanes (premixed128_avx2 v) = concat (map premix_words128 (chunks 16 v))"
proof -
  let ?l = "take 16 v" and ?r = "drop 16 v"
  obtain a b c d :: u32 where l: "lanes ?l = [a, b, c, d]"
    by (rule lanes_of_block [of ?l]) (use assms in simp)
  obtain e f g h :: u32 where r: "lanes ?r = [e, f, g, h]"
    by (rule lanes_of_block [of ?r]) (use assms in simp)
  have v: "lanes v = [a, b, c, d, e, f, g, h]"
    using lanes_append [of ?l ?r, where 'a = 32] l r assms by simp
  have "chunks 16 v = [?l, ?r]"
    using chunks_append [of 16 ?l ?r] assms by simp
  then show ?thesis
    using assms by (simp add: premixed128_avx2_def premix128_avx2_def Let_def lane_simps v
        premix_words128_def l r ROTATE_K_def X86_128_C1_def X86_128_C2_def rotl_shifts)
qed

lemma premixed_windows128:
  assumes "32 dvd length v"
  shows "concat (map (\<lambda>b. lanes (premixed128_avx2 b)) (chunks 32 v))
    = concat (map premix_words128 (chunks 16 v))"
  by (rule concat_windows) (simp_all add: assms lanes_premixed128_avx2)

lemma length_premixed128: "length b = 32 \<Longrightarrow> length (lanes (premixed128_avx2 b) :: u32 list) = 8"
  by (simp add: premixed128_avx2_def premix128_avx2_def Let_def lane_simps X86_128_C1_def
      X86_128_C2_def)

lemma avx2_group128_Some:
  assumes "off + 128 \<le> length input" "length mixed = 32"
  shows "\<exists>mixed'. length mixed' = 32 \<and> avx2_group128 arch input off (h, mixed)
    = Some (fold block_step128 (chunks 16 (take 128 (drop off input))) h, mixed')"
proof -
  let ?w = "take 128 (drop off input)"
  have len: "length ?w = 128" using assms by simp
  let ?m = "concat (map premix_words128 (chunks 16 ?w))"
  have "foldM (\<lambda>vector mixed. do {
           blocks \<leftarrow> slice input (off + vector * 32) 32;
           store mixed (vector * 8) (lanes (premixed128_avx2 blocks)) }) [0..<4] mixed
      = Some (concat (map (\<lambda>b. lanes (premixed128_avx2 b)) (chunks 32 (take (4 * 32) (drop off input))))
          @ drop (4 * 8) mixed)"
    by (rule foldM_windows) (use assms in \<open>simp_all add: length_premixed128\<close>)
  also have "\<dots> = Some ?m" using assms len by (simp add: premixed_windows128)
  finally have loop: "foldM (\<lambda>vector mixed. do {
           blocks \<leftarrow> slice input (off + vector * 32) 32;
           store mixed (vector * 8) (lanes (premixed128_avx2 blocks)) }) [0..<4] mixed = Some ?m" .
  have lm: "length ?m = 32"
    using length_concat_const [of "chunks 16 ?w" premix_words128 4] len
    by (auto simp: length_chunks dest!: chunks_lengths intro: length_premix_words128)
  show ?thesis
    by (rule exI [of _ ?m], rule conjI [OF lm])
      (use lm in \<open>simp add: avx2_group128_def loop slice_simps mix_blocks128_premixed\<close>)
qed

lemma avx2_single128_Some:
  assumes "off + 32 \<le> length input" "length mixed = 32"
  shows "\<exists>mixed'. length mixed' = 32 \<and> avx2_single128 arch input off (h, mixed)
    = Some (fold block_step128 (chunks 16 (take 32 (drop off input))) h, mixed')"
  using assms length_premixed128 [of "take 32 (drop off input)"]
  by (simp add: avx2_single128_def slice_simps store_fill0 lanes_premixed128_avx2
      mix_blocks128_premixed)

lemma mix_body_avx2_128_folds:
  assumes "16 dvd length input"
  shows "mix_body_avx2_128 arch input h = Some (fold block_step128 (chunks 16 input) h)"
proof -
  obtain o1 s1 o2 h2 m2 where l:
    "scan_while (length input) 128 128 (avx2_group128 arch input) 0 (h, replicate 32 0) = Some (o1, s1)"
    "scan_while (length input) 32 32 (avx2_single128 arch input) o1 s1 = Some (o2, h2, m2)"
    "16 dvd o2" "o2 \<le> length input"
    "fold block_step128 (chunks 16 (drop o2 input)) h2 = fold block_step128 (chunks 16 input) h"
    by (rule scan_while_scratch [where w = 128 and w' = 32 and b = 16 and k = 32
          and m = "replicate 32 0" and h = h, OF _ _ _ _ _ avx2_group128_Some avx2_single128_Some])
      simp_all
  then show ?thesis
    using mix_rest128_folds [OF l(3) assms l(4)] by (simp add: mix_body_avx2_128_def)
qed

text \<open>The SSE4.1 kernel premixes four transposed blocks: word \<open>i\<close> of the four, for each \<open>i\<close>.\<close>

definition transposed128 :: "bytes \<Rightarrow> u32 list" where
  "transposed128 v =
     concat (map (\<lambda>i. map (\<lambda>b. premix_words128 b ! i) (chunks 16 v)) [0, 1, 2, 3])"

lemma lanes_premix_lane_sse41:
  "length v = 16 \<Longrightarrow> 0 < left \<Longrightarrow> left < 32 \<Longrightarrow> right = 32 - left \<Longrightarrow>
   lanes (premix_lane_sse41 left right v c1 c2) = map (\<lambda>w. word_rotl left (w * c1) * c2) (lanes v)"
  by (simp add: premix_lane_sse41_def Let_def lane_simps rotl_shifts comp_def)

lemma rows_of_64:
  fixes v :: bytes
  assumes "length v = 64"
  shows "chunks 16 v = [take 16 v, take 16 (drop 16 v), take 16 (drop 32 v), take 16 (drop 48 v)]"
  using assms by (simp add: chunks.simps)

lemma length_transposed128: "length v = 64 \<Longrightarrow> length (transposed128 v) = 16"
  by (simp add: transposed128_def length_chunks)

lemma premix_words128_nth:
  assumes "lanes b = [w0, w1, w2, w3 :: u32]"
  shows "premix_words128 b = [word_rotl 15 (w0 * X86_128_C1 ! 0) * X86_128_C2 ! 0,
    word_rotl 16 (w1 * X86_128_C1 ! 1) * X86_128_C2 ! 1, word_rotl 17 (w2 * X86_128_C1 ! 2) * X86_128_C2 ! 2,
    word_rotl 18 (w3 * X86_128_C1 ! 3) * X86_128_C2 ! 3]"
  by (simp add: premix_words128_def assms ROTATE_K_def X86_128_C1_def X86_128_C2_def)

lemma premixed_rows128:
  assumes len: "length r0 = 16" "length r1 = 16" "length r2 = 16" "length r3 = 16"
  defines "low01 \<equiv> unpacklo_epi32 r0 r1" and "high01 \<equiv> unpackhi_epi32 r0 r1"
    and "low23 \<equiv> unpacklo_epi32 r2 r3" and "high23 \<equiv> unpackhi_epi32 r2 r3"
  shows "lanes (premix_lane_sse41 15 17 (unpacklo_epi64 low01 low23) (X86_128_C1 ! 0) (X86_128_C2 ! 0))
      = map (\<lambda>b. premix_words128 b ! 0) [r0, r1, r2, r3]"
    and "lanes (premix_lane_sse41 16 16 (unpackhi_epi64 low01 low23) (X86_128_C1 ! 1) (X86_128_C2 ! 1))
      = map (\<lambda>b. premix_words128 b ! 1) [r0, r1, r2, r3]"
    and "lanes (premix_lane_sse41 17 15 (unpacklo_epi64 high01 high23) (X86_128_C1 ! 2) (X86_128_C2 ! 2))
      = map (\<lambda>b. premix_words128 b ! 2) [r0, r1, r2, r3]"
    and "lanes (premix_lane_sse41 18 14 (unpackhi_epi64 high01 high23) (X86_128_C1 ! 3) (X86_128_C2 ! 3))
      = map (\<lambda>b. premix_words128 b ! 3) [r0, r1, r2, r3]"
proof -
  obtain a0 a1 a2 a3 :: u32 where a: "lanes r0 = [a0, a1, a2, a3]" by (rule lanes_of_block [OF len(1)])
  obtain b0 b1 b2 b3 :: u32 where b: "lanes r1 = [b0, b1, b2, b3]" by (rule lanes_of_block [OF len(2)])
  obtain c0 c1 c2 c3 :: u32 where c: "lanes r2 = [c0, c1, c2, c3]" by (rule lanes_of_block [OF len(3)])
  obtain d0 d1 d2 d3 :: u32 where d: "lanes r3 = [d0, d1, d2, d3]" by (rule lanes_of_block [OF len(4)])
  note t = transpose_epi32 [OF len a b c d]
  show "lanes (premix_lane_sse41 15 17 (unpacklo_epi64 low01 low23) (X86_128_C1 ! 0) (X86_128_C2 ! 0))
      = map (\<lambda>b. premix_words128 b ! 0) [r0, r1, r2, r3]"
    "lanes (premix_lane_sse41 16 16 (unpackhi_epi64 low01 low23) (X86_128_C1 ! 1) (X86_128_C2 ! 1))
      = map (\<lambda>b. premix_words128 b ! 1) [r0, r1, r2, r3]"
    "lanes (premix_lane_sse41 17 15 (unpacklo_epi64 high01 high23) (X86_128_C1 ! 2) (X86_128_C2 ! 2))
      = map (\<lambda>b. premix_words128 b ! 2) [r0, r1, r2, r3]"
    "lanes (premix_lane_sse41 18 14 (unpackhi_epi64 high01 high23) (X86_128_C1 ! 3) (X86_128_C2 ! 3))
      = map (\<lambda>b. premix_words128 b ! 3) [r0, r1, r2, r3]"
    using len unfolding low01_def low23_def high01_def high23_def
    by (simp_all add: lanes_premix_lane_sse41 length_unpack_epi32 length_unpack_epi64 t
        premix_words128_nth [OF a] premix_words128_nth [OF b] premix_words128_nth [OF c]
        premix_words128_nth [OF d])
qed

lemma premix_group_sse41_store:
  assumes "off + 64 \<le> length input"
  shows "premix_group_sse41 input off mixed at = store mixed at (transposed128 (take 64 (drop off input)))"
proof -
  let ?r = "\<lambda>k. take 16 (drop (off + k) input)"
  have len: "length (take 16 (drop off input)) = 16" "length (?r 16) = 16" "length (?r 32) = 16"
    "length (?r 48) = 16" using assms by simp_all
  have "chunks 16 (take 64 (drop off input)) = [take 16 (drop off input), ?r 16, ?r 32, ?r 48]"
    using assms by (simp add: rows_of_64 drop_take add.commute)
  then show ?thesis
    using assms
    by (simp add: premix_group_sse41_def slice_simps premixed_rows128 [OF len, simplified] store_store
        transposed128_def flip: bind_assoc add.assoc)
qed

lemma mix_transposed_group_folds:
  assumes "length v = 64"
  shows "mix_transposed_group arch (transposed128 v) h = Some (fold block_step128 (chunks 16 v) h)"
proof -
  have "[0..<4] = [0, 1, 2, 3 :: nat]" by (simp add: upt_rec)
  then show ?thesis
    using assms
    by (simp add: mix_transposed_group_def transposed128_def rows_of_64 slice_simps block_step128_def
        flip: mix_hashes128_words [where arch = arch])
qed

lemma sse41_single128_Some:
  assumes "off + 64 \<le> length input" "length mixed = 64"
  shows "\<exists>mixed'. length mixed' = 64 \<and> sse41_single128 arch input off (h, mixed)
    = Some (fold block_step128 (chunks 16 (take 64 (drop off input))) h, mixed')"
  using assms length_transposed128 [of "take 64 (drop off input)"]
  by (simp add: sse41_single128_def premix_group_sse41_store store_fill0 slice_simps
      mix_transposed_group_folds)

lemma sse41_group128_Some:
  assumes fit: "off + 256 \<le> length input" and mixed: "length mixed = 64"
  shows "\<exists>mixed'. length mixed' = 64 \<and> sse41_group128 arch input off (h, mixed)
    = Some (fold block_step128 (chunks 16 (take 256 (drop off input))) h, mixed')"
proof -
  let ?w = "take 256 (drop off input)"
  let ?m = "concat (map transposed128 (chunks 64 ?w))"
  have len: "length ?w = 256" using fit by simp
  have "premix_group_sse41 input (off + group * 64) m (group * 16)
      = do { v \<leftarrow> slice input (off + group * 64) 64; store m (group * 16) (transposed128 v) }"
    if "group < 4" for group m
    using that fit by (simp add: premix_group_sse41_store slice_simps)
  then have "foldM (\<lambda>group m. premix_group_sse41 input (off + group * 64) m (group * 16)) [0..<4] mixed
      = Some (concat (map transposed128 (chunks 64 (take (4 * 64) (drop off input)))) @ drop (4 * 16) mixed)"
    by (intro foldM_windows) (use fit mixed in \<open>simp_all add: length_transposed128\<close>)
  then have premix: "foldM (\<lambda>group m. premix_group_sse41 input (off + group * 64) m (group * 16)) [0..<4] mixed
      = Some ?m" using mixed by simp
  have lm: "length ?m = 64"
    using length_concat_const [of "chunks 64 ?w" transposed128 16] len
    by (auto simp: length_chunks dest!: chunks_lengths intro: length_transposed128)
  have cm: "chunks 16 ?m = map transposed128 (chunks 64 ?w)"
    by (rule chunks_concat) (auto dest: chunks_lengths simp: length_transposed128)
  have all: "length v = 64" if "v \<in> set (chunks 64 ?w)" for v
    using that by (rule chunks_lengths)
  have mix: "foldM (\<lambda>t h. mix_transposed_group arch t h) (map transposed128 vs) h
      = Some (fold block_step128 (concat (map (chunks 16) vs)) h)"
    if "\<And>v. v \<in> set vs \<Longrightarrow> length v = 64" for vs h
    using that by (induction vs arbitrary: h) (simp_all add: mix_transposed_group_folds)
  have "foldM (\<lambda>group h. do { words \<leftarrow> slice ?m (group * 16) 16; mix_transposed_group arch words h }) [0..<4] h
      = foldM (\<lambda>t h. mix_transposed_group arch t h) (chunks 16 (take (4 * 16) (drop 0 ?m))) h"
    by (rule foldM_slices) (use lm in simp_all)
  also have "\<dots> = foldM (\<lambda>t h. mix_transposed_group arch t h) (map transposed128 (chunks 64 ?w)) h"
    using lm by (simp add: cm [simplified])
  also have "\<dots> = Some (fold block_step128 (chunks 16 ?w) h)"
    using mix [OF all] len by (simp add: chunks_chunks)
  finally show ?thesis
    by (intro exI [of _ ?m] conjI lm) (simp add: sse41_group128_def premix)
qed

lemma mix_body_sse41_128_folds:
  assumes "16 dvd length input"
  shows "mix_body_sse41_128 arch input h = Some (fold block_step128 (chunks 16 input) h)"
proof -
  obtain o1 s1 o2 h2 m2 where l:
    "scan_while (length input) 256 256 (sse41_group128 arch input) 0 (h, replicate 64 0) = Some (o1, s1)"
    "scan_while (length input) 64 64 (sse41_single128 arch input) o1 s1 = Some (o2, h2, m2)"
    "16 dvd o2" "o2 \<le> length input"
    "fold block_step128 (chunks 16 (drop o2 input)) h2 = fold block_step128 (chunks 16 input) h"
    by (rule scan_while_scratch [where w = 256 and w' = 64 and b = 16 and k = 64
          and m = "replicate 64 0" and h = h, OF _ _ _ _ _ sse41_group128_Some sse41_single128_Some])
      simp_all
  then show ?thesis
    using mix_rest128_folds [OF l(3) assms l(4)] by (simp add: mix_body_sse41_128_def)
qed

lemma mix_body128_folds:
  assumes "16 dvd length input"
  shows "mix_body128 arch caps input h = Some (fold block_step128 (chunks 16 input) h)"
proof -
  have "mix_body_x86_128 arch input h b = Some (fold block_step128 (chunks 16 input) h)" for b
    by (cases b) (simp_all add: assms mix_body_avx2_128_folds mix_body_sse41_128_folds
        mix_body_scalar128_folds)
  then show ?thesis by (simp add: mix_body128_def mix_body_scalar128_folds assms)
qed

section \<open>The tail\<close>

text \<open>Byte \<open>i\<close> of the tail lands in word \<open>i div 4\<close>; the words are those of the zero-padded tail.\<close>

lemma tail_words128_lanes:
  "length t \<le> 16 \<Longrightarrow> tail_words128 t = Some (lanes (t @ replicate (16 - length t) 0))"
proof (induction t rule: rev_induct)
  case Nil
  show ?case by (simp add: tail_words128_def lanes_quarters)
next
  case (snoc x t)
  let ?bs = "t @ replicate (16 - length t) 0"
  have t: "length t < 16" using snoc.prems by simp
  have "?bs[length t := x] = t @ [x] @ replicate (15 - length t) 0"
    using t by (simp add: list_update_append Suc_diff_le flip: replicate_Suc) (cases "16 - length t"; simp)
  then have "lanes (t @ [x] @ replicate (15 - length t) 0) = (lanes ?bs :: u32 list)
      [length t div 4 := lanes ?bs ! (length t div 4) OR push_bit (length t mod 4 * 8) (ucast x)]"
    using lanes_or_byte [of "length t" ?bs x] t by (simp add: nth_append)
  moreover have "length t div 4 < length (lanes ?bs :: u32 list)" using t by (simp add: length_lanes)
  moreover have "tail_words128 t = Some (lanes ?bs)" using snoc.IH t by simp
  ultimately show ?case
    by (simp add: tail_words128_def enumerate_append_eq foldM_append slice_simps)
qed

lemma finish_tail128_final:
  assumes "length t < 16"
  shows "finish_tail128 t h l = Some (final128 t h l)"
proof -
  let ?p = "t @ replicate (16 - length t) 0"
  have q: "lanes ?p = [le_word (take 4 ?p), le_word (take 4 (drop 4 ?p)), le_word (take 4 (drop 8 ?p)),
      (le_word (take 4 (drop 12 ?p)) :: u32)]"
    by (rule lanes_quarters) (use assms in simp)
  have zero: "lanes ?p ! (k div 4) = (0 :: u32)" if "length t \<le> k" "k = 0 \<or> k = 4 \<or> k = 8 \<or> k = 12" for k
    using that by (auto simp: q drop_append take_append)
  have z: "t = [] \<Longrightarrow> lanes ?p ! 0 = (0 :: u32)" "length t \<le> 4 \<Longrightarrow> lanes ?p ! 1 = (0 :: u32)"
    "length t \<le> 8 \<Longrightarrow> lanes ?p ! 2 = (0 :: u32)" "length t \<le> 12 \<Longrightarrow> lanes ?p ! 3 = (0 :: u32)"
    using zero [of 0] zero [of 4] zero [of 8] zero [of 12] by simp_all
  obtain w0 w1 w2 w3 :: u32 where w: "lanes ?p = [w0, w1, w2, w3]" using q by blast
  have "t = [] \<Longrightarrow> w0 = 0" "length t \<le> 4 \<Longrightarrow> w1 = 0" "length t \<le> 8 \<Longrightarrow> w2 = 0" "length t \<le> 12 \<Longrightarrow> w3 = 0"
    using z unfolding w by simp_all
  then show ?thesis
    using assms tail_words128_lanes [of t]
    by (simp add: finish_tail128_def final128_def premix_words128_nth [OF w] w not_less
        split: prod.split)
qed

lemma block_hash_x86_128:
  "block_hash 16 (mix_body128 arch caps) block_step128 finish_tail128 final128"
  by unfold_locales (simp_all add: mix_body128_folds finish_tail128_final)

interpretation mx128: block_hash 16 "mix_body128 arch caps" block_step128 finish_tail128 final128
  for arch caps
  by (rule block_hash_x86_128)

lemma digest_of_x86_128: "mx128.digest_of (seed, seed, seed, seed) msg = murmur3_x86_128_spec msg seed"
  by (simp add: mx128.digest_of_def murmur3_x86_128_spec_def)

lemma murmur3_x86_128_eq:
  "murmur3_x86_128 arch caps input seed = Some (murmur3_x86_128_spec input seed)"
  using mx128.one_shot [where input = input and ?s0.0 = "(seed, seed, seed, seed)" and arch = arch
      and caps = caps]
  by (simp add: murmur3_x86_128_def digest_of_x86_128)

text \<open>The example of the function's documentation.\<close>

lemma murmur3_x86_128_example:
  "murmur3_x86_128 arch caps [1, 2, 3] 0 = Some (0xf60164e1, 0xb5134233, 0xb5134233, 0xb5134233)"
  unfolding murmur3_x86_128_eq by code_simp

section \<open>Properties\<close>

text \<open>
  C2: the one-shot MurmurHash3 x86 128 never panics and never reads or writes out of bounds, and on
  every architecture and for every CPU capability set it returns the hash the algorithm defines:
  the AVX2 kernel with its staging array, the SSE4.1 kernel with its transposed groups, the scalar
  kernel and both forms of \<open>scale_hash\<close> agree.
\<close>

theorem murmur3_x86_128_correct:
  "murmur3_x86_128 arch caps input seed = Some (murmur3_x86_128_spec input seed)"
  by (rule murmur3_x86_128_eq)

text \<open>
  C5: any sequence of updates of the incremental x86 128 hasher succeeds and its digest is the
  one-shot hash of the concatenation of the pieces.
\<close>

theorem hasher_x86_128_incremental:
  "(foldM (\<lambda>piece h. hasher_x86_128_update arch caps h piece) pieces (hasher_x86_128_new seed)
      \<bind> hasher_x86_128_digest)
   = murmur3_x86_128 arch' caps' (concat pieces) seed"
  using mx128.updates_digest [where arch = arch and caps = caps and xs = pieces
      and ?s0.0 = "(seed, seed, seed, seed)"]
  by (simp add: hasher_x86_128_update_def hasher_x86_128_new_def hasher_x86_128_digest_def
      murmur3_x86_128_eq digest_of_x86_128)
end
