(* ===== verification/Murmur_X64_128.thy ===== *)
theory Murmur_X64_128
  imports Murmur_Common Vector_Ops
begin

text \<open>
  MurmurHash3 x64 128-bit: \<open>src/murmur3/x64_128/murmur3_x64_hasher128.rs\<close> and its SSE4.1 and
  AVX2 kernels in \<open>src/murmur3/x64_128/x86.rs\<close>.  The vector kernels multiply 64-bit lanes with
  the 32-bit multiplier of the instruction set.
\<close>

section \<open>Scalar kernel and finalisation\<close>

type_synonym hashes64 = "u64 \<times> u64"

definition X64_128_C1 :: u64 where "X64_128_C1 = 0x87c37b91114253d5"
definition X64_128_C2 :: u64 where "X64_128_C2 = 0x4cf5ad432745937f"

text \<open>The displacement of \<open>lea\<close> and the cast \<open>ADDEND as u64\<close> both sign-extend the 32-bit addend.\<close>

definition scale_hash64 :: "target_arch \<Rightarrow> u32 \<Rightarrow> u64 \<Rightarrow> u64" where
  "scale_hash64 arch addend hash =
     (if arch = Arch_X86_64 then hash + hash * 4 + scast addend else hash * 5 + scast addend)"

definition mix_hashes64 :: "target_arch \<Rightarrow> hashes64 \<Rightarrow> u64 \<Rightarrow> u64 \<Rightarrow> hashes64" where
  "mix_hashes64 arch = (\<lambda>(hash1, hash2) block1 block2.
     let hash1 = scale_hash64 arch 0x52dce729 (word_rotl 27 (hash1 XOR block1) + hash2);
         hash2 = scale_hash64 arch 0x38495ab5 (word_rotl 31 (hash2 XOR block2) + hash1)
     in (hash1, hash2))"

definition scalar_step64 :: "target_arch \<Rightarrow> bytes \<Rightarrow> nat \<Rightarrow> hashes64 \<Rightarrow> hashes64 option" where
  "scalar_step64 arch input offset hashes =
     do {
       value1 \<leftarrow> read_u64_le input offset;
       value2 \<leftarrow> read_u64_le input (offset + 8);
       let block1 = word_rotl 31 (value1 * X64_128_C1) * X64_128_C2;
       let block2 = word_rotl 33 (value2 * X64_128_C2) * X64_128_C1;
       Some (mix_hashes64 arch hashes block1 block2)
     }"

definition mix_body_scalar64 :: "target_arch \<Rightarrow> bytes \<Rightarrow> hashes64 \<Rightarrow> hashes64 option" where
  "mix_body_scalar64 arch input hashes =
     do { (_, hashes) \<leftarrow> scan_while (length input) 1 16 (scalar_step64 arch input) 0 hashes;
          Some hashes }"

definition finish_tail64 :: "bytes \<Rightarrow> hashes64 \<Rightarrow> u64 \<Rightarrow> hashes64 option" where
  "finish_tail64 tail_bytes = (\<lambda>(h0, h1) len.
     do {
       guard (length tail_bytes < 16);
       h1 \<leftarrow> (if 8 < length tail_bytes then do {
                rest \<leftarrow> slice tail_bytes 8 (length tail_bytes - 8);
                block2 \<leftarrow> read_partial_u64_le rest;
                Some (h1 XOR word_rotl 33 (block2 * X64_128_C2) * X64_128_C1) }
              else Some h1);
       h0 \<leftarrow> (if tail_bytes \<noteq> [] then do {
                first \<leftarrow> slice tail_bytes 0 (min (length tail_bytes) 8);
                block1 \<leftarrow> read_partial_u64_le first;
                Some (h0 XOR word_rotl 31 (block1 * X64_128_C1) * X64_128_C2) }
              else Some h0);
       let h0 = h0 XOR len;
       let h1 = h1 XOR len;
       let h0 = h0 + h1;
       let h1 = h1 + h0;
       let h0 = fmix64 h0;
       let h1 = fmix64 h1;
       let h0 = h0 + h1;
       let h1 = h1 + h0;
       Some (h0, h1)
     })"

section \<open>Vector kernels\<close>

definition mix_blocks64 :: "target_arch \<Rightarrow> u64 list \<Rightarrow> hashes64 \<Rightarrow> hashes64" where
  "mix_blocks64 arch blocks hashes =
     fold (\<lambda>b hashes. mix_hashes64 arch hashes (b ! 0) (b ! 1)) (chunks 2 blocks) hashes"

text \<open>\<open>mullo_epi64_avx2\<close> and \<open>mullo_epi64_sse41\<close>, the same code at two register widths.\<close>

definition mullo_epi64 :: "bytes \<Rightarrow> bytes \<Rightarrow> bytes" where
  "mullo_epi64 left right =
     (let low = mul_epu32 left right;
          left_high = srli_epi64 32 left;
          right_high = srli_epi64 32 right;
          cross = add_epi64 (mul_epu32 left_high right) (mul_epu32 left right_high)
      in add_epi64 low (slli_epi64 32 cross))"

definition premix64_avx2 :: "bytes \<Rightarrow> bytes \<Rightarrow> bytes \<Rightarrow> bytes \<Rightarrow> bytes \<Rightarrow> bytes" where
  "premix64_avx2 blocks0 c1 c2 rotate_left rotate_right =
     (let blocks = mullo_epi64 blocks0 c1;
          shifted = sllv_epi64 blocks rotate_left;
          blocks = or_si shifted (srlv_epi64 blocks rotate_right)
      in mullo_epi64 blocks c2)"

definition premixed64_avx2 :: "bytes \<Rightarrow> bytes" where
  "premixed64_avx2 values =
     premix64_avx2 values (set_lanes [X64_128_C1, X64_128_C2, X64_128_C1, X64_128_C2])
       (set_lanes [X64_128_C2, X64_128_C1, X64_128_C2, X64_128_C1])
       (set_lanes [31, 33, 31, 33 :: u64]) (set_lanes [33, 31, 33, 31 :: u64])"

definition avx2_group64 ::
  "target_arch \<Rightarrow> bytes \<Rightarrow> nat \<Rightarrow> hashes64 \<times> u64 list \<Rightarrow> (hashes64 \<times> u64 list) option" where
  "avx2_group64 arch input offset = (\<lambda>(hashes, mixed).
     do {
       mixed \<leftarrow> foldM (\<lambda>vector mixed. do {
           values \<leftarrow> slice input (offset + vector * 32) 32;
           store mixed (vector * 4) (lanes (premixed64_avx2 values)) }) [0..<4] mixed;
       Some (mix_blocks64 arch mixed hashes, mixed)
     })"

definition avx2_single64 ::
  "target_arch \<Rightarrow> bytes \<Rightarrow> nat \<Rightarrow> hashes64 \<times> u64 list \<Rightarrow> (hashes64 \<times> u64 list) option" where
  "avx2_single64 arch input offset = (\<lambda>(hashes, mixed).
     do {
       values \<leftarrow> slice input offset 32;
       mixed \<leftarrow> store mixed 0 (lanes (premixed64_avx2 values));
       words \<leftarrow> slice mixed 0 4;
       Some (mix_blocks64 arch words hashes, mixed)
     })"

text \<open>The macro \<open>define_avx2_kernel\<close>; at most one block is left after the vector loops.\<close>

definition avx2_kernel64 :: "target_arch \<Rightarrow> bytes \<Rightarrow> hashes64 \<Rightarrow> hashes64 option" where
  "avx2_kernel64 arch input hashes =
     do {
       (offset, st) \<leftarrow>
         scan_while (length input) 128 128 (avx2_group64 arch input) 0 (hashes, replicate 16 0);
       (offset, hashes, mixed) \<leftarrow> scan_while (length input) 32 32 (avx2_single64 arch input) offset st;
       if offset < length input then scalar_step64 arch input offset hashes
       else Some hashes
     }"

definition mix_body_avx2_64 :: "target_arch \<Rightarrow> bytes \<Rightarrow> hashes64 \<Rightarrow> hashes64 option" where
  "mix_body_avx2_64 = avx2_kernel64"

definition mix_body_avx2_bmi2_64 :: "target_arch \<Rightarrow> bytes \<Rightarrow> hashes64 \<Rightarrow> hashes64 option" where
  "mix_body_avx2_bmi2_64 = avx2_kernel64"

definition premix64_sse41 :: "bytes \<Rightarrow> bytes \<Rightarrow> bytes \<Rightarrow> bytes" where
  "premix64_sse41 blocks0 c1 c2 =
     (let blocks = mullo_epi64 blocks0 c1;
          rotate31 = or_si (slli_epi64 31 blocks) (srli_epi64 33 blocks);
          rotate33 = or_si (slli_epi64 33 blocks) (srli_epi64 31 blocks);
          blocks = blend_epi16 0xf0 rotate31 rotate33
      in mullo_epi64 blocks c2)"

text \<open>\<open>_mm_set_epi64x\<close> takes the high lane first.\<close>

definition premixed64_sse41 :: "bytes \<Rightarrow> bytes" where
  "premixed64_sse41 values =
     premix64_sse41 values (set_lanes [X64_128_C1, X64_128_C2]) (set_lanes [X64_128_C2, X64_128_C1])"

definition sse41_group64 ::
  "target_arch \<Rightarrow> bytes \<Rightarrow> nat \<Rightarrow> hashes64 \<times> u64 list \<Rightarrow> (hashes64 \<times> u64 list) option" where
  "sse41_group64 arch input offset = (\<lambda>(hashes, mixed).
     do {
       mixed \<leftarrow> foldM (\<lambda>vector mixed. do {
           values \<leftarrow> slice input (offset + vector * 16) 16;
           store mixed (vector * 2) (lanes (premixed64_sse41 values)) }) [0..<4] mixed;
       Some (mix_blocks64 arch mixed hashes, mixed)
     })"

definition sse41_single64 ::
  "target_arch \<Rightarrow> bytes \<Rightarrow> nat \<Rightarrow> hashes64 \<times> u64 list \<Rightarrow> (hashes64 \<times> u64 list) option" where
  "sse41_single64 arch input offset = (\<lambda>(hashes, mixed).
     do {
       values \<leftarrow> slice input offset 16;
       mixed \<leftarrow> store mixed 0 (lanes (premixed64_sse41 values));
       words \<leftarrow> slice mixed 0 2;
       Some (mix_blocks64 arch words hashes, mixed)
     })"

definition mix_body_sse41_64 :: "target_arch \<Rightarrow> bytes \<Rightarrow> hashes64 \<Rightarrow> hashes64 option" where
  "mix_body_sse41_64 arch input hashes =
     do {
       (offset, st) \<leftarrow>
         scan_while (length input) 64 64 (sse41_group64 arch input) 0 (hashes, replicate 8 0);
       (offset, hashes, mixed) \<leftarrow> scan_while (length input) 1 16 (sse41_single64 arch input) offset st;
       Some hashes
     }"

fun mix_body_x86_64 ::
  "target_arch \<Rightarrow> bytes \<Rightarrow> hashes64 \<Rightarrow> murmur_backend \<Rightarrow> bool \<Rightarrow> hashes64 option" where
  "mix_body_x86_64 arch blocks hashes Murmur_Avx2 bmi2 =
     (if bmi2 then mix_body_avx2_bmi2_64 arch blocks hashes else mix_body_avx2_64 arch blocks hashes)"
| "mix_body_x86_64 arch blocks hashes Murmur_Sse41 bmi2 = mix_body_sse41_64 arch blocks hashes"
| "mix_body_x86_64 arch blocks hashes Murmur_Scalar bmi2 = mix_body_scalar64 arch blocks hashes"

section \<open>Dispatch and API\<close>

definition mix_body64 :: "target_arch \<Rightarrow> capabilities \<Rightarrow> bytes \<Rightarrow> hashes64 \<Rightarrow> hashes64 option" where
  "mix_body64 arch caps blocks hashes =
     (if length blocks = 0 then Some hashes
      else if is_x86 arch then
        (if length blocks < X64_128_SIMD_MIN then mix_body_scalar64 arch blocks hashes
         else mix_body_x86_64 arch blocks hashes (select_x64_128_backend (length blocks) caps)
           (supports caps Bmi2))
      else mix_body_scalar64 arch blocks hashes)"

definition hash64 :: "target_arch \<Rightarrow> capabilities \<Rightarrow> bytes \<Rightarrow> u64 \<Rightarrow> hashes64 option" where
  "hash64 arch caps input seed =
     do {
       (blocks, tail) \<leftarrow> full_blocks_split 16 input;
       hashes \<leftarrow> mix_body64 arch caps blocks (seed, seed);
       finish_tail64 tail hashes (of_nat (length input))
     }"

definition murmur3_x64_128 :: "target_arch \<Rightarrow> capabilities \<Rightarrow> bytes \<Rightarrow> u32 \<Rightarrow> hashes64 option" where
  "murmur3_x64_128 arch caps input seed = hash64 arch caps input (ucast seed)"

type_synonym hasher_x64_128 = "(hashes64, u64) hasher"

definition hasher_x64_128_new :: "u32 \<Rightarrow> hasher_x64_128" where
  "hasher_x64_128_new seed = hasher_new 16 (ucast seed, ucast seed)"

definition hasher_x64_128_update ::
  "target_arch \<Rightarrow> capabilities \<Rightarrow> hasher_x64_128 \<Rightarrow> bytes \<Rightarrow> hasher_x64_128 option" where
  "hasher_x64_128_update arch caps = hasher_update 16 (mix_body64 arch caps)"

definition hasher_x64_128_digest :: "hasher_x64_128 \<Rightarrow> hashes64 option" where
  "hasher_x64_128_digest = hasher_digest finish_tail64"

section \<open>Reference algorithm\<close>

definition premix_words64 :: "bytes \<Rightarrow> u64 list" where
  "premix_words64 block =
     (let ws = lanes block in
      [word_rotl 31 (ws ! 0 * X64_128_C1) * X64_128_C2, word_rotl 33 (ws ! 1 * X64_128_C2) * X64_128_C1])"

definition mix_words64 :: "u64 list \<Rightarrow> hashes64 \<Rightarrow> hashes64" where
  "mix_words64 ws = (\<lambda>(h0, h1).
     let h0 = (word_rotl 27 (h0 XOR ws ! 0) + h1) * 5 + 0x52dce729;
         h1 = (word_rotl 31 (h1 XOR ws ! 1) + h0) * 5 + 0x38495ab5
     in (h0, h1))"

definition block_step64 :: "bytes \<Rightarrow> hashes64 \<Rightarrow> hashes64" where
  "block_step64 block = mix_words64 (premix_words64 block)"

definition final64 :: "bytes \<Rightarrow> hashes64 \<Rightarrow> u64 \<Rightarrow> hashes64" where
  "final64 tail = (\<lambda>(h0, h1) len.
     let ws = premix_words64 (tail @ replicate (16 - length tail) 0);
         h0 = h0 XOR ws ! 0 XOR len; h1 = h1 XOR ws ! 1 XOR len;
         h0 = h0 + h1; h1 = h1 + h0;
         h0 = fmix64 h0; h1 = fmix64 h1;
         h0 = h0 + h1; h1 = h1 + h0
     in (h0, h1))"

definition murmur3_x64_128_spec :: "bytes \<Rightarrow> u32 \<Rightarrow> hashes64" where
  "murmur3_x64_128_spec input seed =
     final64 (leftover 16 input) (fold block_step64 (chunks 16 input) (ucast seed, ucast seed))
       (of_nat (length input))"

section \<open>The kernels compute the reference\<close>

lemma scale_hash64_eq: "scale_hash64 arch addend h = h * 5 + scast addend"
  by (simp add: scale_hash64_def)

lemma mix_hashes64_words: "mix_hashes64 arch h (ws ! 0) (ws ! 1) = mix_words64 ws h"
  by (simp add: mix_hashes64_def mix_words64_def scale_hash64_eq split: prod.split)

lemma length_premix_words64: "length (premix_words64 v) = 2"
  by (simp add: premix_words64_def Let_def)

lemma mix_blocks64_premixed:
  "mix_blocks64 arch (concat (map premix_words64 (chunks 16 v))) h = fold block_step64 (chunks 16 v) h"
proof -
  have "chunks 2 (concat (map premix_words64 (chunks 16 v))) = map premix_words64 (chunks 16 v)"
    by (rule chunks_concat) (auto simp: length_premix_words64)
  then show ?thesis
    by (simp add: mix_blocks64_def fold_map mix_hashes64_words comp_def block_step64_def [abs_def]
        del: One_nat_def)
qed

lemma scalar_step64_Some:
  "offset + 16 \<le> length input \<Longrightarrow>
   scalar_step64 arch input offset h = Some (block_step64 (take 16 (drop offset input)) h)"
  by (simp add: scalar_step64_def slice_simps block_step64_def premix_words64_def lanes64_pair
      mix_hashes64_def mix_words64_def scale_hash64_eq drop_take add.commute split: prod.split)

lemma mix_body_scalar64_folds:
  assumes "16 dvd length input"
  shows "mix_body_scalar64 arch input h = Some (fold block_step64 (chunks 16 input) h)"
proof -
  obtain off' h' where l: "scan_while (length input) 1 16 (scalar_step64 arch input) 0 h = Some (off', h')"
    "off' \<le> length input" "length input < off' + 1"
    "fold block_step64 (chunks 16 (drop off' input)) h' = fold block_step64 (chunks 16 (drop 0 input)) h"
  proof (rule scan_while_blocks [where v = "\<lambda>h. h" and J = "\<lambda>_. True" and b = 16
        and g = block_step64 and width = 1 and stride = 16 and xs = input and off = 0
        and s = h and body = "scalar_step64 arch input"])
    fix o' h' assume "16 dvd o'" "o' + 1 \<le> length input"
    then have "o' + 16 \<le> length input" using assms dvd_fits by simp
    then show "o' + 16 \<le> length input \<and> (\<exists>s'. scalar_step64 arch input o' h' = Some s' \<and> True
        \<and> s' = fold block_step64 (chunks 16 (take 16 (drop o' input))) h')"
      by (simp add: scalar_step64_Some)
  qed auto
  then show ?thesis by (simp add: mix_body_scalar64_def)
qed

text \<open>The composed 64-bit multiplication is the multiplication of the lanes.\<close>

lemma map2_map2: "map2 f (map2 g xs ys) (map2 h xs ys) = map2 (\<lambda>x y. f (g x y) (h x y)) xs ys"
  by (induction xs ys rule: list_induct2') simp_all

lemma lanes_mullo_epi64 [lane_simps]:
  "8 dvd length v \<Longrightarrow> length w = length v \<Longrightarrow>
   (lanes (mullo_epi64 v w) :: u64 list) = map2 (*) (lanes v) (lanes w)"
proof -
  have "map2 (\<lambda>x y. low32 x * low32 y) (map (drop_bit 32) xs) ys = map2 (\<lambda>x y. drop_bit 32 x * low32 y) xs ys"
    "map2 (\<lambda>x y. low32 x * low32 y) xs (map (drop_bit 32) ys) = map2 (\<lambda>x y. low32 x * drop_bit 32 y) xs ys"
    "map (push_bit 32) (map2 (\<lambda>x y. drop_bit 32 x * low32 y + low32 x * drop_bit 32 y) xs ys)
      = map2 (\<lambda>x y. push_bit 32 (drop_bit 32 x * low32 y + low32 x * drop_bit 32 y)) xs ys"
    for xs ys :: "u64 list"
    by (induction xs ys rule: list_induct2') (simp_all add: low32_drop)
  then show ?thesis
    by (auto simp: mullo_epi64_def Let_def lane_simps map2_map2 mul64_by_32)
qed

lemma length_mullo_epi64 [lane_simps]:
  "8 dvd length v \<Longrightarrow> length w = length v \<Longrightarrow> length (mullo_epi64 v w) = length v"
  by (simp add: mullo_epi64_def Let_def lane_simps)

lemma lanes_of_pair:
  assumes "length v = 16"
  obtains a b :: u64 where "lanes v = [a, b]"
proof -
  have "length (lanes v :: u64 list) = 2" using assms by (simp add: lane_simps)
  then show thesis using that by (auto simp: length_eq_2)
qed

lemma lanes_premixed64_avx2:
  assumes "length v = 32"
  shows "lanes (premixed64_avx2 v) = concat (map premix_words64 (chunks 16 v))"
proof -
  let ?l = "take 16 v" and ?r = "drop 16 v"
  obtain a b :: u64 where l: "lanes ?l = [a, b]"
    by (rule lanes_of_pair [of ?l]) (use assms in simp)
  obtain c d :: u64 where r: "lanes ?r = [c, d]"
    by (rule lanes_of_pair [of ?r]) (use assms in simp)
  have v: "lanes v = [a, b, c, d]"
    using lanes_append [of ?l ?r, where 'a = 64] l r assms by simp
  have "chunks 16 v = [?l, ?r]"
    using chunks_append [of 16 ?l ?r] assms by simp
  then show ?thesis
    using assms by (simp add: premixed64_avx2_def premix64_avx2_def Let_def lane_simps v
        premix_words64_def l r rotl_shifts)
qed

lemma length_premixed64: "length b = 32 \<Longrightarrow> length (lanes (premixed64_avx2 b) :: u64 list) = 4"
  by (simp add: premixed64_avx2_def premix64_avx2_def Let_def lane_simps)

text \<open>\<open>0xf0\<close> takes the low 64-bit lane of the first operand and the high one of the second.\<close>

lemma blend_high:
  assumes "length v = 16" "length w = 16"
  shows "blend_epi16 0xf0 v w = take 8 v @ drop 8 w"
proof -
  have l: "length (lanes u :: u16 list) = 8" if "length u = 16" for u
    using that by (simp add: length_lanes16)
  obtain a b c d e f g h where v: "lanes v = [a, b, c, d, e, f, g, h :: u16]"
    using l [OF assms(1)] by (auto simp: length_eq_8)
  obtain a' b' c' d' e' f' g' h' where w: "lanes w = [a', b', c', d', e', f', g', h' :: u16]"
    using l [OF assms(2)] by (auto simp: length_eq_8)
  have uv: "unlanes [a, b, c, d, e, f, g, h] = v" and uw: "unlanes [a', b', c', d', e', f', g', h'] = w"
    using unlanes_lanes [where 'a = 16, of v] unlanes_lanes [where 'a = 16, of w] v w assms by simp_all
  have "unlanes [a, b, c, d, e', f', g', h'] = take 8 v @ drop 8 w"
    unfolding uv [symmetric] uw [symmetric] by (simp add: unlanes_def)
  then show ?thesis by (simp add: blend_epi16_def v w upt_rec bit_Suc_0_iff)
qed

lemma lanes64_halves:
  assumes "length x = 16" "lanes x = [p, q :: u64]"
  shows "lanes (take 8 x) = [p]" "lanes (drop 8 x) = [q]"
  using assms(2) unfolding lanes64_pair [OF assms(1)] by (simp_all add: lanes_def assms(1))

lemma lanes_premixed64_sse41:
  assumes len: "length v = 16"
  shows "lanes (premixed64_sse41 v) = premix_words64 v"
proof -
  obtain a b :: u64 where v: "lanes v = [a, b]" by (rule lanes_of_pair [OF len])
  let ?m = "mullo_epi64 v (set_lanes [X64_128_C1, X64_128_C2])"
  let ?r = "\<lambda>l k. or_si (slli_epi64 l ?m) (srli_epi64 k ?m)"
  have lm: "length ?m = 16" using len by (simp add: lane_simps)
  then have lr: "length (?r l k) = 16" for l k by (simp add: lane_simps)
  have r: "lanes (?r l k) = [word_rotl l (a * X64_128_C1), word_rotl l (b * X64_128_C2)]"
    if "0 < l" "l < 64" "k = 64 - l" for l k
    using that len by (simp add: lane_simps v rotl_shifts)
  have "lanes (take 8 (?r 31 33)) = [word_rotl 31 (a * X64_128_C1)]"
    "lanes (drop 8 (?r 33 31)) = [word_rotl 33 (b * X64_128_C2)]"
    by (rule lanes64_halves [OF lr r]; simp)+
  then have lb: "lanes (blend_epi16 0xf0 (?r 31 33) (?r 33 31))
      = [word_rotl 31 (a * X64_128_C1), word_rotl 33 (b * X64_128_C2)]"
    using lanes_append [where 'a = 64, of "take 8 (?r 31 33)" "drop 8 (?r 33 31)"]
    by (simp only: blend_high [OF lr lr] length_take lr) simp
  have "length (blend_epi16 0xf0 (?r 31 33) (?r 33 31)) = 16"
    by (simp add: blend_high [OF lr lr] lr del: length_or_si)
  then show ?thesis
    by (simp add: premixed64_sse41_def premix64_sse41_def Let_def lanes_mullo_epi64 lb
        length_set_lanes lanes_set_lanes premix_words64_def v)
qed

lemma avx2_single64_Some:
  assumes "off + 32 \<le> length input" "length mixed = 16"
  shows "\<exists>mixed'. length mixed' = 16 \<and> avx2_single64 arch input off (h, mixed)
    = Some (fold block_step64 (chunks 16 (take 32 (drop off input))) h, mixed')"
  using assms length_premixed64 [of "take 32 (drop off input)"]
  by (simp add: avx2_single64_def slice_simps store_fill0 lanes_premixed64_avx2 mix_blocks64_premixed)

text \<open>The four-vector group of both kernels: \<open>f\<close> premixes a vector of \<open>w\<close> bytes into \<open>k\<close> words.\<close>

lemma group64:
  assumes "off + 4 * w \<le> length input" "length mixed = 4 * k" "0 < w" "16 dvd w"
    and f: "\<And>v. length v = w \<Longrightarrow> lanes (f v) = concat (map premix_words64 (chunks 16 v))"
    and k: "\<And>v. length v = w \<Longrightarrow> length (lanes (f v) :: u64 list) = k"
  shows "\<exists>mixed'. length mixed' = 4 * k \<and>
    do { mixed \<leftarrow> foldM (\<lambda>vector mixed. do {
           values \<leftarrow> slice input (off + vector * w) w;
           store mixed (vector * k) (lanes (f values)) }) [0..<4] mixed;
         Some (mix_blocks64 arch mixed h, mixed) }
    = Some (fold block_step64 (chunks 16 (take (4 * w) (drop off input))) h, mixed')"
proof -
  let ?w = "take (4 * w) (drop off input)"
  let ?m = "concat (map premix_words64 (chunks 16 ?w))"
  have len: "length ?w = 4 * w" using assms(1) by simp
  have same: "concat (map (\<lambda>b. lanes (f b)) (chunks w ?w)) = ?m"
    by (rule concat_windows) (use assms len in simp_all)
  have "foldM (\<lambda>vector mixed. do {
           values \<leftarrow> slice input (off + vector * w) w;
           store mixed (vector * k) (lanes (f values)) }) [0..<4] mixed
      = Some (concat (map (\<lambda>b. lanes (f b)) (chunks w ?w)) @ drop (4 * k) mixed)"
    by (rule foldM_windows) (use assms in simp_all)
  also have "\<dots> = Some ?m" unfolding same using assms by simp
  finally have loop: "foldM (\<lambda>vector mixed. do {
           values \<leftarrow> slice input (off + vector * w) w;
           store mixed (vector * k) (lanes (f values)) }) [0..<4] mixed = Some ?m" .
  have "length (concat (map (\<lambda>b. lanes (f b) :: u64 list) (chunks w ?w))) = length (chunks w ?w) * k"
    by (rule length_concat_const) (auto dest: chunks_lengths intro: k)
  then have "length ?m = 4 * k" using same len assms(3) by (simp add: length_chunks)
  then show ?thesis by (simp add: loop mix_blocks64_premixed)
qed

lemma avx2_group64_Some:
  assumes "off + 128 \<le> length input" "length mixed = 16"
  shows "\<exists>mixed'. length mixed' = 16 \<and> avx2_group64 arch input off (h, mixed)
    = Some (fold block_step64 (chunks 16 (take 128 (drop off input))) h, mixed')"
  using group64 [where mixed = mixed and h = h and arch = arch, OF _ _ _ _ lanes_premixed64_avx2
      length_premixed64, where off = off and input = input and w = 32] assms
  by (simp add: avx2_group64_def)

lemma sse41_group64_Some:
  assumes "off + 64 \<le> length input" "length mixed = 8"
  shows "\<exists>mixed'. length mixed' = 8 \<and> sse41_group64 arch input off (h, mixed)
    = Some (fold block_step64 (chunks 16 (take 64 (drop off input))) h, mixed')"
  using group64 [of off 16 input mixed 2 premixed64_sse41 arch h] assms
  by (simp add: sse41_group64_def lanes_premixed64_sse41 length_premix_words64)

lemma sse41_single64_Some:
  assumes "off + 16 \<le> length input" "length mixed = 8"
  shows "\<exists>mixed'. length mixed' = 8 \<and> sse41_single64 arch input off (h, mixed)
    = Some (fold block_step64 (chunks 16 (take 16 (drop off input))) h, mixed')"
proof -
  have "mix_blocks64 arch (premix_words64 v) h = block_step64 v h" if "length v = 16" for v
    using mix_blocks64_premixed [of arch v h] that by simp
  then show ?thesis
    using assms length_premix_words64 [of "take 16 (drop off input)"]
    by (simp add: sse41_single64_def slice_simps store_fill0 lanes_premixed64_sse41)
qed

lemma avx2_kernel64_folds:
  assumes "16 dvd length input"
  shows "avx2_kernel64 arch input h = Some (fold block_step64 (chunks 16 input) h)"
proof -
  obtain o1 s1 o2 h2 m2 where l:
    "scan_while (length input) 128 128 (avx2_group64 arch input) 0 (h, replicate 16 0) = Some (o1, s1)"
    "scan_while (length input) 32 32 (avx2_single64 arch input) o1 s1 = Some (o2, h2, m2)"
    "16 dvd o2" "o2 \<le> length input" "length input < o2 + 32"
    "fold block_step64 (chunks 16 (drop o2 input)) h2 = fold block_step64 (chunks 16 input) h"
    by (rule scan_while_scratch [where w = 128 and w' = 32 and b = 16 and k = 16
          and m = "replicate 16 0" and h = h, OF _ _ _ _ _ avx2_group64_Some avx2_single64_Some])
      simp_all
  show ?thesis
  proof (cases "o2 < length input")
    case True
    have "16 dvd length input - o2" using l(3) assms by (simp add: dvd_diff_nat)
    then have "length input = o2 + 16" using True l(5) by (elim dvdE) presburger
    then show ?thesis using True l by (simp add: avx2_kernel64_def scalar_step64_Some)
  next
    case False
    then show ?thesis using l by (simp add: avx2_kernel64_def)
  qed
qed

lemma mix_body_sse41_64_folds:
  assumes "16 dvd length input"
  shows "mix_body_sse41_64 arch input h = Some (fold block_step64 (chunks 16 input) h)"
proof -
  let ?J = "\<lambda>s :: hashes64 \<times> u64 list. length (snd s) = 8"
  have 1: "off + 64 \<le> length input \<and> (\<exists>s'. sse41_group64 arch input off s = Some s' \<and> ?J s'
      \<and> fst s' = fold block_step64 (chunks 16 (take 64 (drop off input))) (fst s))"
    if "16 dvd off" "off + 64 \<le> length input" "?J s" for off s
    using sse41_group64_Some [OF that(2,3), of arch "fst s"] that(2) by (metis fst_conv prod.collapse snd_conv)
  have 2: "off + 16 \<le> length input \<and> (\<exists>s'. sse41_single64 arch input off s = Some s' \<and> ?J s'
      \<and> fst s' = fold block_step64 (chunks 16 (take 16 (drop off input))) (fst s))"
    if "16 dvd off" "off + 1 \<le> length input" "?J s" for off s
  proof -
    have "off + 16 \<le> length input" using that(1,2) assms dvd_fits by simp
    then show ?thesis
      using sse41_single64_Some [of off input "snd s" arch "fst s"] that(3)
      by (metis fst_conv prod.collapse snd_conv)
  qed
  obtain o1 s1 where l1:
    "scan_while (length input) 64 64 (sse41_group64 arch input) 0 (h, replicate 8 0) = Some (o1, s1)"
    "?J s1" "16 dvd o1" "o1 \<le> length input"
    "fold block_step64 (chunks 16 (drop o1 input)) (fst s1) = fold block_step64 (chunks 16 (drop 0 input)) h"
    by (rule scan_while_blocks [where J = ?J and v = fst and s = "(h, replicate 8 0)" and xs = input and off = 0,
          OF _ _ _ _ _ 1])
      simp_all
  obtain o2 s2 where l2:
    "scan_while (length input) 1 16 (sse41_single64 arch input) o1 s1 = Some (o2, s2)"
    "o2 \<le> length input" "length input < o2 + 1"
    "fold block_step64 (chunks 16 (drop o2 input)) (fst s2) = fold block_step64 (chunks 16 (drop o1 input)) (fst s1)"
    by (rule scan_while_blocks [where J = ?J and v = fst and s = s1 and b = 16 and xs = input
          and width = 1, OF _ _ l1(3,4,2) 2]) simp_all
  show ?thesis using l1 l2 by (cases s2) (simp add: mix_body_sse41_64_def)
qed

lemma mix_body64_folds:
  assumes "16 dvd length input"
  shows "mix_body64 arch caps input h = Some (fold block_step64 (chunks 16 input) h)"
proof -
  have "mix_body_x86_64 arch input h b bmi2 = Some (fold block_step64 (chunks 16 input) h)" for b bmi2
    by (cases b) (simp_all add: assms avx2_kernel64_folds mix_body_sse41_64_folds
        mix_body_scalar64_folds mix_body_avx2_64_def mix_body_avx2_bmi2_64_def)
  then show ?thesis by (simp add: mix_body64_def mix_body_scalar64_folds assms)
qed

section \<open>The tail\<close>

lemma le_word_pad: "le_word (t @ replicate n 0) = le_word t"
  by (simp add: le_word_append)

lemma finish_tail64_final:
  assumes "length t < 16"
  shows "finish_tail64 t h l = Some (final64 t h l)"
proof -
  let ?p = "t @ replicate (16 - length t) 0"
  have lo: "le_word (take 8 ?p) = le_word (take 8 t)" and hi: "le_word (drop 8 ?p) = le_word (drop 8 t)"
    by (simp_all add: le_word_pad)
  have q: "lanes ?p = [le_word (take 8 t), (le_word (drop 8 t) :: u64)]"
    unfolding lo [symmetric] hi [symmetric] by (rule lanes64_pair) (use assms in simp)
  have r: "read_partial_u64_le x = Some (le_word x)" if "length x \<le> 8" for x
    using that by (simp add: slice_simps)
  show ?thesis
    using assms
    by (auto simp: finish_tail64_def final64_def premix_words64_def q slice_simps r min_def xor.assoc
        split: prod.split)
qed

lemma block_hash_x64_128:
  "block_hash 16 (mix_body64 arch caps) block_step64 finish_tail64 final64"
  by unfold_locales (simp_all add: mix_body64_folds finish_tail64_final)

interpretation mx64: block_hash 16 "mix_body64 arch caps" block_step64 finish_tail64 final64
  for arch caps
  by (rule block_hash_x64_128)

lemma digest_of_x64_128: "mx64.digest_of (ucast seed, ucast seed) msg = murmur3_x64_128_spec msg seed"
  by (simp add: mx64.digest_of_def murmur3_x64_128_spec_def)

lemma murmur3_x64_128_eq:
  "murmur3_x64_128 arch caps input seed = Some (murmur3_x64_128_spec input seed)"
  using mx64.one_shot [where input = input and ?s0.0 = "(ucast seed, ucast seed)" and arch = arch
      and caps = caps]
  by (simp add: murmur3_x64_128_def hash64_def digest_of_x64_128)

text \<open>The example of the function's documentation.\<close>

lemma murmur3_x64_128_example:
  "map_option (\<lambda>(a, b). to_le a @ to_le b) (murmur3_x64_128 arch caps [1, 2, 3] 0)
    = Some [0xa9, 0x37, 0x13, 0x0e, 0xef, 0x3e, 0x64, 0x1a, 0x65, 0x9a, 0x23, 0x3c, 0x40, 0x4a, 0x4e, 0x49]"
  unfolding murmur3_x64_128_eq by code_simp

section \<open>Properties\<close>

text \<open>
  C3: the one-shot MurmurHash3 x64 128 never panics and never reads or writes out of bounds, and on
  every architecture and for every CPU capability set it returns the hash the algorithm defines.
  This covers the 64-bit multiplication built from 32-bit products, the AVX2 kernel that may leave
  one block to the scalar code, and the SSE4.1 kernel that blends two rotations.
\<close>

theorem murmur3_x64_128_correct:
  "murmur3_x64_128 arch caps input seed = Some (murmur3_x64_128_spec input seed)"
  by (rule murmur3_x64_128_eq)

text \<open>
  C6: any sequence of updates of the incremental x64 128 hasher succeeds and its digest is the
  one-shot hash of the concatenation of the pieces.
\<close>

theorem hasher_x64_128_incremental:
  "(foldM (\<lambda>piece h. hasher_x64_128_update arch caps h piece) pieces (hasher_x64_128_new seed)
      \<bind> hasher_x64_128_digest)
   = murmur3_x64_128 arch' caps' (concat pieces) seed"
  using mx64.updates_digest [where arch = arch and caps = caps and xs = pieces
      and ?s0.0 = "(ucast seed, ucast seed)"]
  by (simp add: hasher_x64_128_update_def hasher_x64_128_new_def hasher_x64_128_digest_def
      murmur3_x64_128_eq digest_of_x64_128)
end
