(* ===== verification/Xxh_Primitives.thy ===== *)
theory Xxh_Primitives
  imports Byte_Words
begin

text \<open>
  XXH3 primitives: \<open>src/xxhash/primitives.rs\<close>.  Unaligned word loads through raw pointers
  (\<open>read_u64_le_ptr\<close>) and through checked slices are both checked reads here: a pointer is the
  list of the bytes from its address to the end of its allocation, and \<open>ptr_add\<close> is \<open>add\<close>.
\<close>

definition P32_1 :: u64 where "P32_1 = 2654435761"
definition P32_2 :: u64 where "P32_2 = 2246822519"
definition P32_3 :: u64 where "P32_3 = 3266489917"
definition P64_1 :: u64 where "P64_1 = 11400714785074694791"
definition P64_2 :: u64 where "P64_2 = 14029467366897019727"
definition P64_3 :: u64 where "P64_3 = 1609587929392839161"
definition P64_4 :: u64 where "P64_4 = 9650029242287828579"
definition P64_5 :: u64 where "P64_5 = 2870177450012600261"
definition MX1 :: u64 where "MX1 = 0x165667919e3779f9"
definition MX2 :: u64 where "MX2 = 0x9fb21c651e98df25"

definition SECRET :: bytes where
  "SECRET =
    [0xb8, 0xfe, 0x6c, 0x39, 0x23, 0xa4, 0x4b, 0xbe, 0x7c, 0x01, 0x81, 0x2c, 0xf7, 0x21, 0xad, 0x1c,
     0xde, 0xd4, 0x6d, 0xe9, 0x83, 0x90, 0x97, 0xdb, 0x72, 0x40, 0xa4, 0xa4, 0xb7, 0xb3, 0x67, 0x1f,
     0xcb, 0x79, 0xe6, 0x4e, 0xcc, 0xc0, 0xe5, 0x78, 0x82, 0x5a, 0xd0, 0x7d, 0xcc, 0xff, 0x72, 0x21,
     0xb8, 0x08, 0x46, 0x74, 0xf7, 0x43, 0x24, 0x8e, 0xe0, 0x35, 0x90, 0xe6, 0x81, 0x3a, 0x26, 0x4c,
     0x3c, 0x28, 0x52, 0xbb, 0x91, 0xc3, 0x00, 0xcb, 0x88, 0xd0, 0x65, 0x8b, 0x1b, 0x53, 0x2e, 0xa3,
     0x71, 0x64, 0x48, 0x97, 0xa2, 0x0d, 0xf9, 0x4e, 0x38, 0x19, 0xef, 0x46, 0xa9, 0xde, 0xac, 0xd8,
     0xa8, 0xfa, 0x76, 0x3f, 0xe3, 0x9c, 0x34, 0x3f, 0xf9, 0xdc, 0xbb, 0xc7, 0xc7, 0x0b, 0x4f, 0x1d,
     0x8a, 0x51, 0xe0, 0x4b, 0xcd, 0xb4, 0x59, 0x31, 0xc8, 0x9f, 0x7e, 0xc9, 0xd9, 0x78, 0x73, 0x64,
     0xea, 0xc5, 0xac, 0x83, 0x34, 0xd3, 0xeb, 0xc3, 0xc5, 0x81, 0xa0, 0xff, 0xfa, 0x13, 0x63, 0xeb,
     0x17, 0x0d, 0xdd, 0x51, 0xb7, 0xf0, 0xda, 0x49, 0xd3, 0x16, 0x55, 0x26, 0x29, 0xd4, 0x68, 0x9e,
     0x2b, 0x16, 0xbe, 0x58, 0x7d, 0x47, 0xa1, 0xfc, 0x8f, 0xf8, 0xb8, 0xd1, 0x7a, 0xd0, 0x31, 0xce,
     0x45, 0xcb, 0x3a, 0x8f, 0x95, 0x16, 0x04, 0x28, 0xaf, 0xd7, 0xfb, 0xca, 0xbb, 0x4b, 0x40, 0x7e]"

lemma length_SECRET [simp]: "length SECRET = 192"
  by (simp add: SECRET_def)

section \<open>Loads\<close>

definition ptr_add :: "bytes \<Rightarrow> nat \<Rightarrow> bytes option" where
  "ptr_add p n = (if n \<le> length p then Some (drop n p) else None)"

lemma ptr_add_Some [slice_simps]: "n \<le> length p \<Longrightarrow> ptr_add p n = Some (drop n p)"
  by (simp add: ptr_add_def)

definition xxh_read_u32_le :: "bytes \<Rightarrow> nat \<Rightarrow> u32 option" where
  "xxh_read_u32_le input offset = do { b \<leftarrow> slice input offset 4; Some (le_word b) }"

definition xxh_read_u64_le :: "bytes \<Rightarrow> nat \<Rightarrow> u64 option" where
  "xxh_read_u64_le input offset = do { b \<leftarrow> slice input offset 8; Some (le_word b) }"

definition read_u64_le_ptr :: "bytes \<Rightarrow> nat \<Rightarrow> u64 option" where
  "read_u64_le_ptr input offset = do { b \<leftarrow> slice input offset 8; Some (le_word b) }"

section \<open>Mixing\<close>

definition mul_fold :: "u64 \<Rightarrow> u64 \<Rightarrow> u64" where
  "mul_fold a b = (let p = (ucast a :: u128) * ucast b in ucast p XOR ucast (drop_bit 64 p))"

definition xxh3_avalanche :: "u64 \<Rightarrow> u64" where
  "xxh3_avalanche h0 =
     (let h = h0 XOR drop_bit 37 h0; h = h * MX1 in h XOR drop_bit 32 h)"

definition xxh64_avalanche :: "u64 \<Rightarrow> u64" where
  "xxh64_avalanche h0 =
     (let h = h0 XOR drop_bit 33 h0;
          h = h * P64_2;
          h = h XOR drop_bit 29 h;
          h = h * P64_3
      in h XOR drop_bit 32 h)"

definition rrmxmx :: "u64 \<Rightarrow> nat \<Rightarrow> u64" where
  "rrmxmx h0 len =
     (let h = h0 XOR (word_rotl 49 h0 XOR word_rotl 24 h0);
          h = h * MX2;
          h = h XOR (drop_bit 35 h + of_nat len);
          h = h * MX2
      in h XOR drop_bit 28 h)"

definition mix16_ptr :: "bytes \<Rightarrow> bytes \<Rightarrow> u64 \<Rightarrow> u64 option" where
  "mix16_ptr data secret seed =
     do {
       data_lo \<leftarrow> read_u64_le_ptr data 0;
       data_hi \<leftarrow> read_u64_le_ptr data 8;
       secret_lo \<leftarrow> read_u64_le_ptr secret 0;
       secret_hi \<leftarrow> read_u64_le_ptr secret 8;
       let lo = data_lo XOR (secret_lo + seed);
       let hi = data_hi XOR (secret_hi - seed);
       Some (mul_fold lo hi)
     }"

definition mix16 :: "bytes \<Rightarrow> nat \<Rightarrow> bytes \<Rightarrow> nat \<Rightarrow> u64 \<Rightarrow> u64 option" where
  "mix16 data data_offset secret secret_offset seed =
     do {
       guard (data_offset + 16 \<le> length data);
       guard (secret_offset + 16 \<le> length secret);
       d \<leftarrow> ptr_add data data_offset;
       s \<leftarrow> ptr_add secret secret_offset;
       mix16_ptr d s seed
     }"

text \<open>\<open>u64::swap_bytes\<close> and \<open>u32::swap_bytes\<close>.\<close>

definition swap_bytes :: "'a::len word \<Rightarrow> 'a word" where
  "swap_bytes w = le_word (rev (to_le w))"

section \<open>The words at an offset\<close>

definition w32 :: "bytes \<Rightarrow> nat \<Rightarrow> u32" where "w32 bs k = le_word (take 4 (drop k bs))"
definition w64 :: "bytes \<Rightarrow> nat \<Rightarrow> u64" where "w64 bs k = le_word (take 8 (drop k bs))"

lemma w64_drop [simp]: "w64 (drop n bs) k = w64 bs (n + k)"
  by (simp add: w64_def add.commute)

lemma w64_take: "k + 8 \<le> n \<Longrightarrow> w64 (take n bs) k = w64 bs k"
  by (simp add: w64_def drop_take min_absorb1)

lemma xxh_read_u32_le_Some [slice_simps]:
  "off + 4 \<le> length xs \<Longrightarrow> xxh_read_u32_le xs off = Some (w32 xs off)"
  by (simp add: xxh_read_u32_le_def slice_simps w32_def)

lemma xxh_read_u64_le_Some [slice_simps]:
  "off + 8 \<le> length xs \<Longrightarrow> xxh_read_u64_le xs off = Some (w64 xs off)"
  by (simp add: xxh_read_u64_le_def slice_simps w64_def)

lemma read_u64_le_ptr_Some [slice_simps]:
  "off + 8 \<le> length xs \<Longrightarrow> read_u64_le_ptr xs off = Some (w64 xs off)"
  by (simp add: read_u64_le_ptr_def slice_simps w64_def)

text \<open>The reference form of \<open>mix16\<close> on 16 bytes of input and of secret.\<close>

definition mix16_spec :: "bytes \<Rightarrow> nat \<Rightarrow> nat \<Rightarrow> u64 \<Rightarrow> u64" where
  "mix16_spec input i s seed =
     mul_fold (w64 input i XOR (w64 SECRET s + seed)) (w64 input (i + 8) XOR (w64 SECRET (s + 8) - seed))"

lemma mix16_Some [slice_simps]:
  "i + 16 \<le> length input \<Longrightarrow> s + 16 \<le> 192 \<Longrightarrow>
   mix16 input i SECRET s seed = Some (mix16_spec input i s seed)"
  by (simp add: mix16_def mix16_ptr_def slice_simps mix16_spec_def)

end
