(* ===== verification/Xxh_Short.thy ===== *)
theory Xxh_Short
  imports Xxh_Primitives
begin

text \<open>
  XXH3 for inputs of at most 240 bytes: \<open>src/xxhash/short_inputs.rs\<close>.  The 64-bit and 128-bit
  formulas of each length class, the fixed-length forms for 32, 64 and 128 bytes, and the
  reference they are compared with, which states the middle classes as the loops of the
  published algorithm.
\<close>

section \<open>The 64-bit formulas\<close>

definition xxh3_64_len_0_to_16 :: "bytes \<Rightarrow> u64 \<Rightarrow> u64 option" where
  "xxh3_64_len_0_to_16 input seed =
     (let len = length input in
      if len = 0 then do {
        a \<leftarrow> xxh_read_u64_le SECRET 56;
        b \<leftarrow> xxh_read_u64_le SECRET 64;
        Some (xxh64_avalanche (seed XOR (a XOR b))) }
      else if len \<le> 3 then do {
        i0 \<leftarrow> get input 0;
        im \<leftarrow> get input (len div 2);
        il \<leftarrow> get input (len - 1);
        let combined = push_bit 16 (ucast i0) OR push_bit 24 (ucast im) OR ucast il OR
          push_bit 8 (of_nat len :: u32);
        a \<leftarrow> xxh_read_u32_le SECRET 0;
        b \<leftarrow> xxh_read_u32_le SECRET 4;
        Some (xxh64_avalanche (ucast combined XOR (ucast (a XOR b) + seed))) }
      else if len \<le> 8 then do {
        let seed = seed XOR push_bit 32 (ucast (swap_bytes (ucast seed :: u32)));
        l \<leftarrow> xxh_read_u32_le input (len - 4);
        h \<leftarrow> xxh_read_u32_le input 0;
        let input_word = ucast l OR push_bit 32 (ucast h);
        a \<leftarrow> xxh_read_u64_le SECRET 8;
        b \<leftarrow> xxh_read_u64_le SECRET 16;
        Some (rrmxmx (input_word XOR ((a XOR b) - seed)) len) }
      else do {
        l \<leftarrow> xxh_read_u64_le input 0;
        a \<leftarrow> xxh_read_u64_le SECRET 24;
        b \<leftarrow> xxh_read_u64_le SECRET 32;
        let lo = l XOR ((a XOR b) + seed);
        h \<leftarrow> xxh_read_u64_le input (len - 8);
        c \<leftarrow> xxh_read_u64_le SECRET 40;
        d \<leftarrow> xxh_read_u64_le SECRET 48;
        let hi = h XOR ((c XOR d) - seed);
        Some (xxh3_avalanche (of_nat len + swap_bytes lo + hi + mul_fold lo hi)) })"

text \<open>\<open>acc.wrapping_add(mix16(...))\<close>\<close>

definition add_mix16 :: "bytes \<Rightarrow> nat \<Rightarrow> nat \<Rightarrow> u64 \<Rightarrow> u64 \<Rightarrow> u64 option" where
  "add_mix16 input i s seed acc = do { x \<leftarrow> mix16 input i SECRET s seed; Some (acc + x) }"

definition xxh3_64_len_17_to_128 :: "bytes \<Rightarrow> u64 \<Rightarrow> u64 option" where
  "xxh3_64_len_17_to_128 input seed =
     (let len = length input in do {
       let acc = of_nat len * P64_1;
       acc \<leftarrow> (if 32 < len then do {
           acc \<leftarrow> (if 64 < len then do {
               acc \<leftarrow> (if 96 < len then do {
                   acc \<leftarrow> add_mix16 input 48 96 seed acc;
                   add_mix16 input (len - 64) 112 seed acc }
                 else Some acc);
               acc \<leftarrow> add_mix16 input 32 64 seed acc;
               add_mix16 input (len - 48) 80 seed acc }
             else Some acc);
           acc \<leftarrow> add_mix16 input 16 32 seed acc;
           add_mix16 input (len - 32) 48 seed acc }
         else Some acc);
       acc \<leftarrow> add_mix16 input 0 0 seed acc;
       acc \<leftarrow> add_mix16 input (len - 16) 16 seed acc;
       Some (xxh3_avalanche acc)
     })"

definition xxh3_64_len_129_to_240 :: "bytes \<Rightarrow> u64 \<Rightarrow> u64 option" where
  "xxh3_64_len_129_to_240 input seed =
     (let len = length input in do {
       let acc = of_nat len * P64_1;
       acc \<leftarrow> foldM (\<lambda>i acc. add_mix16 input (16 * i) (16 * i) seed acc) [0..<8] acc;
       let acc = xxh3_avalanche acc;
       tail \<leftarrow> mix16 input (len - 16) SECRET 119 seed;
       tail \<leftarrow> foldM (\<lambda>i tail. add_mix16 input (16 * i) (3 + 16 * (i - 8)) seed tail)
         [8..<len div 16] tail;
       Some (xxh3_avalanche (acc + tail))
     })"

section \<open>The 128-bit formulas\<close>

type_synonym hash128 = "u64 \<times> u64"

definition mix32_ptr :: "hash128 \<Rightarrow> bytes \<Rightarrow> bytes \<Rightarrow> bytes \<Rightarrow> u64 \<Rightarrow> hash128 option" where
  "mix32_ptr acc first second secret seed =
     do {
       m \<leftarrow> mix16_ptr first secret seed;
       let acc0 = fst acc + m;
       s0 \<leftarrow> read_u64_le_ptr second 0;
       s8 \<leftarrow> read_u64_le_ptr second 8;
       let acc0 = acc0 XOR (s0 + s8);
       secret16 \<leftarrow> ptr_add secret 16;
       m \<leftarrow> mix16_ptr second secret16 seed;
       let acc1 = snd acc + m;
       f0 \<leftarrow> read_u64_le_ptr first 0;
       f8 \<leftarrow> read_u64_le_ptr first 8;
       let acc1 = acc1 XOR (f0 + f8);
       Some (acc0, acc1)
     }"

definition mix32 :: "hash128 \<Rightarrow> bytes \<Rightarrow> nat \<Rightarrow> nat \<Rightarrow> nat \<Rightarrow> u64 \<Rightarrow> hash128 option" where
  "mix32 acc input first second secret seed =
     do {
       first \<leftarrow> slice input first 16;
       second \<leftarrow> slice input second 16;
       secret \<leftarrow> slice SECRET secret 32;
       mix32_ptr acc first second secret seed
     }"

definition xxh_final128 :: "hash128 \<Rightarrow> nat \<Rightarrow> u64 \<Rightarrow> hash128" where
  "xxh_final128 acc len seed =
     (xxh3_avalanche (fst acc + snd acc),
      0 - xxh3_avalanche (fst acc * P64_1 + snd acc * P64_4 + (of_nat len - seed) * P64_2))"

definition xxh3_128_len_32 :: "bytes \<Rightarrow> u64 \<Rightarrow> hash128 option" where
  "xxh3_128_len_32 input seed =
     do { acc \<leftarrow> mix32 (32 * P64_1, 0) input 0 16 0 seed; Some (xxh_final128 acc 32 seed) }"

definition xxh3_128_len_64 :: "bytes \<Rightarrow> u64 \<Rightarrow> hash128 option" where
  "xxh3_128_len_64 input seed =
     do {
       acc \<leftarrow> mix32 (64 * P64_1, 0) input 16 32 32 seed;
       acc \<leftarrow> mix32 acc input 0 48 0 seed;
       Some (xxh_final128 acc 64 seed)
     }"

definition xxh3_128_len_128 :: "bytes \<Rightarrow> u64 \<Rightarrow> hash128 option" where
  "xxh3_128_len_128 input seed =
     do {
       acc \<leftarrow> mix32 (128 * P64_1, 0) input 48 64 96 seed;
       acc \<leftarrow> mix32 acc input 32 80 64 seed;
       acc \<leftarrow> mix32 acc input 16 96 32 seed;
       acc \<leftarrow> mix32 acc input 0 112 0 seed;
       Some (xxh_final128 acc 128 seed)
     }"

definition xxh3_128_len_0_to_16 :: "bytes \<Rightarrow> u64 \<Rightarrow> hash128 option" where
  "xxh3_128_len_0_to_16 input seed =
     (let len = length input in
      if len = 0 then do {
        a \<leftarrow> xxh_read_u64_le SECRET 64;
        b \<leftarrow> xxh_read_u64_le SECRET 72;
        c \<leftarrow> xxh_read_u64_le SECRET 80;
        d \<leftarrow> xxh_read_u64_le SECRET 88;
        Some (xxh64_avalanche (seed XOR (a XOR b)), xxh64_avalanche (seed XOR (c XOR d))) }
      else if len \<le> 3 then do {
        i0 \<leftarrow> get input 0;
        im \<leftarrow> get input (len div 2);
        il \<leftarrow> get input (len - 1);
        let c = push_bit 16 (ucast i0) OR push_bit 24 (ucast im) OR ucast il OR
          push_bit 8 (of_nat len :: u32);
        let h = word_rotl 13 (swap_bytes c);
        s0 \<leftarrow> xxh_read_u32_le SECRET 0;
        s4 \<leftarrow> xxh_read_u32_le SECRET 4;
        s8 \<leftarrow> xxh_read_u32_le SECRET 8;
        s12 \<leftarrow> xxh_read_u32_le SECRET 12;
        Some (xxh64_avalanche (ucast c XOR (ucast (s0 XOR s4) + seed)),
              xxh64_avalanche (ucast h XOR (ucast (s8 XOR s12) - seed))) }
      else if len \<le> 8 then do {
        let seed = seed XOR push_bit 32 (ucast (swap_bytes (ucast seed :: u32)));
        l \<leftarrow> xxh_read_u32_le input 0;
        h \<leftarrow> xxh_read_u32_le input (len - 4);
        let input_word = ucast l OR push_bit 32 (ucast h);
        a \<leftarrow> xxh_read_u64_le SECRET 16;
        b \<leftarrow> xxh_read_u64_le SECRET 24;
        let mixed = input_word XOR ((a XOR b) + seed);
        let product = (ucast mixed :: u128) * ucast (P64_1 + push_bit 2 (of_nat len));
        let lo = ucast product;
        let hi = ucast (drop_bit 64 product);
        let hi = hi + push_bit 1 lo;
        let lo = lo XOR drop_bit 3 hi;
        let lo = lo XOR drop_bit 35 lo;
        let lo = lo * MX2;
        let lo = lo XOR drop_bit 28 lo;
        Some (lo, xxh3_avalanche hi) }
      else do {
        lo \<leftarrow> xxh_read_u64_le input 0;
        hi \<leftarrow> xxh_read_u64_le input (len - 8);
        a \<leftarrow> xxh_read_u64_le SECRET 32;
        b \<leftarrow> xxh_read_u64_le SECRET 40;
        let product = (ucast (lo XOR hi XOR ((a XOR b) - seed)) :: u128) * ucast P64_1;
        let low = ucast product + push_bit 54 (of_nat (len - 1));
        let high = ucast (drop_bit 64 product);
        c \<leftarrow> xxh_read_u64_le SECRET 48;
        d \<leftarrow> xxh_read_u64_le SECRET 56;
        let hi = hi XOR ((c XOR d) + seed);
        let high = high + (hi + ucast (ucast hi :: u32) * (P32_2 - 1));
        let low = low XOR swap_bytes high;
        let product = (ucast low :: u128) * ucast P64_2;
        Some (xxh3_avalanche (ucast product),
              xxh3_avalanche (ucast (drop_bit 64 product) + high * P64_2)) })"

definition xxh3_128_len_17_to_128 :: "bytes \<Rightarrow> u64 \<Rightarrow> hash128 option" where
  "xxh3_128_len_17_to_128 input seed =
     (let len = length input in do {
       let acc = (of_nat len * P64_1, 0);
       acc \<leftarrow> (if 32 < len then do {
           acc \<leftarrow> (if 64 < len then do {
               acc \<leftarrow> (if 96 < len then mix32 acc input 48 (len - 64) 96 seed else Some acc);
               mix32 acc input 32 (len - 48) 64 seed }
             else Some acc);
           mix32 acc input 16 (len - 32) 32 seed }
         else Some acc);
       acc \<leftarrow> mix32 acc input 0 (len - 16) 0 seed;
       Some (xxh_final128 acc len seed)
     })"

text \<open>\<open>mix32_ptr\<close> at offsets of the input and the secret.\<close>

definition mix32_at :: "bytes \<Rightarrow> nat \<Rightarrow> nat \<Rightarrow> nat \<Rightarrow> u64 \<Rightarrow> hash128 \<Rightarrow> hash128 option" where
  "mix32_at data i j s seed acc =
     do {
       first \<leftarrow> ptr_add data i;
       second \<leftarrow> ptr_add data j;
       secret \<leftarrow> ptr_add SECRET s;
       mix32_ptr acc first second secret seed
     }"

definition xxh3_128_len_129_to_240 :: "bytes \<Rightarrow> u64 \<Rightarrow> hash128 option" where
  "xxh3_128_len_129_to_240 input seed =
     (let len = length input in do {
       let acc = (of_nat len * P64_1, 0);
       guard (129 \<le> len \<and> len \<le> 240);
       acc \<leftarrow> foldM (\<lambda>i acc. mix32_at input i (i + 16) i seed acc) (map (\<lambda>k. 32 * k) [0..<4]) acc;
       let acc = (xxh3_avalanche (fst acc), xxh3_avalanche (snd acc));
       acc \<leftarrow> foldM (\<lambda>index acc. let offset = index * 32 in
           mix32_at input offset (offset + 16) (3 + (index - 4) * 32) seed acc) [4..<len div 32] acc;
       acc \<leftarrow> mix32_at input (len - 16) (len - 32) 103 (0 - seed) acc;
       Some (xxh_final128 acc len seed)
     })"

section \<open>Reference formulas\<close>

text \<open>The published formulas, over the words of the input and of the secret.\<close>

definition xxh3_combined :: "bytes \<Rightarrow> u32" where
  "xxh3_combined input =
     push_bit 16 (ucast (input ! 0)) OR push_bit 24 (ucast (input ! (length input div 2))) OR
     ucast (input ! (length input - 1)) OR push_bit 8 (of_nat (length input))"

definition xxh3_64_spec_0_to_16 :: "bytes \<Rightarrow> u64 \<Rightarrow> u64" where
  "xxh3_64_spec_0_to_16 input seed =
     (let len = length input in
      if len = 0 then xxh64_avalanche (seed XOR (w64 SECRET 56 XOR w64 SECRET 64))
      else if len \<le> 3 then
        xxh64_avalanche (ucast (xxh3_combined input) XOR (ucast (w32 SECRET 0 XOR w32 SECRET 4) + seed))
      else if len \<le> 8 then
        let seed = seed XOR push_bit 32 (ucast (swap_bytes (ucast seed :: u32)));
            word = ucast (w32 input (len - 4)) OR push_bit 32 (ucast (w32 input 0))
        in rrmxmx (word XOR ((w64 SECRET 8 XOR w64 SECRET 16) - seed)) len
      else
        let lo = w64 input 0 XOR ((w64 SECRET 24 XOR w64 SECRET 32) + seed);
            hi = w64 input (len - 8) XOR ((w64 SECRET 40 XOR w64 SECRET 48) - seed)
        in xxh3_avalanche (of_nat len + swap_bytes lo + hi + mul_fold lo hi))"

definition xxh3_128_spec_0_to_16 :: "bytes \<Rightarrow> u64 \<Rightarrow> hash128" where
  "xxh3_128_spec_0_to_16 input seed =
     (let len = length input in
      if len = 0 then
        (xxh64_avalanche (seed XOR (w64 SECRET 64 XOR w64 SECRET 72)),
         xxh64_avalanche (seed XOR (w64 SECRET 80 XOR w64 SECRET 88)))
      else if len \<le> 3 then
        let c = xxh3_combined input; h = word_rotl 13 (swap_bytes c) in
        (xxh64_avalanche (ucast c XOR (ucast (w32 SECRET 0 XOR w32 SECRET 4) + seed)),
         xxh64_avalanche (ucast h XOR (ucast (w32 SECRET 8 XOR w32 SECRET 12) - seed)))
      else if len \<le> 8 then
        let seed = seed XOR push_bit 32 (ucast (swap_bytes (ucast seed :: u32)));
            word = ucast (w32 input 0) OR push_bit 32 (ucast (w32 input (len - 4)));
            product = (ucast (word XOR ((w64 SECRET 16 XOR w64 SECRET 24) + seed)) :: u128)
              * ucast (P64_1 + push_bit 2 (of_nat len));
            hi = ucast (drop_bit 64 product) + push_bit 1 (ucast product);
            lo = ucast product XOR drop_bit 3 hi;
            lo = (lo XOR drop_bit 35 lo) * MX2
        in (lo XOR drop_bit 28 lo, xxh3_avalanche hi)
      else
        let lo = w64 input 0;
            hi = w64 input (len - 8);
            product = (ucast (lo XOR hi XOR ((w64 SECRET 32 XOR w64 SECRET 40) - seed)) :: u128) * ucast P64_1;
            low = ucast product + push_bit 54 (of_nat (len - 1));
            hi = hi XOR ((w64 SECRET 48 XOR w64 SECRET 56) + seed);
            high = ucast (drop_bit 64 product) + (hi + ucast (ucast hi :: u32) * (P32_2 - 1));
            product = (ucast (low XOR swap_bytes high) :: u128) * ucast P64_2
        in (xxh3_avalanche (ucast product),
            xxh3_avalanche (ucast (drop_bit 64 product) + high * P64_2)))"

text \<open>17 to 128 bytes: rounds from the middle of the input to its ends.\<close>

definition mid_rounds :: "bytes \<Rightarrow> nat list" where
  "mid_rounds input = rev [0..<(length input - 1) div 32 + 1]"

definition xxh3_64_spec_17_to_128 :: "bytes \<Rightarrow> u64 \<Rightarrow> u64" where
  "xxh3_64_spec_17_to_128 input seed =
     xxh3_avalanche (fold (\<lambda>i acc. acc + mix16_spec input (16 * i) (32 * i) seed
         + mix16_spec input (length input - 16 * i - 16) (32 * i + 16) seed)
       (mid_rounds input) (of_nat (length input) * P64_1))"

definition xxh3_64_spec_129_to_240 :: "bytes \<Rightarrow> u64 \<Rightarrow> u64" where
  "xxh3_64_spec_129_to_240 input seed =
     (let len = length input;
          acc = fold (\<lambda>i acc. acc + mix16_spec input (16 * i) (16 * i) seed) [0..<8] (of_nat len * P64_1);
          acc = fold (\<lambda>i acc. acc + mix16_spec input (16 * i) (16 * (i - 8) + 3) seed) [8..<len div 16]
            (xxh3_avalanche acc);
          acc = acc + mix16_spec input (len - 16) 119 seed
      in xxh3_avalanche acc)"

definition mix32_spec :: "bytes \<Rightarrow> nat \<Rightarrow> nat \<Rightarrow> nat \<Rightarrow> u64 \<Rightarrow> hash128 \<Rightarrow> hash128" where
  "mix32_spec input i j s seed acc =
     ((fst acc + mix16_spec input i s seed) XOR (w64 input j + w64 input (j + 8)),
      (snd acc + mix16_spec input j (s + 16) seed) XOR (w64 input i + w64 input (i + 8)))"

definition xxh3_128_spec_17_to_128 :: "bytes \<Rightarrow> u64 \<Rightarrow> hash128" where
  "xxh3_128_spec_17_to_128 input seed =
     xxh_final128 (fold (\<lambda>i. mix32_spec input (16 * i) (length input - 16 * i - 16) (32 * i) seed)
       (mid_rounds input) (of_nat (length input) * P64_1, 0)) (length input) seed"

definition xxh3_128_spec_129_to_240 :: "bytes \<Rightarrow> u64 \<Rightarrow> hash128" where
  "xxh3_128_spec_129_to_240 input seed =
     (let len = length input;
          acc = fold (\<lambda>i. mix32_spec input (32 * i) (32 * i + 16) (32 * i) seed) [0..<4]
            (of_nat len * P64_1, 0);
          acc = (xxh3_avalanche (fst acc), xxh3_avalanche (snd acc));
          acc = fold (\<lambda>i. mix32_spec input (32 * i) (32 * i + 16) (3 + 32 * (i - 4)) seed) [4..<len div 32] acc;
          acc = mix32_spec input (len - 16) (len - 32) 103 (- seed) acc
      in xxh_final128 acc len seed)"

section \<open>The code computes the formulas\<close>

lemma xxh3_64_len_0_to_16_Some:
  "length input \<le> 16 \<Longrightarrow> xxh3_64_len_0_to_16 input seed = Some (xxh3_64_spec_0_to_16 input seed)"
  by (simp add: xxh3_64_len_0_to_16_def xxh3_64_spec_0_to_16_def slice_simps xxh3_combined_def)

lemma xxh3_128_len_0_to_16_Some:
  "length input \<le> 16 \<Longrightarrow> xxh3_128_len_0_to_16 input seed = Some (xxh3_128_spec_0_to_16 input seed)"
  by (simp add: xxh3_128_len_0_to_16_def xxh3_128_spec_0_to_16_def slice_simps xxh3_combined_def)

lemma add_mix16_Some [slice_simps]:
  "i + 16 \<le> length input \<Longrightarrow> s + 16 \<le> 192 \<Longrightarrow>
   add_mix16 input i s seed acc = Some (acc + mix16_spec input i s seed)"
  by (simp add: add_mix16_def slice_simps)

lemma mid_rounds_cases:
  assumes "17 \<le> length input" "length input \<le> 128"
  shows "mid_rounds input =
    (if 96 < length input then [3, 2, 1, 0] else if 64 < length input then [2, 1, 0]
     else if 32 < length input then [1, 0] else [0])"
proof -
  have "(length input - 1) div 32 = (if 96 < length input then 3 else if 64 < length input then 2
      else if 32 < length input then 1 else 0)"
    using assms by (auto simp: div_nat_eqI not_less)
  then show ?thesis by (simp add: mid_rounds_def upt_rec)
qed

lemma xxh3_64_len_17_to_128_Some:
  assumes "17 \<le> length input" "length input \<le> 128"
  shows "xxh3_64_len_17_to_128 input seed = Some (xxh3_64_spec_17_to_128 input seed)"
  using assms
  by (simp add: xxh3_64_len_17_to_128_def xxh3_64_spec_17_to_128_def mid_rounds_cases slice_simps
      ac_simps)

lemma fold_add_start:
  "fold (\<lambda>i acc. acc + f i) xs (a + b) = a + fold (\<lambda>i acc. acc + f i) xs (b :: u64)"
  by (induction xs arbitrary: b) (simp_all add: add.assoc)

lemma xxh3_64_len_129_to_240_Some:
  assumes "129 \<le> length input" "length input \<le> 240"
  shows "xxh3_64_len_129_to_240 input seed = Some (xxh3_64_spec_129_to_240 input seed)"
proof -
  let ?h = "\<lambda>i acc. acc + mix16_spec input (16 * i) (16 * i) seed"
  let ?t = "\<lambda>i. mix16_spec input (16 * i) (16 * (i - 8) + 3) seed"
  have head: "foldM (\<lambda>i acc. add_mix16 input (16 * i) (16 * i) seed acc) [0..<8] a
      = Some (fold ?h [0..<8] a)" for a
    by (rule foldM_Some) (use assms in \<open>auto simp: slice_simps\<close>)
  have tail: "foldM (\<lambda>i tail. add_mix16 input (16 * i) (3 + 16 * (i - 8)) seed tail) [8..<length input div 16] a
      = Some (fold (\<lambda>i acc. acc + ?t i) [8..<length input div 16] a)" for a
    by (rule foldM_Some) (use assms in \<open>auto simp: slice_simps add.commute\<close>)
  have "a + fold (\<lambda>i acc. acc + ?t i) xs x = fold (\<lambda>i acc. acc + ?t i) xs a + x" for a x xs
    using fold_add_start [of ?t xs a x] fold_add_start [of ?t xs x a] by (simp add: add.commute)
  then show ?thesis
    using assms
    by (simp add: xxh3_64_len_129_to_240_def xxh3_64_spec_129_to_240_def head tail slice_simps)
qed

lemma mix32_ptr_Some:
  assumes "16 \<le> length f" "16 \<le> length g" "32 \<le> length s"
  shows "mix32_ptr acc f g s seed = Some
    ((fst acc + mul_fold (w64 f 0 XOR (w64 s 0 + seed)) (w64 f 8 XOR (w64 s 8 - seed)))
        XOR (w64 g 0 + w64 g 8),
     (snd acc + mul_fold (w64 g 0 XOR (w64 s 16 + seed)) (w64 g 8 XOR (w64 s 24 - seed)))
        XOR (w64 f 0 + w64 f 8))"
  using assms by (simp add: mix32_ptr_def mix16_ptr_def slice_simps)

lemma mix32_Some [slice_simps]:
  "i + 16 \<le> length input \<Longrightarrow> j + 16 \<le> length input \<Longrightarrow> s + 32 \<le> 192 \<Longrightarrow>
   mix32 acc input i j s seed = Some (mix32_spec input i j s seed acc)"
  by (simp add: mix32_def slice_simps mix32_ptr_Some mix32_spec_def mix16_spec_def w64_take add.commute)

lemma mix32_at_Some [slice_simps]:
  "i + 16 \<le> length input \<Longrightarrow> j + 16 \<le> length input \<Longrightarrow> s + 32 \<le> 192 \<Longrightarrow>
   mix32_at input i j s seed acc = Some (mix32_spec input i j s seed acc)"
  by (simp add: mix32_at_def slice_simps mix32_ptr_Some mix32_spec_def mix16_spec_def add.commute)

lemma xxh3_128_len_17_to_128_Some:
  assumes "17 \<le> length input" "length input \<le> 128"
  shows "xxh3_128_len_17_to_128 input seed = Some (xxh3_128_spec_17_to_128 input seed)"
  using assms
  by (simp add: xxh3_128_len_17_to_128_def xxh3_128_spec_17_to_128_def mid_rounds_cases slice_simps)

text \<open>The fixed-length forms are the general form.\<close>

lemma xxh3_128_len_32_Some:
  "length input = 32 \<Longrightarrow> xxh3_128_len_32 input seed = Some (xxh3_128_spec_17_to_128 input seed)"
  by (simp add: xxh3_128_len_32_def xxh3_128_spec_17_to_128_def mid_rounds_cases slice_simps)

lemma xxh3_128_len_64_Some:
  "length input = 64 \<Longrightarrow> xxh3_128_len_64 input seed = Some (xxh3_128_spec_17_to_128 input seed)"
  by (simp add: xxh3_128_len_64_def xxh3_128_spec_17_to_128_def mid_rounds_cases slice_simps)

lemma xxh3_128_len_128_Some:
  "length input = 128 \<Longrightarrow> xxh3_128_len_128 input seed = Some (xxh3_128_spec_17_to_128 input seed)"
  by (simp add: xxh3_128_len_128_def xxh3_128_spec_17_to_128_def mid_rounds_cases slice_simps)

lemma xxh3_128_len_129_to_240_Some:
  assumes "129 \<le> length input" "length input \<le> 240"
  shows "xxh3_128_len_129_to_240 input seed = Some (xxh3_128_spec_129_to_240 input seed)"
proof -
  have head: "foldM (\<lambda>i acc. mix32_at input i (i + 16) i seed acc) (map (\<lambda>k. 32 * k) [0..<4]) a
      = Some (fold (\<lambda>i. mix32_spec input (32 * i) (32 * i + 16) (32 * i) seed) [0..<4] a)" for a
  proof -
    have "foldM (\<lambda>i acc. mix32_at input i (i + 16) i seed acc) (map (\<lambda>k. 32 * k) [0..<4]) a
        = Some (fold (\<lambda>i. mix32_spec input i (i + 16) i seed) (map (\<lambda>k. 32 * k) [0..<4]) a)"
      by (rule foldM_Some) (use assms in \<open>auto simp: slice_simps\<close>)
    then show ?thesis by (simp add: fold_map comp_def)
  qed
  have tail: "foldM (\<lambda>index. mix32_at input (index * 32) (index * 32 + 16) (3 + (index - 4) * 32) seed)
        [4..<length input div 32] a
      = Some (fold (\<lambda>i. mix32_spec input (32 * i) (32 * i + 16) (3 + 32 * (i - 4)) seed)
          [4..<length input div 32] a)" for a
    by (rule foldM_Some) (use assms in \<open>auto simp: slice_simps mult.commute\<close>)
  show ?thesis
    using assms
    by (simp add: xxh3_128_len_129_to_240_def xxh3_128_spec_129_to_240_def head tail slice_simps)
qed

end
