(* ===== verification/Xxh_Long.thy ===== *)
theory Xxh_Long
  imports Xxh_Short Vector_Ops
begin

text \<open>
  XXH3 for inputs of more than 240 bytes: the data of \<open>src/xxhash/long_inputs/long_engine.rs\<close>
  (\<open>LongInput\<close>, \<open>Secret\<close>, \<open>LongSchedule\<close>, \<open>merge\<close>, finalisation), the scalar kernel
  \<open>src/xxhash/long_inputs/scalar.rs\<close>, the published algorithm, and the locale \<open>xxh_kernel\<close>,
  the contract of an accumulation kernel.
\<close>

section \<open>Long inputs, secrets and schedules\<close>

definition long_input_new :: "bytes \<Rightarrow> bytes option" where
  "long_input_new input = (if 240 < length input then Some input else None)"

definition regular_stripes :: "bytes \<Rightarrow> nat" where
  "regular_stripes input = (length input - 1) div 64"

definition initialize_secret_scalar :: "u64 \<Rightarrow> bytes option" where
  "initialize_secret_scalar seed =
     foldM (\<lambda>offset secret. do {
         a \<leftarrow> xxh_read_u64_le SECRET offset;
         let lo = a + seed;
         b \<leftarrow> xxh_read_u64_le SECRET (offset + 8);
         let hi = b - seed;
         secret \<leftarrow> store secret offset (to_le lo);
         store secret (offset + 8) (to_le hi) }) (map (\<lambda>k. 16 * k) [0..<12]) SECRET"

record long_schedule =
  full_blocks :: nat
  tail_offset :: nat
  tail_stripes :: nat
  last_offset :: nat

definition build_long_input_schedule :: "bytes \<Rightarrow> long_schedule" where
  "build_long_input_schedule input =
     (let len = length input;
          full_blocks = (len - 1) div 1024;
          tail_offset = full_blocks * 1024
      in \<lparr>full_blocks = full_blocks, tail_offset = tail_offset,
          tail_stripes = (len - tail_offset - 1) div 64, last_offset = len - 64\<rparr>)"

definition initial_accumulator :: "u64 list" where
  "initial_accumulator = [P32_3, P64_1, P64_2, P64_3, P64_4, P32_2, P64_5, P32_1]"

definition merge :: "u64 list \<Rightarrow> bytes \<Rightarrow> nat \<Rightarrow> u64 \<Rightarrow> u64 option" where
  "merge acc secret offset start =
     do {
       result \<leftarrow> foldM (\<lambda>lane result. do {
           a \<leftarrow> get acc (lane * 2);
           s \<leftarrow> xxh_read_u64_le secret (offset + lane * 16);
           b \<leftarrow> get acc (lane * 2 + 1);
           t \<leftarrow> xxh_read_u64_le secret (offset + lane * 16 + 8);
           Some (result + mul_fold (a XOR s) (b XOR t)) }) [0..<4] start;
       Some (xxh3_avalanche result)
     }"

definition finalize_long_64 :: "nat \<Rightarrow> bytes \<Rightarrow> u64 list \<Rightarrow> u64 option" where
  "finalize_long_64 len secret acc = merge acc secret 11 (of_nat len * P64_1)"

definition finalize_long_128 :: "nat \<Rightarrow> bytes \<Rightarrow> u64 list \<Rightarrow> hash128 option" where
  "finalize_long_128 len secret acc =
     do {
       lo \<leftarrow> merge acc secret 11 (of_nat len * P64_1);
       hi \<leftarrow> merge acc secret 117 (NOT (of_nat len * P64_2));
       Some (lo, hi)
     }"

section \<open>The loop of the kernels\<close>

text \<open>
  \<open>accumulate\<close> of the scalar, SSSE3, AVX-512 and NEON kernels is the same loop around the
  kernel's own stripe and scramble steps.
\<close>

definition accumulate_loop ::
  "('a \<Rightarrow> bytes \<Rightarrow> nat \<Rightarrow> bytes \<Rightarrow> nat \<Rightarrow> 'a option) \<Rightarrow> ('a \<Rightarrow> bytes \<Rightarrow> 'a option) \<Rightarrow> 'a \<Rightarrow>
   bytes \<Rightarrow> bytes \<Rightarrow> 'a option" where
  "accumulate_loop stripe_step scramble_step acc data secret =
     (let schedule = build_long_input_schedule data in do {
       acc \<leftarrow> foldM (\<lambda>block acc. let offset = block * 1024 in do {
           acc \<leftarrow> foldM (\<lambda>stripe acc. stripe_step acc data (offset + stripe * 64) secret (stripe * 8))
             [0..<16] acc;
           scramble_step acc secret }) [0..<full_blocks schedule] acc;
       acc \<leftarrow> foldM (\<lambda>stripe acc.
           stripe_step acc data (tail_offset schedule + stripe * 64) secret (stripe * 8))
         [0..<tail_stripes schedule] acc;
       stripe_step acc data (last_offset schedule) secret 121
     })"

section \<open>The scalar kernel\<close>

definition scalar_accumulate_stripe ::
  "u64 list \<Rightarrow> bytes \<Rightarrow> nat \<Rightarrow> bytes \<Rightarrow> nat \<Rightarrow> u64 list option" where
  "scalar_accumulate_stripe acc data data_offset secret secret_offset =
     do {
       guard (data_offset + 64 \<le> length data);
       guard (secret_offset + 64 \<le> length secret);
       foldM (\<lambda>lane acc. do {
           value \<leftarrow> read_u64_le_ptr data (data_offset + lane * 8);
           s \<leftarrow> read_u64_le_ptr secret (secret_offset + lane * 8);
           let mixed = value XOR s;
           x \<leftarrow> get acc (lane XOR 1);
           let acc = acc[lane XOR 1 := x + value];
           y \<leftarrow> get acc lane;
           Some (acc[lane := y + ucast (ucast mixed :: u32) * drop_bit 32 mixed]) }) [0..<8] acc
     }"

definition scalar_scramble :: "u64 list \<Rightarrow> bytes \<Rightarrow> u64 list option" where
  "scalar_scramble acc secret =
     foldM (\<lambda>lane acc. do {
         value \<leftarrow> get acc lane;
         let value = value XOR drop_bit 47 value;
         s \<leftarrow> read_u64_le_ptr secret (128 + lane * 8);
         let value = value XOR s;
         Some (acc[lane := value * P32_1]) }) [0..<length acc] acc"

definition scalar_accumulate :: "bytes \<Rightarrow> bytes \<Rightarrow> u64 list option" where
  "scalar_accumulate data secret =
     accumulate_loop scalar_accumulate_stripe scalar_scramble initial_accumulator data secret"

section \<open>The published algorithm\<close>

text \<open>Exchange the members of each pair of lanes.\<close>

fun swap_pairs :: "'a list \<Rightarrow> 'a list" where
  "swap_pairs (a # b # xs) = b # a # swap_pairs xs"
| "swap_pairs xs = xs"

definition lane_products :: "u64 list \<Rightarrow> u64 list \<Rightarrow> u64 list" where
  "lane_products ds ss = map2 (\<lambda>d s. low32 (d XOR s) * drop_bit 32 (d XOR s)) ds ss"

definition vadd :: "u64 list \<Rightarrow> u64 list \<Rightarrow> u64 list" where
  "vadd a b = map2 (+) a b"

definition stripe_lanes :: "u64 list \<Rightarrow> u64 list \<Rightarrow> u64 list \<Rightarrow> u64 list" where
  "stripe_lanes acc ds ss = vadd (vadd acc (swap_pairs ds)) (lane_products ds ss)"

definition stripe_spec :: "u64 list \<Rightarrow> bytes \<Rightarrow> bytes \<Rightarrow> u64 list" where
  "stripe_spec acc d s = stripe_lanes acc (lanes d) (lanes s)"

definition scramble_spec :: "u64 list \<Rightarrow> bytes \<Rightarrow> u64 list" where
  "scramble_spec acc s = map2 (\<lambda>a k. ((a XOR drop_bit 47 a) XOR k) * P32_1) acc (lanes s)"

definition window :: "bytes \<Rightarrow> nat \<Rightarrow> bytes" where
  "window bs off = take 64 (drop off bs)"

definition stripes_spec :: "bytes \<Rightarrow> bytes \<Rightarrow> nat \<Rightarrow> nat list \<Rightarrow> u64 list \<Rightarrow> u64 list" where
  "stripes_spec data secret off ks acc =
     fold (\<lambda>k acc. stripe_spec acc (window data (off + k * 64)) (window secret (k * 8))) ks acc"

definition block_spec :: "bytes \<Rightarrow> bytes \<Rightarrow> nat \<Rightarrow> u64 list \<Rightarrow> u64 list" where
  "block_spec data secret block acc =
     scramble_spec (stripes_spec data secret (block * 1024) [0..<16] acc) (window secret 128)"

definition blocks_spec :: "bytes \<Rightarrow> bytes \<Rightarrow> u64 list \<Rightarrow> u64 list" where
  "blocks_spec data secret acc = fold (block_spec data secret) [0..<(length data - 1) div 1024] acc"

definition accumulate_spec :: "bytes \<Rightarrow> bytes \<Rightarrow> u64 list" where
  "accumulate_spec data secret =
     (let blocks = (length data - 1) div 1024;
          acc = blocks_spec data secret initial_accumulator;
          acc = stripes_spec data secret (blocks * 1024)
            [0..<(length data - blocks * 1024 - 1) div 64] acc
      in stripe_spec acc (window data (length data - 64)) (window secret 121))"

definition merge_spec :: "u64 list \<Rightarrow> bytes \<Rightarrow> nat \<Rightarrow> u64 \<Rightarrow> u64" where
  "merge_spec acc secret offset start =
     xxh3_avalanche (fold (\<lambda>i r. r + mul_fold (acc ! (2 * i) XOR w64 secret (offset + 16 * i))
         (acc ! (2 * i + 1) XOR w64 secret (offset + 16 * i + 8))) [0..<4] start)"

definition finalize_64_spec :: "nat \<Rightarrow> bytes \<Rightarrow> u64 list \<Rightarrow> u64" where
  "finalize_64_spec len secret acc = merge_spec acc secret 11 (of_nat len * P64_1)"

definition finalize_128_spec :: "nat \<Rightarrow> bytes \<Rightarrow> u64 list \<Rightarrow> hash128" where
  "finalize_128_spec len secret acc =
     (merge_spec acc secret 11 (of_nat len * P64_1), merge_spec acc secret 117 (NOT (of_nat len * P64_2)))"

text \<open>The secret of a seed: the seed added to and subtracted from alternate words.\<close>

definition derived_secret :: "u64 \<Rightarrow> bytes" where
  "derived_secret seed =
     concat (map (\<lambda>k. to_le (w64 SECRET (16 * k) + seed) @ to_le (w64 SECRET (16 * k + 8) - seed)) [0..<12])"

text \<open>Lane-wise addition is an abelian operation, so a stripe may be added to any partial sum.\<close>

lemma vadd_comm: "vadd a b = vadd b a"
  unfolding vadd_def by (induction a b rule: list_induct2') (simp_all add: add.commute)

lemma vadd_assoc: "vadd (vadd a b) c = vadd a (vadd b c)"
  unfolding vadd_def
proof (induction a b arbitrary: c rule: list_induct2')
  case (4 x xs y ys)
  then show ?case by (cases c) (simp_all add: add.assoc)
qed simp_all

lemma vadd_left_comm: "vadd a (vadd b c) = vadd b (vadd a c)"
  using vadd_assoc [of a b c] vadd_assoc [of b a c] vadd_comm [of a b] by simp

lemmas vadd_ac = vadd_assoc vadd_comm vadd_left_comm

lemma length_vadd [simp]: "length (vadd a b) = min (length a) (length b)"
  by (simp add: vadd_def)

lemma vadd_zero: "length a = n \<Longrightarrow> vadd a (replicate n 0) = a"
  unfolding vadd_def by (induction a arbitrary: n) auto

lemma vadd_append: "length a = length c \<Longrightarrow> vadd (a @ b) (c @ d) = vadd a c @ vadd b d"
  by (simp add: vadd_def)

lemma stripe_lanes_vadd: "stripe_lanes (vadd a b) ds ss = vadd (stripe_lanes a ds ss) b"
  by (simp add: stripe_lanes_def vadd_ac)

lemma stripe_spec_vadd: "stripe_spec (vadd a b) d s = vadd (stripe_spec a d s) b"
  by (simp add: stripe_spec_def stripe_lanes_vadd)

section \<open>The contract of a kernel\<close>

text \<open>
  A kernel keeps its accumulator in a representation of its own (an array, registers); \<open>view\<close>
  are its eight lanes.  The laws are those of one stripe and of one scramble, for every offset
  whose 64-byte window is inside the data and the secret.
\<close>

locale xxh_kernel =
  fixes ok :: "'a \<Rightarrow> bool"
    and view :: "'a \<Rightarrow> u64 list"
    and stripe :: "'a \<Rightarrow> bytes \<Rightarrow> nat \<Rightarrow> bytes \<Rightarrow> nat \<Rightarrow> 'a option"
    and scramble :: "'a \<Rightarrow> bytes \<Rightarrow> 'a option"
  assumes stripe_law: "ok a \<Longrightarrow> i + 64 \<le> length data \<Longrightarrow> j + 64 \<le> length secret \<Longrightarrow>
      \<exists>a'. stripe a data i secret j = Some a' \<and> ok a'
        \<and> view a' = stripe_spec (view a) (window data i) (window secret j)"
    and scramble_law: "ok a \<Longrightarrow> length secret = 192 \<Longrightarrow>
      \<exists>a'. scramble a secret = Some a' \<and> ok a' \<and> view a' = scramble_spec (view a) (window secret 128)"
begin

lemma stripes:
  assumes "ok a" "\<And>k. k \<in> set ks \<Longrightarrow> off + k * 64 + 64 \<le> length data \<and> k * 8 + 64 \<le> length secret"
  shows "\<exists>a'. foldM (\<lambda>k a. stripe a data (off + k * 64) secret (k * 8)) ks a = Some a' \<and> ok a'
    \<and> view a' = stripes_spec data secret off ks (view a)"
  unfolding stripes_spec_def
  by (rule foldM_refines [where ok = ok and v = view]) (use assms stripe_law in auto)

lemma block:
  assumes "ok a" "b * 1024 + 1024 \<le> length data" "length secret = 192"
  shows "\<exists>a'. (do { a \<leftarrow> foldM (\<lambda>k a. stripe a data (b * 1024 + k * 64) secret (k * 8)) [0..<16] a;
      scramble a secret }) = Some a' \<and> ok a' \<and> view a' = block_spec data secret b (view a)"
proof -
  obtain a1 where a1: "foldM (\<lambda>k a. stripe a data (b * 1024 + k * 64) secret (k * 8)) [0..<16] a = Some a1"
    "ok a1" "view a1 = stripes_spec data secret (b * 1024) [0..<16] (view a)"
    using stripes [OF assms(1), of "[0..<16]" "b * 1024" data secret] assms(2,3) by auto
  with scramble_law [OF a1(2) assms(3)] show ?thesis by (auto simp: block_spec_def)
qed

lemma loop:
  assumes ok: "ok a" "view a = initial_accumulator" and len: "64 < length data" "length secret = 192"
  shows "\<exists>a'. accumulate_loop stripe scramble a data secret = Some a' \<and> ok a'
    \<and> view a' = accumulate_spec data secret"
proof -
  let ?n = "(length data - 1) div 1024"
  let ?t = "(length data - ?n * 1024 - 1) div 64"
  have n: "?n * 1024 < length data" using len by auto
  have t: "?n * 1024 + ?t * 64 < length data" "?t \<le> 15" using n len by auto
  have whole: "b * 1024 + 1024 \<le> length data" if "b < ?n" for b
  proof -
    have "Suc b * 1024 \<le> ?n * 1024" using that by (intro mult_le_mono) simp_all
    then show ?thesis using n by simp
  qed
  have fits: "?n * 1024 + k * 64 + 64 \<le> length data \<and> k * 8 + 64 \<le> length secret"
    if "k \<in> set [0..<?t]" for k
  proof -
    have "Suc k \<le> ?t" using that by simp
    then have "Suc k * 64 \<le> ?t * 64" "k \<le> 14" using t(2) by simp_all
    then show ?thesis using t(1) len(2) by simp
  qed
  have "\<exists>a1. foldM (\<lambda>b a. let offset = b * 1024 in do {
         a \<leftarrow> foldM (\<lambda>k a. stripe a data (offset + k * 64) secret (k * 8)) [0..<16] a;
         scramble a secret }) [0..<?n] a = Some a1 \<and> ok a1
      \<and> view a1 = fold (block_spec data secret) [0..<?n] (view a)"
    by (rule foldM_refines) (use ok in \<open>auto simp: Let_def intro!: block [OF _ _ len(2)] dest!: whole\<close>)
  then obtain a1 where a1: "foldM (\<lambda>b a. let offset = b * 1024 in do {
         a \<leftarrow> foldM (\<lambda>k a. stripe a data (offset + k * 64) secret (k * 8)) [0..<16] a;
         scramble a secret }) [0..<?n] a = Some a1" "ok a1"
      "view a1 = blocks_spec data secret initial_accumulator"
    by (auto simp: blocks_spec_def ok)
  obtain a2 where a2: "foldM (\<lambda>k a. stripe a data (?n * 1024 + k * 64) secret (k * 8)) [0..<?t] a1 = Some a2"
    "ok a2" "view a2 = stripes_spec data secret (?n * 1024) [0..<?t] (view a1)"
    using stripes [OF a1(2) fits, of "[0..<?t]"] by auto
  obtain a3 where "stripe a2 data (length data - 64) secret 121 = Some a3" "ok a3"
    "view a3 = stripe_spec (view a2) (window data (length data - 64)) (window secret 121)"
    using stripe_law [OF a2(2), of "length data - 64" data 121 secret] len by auto
  then show ?thesis
    using a1 a2 by (simp add: accumulate_loop_def accumulate_spec_def build_long_input_schedule_def Let_def)
qed

end

section \<open>The scalar kernel meets the contract\<close>

lemma length_window [simp]: "off + 64 \<le> length bs \<Longrightarrow> length (window bs off) = 64"
  by (simp add: window_def)

lemma lanes_window:
  assumes "off + 64 \<le> length bs"
  shows "lanes (window bs off) = map (\<lambda>j. w64 bs (off + j * 8)) [0..<8]"
proof (rule nth_equalityI)
  show "length (lanes (window bs off) :: u64 list) = length (map (\<lambda>j. w64 bs (off + j * 8)) [0..<8])"
    using assms by (simp add: length_lanes64)
next
  fix j assume "j < length (lanes (window bs off) :: u64 list)"
  then have j: "j < 8" using assms by (simp add: length_lanes64)
  then show "lanes (window bs off) ! j = map (\<lambda>j. w64 bs (off + j * 8)) [0..<8] ! j"
    using assms by (simp add: nth_lanes window_def w64_def drop_take min_absorb1 add.commute)
qed

lemma upt_0_8: "[0..<8] = [0, 1, 2, 3, 4, 5, 6, 7 :: nat]"
  by (simp add: upt_rec)

lemma upt_0_4: "[0..<4] = [0, 1, 2, 3 :: nat]"
  by (simp add: upt_rec)

lemma nat_lane_partner:
  "(0 :: nat) XOR 1 = 1" "(1 :: nat) XOR 1 = 0" "(2 :: nat) XOR 1 = 3" "(3 :: nat) XOR 1 = 2"
  "(4 :: nat) XOR 1 = 5" "(5 :: nat) XOR 1 = 4" "(6 :: nat) XOR 1 = 7" "(7 :: nat) XOR 1 = 6"
  by simp_all

text \<open>The interleaved updates of a lane and its partner, for any values and products.\<close>

lemma scalar_lanes:
  "foldM (\<lambda>lane acc. do {
       x \<leftarrow> get acc (lane XOR 1);
       let acc = acc[lane XOR 1 := x + v lane];
       y \<leftarrow> get acc lane;
       Some (acc[lane := y + p lane]) }) [0..<8] [a0, a1, a2, a3, a4, a5, a6, a7 :: u64]
   = Some [a0 + v 1 + p 0, a1 + v 0 + p 1, a2 + v 3 + p 2, a3 + v 2 + p 3,
           a4 + v 5 + p 4, a5 + v 4 + p 5, a6 + v 7 + p 6, a7 + v 6 + p 7]"
  by (simp add: upt_0_8 slice_simps nat_lane_partner [simplified] add.commute add.left_commute)

lemma scalar_stripe_law:
  assumes "length acc = 8" "i + 64 \<le> length data" "j + 64 \<le> length secret"
  shows "scalar_accumulate_stripe acc data i secret j
    = Some (stripe_spec acc (window data i) (window secret j))"
proof -
  obtain a0 a1 a2 a3 a4 a5 a6 a7 where acc: "acc = [a0, a1, a2, a3, a4, a5, a6, a7]"
    using assms(1) by (auto simp: length_eq_8)
  let ?v = "\<lambda>l. w64 data (i + l * 8)" and ?k = "\<lambda>l. w64 secret (j + l * 8)"
  let ?p = "\<lambda>l. low32 (?v l XOR ?k l) * drop_bit 32 (?v l XOR ?k l)"
  have "scalar_accumulate_stripe acc data i secret j = foldM (\<lambda>lane acc. do {
       x \<leftarrow> get acc (lane XOR 1);
       let acc = acc[lane XOR 1 := x + ?v lane];
       y \<leftarrow> get acc lane;
       Some (acc[lane := y + ?p lane]) }) [0..<8] acc"
    unfolding scalar_accumulate_stripe_def using assms(2,3)
    by (simp add: low32_def) (rule foldM_cong, simp add: slice_simps)
  also have "\<dots> = Some [a0 + ?v 1 + ?p 0, a1 + ?v 0 + ?p 1, a2 + ?v 3 + ?p 2, a3 + ?v 2 + ?p 3,
           a4 + ?v 5 + ?p 4, a5 + ?v 4 + ?p 5, a6 + ?v 7 + ?p 6, a7 + ?v 6 + ?p 7]"
    unfolding acc by (rule scalar_lanes)
  finally show ?thesis
    using assms(2,3) unfolding acc stripe_spec_def
    by (simp add: lanes_window upt_0_8 stripe_lanes_def lane_products_def vadd_def)
qed

lemma scalar_scramble_law:
  assumes "length acc = 8" "length secret = 192"
  shows "scalar_scramble acc secret = Some (scramble_spec acc (window secret 128))"
proof -
  obtain a0 a1 a2 a3 a4 a5 a6 a7 where acc: "acc = [a0, a1, a2, a3, a4, a5, a6, a7]"
    using assms(1) by (auto simp: length_eq_8)
  show ?thesis
    using assms(2) unfolding acc scramble_spec_def
    by (simp add: scalar_scramble_def lanes_window upt_0_8 slice_simps)
qed

lemma length_swap_pairs [simp]: "length (swap_pairs xs) = length xs"
  by (induction xs rule: swap_pairs.induct) simp_all

lemma length_stripe_spec:
  "length acc = 8 \<Longrightarrow> length d = 64 \<Longrightarrow> length s = 64 \<Longrightarrow> length (stripe_spec acc d s) = 8"
  by (simp add: stripe_spec_def stripe_lanes_def lane_products_def length_lanes64 vadd_def)

lemma length_scramble_spec: "length acc = 8 \<Longrightarrow> length s = 64 \<Longrightarrow> length (scramble_spec acc s) = 8"
  by (simp add: scramble_spec_def length_lanes64)

interpretation scalar: xxh_kernel "\<lambda>a. length a = 8" "\<lambda>a. a" scalar_accumulate_stripe scalar_scramble
  by unfold_locales
    (simp_all add: scalar_stripe_law scalar_scramble_law length_stripe_spec length_scramble_spec)

lemma scalar_accumulate_Some:
  "240 < length data \<Longrightarrow> length secret = 192 \<Longrightarrow>
   scalar_accumulate data secret = Some (accumulate_spec data secret)"
  using scalar.loop [of initial_accumulator data secret]
  by (auto simp: scalar_accumulate_def initial_accumulator_def)

section \<open>Finalisation and secrets\<close>

lemma length_initial_accumulator [simp]: "length initial_accumulator = 8"
  by (simp add: initial_accumulator_def)

lemma length_stripes_spec:
  "length acc = 8 \<Longrightarrow> (\<And>k. k \<in> set ks \<Longrightarrow> off + k * 64 + 64 \<le> length data \<and> k * 8 + 64 \<le> length secret) \<Longrightarrow>
   length (stripes_spec data secret off ks acc) = 8"
  unfolding stripes_spec_def
  by (induction ks arbitrary: acc) (simp_all add: length_stripe_spec)

lemma length_accumulate_spec:
  assumes "240 < length data" "length secret = 192"
  shows "length (accumulate_spec data secret) = 8"
  using scalar.loop [of initial_accumulator data secret] assms by auto

lemma merge_Some:
  assumes "length acc = 8" "offset + 64 \<le> length secret"
  shows "merge acc secret offset start = Some (merge_spec acc secret offset start)"
proof -
  have "foldM (\<lambda>lane result. do {
           a \<leftarrow> get acc (lane * 2);
           s \<leftarrow> xxh_read_u64_le secret (offset + lane * 16);
           b \<leftarrow> get acc (lane * 2 + 1);
           t \<leftarrow> xxh_read_u64_le secret (offset + lane * 16 + 8);
           Some (result + mul_fold (a XOR s) (b XOR t)) }) [0..<4] start
      = Some (fold (\<lambda>i r. r + mul_fold (acc ! (2 * i) XOR w64 secret (offset + 16 * i))
          (acc ! (2 * i + 1) XOR w64 secret (offset + 16 * i + 8))) [0..<4] start)"
    by (rule foldM_Some) (use assms in \<open>auto simp: slice_simps mult.commute\<close>)
  then show ?thesis by (simp add: merge_def merge_spec_def)
qed

lemma finalize_long_64_Some:
  "length acc = 8 \<Longrightarrow> length secret = 192 \<Longrightarrow>
   finalize_long_64 n secret acc = Some (finalize_64_spec n secret acc)"
  by (simp add: finalize_long_64_def finalize_64_spec_def merge_Some)

lemma finalize_long_128_Some:
  "length acc = 8 \<Longrightarrow> length secret = 192 \<Longrightarrow>
   finalize_long_128 n secret acc = Some (finalize_128_spec n secret acc)"
  by (simp add: finalize_long_128_def finalize_128_spec_def merge_Some)

lemma length_derived_secret [simp]: "length (derived_secret seed) = 192"
  by (simp add: derived_secret_def length_concat comp_def sum_list_triv)

text \<open>The loop that overwrites the default secret window by window leaves the derived secret.\<close>

lemma initialize_secret_scalar_Some: "initialize_secret_scalar seed = Some (derived_secret seed)"
proof -
  let ?f = "\<lambda>k. to_le (w64 SECRET (16 * k) + seed) @ to_le (w64 SECRET (16 * k + 8) - seed)"
  have loop: "foldM (\<lambda>offset secret. do {
         a \<leftarrow> xxh_read_u64_le SECRET offset;
         let lo = a + seed;
         b \<leftarrow> xxh_read_u64_le SECRET (offset + 8);
         let hi = b - seed;
         secret \<leftarrow> store secret offset (to_le lo);
         store secret (offset + 8) (to_le hi) }) (map (\<lambda>k. 16 * k) [0..<n]) SECRET
      = Some (concat (map ?f [0..<n]) @ drop (16 * n) SECRET)" if "n \<le> 12" for n
    using that
  proof (induction n)
    case 0
    then show ?case by simp
  next
    case (Suc n)
    have l: "length (concat (map ?f [0..<n])) = 16 * n"
      by (simp add: length_concat comp_def sum_list_triv)
    show ?case
      using Suc l
      by (simp add: foldM_append slice_simps store_store store_fill)
  qed
  show ?thesis using loop [of 12] by (simp add: initialize_secret_scalar_def derived_secret_def)
qed

end
