(* ===== verification/Xxh_X86.thy ===== *)
theory Xxh_X86
  imports Xxh_Long
begin

text \<open>
  The x86 kernels for long inputs: SSSE3 (\<open>src/xxhash/long_inputs/x86/ssse3.rs\<close>), AVX-512
  (\<open>avx512.rs\<close>), AVX2 with four chains of partial sums, the two-chain kernel for medium inputs
  and the secret initialisation (\<open>avx2.rs\<close>).
\<close>

section \<open>SSSE3\<close>

definition ssse3_accumulate_stripe ::
  "u64 list \<Rightarrow> bytes \<Rightarrow> nat \<Rightarrow> bytes \<Rightarrow> nat \<Rightarrow> u64 list option" where
  "ssse3_accumulate_stripe acc data i secret j =
     foldM (\<lambda>vector acc. let byte_offset = vector * 16 in do {
         input \<leftarrow> slice data (i + byte_offset) 16;
         secret_values \<leftarrow> slice secret (j + byte_offset) 16;
         let mixed = xor_si input secret_values;
         let product = mul_epu32 mixed (shuffle_epi32 0xb1 mixed);
         let swapped = shuffle_epi32 0x4e input;
         old \<leftarrow> slice acc (vector * 2) 2;
         store acc (vector * 2) (lanes (add_epi64 (add_epi64 (unlanes old) swapped) product)) })
       [0..<4] acc"

definition ssse3_scramble :: "u64 list \<Rightarrow> bytes \<Rightarrow> u64 list option" where
  "ssse3_scramble acc secret =
     (let prime = set1 4 (ucast P32_1 :: u32) in
      foldM (\<lambda>vector acc. let byte_offset = vector * 16 in do {
         old \<leftarrow> slice acc (vector * 2) 2;
         let value = unlanes old;
         secret_values \<leftarrow> slice secret (128 + byte_offset) 16;
         let mixed = xor_si (xor_si value (srli_epi64 47 value)) secret_values;
         let low = mul_epu32 mixed prime;
         let high = slli_epi64 32 (mul_epu32 (srli_epi64 32 mixed) prime);
         store acc (vector * 2) (lanes (add_epi64 low high)) }) [0..<4] acc)"

definition ssse3_accumulate :: "bytes \<Rightarrow> bytes \<Rightarrow> u64 list option" where
  "ssse3_accumulate data secret =
     accumulate_loop ssse3_accumulate_stripe ssse3_scramble initial_accumulator data secret"

section \<open>AVX-512\<close>

definition avx512_accumulate_stripe ::
  "u64 list \<Rightarrow> bytes \<Rightarrow> nat \<Rightarrow> bytes \<Rightarrow> nat \<Rightarrow> u64 list option" where
  "avx512_accumulate_stripe acc data i secret j =
     do {
       input \<leftarrow> slice data i 64;
       secret_values \<leftarrow> slice secret j 64;
       let mixed = xor_si input secret_values;
       let product = mul_epu32 mixed (srli_epi64 32 mixed);
       let swapped = shuffle_epi32 0x4e input;
       old \<leftarrow> slice acc 0 8;
       store acc 0 (lanes (add_epi64 (add_epi64 (unlanes old) swapped) product))
     }"

definition avx512_scramble :: "u64 list \<Rightarrow> bytes \<Rightarrow> u64 list option" where
  "avx512_scramble acc secret =
     do {
       old \<leftarrow> slice acc 0 8;
       let value = unlanes old;
       secret_values \<leftarrow> slice secret 128 64;
       let mixed = xor_si (xor_si value (srli_epi64 47 value)) secret_values;
       let prime = set1 16 (ucast P32_1 :: u32);
       let low = mul_epu32 mixed prime;
       let high = slli_epi64 32 (mul_epu32 (srli_epi64 32 mixed) prime);
       store acc 0 (lanes (add_epi64 low high))
     }"

definition avx512_accumulate :: "bytes \<Rightarrow> bytes \<Rightarrow> u64 list option" where
  "avx512_accumulate data secret =
     accumulate_loop avx512_accumulate_stripe avx512_scramble initial_accumulator data secret"

section \<open>AVX2\<close>

record avx2_accumulator =
  acc_low :: bytes
  acc_high :: bytes

text \<open>\<open>_mm256_set_epi64x\<close> takes the highest lane first.\<close>

definition avx2_init_secret :: "u64 \<Rightarrow> bytes option" where
  "avx2_init_secret seed =
     (let negative = 0 - seed;
          delta = set_lanes [seed, negative, seed, negative] in
      foldM (\<lambda>vector output. let offset = vector * 32 in do {
          source \<leftarrow> slice SECRET offset 32;
          store output offset (add_epi64 source delta) }) [0..<6] (replicate 192 0))"

definition accumulate_vector :: "bytes \<Rightarrow> bytes \<Rightarrow> nat \<Rightarrow> bytes \<Rightarrow> nat \<Rightarrow> bytes option" where
  "accumulate_vector acc data i secret j =
     do {
       input \<leftarrow> slice data i 32;
       secret_values \<leftarrow> slice secret j 32;
       let mixed = xor_si input secret_values;
       let product = mul_epu32 mixed (srli_epi64 32 mixed);
       let swapped = shuffle_epi32 0x4e input;
       Some (add_epi64 (add_epi64 acc swapped) product)
     }"

definition scramble_vector :: "bytes \<Rightarrow> bytes \<Rightarrow> nat \<Rightarrow> bytes option" where
  "scramble_vector acc secret j =
     do {
       secret_values \<leftarrow> slice secret j 32;
       let mixed = xor_si (xor_si acc (srli_epi64 47 acc)) secret_values;
       let prime = set1 8 (ucast P32_1 :: u32);
       let low = mul_epu32 mixed prime;
       let high = slli_epi64 32 (mul_epu32 (srli_epi64 32 mixed) prime);
       Some (add_epi64 low high)
     }"

definition avx2_initial :: "avx2_accumulator option" where
  "avx2_initial =
     do {
       low \<leftarrow> slice initial_accumulator 0 4;
       high \<leftarrow> slice initial_accumulator 4 4;
       Some \<lparr>acc_low = unlanes low, acc_high = unlanes high\<rparr>
     }"

definition accumulate_registers ::
  "avx2_accumulator \<Rightarrow> bytes \<Rightarrow> nat \<Rightarrow> bytes \<Rightarrow> nat \<Rightarrow> avx2_accumulator option" where
  "accumulate_registers acc data i secret j =
     do {
       low \<leftarrow> accumulate_vector (acc_low acc) data i secret j;
       high \<leftarrow> accumulate_vector (acc_high acc) data (i + 32) secret (j + 32);
       Some \<lparr>acc_low = low, acc_high = high\<rparr>
     }"

definition scramble_registers :: "avx2_accumulator \<Rightarrow> bytes \<Rightarrow> nat \<Rightarrow> avx2_accumulator option" where
  "scramble_registers acc secret j =
     do {
       low \<leftarrow> scramble_vector (acc_low acc) secret j;
       high \<leftarrow> scramble_vector (acc_high acc) secret (j + 32);
       Some \<lparr>acc_low = low, acc_high = high\<rparr>
     }"

definition avx2_finish :: "avx2_accumulator \<Rightarrow> u64 list option" where
  "avx2_finish acc =
     do {
       output \<leftarrow> store (replicate 8 0) 0 (lanes (acc_low acc));
       store output 4 (lanes (acc_high acc))
     }"

type_synonym avx2_chains = "avx2_accumulator \<times> avx2_accumulator \<times> avx2_accumulator \<times> avx2_accumulator"

definition reduce_chains :: "avx2_chains \<Rightarrow> avx2_accumulator" where
  "reduce_chains = (\<lambda>(acc0, acc1, acc2, acc3).
     let low = add_epi64 (add_epi64 (acc_low acc0) (acc_low acc1)) (acc_low acc2);
         low = add_epi64 low (acc_low acc3);
         high = add_epi64 (add_epi64 (acc_high acc0) (acc_high acc1)) (acc_high acc2);
         high = add_epi64 high (acc_high acc3)
     in \<lparr>acc_low = low, acc_high = high\<rparr>)"

definition accumulate_group :: "bytes \<Rightarrow> nat \<Rightarrow> bytes \<Rightarrow> nat \<Rightarrow> avx2_chains \<Rightarrow> avx2_chains option" where
  "accumulate_group data off secret first_stripe = (\<lambda>(acc0, acc1, acc2, acc3).
     do {
       acc0 \<leftarrow> accumulate_registers acc0 data (off + first_stripe * 64) secret (first_stripe * 8);
       acc1 \<leftarrow> accumulate_registers acc1 data (off + (first_stripe + 1) * 64) secret ((first_stripe + 1) * 8);
       acc2 \<leftarrow> accumulate_registers acc2 data (off + (first_stripe + 2) * 64) secret ((first_stripe + 2) * 8);
       acc3 \<leftarrow> accumulate_registers acc3 data (off + (first_stripe + 3) * 64) secret ((first_stripe + 3) * 8);
       Some (acc0, acc1, acc2, acc3)
     })"

definition zero_accumulator :: avx2_accumulator where
  "zero_accumulator = \<lparr>acc_low = replicate 32 0, acc_high = replicate 32 0\<rparr>"

definition accumulate_block_chains ::
  "avx2_accumulator \<Rightarrow> bytes \<Rightarrow> nat \<Rightarrow> bytes \<Rightarrow> avx2_accumulator option" where
  "accumulate_block_chains acc0 data off secret =
     do {
       accs \<leftarrow> foldM (\<lambda>stripe. accumulate_group data off secret stripe) (map (\<lambda>g. 4 * g) [0..<4])
         (acc0, zero_accumulator, zero_accumulator, zero_accumulator);
       Some (reduce_chains accs)
     }"

definition accumulate_tail_chains ::
  "avx2_accumulator \<Rightarrow> bytes \<Rightarrow> nat \<Rightarrow> bytes \<Rightarrow> nat \<Rightarrow> nat \<Rightarrow> avx2_accumulator option" where
  "accumulate_tail_chains acc0 data off secret stripes last_off =
     do {
       guard (3 \<le> stripes \<and> stripes \<le> 15);
       (stripe, acc0, acc1, acc2, acc3) \<leftarrow>
         scan_while stripes 4 4 (\<lambda>stripe. accumulate_group data off secret stripe) 0
           (acc0, zero_accumulator, zero_accumulator, zero_accumulator);
       let remaining = stripes - stripe;
       acc0 \<leftarrow> (if 1 \<le> remaining
         then accumulate_registers acc0 data (off + stripe * 64) secret (stripe * 8) else Some acc0);
       acc1 \<leftarrow> (if 2 \<le> remaining
         then accumulate_registers acc1 data (off + (stripe + 1) * 64) secret ((stripe + 1) * 8)
         else Some acc1);
       acc2 \<leftarrow> (if remaining = 3
         then accumulate_registers acc2 data (off + (stripe + 2) * 64) secret ((stripe + 2) * 8)
         else Some acc2);
       acc3 \<leftarrow> accumulate_registers acc3 data last_off secret 121;
       Some (reduce_chains (acc0, acc1, acc2, acc3))
     }"

definition avx2_accumulate :: "bytes \<Rightarrow> bytes \<Rightarrow> u64 list option" where
  "avx2_accumulate data secret =
     (let schedule = build_long_input_schedule data in do {
       acc \<leftarrow> avx2_initial;
       acc \<leftarrow> foldM (\<lambda>block acc. let offset = block * 1024 in do {
           acc \<leftarrow> accumulate_block_chains acc data offset secret;
           scramble_registers acc secret 128 }) [0..<full_blocks schedule] acc;
       acc \<leftarrow> (if 3 \<le> tail_stripes schedule then
           accumulate_tail_chains acc data (tail_offset schedule) secret (tail_stripes schedule)
             (last_offset schedule)
         else do {
           acc \<leftarrow> foldM (\<lambda>stripe acc.
               accumulate_registers acc data (tail_offset schedule + stripe * 64) secret (stripe * 8))
             [0..<tail_stripes schedule] acc;
           accumulate_registers acc data (last_offset schedule) secret 121 });
       avx2_finish acc
     })"

definition hash_128_medium :: "bytes \<Rightarrow> bytes \<Rightarrow> hash128 option" where
  "hash_128_medium data secret =
     do {
       guard (length data \<le> 1024);
       acc0 \<leftarrow> avx2_initial;
       (stripe, acc0, acc1) \<leftarrow> scan_while (regular_stripes data) 2 2 (\<lambda>stripe (acc0, acc1). do {
           acc0 \<leftarrow> accumulate_registers acc0 data (stripe * 64) secret (stripe * 8);
           acc1 \<leftarrow> accumulate_registers acc1 data ((stripe + 1) * 64) secret ((stripe + 1) * 8);
           Some (acc0, acc1) }) 0 (acc0, zero_accumulator);
       acc0 \<leftarrow> (if stripe < regular_stripes data
         then accumulate_registers acc0 data (stripe * 64) secret (stripe * 8) else Some acc0);
       acc1 \<leftarrow> accumulate_registers acc1 data (length data - 64) secret 121;
       let acc0 = \<lparr>acc_low = add_epi64 (acc_low acc0) (acc_low acc1),
                   acc_high = add_epi64 (acc_high acc0) (acc_high acc1)\<rparr>;
       acc \<leftarrow> avx2_finish acc0;
       finalize_long_128 (length data) secret acc
     }"

section \<open>The instructions on 64-bit lanes\<close>

lemma lanes_add_epi64_vadd: "(lanes (add_epi64 v w) :: u64 list) = vadd (lanes v) (lanes w)"
  by (simp add: vadd_def lanes_add_epi64)

lemma halves_append: "length g = 16 \<Longrightarrow> halves f (g @ h) = f g @ halves f h"
  by (simp add: halves_def chunks_append1)

lemma lanes64_append16: "length g = 16 \<Longrightarrow> (lanes (g @ h) :: u64 list) = lanes g @ lanes h"
  by (simp add: lanes_append)

lemma lanes32_block:
  fixes h :: bytes
  assumes "length h = 16"
  obtains w0 w1 w2 w3 :: u32 where "lanes h = [w0, w1, w2, w3]" "h = unlanes [w0, w1] @ unlanes [w2, w3]"
proof -
  have "length (lanes h :: u32 list) = 4" using assms by (simp add: length_lanes32)
  then obtain w0 w1 w2 w3 :: u32 where w: "lanes h = [w0, w1, w2, w3]" by (auto simp: length_eq_4)
  have "h = unlanes (lanes h :: u32 list)" using assms by (simp add: unlanes32_lanes)
  then show thesis using that w by (simp add: unlanes_four)
qed

lemma length_unlanes_pair [simp]: "length (unlanes [x, y :: u32]) = 8"
  by (simp add: length_unlanes)

lemma lanes64_pairs:
  "lanes (unlanes [x, y :: u32] @ unlanes [z, w :: u32])
    = [le_word (unlanes [x, y]), (le_word (unlanes [z, w]) :: u64)]"
  by (simp add: lanes64_pair)

lemma le_word_unlanes_pair:
  "(le_word (unlanes [x, y :: u32]) :: u64) = ucast x OR push_bit 32 (ucast y)"
proof -
  have "(le_word (to_le z) :: u64) = ucast z" for z :: u32
    using ucast_le_word [of "to_le z", where 'b = 32 and 'a = 64] by (simp add: le_word_to_le)
  then show ?thesis by (simp add: unlanes_def le_word_append)
qed

lemma word_pair:
  "drop_bit 32 (le_word (unlanes [x, y]) :: u64) = ucast y" "low32 (le_word (unlanes [x, y])) = ucast x"
  for x y :: u32
  unfolding le_word_unlanes_pair low32_and
  by (rule bit_word_eqI; auto simp: bit_simps dest: bit_imp_le_length)+

text \<open>A statement about every register of whole 16-byte halves follows from one half.\<close>

lemma register_induct [consumes 1, case_names Nil half]:
  assumes "16 dvd length v" and "P []"
    and "\<And>g h. length g = 16 \<Longrightarrow> 16 dvd length h \<Longrightarrow> P h \<Longrightarrow> P (g @ h)"
  shows "P v"
  using assms(1)
proof (induction "length v" arbitrary: v rule: less_induct)
  case less
  show ?case
  proof (cases "v = []")
    case True
    then show ?thesis by (simp add: assms(2))
  next
    case False
    then have l: "16 \<le> length v" using less.prems by (simp add: dvd_imp_le)
    have "P (drop 16 v)" using less False l by (simp add: dvd_diff_nat)
    then have "P (take 16 v @ drop 16 v)" using less.prems l by (intro assms(3)) (simp_all add: dvd_diff_nat)
    then show ?thesis by simp
  qed
qed

lemma halves_Nil [simp]: "halves f [] = []"
  by (simp add: halves_def)

lemma shuffle_4e_half:
  assumes "length g = 16"
  shows "lanes (shuffle_epi32 0x4e g) = (swap_pairs (lanes g) :: u64 list)"
    and "length (shuffle_epi32 0x4e g) = 16"
proof -
  obtain w0 w1 w2 w3 :: u32 where w: "lanes g = [w0, w1, w2, w3]" "g = unlanes [w0, w1] @ unlanes [w2, w3]"
    using assms by (rule lanes32_block)
  have "shuffle_epi32 0x4e g = unlanes [w2, w3] @ unlanes [w0, w1]"
    using assms by (simp add: shuffle_epi32_def halves_def w(1) upt_0_4 unlanes_four)
  then show "lanes (shuffle_epi32 0x4e g) = (swap_pairs (lanes g) :: u64 list)"
    "length (shuffle_epi32 0x4e g) = 16"
    using w(2) by (simp_all add: lanes64_pairs)
qed

lemma shuffle_b1_half:
  assumes "length g = 16"
  shows "map low32 (lanes (shuffle_epi32 0xb1 g)) = map (drop_bit 32) (lanes g :: u64 list)"
    and "length (shuffle_epi32 0xb1 g) = 16"
proof -
  obtain w0 w1 w2 w3 :: u32 where w: "lanes g = [w0, w1, w2, w3]" "g = unlanes [w0, w1] @ unlanes [w2, w3]"
    using assms by (rule lanes32_block)
  have "shuffle_epi32 0xb1 g = unlanes [w1, w0] @ unlanes [w3, w2]"
    using assms by (simp add: shuffle_epi32_def halves_def w(1) upt_0_4 unlanes_four)
  then show "map low32 (lanes (shuffle_epi32 0xb1 g)) = map (drop_bit 32) (lanes g :: u64 list)"
    "length (shuffle_epi32 0xb1 g) = 16"
    using w(2) by (simp_all add: lanes64_pairs word_pair)
qed

lemma swap_pairs_append: "even (length xs) \<Longrightarrow> swap_pairs (xs @ ys) = swap_pairs xs @ swap_pairs ys"
  by (induction xs rule: swap_pairs.induct) simp_all

lemma shuffle_append: "length g = 16 \<Longrightarrow> shuffle_epi32 imm (g @ h) = shuffle_epi32 imm g @ shuffle_epi32 imm h"
  by (simp add: shuffle_epi32_def halves_append) (simp add: halves_def)

lemma lanes_shuffle_4e:
  "16 dvd length v \<Longrightarrow> lanes (shuffle_epi32 0x4e v) = (swap_pairs (lanes v) :: u64 list)
    \<and> length (shuffle_epi32 0x4e v) = length v"
proof (induction v rule: register_induct)
  case Nil
  then show ?case by (simp add: shuffle_epi32_def)
next
  case (half g h)
  then show ?case
    by (simp add: shuffle_append lanes64_append16 shuffle_4e_half swap_pairs_append length_lanes64)
qed

lemma map2_low32: "map2 (\<lambda>x y. low32 x * low32 y) xs ys = map2 (\<lambda>x y. low32 x * y) xs (map low32 ys)"
  by (simp add: zip_map2 split_def)

lemma map2_diag: "map2 f xs (map g xs) = map (\<lambda>x. f x (g x)) xs"
  by (induction xs) simp_all

text \<open>The products of both forms of the kernels: by the high half shifted down, by the halves exchanged.\<close>

lemma lane_products_xor:
  "lane_products ds ss = map (\<lambda>m. low32 m * drop_bit 32 m) (map2 (XOR) ds ss)"
  by (simp add: lane_products_def split_def)

lemma lanes_products:
  assumes "length d = length s"
  shows "(lanes (mul_epu32 (xor_si d s) (srli_epi64 32 (xor_si d s))) :: u64 list)
      = lane_products (lanes d) (lanes s)"
    and "length d = 16 \<Longrightarrow> (lanes (mul_epu32 (xor_si d s) (shuffle_epi32 0xb1 (xor_si d s))) :: u64 list)
      = lane_products (lanes d) (lanes s)"
proof -
  let ?m = "xor_si d s"
  have m: "(lanes ?m :: u64 list) = map2 (XOR) (lanes d) (lanes s)"
    using assms by (rule lanes_xor)
  show "(lanes (mul_epu32 ?m (srli_epi64 32 ?m)) :: u64 list) = lane_products (lanes d) (lanes s)"
    unfolding lane_products_xor m [symmetric] lanes_mul_epu32 lanes_srli_epi64 map2_diag low32_drop ..
  assume "length d = 16"
  then have "length ?m = 16" using assms by simp
  then show "(lanes (mul_epu32 ?m (shuffle_epi32 0xb1 ?m)) :: u64 list) = lane_products (lanes d) (lanes s)"
    unfolding lane_products_xor m [symmetric] lanes_mul_epu32 map2_low32 shuffle_b1_half(1) [OF \<open>length ?m = 16\<close>]
      map2_diag by simp
qed

text \<open>A 32-bit constant in every 32-bit lane, as seen by the 32-bit multiplier.\<close>

lemma lanes_prime:
  "map low32 (lanes (set1 (2 * n) p)) = replicate n (ucast (p :: u32))"
proof (induction n)
  case 0
  then show ?case by (simp add: set1_def)
next
  case (Suc n)
  have "set1 (2 * Suc n) p = unlanes [p, p] @ set1 (2 * n) p"
    by (simp add: set1_def unlanes_def)
  moreover have "(lanes (unlanes [p, p]) :: u64 list) = [le_word (unlanes [p, p])]"
    by (simp add: lanes_def)
  ultimately show ?case using Suc by (simp add: lanes_append word_pair)
qed

text \<open>One stripe and one scramble of a register, in lanes.\<close>

lemma lanes_stripe_register:
  assumes "length d = length s" "16 dvd length d"
  shows "lanes (add_epi64 (add_epi64 old (shuffle_epi32 0x4e d))
      (mul_epu32 (xor_si d s) (srli_epi64 32 (xor_si d s)))) = stripe_lanes (lanes old) (lanes d) (lanes s)"
    and "length d = 16 \<Longrightarrow> lanes (add_epi64 (add_epi64 old (shuffle_epi32 0x4e d))
      (mul_epu32 (xor_si d s) (shuffle_epi32 0xb1 (xor_si d s)))) = stripe_lanes (lanes old) (lanes d) (lanes s)"
  using assms
  by (simp_all add: lanes_add_epi64_vadd stripe_lanes_def lanes_products lanes_shuffle_4e)

lemma P32_1_word: "ucast (ucast P32_1 :: u32) = P32_1"
  by (simp add: P32_1_def)

lemma mul_P32_1: "low32 m * P32_1 + push_bit 32 (drop_bit 32 m * P32_1) = m * P32_1"
proof -
  have "low32 P32_1 = P32_1" "drop_bit 32 P32_1 = 0" by (simp_all add: P32_1_def low32_def)
  then show ?thesis using mul64_by_32 [of m P32_1] by simp
qed

lemma lanes_mul_prime:
  assumes "length (lanes v :: u64 list) = n"
  shows "(lanes (mul_epu32 v (set1 (2 * n) (ucast P32_1 :: u32))) :: u64 list)
    = map (\<lambda>m. low32 m * P32_1) (lanes v)"
  unfolding lanes_mul_epu32 map2_low32 lanes_prime P32_1_word using assms by (simp add: map2_replicate)

lemma lanes_scramble_register:
  assumes "length a = 8 * n" "length s = 8 * n"
  defines "m \<equiv> xor_si (xor_si a (srli_epi64 47 a)) s" and "prime \<equiv> set1 (2 * n) (ucast P32_1 :: u32)"
  shows "lanes (add_epi64 (mul_epu32 m prime) (slli_epi64 32 (mul_epu32 (srli_epi64 32 m) prime)))
    = map2 (\<lambda>a k. ((a XOR drop_bit 47 a) XOR k) * P32_1) (lanes a) (lanes s)"
proof -
  have lm: "(lanes m :: u64 list) = map2 (\<lambda>a k. (a XOR drop_bit 47 a) XOR k) (lanes a) (lanes s)"
    using assms(1,2) unfolding m_def
    by (simp add: lanes_xor lanes_srli_epi64 length_srli_epi64 map2_diag)
      (simp add: zip_map1 split_def comp_def)
  have len: "length (lanes m :: u64 list) = n" using assms(1,2) by (simp add: lm length_lanes64)
  have "lanes (add_epi64 (mul_epu32 m prime) (slli_epi64 32 (mul_epu32 (srli_epi64 32 m) prime)))
      = map (\<lambda>m. m * P32_1) (lanes m)"
    unfolding prime_def
    by (simp add: lanes_add_epi64 lanes_slli_epi64 lanes_mul_prime [OF len] lanes_srli_epi64
        lanes_mul_prime [of "srli_epi64 32 m" n] len low32_drop map2_map_map mul_P32_1 comp_def)
  then show ?thesis by (simp add: lm split_def)
qed

section \<open>Windows and their parts\<close>

lemma lanes_slice16:
  "off + 16 \<le> length bs \<Longrightarrow> lanes (take 16 (drop off bs)) = [w64 bs off, w64 bs (off + 8)]"
  by (simp add: lanes64_pair w64_def drop_take min_absorb1 add.commute)

lemma window_halves:
  "off + 64 \<le> length bs \<Longrightarrow>
   lanes (window bs off) = lanes (take 32 (drop off bs)) @ (lanes (take 32 (drop (off + 32) bs)) :: u64 list)"
  using lanes_append [where 'a = 64, of "take 32 (drop off bs)" "take 32 (drop (off + 32) bs)"]
    take_add [of 32 32 "drop off bs"]
  by (simp add: window_def add.commute)

lemma stripe_lanes_append:
  assumes "length a = length d" "length d = length s" "even (length d)" 
  shows "stripe_lanes (a @ b) (d @ e) (s @ t) = stripe_lanes a d s @ stripe_lanes b e t"
  using assms by (simp add: stripe_lanes_def vadd_append swap_pairs_append lane_products_def)

section \<open>The SSSE3 and AVX-512 kernels meet the contract\<close>

lemma ssse3_stripe_law:
  assumes acc: "length acc = 8" and fit: "i + 64 \<le> length data" "j + 64 \<le> length secret"
  shows "ssse3_accumulate_stripe acc data i secret j
    = Some (stripe_spec acc (window data i) (window secret j))"
proof -
  let ?d = "\<lambda>v. take 16 (drop (i + v * 16) data)" and ?s = "\<lambda>v. take 16 (drop (j + v * 16) secret)"
  have l: "length (?d v) = 16" "length (?s v) = 16" if "v < 4" for v using fit that by simp_all
  have "ssse3_accumulate_stripe acc data i secret j
      = Some (concat (map (\<lambda>v. stripe_lanes (take 2 (drop (v * 2) acc)) (lanes (?d v)) (lanes (?s v))) [0..<4])
        @ drop (4 * 2) acc)"
    unfolding ssse3_accumulate_stripe_def
  proof (rule foldM_update)
    fix v :: nat and o' :: "u64 list" assume "v < 4" "length o' = 2"
    then show "length (stripe_lanes o' (lanes (?d v)) (lanes (?s v))) = 2"
      using l by (simp add: stripe_lanes_def lane_products_def length_lanes64)
  next
    fix v :: nat and m :: "u64 list" assume v: "v < 4"
    then have "slice data (i + v * 16) 16 = Some (?d v)" "slice secret (j + v * 16) 16 = Some (?s v)"
      using fit by (simp_all add: slice_simps)
    then show "(let byte_offset = v * 16 in do {
         input \<leftarrow> slice data (i + byte_offset) 16;
         secret_values \<leftarrow> slice secret (j + byte_offset) 16;
         let mixed = xor_si input secret_values;
         let product = mul_epu32 mixed (shuffle_epi32 0xb1 mixed);
         let swapped = shuffle_epi32 0x4e input;
         old \<leftarrow> slice m (v * 2) 2;
         store m (v * 2) (lanes (add_epi64 (add_epi64 (unlanes old) swapped) product)) })
      = do { o' \<leftarrow> slice m (v * 2) 2; store m (v * 2) (stripe_lanes o' (lanes (?d v)) (lanes (?s v))) }"
      using l [OF v] by (simp add: Let_def lanes_stripe_register lanes64_unlanes)
  qed (use acc in simp)
  also have "\<dots> = Some (stripe_spec acc (window data i) (window secret j))"
  proof -
    obtain a0 a1 a2 a3 a4 a5 a6 a7 where a: "acc = [a0, a1, a2, a3, a4, a5, a6, a7]"
      using acc by (auto simp: length_eq_8)
    show ?thesis
      using fit by (simp add: a upt_0_4 stripe_spec_def lanes_window upt_0_8 lanes_slice16
          stripe_lanes_def lane_products_def vadd_def)
        (simp add: add.commute)
  qed
  finally show ?thesis .
qed

lemma ssse3_scramble_law:
  assumes acc: "length acc = 8" and fit: "length secret = 192"
  shows "ssse3_scramble acc secret = Some (scramble_spec acc (window secret 128))"
proof -
  let ?s = "\<lambda>v. take 16 (drop (128 + v * 16) secret)"
  let ?f = "\<lambda>v o'. map2 (\<lambda>a k. ((a XOR drop_bit 47 a) XOR k) * P32_1) o' (lanes (?s v))"
  have l: "length (?s v) = 16" if "v < 4" for v using fit that by simp
  have "ssse3_scramble acc secret
      = Some (concat (map (\<lambda>v. ?f v (take 2 (drop (v * 2) acc))) [0..<4]) @ drop (4 * 2) acc)"
    unfolding ssse3_scramble_def Let_def
  proof (rule foldM_update)
    fix v :: nat and o' :: "u64 list" assume "v < 4" "length o' = 2"
    then show "length (?f v o') = 2" using l by (simp add: length_lanes64)
  next
    fix v :: nat and m :: "u64 list" assume v: "v < 4"
    have "slice secret (128 + v * 16) 16 = Some (?s v)"
      using fit v by (simp add: slice_simps)
    moreover have "lanes (add_epi64 (mul_epu32 (xor_si (xor_si (unlanes o') (srli_epi64 47 (unlanes o'))) (?s v))
           (set1 4 (ucast P32_1 :: u32))) (slli_epi64 32 (mul_epu32 (srli_epi64 32
             (xor_si (xor_si (unlanes o') (srli_epi64 47 (unlanes o'))) (?s v))) (set1 4 (ucast P32_1 :: u32)))))
        = ?f v o'" if "length o' = 2" for o'
      using lanes_scramble_register [of "unlanes o'" 2 "?s v"] l [OF v] that
      by (simp add: length_unlanes lanes64_unlanes)
    ultimately show "do {
         old \<leftarrow> slice m (v * 2) 2;
         secret_values \<leftarrow> slice secret (128 + v * 16) 16;
         store m (v * 2) (lanes (add_epi64
           (mul_epu32 (xor_si (xor_si (unlanes old) (srli_epi64 47 (unlanes old))) secret_values) (set1 4 (ucast P32_1 :: u32)))
           (slli_epi64 32 (mul_epu32 (srli_epi64 32
             (xor_si (xor_si (unlanes old) (srli_epi64 47 (unlanes old))) secret_values)) (set1 4 (ucast P32_1 :: u32)))))) }
      = do { o' \<leftarrow> slice m (v * 2) 2; store m (v * 2) (?f v o') }"
      by (cases "slice m (v * 2) 2") (auto dest: slice_SomeD)
  qed (use acc in simp)
  also have "\<dots> = Some (scramble_spec acc (window secret 128))"
  proof -
    obtain a0 a1 a2 a3 a4 a5 a6 a7 where a: "acc = [a0, a1, a2, a3, a4, a5, a6, a7]"
      using acc by (auto simp: length_eq_8)
    show ?thesis
      using fit lanes_slice16 [of 176 secret]
      by (simp add: a upt_0_4 scramble_spec_def lanes_window upt_0_8 lanes_slice16)
  qed
  finally show ?thesis .
qed

interpretation ssse3: xxh_kernel "\<lambda>a. length a = 8" "\<lambda>a. a" ssse3_accumulate_stripe ssse3_scramble
  by unfold_locales
    (simp_all add: ssse3_stripe_law ssse3_scramble_law length_stripe_spec length_scramble_spec)

lemma avx512_stripe_law:
  assumes "length acc = 8" "i + 64 \<le> length data" "j + 64 \<le> length secret"
  shows "avx512_accumulate_stripe acc data i secret j
    = Some (stripe_spec acc (window data i) (window secret j))"
  using assms length_stripe_spec [of acc "window data i" "window secret j"]
  by (simp add: avx512_accumulate_stripe_def slice_simps lanes_stripe_register lanes64_unlanes
      stripe_spec_def flip: window_def)

lemma avx512_scramble_law:
  assumes "length acc = 8" "length secret = 192"
  shows "avx512_scramble acc secret = Some (scramble_spec acc (window secret 128))"
  using assms length_scramble_spec [of acc "window secret 128"]
    lanes_scramble_register [of "unlanes acc" 8 "window secret 128"]
  by (simp add: avx512_scramble_def slice_simps length_unlanes lanes64_unlanes scramble_spec_def
      flip: window_def)

interpretation avx512: xxh_kernel "\<lambda>a. length a = 8" "\<lambda>a. a" avx512_accumulate_stripe avx512_scramble
  by unfold_locales
    (simp_all add: avx512_stripe_law avx512_scramble_law length_stripe_spec length_scramble_spec)

section \<open>The AVX2 registers meet the contract\<close>

definition avx2_ok :: "avx2_accumulator \<Rightarrow> bool" where
  "avx2_ok acc \<longleftrightarrow> length (acc_low acc) = 32 \<and> length (acc_high acc) = 32"

definition avx2_view :: "avx2_accumulator \<Rightarrow> u64 list" where
  "avx2_view acc = lanes (acc_low acc) @ lanes (acc_high acc)"

lemma length_avx2_view: "avx2_ok acc \<Longrightarrow> length (avx2_view acc) = 8"
  by (simp add: avx2_ok_def avx2_view_def length_lanes64)

lemma accumulate_vector_Some:
  assumes "length acc = 32" "i + 32 \<le> length data" "j + 32 \<le> length secret"
  shows "\<exists>acc'. accumulate_vector acc data i secret j = Some acc' \<and> length acc' = 32 \<and>
    lanes acc' = stripe_lanes (lanes acc) (lanes (take 32 (drop i data))) (lanes (take 32 (drop j secret)))"
  using assms lanes_shuffle_4e [of "take 32 (drop i data)"]
  by (simp add: accumulate_vector_def slice_simps lanes_stripe_register length_add_epi64
      length_mul_epu32 length_srli_epi64)

lemma scramble_vector_Some:
  assumes "length acc = 32" "j + 32 \<le> length secret"
  shows "\<exists>acc'. scramble_vector acc secret j = Some acc' \<and> length acc' = 32 \<and>
    lanes acc' = map2 (\<lambda>a k. ((a XOR drop_bit 47 a) XOR k) * P32_1) (lanes acc)
      (lanes (take 32 (drop j secret)))"
  using assms lanes_scramble_register [of acc 4 "take 32 (drop j secret)"]
  by (simp add: scramble_vector_def slice_simps length_add_epi64 length_mul_epu32 length_srli_epi64
      length_slli_epi64 length_set1)

lemma avx2_stripe_law:
  assumes "avx2_ok acc" "i + 64 \<le> length data" "j + 64 \<le> length secret"
  shows "\<exists>acc'. accumulate_registers acc data i secret j = Some acc' \<and> avx2_ok acc' \<and>
    avx2_view acc' = stripe_spec (avx2_view acc) (window data i) (window secret j)"
proof -
  have ok: "length (acc_low acc) = 32" "length (acc_high acc) = 32"
    using assms(1) by (simp_all add: avx2_ok_def)
  obtain lo where lo: "accumulate_vector (acc_low acc) data i secret j = Some lo" "length lo = 32"
    "lanes lo = stripe_lanes (lanes (acc_low acc)) (lanes (take 32 (drop i data)))
      (lanes (take 32 (drop j secret)))"
    using accumulate_vector_Some [OF ok(1), of i data j secret] assms(2,3) by auto
  obtain hi where hi: "accumulate_vector (acc_high acc) data (i + 32) secret (j + 32) = Some hi"
    "length hi = 32" "lanes hi = stripe_lanes (lanes (acc_high acc)) (lanes (take 32 (drop (i + 32) data)))
      (lanes (take 32 (drop (j + 32) secret)))"
    using accumulate_vector_Some [OF ok(2), of "i + 32" data "j + 32" secret] assms(2,3) by auto
  show ?thesis
    using lo hi ok assms(2,3)
    by (simp add: accumulate_registers_def avx2_ok_def avx2_view_def stripe_spec_def window_halves
        stripe_lanes_append length_lanes64)
qed

lemma avx2_scramble_law:
  assumes "avx2_ok acc" "length secret = 192"
  shows "\<exists>acc'. scramble_registers acc secret 128 = Some acc' \<and> avx2_ok acc' \<and>
    avx2_view acc' = scramble_spec (avx2_view acc) (window secret 128)"
proof -
  have ok: "length (acc_low acc) = 32" "length (acc_high acc) = 32"
    using assms(1) by (simp_all add: avx2_ok_def)
  show ?thesis
    using scramble_vector_Some [OF ok(1), of 128 secret] scramble_vector_Some [OF ok(2), of 160 secret]
      assms(2) ok window_halves [of 128 secret]
    by (auto simp: scramble_registers_def avx2_ok_def avx2_view_def scramble_spec_def length_lanes64)
qed

interpretation avx2: xxh_kernel avx2_ok avx2_view accumulate_registers
    "\<lambda>acc secret. scramble_registers acc secret 128"
  by unfold_locales (blast intro: avx2_stripe_law avx2_scramble_law)+

lemma avx2_initial_Some:
  "\<exists>acc. avx2_initial = Some acc \<and> avx2_ok acc \<and> avx2_view acc = initial_accumulator"
  by (simp add: avx2_initial_def slice_simps avx2_ok_def avx2_view_def length_unlanes lanes64_unlanes)

lemma avx2_finish_Some:
  assumes "avx2_ok acc"
  shows "avx2_finish acc = Some (avx2_view acc)"
proof -
  have "length (lanes (acc_low acc) :: u64 list) = 4" "length (lanes (acc_high acc) :: u64 list) = 4"
    using assms by (simp_all add: avx2_ok_def length_lanes64)
  then show ?thesis by (simp add: avx2_finish_def avx2_view_def store_fill0 store_fill)
qed

section \<open>Chains of partial sums\<close>

text \<open>Accumulation is addition: a stripe may go to any chain, only the sum of the chains counts.\<close>

definition pair_view :: "avx2_accumulator \<Rightarrow> avx2_accumulator \<Rightarrow> u64 list" where
  "pair_view a b = vadd (avx2_view a) (avx2_view b)"

definition chains_ok :: "avx2_chains \<Rightarrow> bool" where
  "chains_ok = (\<lambda>(a, b, c, d). avx2_ok a \<and> avx2_ok b \<and> avx2_ok c \<and> avx2_ok d)"

definition chains_view :: "avx2_chains \<Rightarrow> u64 list" where
  "chains_view = (\<lambda>(a, b, c, d).
     vadd (vadd (vadd (avx2_view a) (avx2_view b)) (avx2_view c)) (avx2_view d))"

lemma lanes_zero_register: "(lanes (replicate 32 (0 :: u8)) :: u64 list) = replicate 4 0"
  by code_simp

lemma avx2_view_zero: "avx2_view zero_accumulator = replicate 8 0" "avx2_ok zero_accumulator"
  by (simp_all add: avx2_view_def zero_accumulator_def avx2_ok_def lanes_zero_register
      flip: replicate_add)

lemma chains_start:
  assumes "avx2_ok acc"
  shows "chains_ok (acc, zero_accumulator, zero_accumulator, zero_accumulator)"
    "chains_view (acc, zero_accumulator, zero_accumulator, zero_accumulator) = avx2_view acc"
  using assms by (simp_all add: chains_ok_def chains_view_def avx2_view_zero vadd_zero length_avx2_view)

lemma chains_add:
  "vadd (stripe_spec a d s) b = stripe_spec (vadd a b) d s"
  "vadd b (stripe_spec a d s) = stripe_spec (vadd b a) d s"
  by (simp_all add: stripe_spec_vadd vadd_comm [of b])

lemma stripe_spec_commute:
  "stripe_spec (stripe_spec a d s) e t = stripe_spec (stripe_spec a e t) d s"
  by (simp add: stripe_spec_def stripe_lanes_def vadd_ac)

lemma lanes_add_registers: "length v = 32 \<Longrightarrow> length w = 32 \<Longrightarrow> length (add_epi64 v w) = 32"
  by (simp add: length_add_epi64)

lemma reduce_chains_sum:
  assumes "chains_ok accs"
  shows "avx2_ok (reduce_chains accs)" "avx2_view (reduce_chains accs) = chains_view accs"
proof -
  obtain a b c d where accs: "accs = (a, b, c, d)" by (cases accs) auto
  show "avx2_ok (reduce_chains accs)" "avx2_view (reduce_chains accs) = chains_view accs"
    using assms unfolding accs
    by (simp_all add: reduce_chains_def chains_ok_def avx2_ok_def avx2_view_def chains_view_def Let_def
        lanes_add_registers lanes_add_epi64_vadd vadd_append length_lanes64)
qed

lemma accumulate_group_Some:
  assumes "chains_ok accs" "off + (k + 4) * 64 \<le> length data" "(k + 3) * 8 + 64 \<le> length secret"
  shows "\<exists>accs'. accumulate_group data off secret k accs = Some accs' \<and> chains_ok accs' \<and>
    chains_view accs' = stripes_spec data secret off [k, k + 1, k + 2, k + 3] (chains_view accs)"
proof -
  obtain a b c d where accs: "accs = (a, b, c, d)" by (cases accs) auto
  have ok: "avx2_ok a" "avx2_ok b" "avx2_ok c" "avx2_ok d" using assms(1) by (simp_all add: accs chains_ok_def)
  have fit: "off + (k + l) * 64 + 64 \<le> length data" "(k + l) * 8 + 64 \<le> length secret" if "l \<le> 3" for l
    using assms(2,3) that by simp_all
  obtain a' where a': "accumulate_registers a data (off + k * 64) secret (k * 8) = Some a'" "avx2_ok a'"
    "avx2_view a' = stripe_spec (avx2_view a) (window data (off + k * 64)) (window secret (k * 8))"
    using avx2_stripe_law [OF ok(1), of "off + k * 64" data "k * 8" secret] fit [of 0] by auto
  obtain b' where b': "accumulate_registers b data (off + (k + 1) * 64) secret ((k + 1) * 8) = Some b'"
    "avx2_ok b'" "avx2_view b' = stripe_spec (avx2_view b) (window data (off + (k + 1) * 64)) (window secret ((k + 1) * 8))"
    using avx2_stripe_law [OF ok(2) fit [of 1]] by auto
  obtain c' where c': "accumulate_registers c data (off + (k + 2) * 64) secret ((k + 2) * 8) = Some c'"
    "avx2_ok c'" "avx2_view c' = stripe_spec (avx2_view c) (window data (off + (k + 2) * 64)) (window secret ((k + 2) * 8))"
    using avx2_stripe_law [OF ok(3) fit [of 2]] by auto
  obtain d' where d': "accumulate_registers d data (off + (k + 3) * 64) secret ((k + 3) * 8) = Some d'"
    "avx2_ok d'" "avx2_view d' = stripe_spec (avx2_view d) (window data (off + (k + 3) * 64)) (window secret ((k + 3) * 8))"
    using avx2_stripe_law [OF ok(4) fit [of 3]] by auto
  show ?thesis
    unfolding accs accumulate_group_def
    using a'(1,2) b'(1,2) c'(1,2) d'(1,2)
    by (simp add: chains_ok_def chains_view_def a'(3) b'(3) c'(3) d'(3) chains_add stripes_spec_def)
      (simp add: stripe_spec_commute)
qed


lemma stripes_spec_append:
  "stripes_spec data secret off (ks @ ls) acc
    = stripes_spec data secret off ls (stripes_spec data secret off ks acc)"
  by (simp add: stripes_spec_def)

lemma upt_add_4: "[0..<k] @ [k, k + 1, k + 2, k + 3] = [0..<k + 4]"
  by (simp add: numeral_eq_Suc)

lemma accumulate_block_chains_Some:
  assumes "avx2_ok acc" "off + 1024 \<le> length data" "length secret = 192"
  shows "\<exists>acc'. accumulate_block_chains acc data off secret = Some acc' \<and> avx2_ok acc' \<and>
    avx2_view acc' = stripes_spec data secret off [0..<16] (avx2_view acc)"
proof -
  let ?z = "(acc, zero_accumulator, zero_accumulator, zero_accumulator)"
  have "\<exists>accs'. foldM (\<lambda>stripe. accumulate_group data off secret stripe) (map (\<lambda>g. 4 * g) [0..<4]) ?z
      = Some accs' \<and> chains_ok accs' \<and> chains_view accs'
      = fold (\<lambda>k. stripes_spec data secret off [k, k + 1, k + 2, k + 3]) (map (\<lambda>g. 4 * g) [0..<4]) (chains_view ?z)"
  proof (rule foldM_refines)
    fix k and accs :: avx2_chains assume "k \<in> set (map (\<lambda>g. 4 * g) [0..<4])" "chains_ok accs"
    then show "\<exists>accs'. accumulate_group data off secret k accs = Some accs' \<and> chains_ok accs' \<and>
        chains_view accs' = stripes_spec data secret off [k, k + 1, k + 2, k + 3] (chains_view accs)"
      using assms by (intro accumulate_group_Some) auto
  qed (simp add: chains_start assms(1))
  then obtain accs where accs: "foldM (\<lambda>stripe. accumulate_group data off secret stripe)
      (map (\<lambda>g. 4 * g) [0..<4]) ?z = Some accs" "chains_ok accs"
    "chains_view accs = stripes_spec data secret off [0..<16] (avx2_view acc)"
    by (auto simp: chains_start assms(1) upt_0_4 upt_rec stripes_spec_def)
  then show ?thesis by (simp add: accumulate_block_chains_def reduce_chains_sum)
qed

lemma accumulate_tail_chains_Some:
  assumes ok: "avx2_ok acc" and n: "3 \<le> n" "n \<le> 15"
    and fit: "off + n * 64 \<le> length data" "l + 64 \<le> length data" "length secret = 192"
  shows "\<exists>acc'. accumulate_tail_chains acc data off secret n l = Some acc' \<and> avx2_ok acc' \<and>
    avx2_view acc' = stripe_spec (stripes_spec data secret off [0..<n] (avx2_view acc))
      (window data l) (window secret 121)"
proof -
  let ?z = "(acc, zero_accumulator, zero_accumulator, zero_accumulator)"
  let ?g = "\<lambda>k. accumulate_group data off secret k"
  let ?v = "\<lambda>k. stripes_spec data secret off [0..<k] (avx2_view acc)"
  let ?I = "\<lambda>k accs. k \<le> n \<and> chains_ok accs \<and> chains_view accs = ?v k"
  have loop: "\<exists>k accs. scan_while n 4 4 ?g 0 ?z = Some (k, accs) \<and> ?I k accs \<and> n < k + 4"
  proof (rule scan_while_total)
    show "?I 0 ?z" using ok by (simp add: chains_start stripes_spec_def)
  next
    fix k accs assume I: "?I k accs" and k: "k + 4 \<le> n"
    have "(k + 4) * 64 \<le> n * 64" using k by (rule mult_le_mono1)
    then obtain accs' where "?g k accs = Some accs'" "chains_ok accs'"
      "chains_view accs' = stripes_spec data secret off [k, k + 1, k + 2, k + 3] (?v k)"
      using accumulate_group_Some [of accs off k data secret] I k n(2) fit by auto
    then show "\<exists>accs'. ?g k accs = Some accs' \<and> ?I (k + 4) accs'"
      using k by (simp flip: stripes_spec_append upt_add_4)
  qed simp
  then obtain k a b c d where k: "scan_while n 4 4 ?g 0 ?z = Some (k, a, b, c, d)" "k \<le> n" "n < k + 4"
    and oks: "avx2_ok a" "avx2_ok b" "avx2_ok c" "avx2_ok d"
    and view: "chains_view (a, b, c, d) = ?v k"
    by (auto simp: chains_ok_def)
  have fits: "off + (k + i) * 64 + 64 \<le> length data" "(k + i) * 8 + 64 \<le> length secret" if "k + i < n" for i
  proof -
    have "(k + i + 1) * 64 \<le> n * 64" using that by (intro mult_le_mono1) simp
    then show "off + (k + i) * 64 + 64 \<le> length data" using fit(1) by simp
    show "(k + i) * 8 + 64 \<le> length secret" using that n(2) fit(3) by simp
  qed
  let ?w = "\<lambda>x i. stripe_spec x (window data (off + (k + i) * 64)) (window secret ((k + i) * 8))"
  have regs: "\<exists>x'. (if k + i < n then accumulate_registers x data (off + (k + i) * 64) secret ((k + i) * 8)
      else Some x) = Some x' \<and> avx2_ok x' \<and> avx2_view x' = (if k + i < n then ?w (avx2_view x) i else avx2_view x)"
    if "avx2_ok x" for x i
    using avx2_stripe_law [OF that fits] that by auto
  obtain a' where a': "(if 1 \<le> n - k then accumulate_registers a data (off + k * 64) secret (k * 8) else Some a) = Some a'"
    "avx2_ok a'" "avx2_view a' = (if k < n then ?w (avx2_view a) 0 else avx2_view a)"
    using regs [OF oks(1), of 0] by (auto simp: Suc_le_eq split: if_splits)
  obtain b' where b': "(if 2 \<le> n - k then accumulate_registers b data (off + (k + 1) * 64) secret ((k + 1) * 8)
      else Some b) = Some b'" "avx2_ok b'" "avx2_view b' = (if k + 1 < n then ?w (avx2_view b) 1 else avx2_view b)"
  proof -
    have "(2 \<le> n - k) = (k + 1 < n)" by auto
    with regs [OF oks(2), of 1] that show thesis by auto
  qed
  obtain c' where c': "(if n - k = 3 then accumulate_registers c data (off + (k + 2) * 64) secret ((k + 2) * 8)
      else Some c) = Some c'" "avx2_ok c'" "avx2_view c' = (if k + 2 < n then ?w (avx2_view c) 2 else avx2_view c)"
  proof -
    have "(n - k = 3) = (k + 2 < n)" using k(2,3) by auto
    with regs [OF oks(3), of 2] that show thesis by auto
  qed
  obtain d' where d': "accumulate_registers d data l secret 121 = Some d'" "avx2_ok d'"
    "avx2_view d' = stripe_spec (avx2_view d) (window data l) (window secret 121)"
    using avx2_stripe_law [OF oks(4), of l data 121 secret] fit(2,3) by auto
  have "n = k \<or> n = k + 1 \<or> n = k + 2 \<or> n = k + 3" using k(2,3) by auto
  then have sum: "chains_view (a', b', c', d')
      = stripe_spec (stripes_spec data secret off [k..<n] (chains_view (a, b, c, d))) (window data l) (window secret 121)"
    by (elim disjE) (simp_all add: chains_view_def a'(3) b'(3) c'(3) d'(3) chains_add stripes_spec_def
        upt_rec stripe_spec_commute)
  have "chains_ok (a', b', c', d')" using a'(2) b'(2) c'(2) d'(2) by (simp add: chains_ok_def)
  moreover have "stripes_spec data secret off [k..<n] (?v k) = ?v n"
    using k(2) upt_add_eq_append [of 0 k "n - k"] by (simp flip: stripes_spec_append)
  ultimately show ?thesis
    using n k(1) a'(1) b'(1) c'(1) d'(1) sum
    by (simp add: accumulate_tail_chains_def reduce_chains_sum view)
qed


lemma avx2_block_Some:
  assumes "avx2_ok acc" "b * 1024 + 1024 \<le> length data" "length secret = 192"
  shows "\<exists>acc'. (let offset = b * 1024 in do {
      acc \<leftarrow> accumulate_block_chains acc data offset secret; scramble_registers acc secret 128 }) = Some acc'
    \<and> avx2_ok acc' \<and> avx2_view acc' = block_spec data secret b (avx2_view acc)"
proof -
  obtain acc1 where acc1: "accumulate_block_chains acc data (b * 1024) secret = Some acc1" "avx2_ok acc1"
    "avx2_view acc1 = stripes_spec data secret (b * 1024) [0..<16] (avx2_view acc)"
    using accumulate_block_chains_Some [OF assms] by blast
  with avx2_scramble_law [OF acc1(2) assms(3)] show ?thesis by (auto simp: block_spec_def)
qed

lemma avx2_tail_Some:
  assumes "avx2_ok acc" "off + n * 64 < length data" "n \<le> 15" "64 \<le> length data" "length secret = 192"
  shows "\<exists>acc'. (if 3 \<le> n then accumulate_tail_chains acc data off secret n (length data - 64)
      else do { acc \<leftarrow> foldM (\<lambda>k acc. accumulate_registers acc data (off + k * 64) secret (k * 8)) [0..<n] acc;
        accumulate_registers acc data (length data - 64) secret 121 }) = Some acc' \<and> avx2_ok acc' \<and>
      avx2_view acc' = stripe_spec (stripes_spec data secret off [0..<n] (avx2_view acc))
        (window data (length data - 64)) (window secret 121)"
proof (cases "3 \<le> n")
  case True
  then show ?thesis
    using accumulate_tail_chains_Some [OF assms(1) True assms(3), of off data "length data - 64" secret]
      assms by simp
next
  case False
  have fits: "off + k * 64 + 64 \<le> length data \<and> k * 8 + 64 \<le> length secret" if "k \<in> set [0..<n]" for k
  proof -
    have "(k + 1) * 64 \<le> n * 64" using that by (intro mult_le_mono1) simp
    then show ?thesis using assms that by simp
  qed
  obtain a where
    a: "foldM (\<lambda>k acc. accumulate_registers acc data (off + k * 64) secret (k * 8)) [0..<n] acc = Some a"
      "avx2_ok a" "avx2_view a = stripes_spec data secret off [0..<n] (avx2_view acc)"
    using avx2.stripes [OF assms(1) fits, of "[0..<n]"] by auto
  then show ?thesis
    using False avx2_stripe_law [OF a(2), of "length data - 64" data 121 secret] assms by simp
qed

lemma avx2_accumulate_Some:
  assumes len: "240 < length data" "length secret = 192"
  shows "avx2_accumulate data secret = Some (accumulate_spec data secret)"
proof -
  obtain n t where nt: "n = (length data - 1) div 1024" "t = (length data - n * 1024 - 1) div 64" by blast
  have n: "n * 1024 < length data" using len by (auto simp: nt)
  have t: "n * 1024 + t * 64 < length data" "t \<le> 15" using n len by (auto simp: nt)
  have sched: "full_blocks (build_long_input_schedule data) = n"
    "tail_offset (build_long_input_schedule data) = n * 1024"
    "tail_stripes (build_long_input_schedule data) = t"
    "last_offset (build_long_input_schedule data) = length data - 64"
    by (simp_all add: build_long_input_schedule_def nt Let_def)
  have whole: "b * 1024 + 1024 \<le> length data" if "b < n" for b
  proof -
    have "Suc b * 1024 \<le> n * 1024" using that by (intro mult_le_mono1) simp
    then show ?thesis using n by simp
  qed
  obtain a0 where a0: "avx2_initial = Some a0" "avx2_ok a0" "avx2_view a0 = initial_accumulator"
    using avx2_initial_Some by blast
  have "\<exists>a1. foldM (\<lambda>b acc. let offset = b * 1024 in do { acc \<leftarrow> accumulate_block_chains acc data offset secret;
      scramble_registers acc secret 128 }) [0..<n] a0 = Some a1 \<and> avx2_ok a1 \<and>
      avx2_view a1 = fold (block_spec data secret) [0..<n] (avx2_view a0)"
  proof (rule foldM_refines [where ok = avx2_ok])
    show "avx2_ok a0" by (rule a0(2))
  next
    fix b acc assume "b \<in> set [0..<n]" "avx2_ok acc"
    then show "\<exists>acc'. (let offset = b * 1024 in do { acc \<leftarrow> accumulate_block_chains acc data offset secret;
        scramble_registers acc secret 128 }) = Some acc' \<and> avx2_ok acc' \<and>
        avx2_view acc' = block_spec data secret b (avx2_view acc)"
      by (intro avx2_block_Some whole len(2)) simp_all
  qed
  then obtain a1 where a1: "foldM (\<lambda>b acc. let offset = b * 1024 in do {
      acc \<leftarrow> accumulate_block_chains acc data offset secret;
      scramble_registers acc secret 128 }) [0..<n] a0 = Some a1" "avx2_ok a1"
      "avx2_view a1 = blocks_spec data secret initial_accumulator"
    unfolding blocks_spec_def a0(3) nt(1) by blast
  have "64 \<le> length data" using len by simp
  from avx2_tail_Some [OF a1(2) t this len(2)] obtain a2 where a2:
    "(if 3 \<le> t then accumulate_tail_chains a1 data (n * 1024) secret t (length data - 64)
      else do { acc \<leftarrow> foldM (\<lambda>k acc. accumulate_registers acc data (n * 1024 + k * 64) secret (k * 8)) [0..<t] a1;
        accumulate_registers acc data (length data - 64) secret 121 }) = Some a2" "avx2_ok a2"
    "avx2_view a2 = accumulate_spec data secret"
    unfolding accumulate_spec_def Let_def a1(3) nt [symmetric] by blast
  have "avx2_accumulate data secret = avx2_finish a2"
    unfolding avx2_accumulate_def
    by (subst Let_def, unfold sched a0(1) bind.bind_lunit a1(1) a2(1)) (rule refl)
  then show ?thesis by (simp add: avx2_finish_Some a2)
qed

section \<open>The medium kernel and the secret\<close>

text \<open>Up to 1024 bytes there is no full block: two chains take the stripes in turn.\<close>

lemma hash_128_medium_Some:
  assumes len: "240 < length data" "length data \<le> 1024" "length secret = 192"
  shows "hash_128_medium data secret
    = Some (finalize_128_spec (length data) secret (accumulate_spec data secret))"
proof -
  let ?n = "regular_stripes data"
  let ?v = "\<lambda>k. stripes_spec data secret 0 [0..<k] initial_accumulator"
  let ?I = "\<lambda>k s. k \<le> ?n \<and> avx2_ok (fst s) \<and> avx2_ok (snd s) \<and> pair_view (fst s) (snd s) = ?v k"
  let ?body = "\<lambda>stripe (acc0, acc1). do {
           acc0 \<leftarrow> accumulate_registers acc0 data (stripe * 64) secret (stripe * 8);
           acc1 \<leftarrow> accumulate_registers acc1 data ((stripe + 1) * 64) secret ((stripe + 1) * 8);
           Some (acc0, acc1) }"
  have n: "?n * 64 < length data" "?n \<le> 15" using len by (auto simp: regular_stripes_def)
  have fits: "k * 64 + 64 \<le> length data" "k * 8 + 64 \<le> length secret" if "k < ?n" for k
  proof -
    have "(k + 1) * 64 \<le> ?n * 64" using that by (intro mult_le_mono1) simp
    then show "k * 64 + 64 \<le> length data" using n by simp
    show "k * 8 + 64 \<le> length secret" using that n(2) len(3) by simp
  qed
  obtain a0 where a0: "avx2_initial = Some a0" "avx2_ok a0" "avx2_view a0 = initial_accumulator"
    using avx2_initial_Some by blast
  have "\<exists>k s. scan_while ?n 2 2 ?body 0 (a0, zero_accumulator) = Some (k, s) \<and> ?I k s \<and> ?n < k + 2"
  proof (rule scan_while_total)
    show "?I 0 (a0, zero_accumulator)"
      using a0 by (simp add: pair_view_def avx2_view_zero vadd_zero stripes_spec_def)
  next
    fix k s assume I: "?I k s" and k: "k + 2 \<le> ?n"
    obtain x where x: "accumulate_registers (fst s) data (k * 64) secret (k * 8) = Some x" "avx2_ok x"
      "avx2_view x = stripe_spec (avx2_view (fst s)) (window data (k * 64)) (window secret (k * 8))"
      using avx2_stripe_law [of "fst s", OF _ fits(1) fits(2), of k k] I k by auto
    obtain y where y: "accumulate_registers (snd s) data ((k + 1) * 64) secret ((k + 1) * 8) = Some y" "avx2_ok y"
      "avx2_view y = stripe_spec (avx2_view (snd s)) (window data ((k + 1) * 64)) (window secret ((k + 1) * 8))"
      using avx2_stripe_law [of "snd s", OF _ fits(1) fits(2), of "k + 1" "k + 1"] I k by auto
    have "pair_view x y = stripes_spec data secret 0 [k, k + 1] (?v k)"
      using I by (simp add: pair_view_def x(3) y(3) chains_add stripes_spec_def stripe_spec_commute)
    also have "\<dots> = ?v (k + 2)" by (simp flip: stripes_spec_append)
    finally show "\<exists>s'. ?body k s = Some s' \<and> ?I (k + 2) s'"
      using x(1,2) y(1,2) k by (simp add: split_def)
  qed simp
  then obtain k x y where k: "scan_while ?n 2 2 ?body 0 (a0, zero_accumulator) = Some (k, x, y)"
    "k \<le> ?n" "?n < k + 2" "avx2_ok x" "avx2_ok y" "pair_view x y = ?v k" by auto
  obtain x' where x': "(if k < ?n then accumulate_registers x data (k * 64) secret (k * 8) else Some x) = Some x'"
    "avx2_ok x'" "avx2_view x' = (if k < ?n then stripe_spec (avx2_view x) (window data (k * 64)) (window secret (k * 8))
      else avx2_view x)"
    using avx2_stripe_law [OF k(4) fits(1) fits(2), of k k] k(4) by (cases "k < ?n") auto
  obtain y' where y': "accumulate_registers y data (length data - 64) secret 121 = Some y'" "avx2_ok y'"
    "avx2_view y' = stripe_spec (avx2_view y) (window data (length data - 64)) (window secret 121)"
    using avx2_stripe_law [OF k(5), of "length data - 64" data 121 secret] len by auto
  let ?r = "\<lparr>acc_low = add_epi64 (acc_low x') (acc_low y'), acc_high = add_epi64 (acc_high x') (acc_high y')\<rparr>"
  have "(length data - 1) div 1024 = 0" using len by simp
  then have spec: "accumulate_spec data secret
      = stripe_spec (?v ?n) (window data (length data - 64)) (window secret 121)"
    by (simp add: accumulate_spec_def blocks_spec_def regular_stripes_def Let_def)
  have "?n = k \<or> ?n = Suc k" using k(2,3) by auto
  then have "pair_view x' y' = accumulate_spec data secret"
    unfolding spec using k(6)
    by (elim disjE) (simp_all add: pair_view_def x'(3) y'(3) chains_add stripes_spec_def stripe_spec_commute)
  moreover have "avx2_ok ?r" "avx2_view ?r = pair_view x' y'"
    using x'(2) y'(2) by (simp_all add: avx2_ok_def avx2_view_def pair_view_def lanes_add_registers
        lanes_add_epi64_vadd vadd_append length_lanes64)
  ultimately have "avx2_finish ?r = Some (accumulate_spec data secret)" by (simp add: avx2_finish_Some)
  then have "hash_128_medium data secret = finalize_long_128 (length data) secret (accumulate_spec data secret)"
    unfolding hash_128_medium_def
    by (simp only: len(2) guard_True bind.bind_lunit a0(1) k(1) prod.case x'(1) y'(1) Let_def)
  then show ?thesis using len by (simp add: finalize_long_128_Some length_accumulate_spec)
qed

text \<open>The vector form of the seed's secret adds the seed and its negation to alternate lanes.\<close>

definition seeded_half :: "u64 \<Rightarrow> bytes \<Rightarrow> bytes" where
  "seeded_half seed h = to_le (w64 h 0 + seed) @ to_le (w64 h 8 - seed)"

lemma derived_secret_chunks: "derived_secret seed = concat (map (seeded_half seed) (chunks 16 SECRET))"
proof -
  have "chunks 16 SECRET = map (\<lambda>k. take 16 (drop (k * 16) SECRET)) [0..<12]"
    by (rule nth_equalityI) (simp_all add: length_chunks nth_chunks)
  moreover have "seeded_half seed (take 16 (drop (k * 16) SECRET))
      = to_le (w64 SECRET (16 * k) + seed) @ to_le (w64 SECRET (16 * k + 8) - seed)" for k
    by (simp add: seeded_half_def w64_take mult.commute)
  ultimately show ?thesis by (simp add: derived_secret_def comp_def)
qed

lemma add_delta:
  assumes "length v = 32"
  shows "add_epi64 v (set_lanes [seed, 0 - seed, seed, 0 - seed]) = concat (map (seeded_half seed) (chunks 16 v))"
proof -
  have "lanes v = lanes (take 16 v) @ (lanes (drop 16 v) :: u64 list)"
    using lanes_append [where 'a = 64, of "take 16 v" "drop 16 v"] assms by simp
  then have "lanes v = [w64 v 0, w64 v 8, w64 v 16, w64 v 24]"
    using assms by (simp add: lanes64_pair w64_def drop_take)
  moreover have "chunks 16 v = [take 16 v, drop 16 v]"
    using chunks_append [of 16 "take 16 v" "drop 16 v"] assms by simp
  moreover have "add_epi64 v w = unlanes (map2 (+) (lanes v) (lanes w :: u64 list))" for w
    by (simp add: add_epi64_def lanewise2_def)
  ultimately show ?thesis
    by (simp add: lanes_set_lanes seeded_half_def w64_take unlanes_def)
qed

lemma avx2_init_secret_Some: "avx2_init_secret seed = Some (derived_secret seed)"
proof -
  let ?f = "\<lambda>v. add_epi64 v (set_lanes [seed, 0 - seed, seed, 0 - seed])"
  have "avx2_init_secret seed = Some (concat (map ?f (chunks 32 (take (6 * 32) (drop 0 SECRET))))
      @ drop (6 * 32) (replicate 192 0))"
    unfolding avx2_init_secret_def Let_def
    by (rule foldM_windows) (simp_all add: length_add_epi64 length_set_lanes)
  also have "\<dots> = Some (concat (map ?f (chunks 32 SECRET)))" by simp
  also have "concat (map ?f (chunks 32 SECRET)) = derived_secret seed"
    unfolding derived_secret_chunks by (rule concat_windows) (simp_all add: add_delta del: diff_0)
  finally show ?thesis .
qed

lemma ssse3_accumulate_Some:
  "240 < length data \<Longrightarrow> length secret = 192 \<Longrightarrow>
   ssse3_accumulate data secret = Some (accumulate_spec data secret)"
  using ssse3.loop [of initial_accumulator data secret] by (auto simp: ssse3_accumulate_def)

lemma avx512_accumulate_Some:
  "240 < length data \<Longrightarrow> length secret = 192 \<Longrightarrow>
   avx512_accumulate data secret = Some (accumulate_spec data secret)"
  using avx512.loop [of initial_accumulator data secret] by (auto simp: avx512_accumulate_def)

end
