(* ===== verification/Xxh_Neon.thy ===== *)
theory Xxh_Neon
  imports Xxh_X86
begin

text \<open>
  The NEON kernel for long inputs: \<open>src/xxhash/long_inputs/aarch64.rs\<close>, with the NEON
  instructions it uses from their definition by Arm.  A \<open>q\<close> register is 16 bytes, a \<open>d\<close> register
  8 bytes.  Exclusive or, 64-bit addition and 64-bit shifts are the lane-wise operations already
  defined for x86.
\<close>

section \<open>Instructions\<close>

definition vuzp1q_u32 :: "bytes \<Rightarrow> bytes \<Rightarrow> bytes" where
  "vuzp1q_u32 v w = (let a = (lanes v :: u32 list); b = lanes w in unlanes [a ! 0, a ! 2, b ! 0, b ! 2])"

definition vuzp2q_u32 :: "bytes \<Rightarrow> bytes \<Rightarrow> bytes" where
  "vuzp2q_u32 v w = (let a = (lanes v :: u32 list); b = lanes w in unlanes [a ! 1, a ! 3, b ! 1, b ! 3])"

definition vget_low :: "bytes \<Rightarrow> bytes" where "vget_low v = take 8 v"
definition vget_high :: "bytes \<Rightarrow> bytes" where "vget_high v = drop 8 v"

definition vext1q_u64 :: "bytes \<Rightarrow> bytes \<Rightarrow> bytes" where
  "vext1q_u64 v w = vget_high v @ vget_low w"

definition vmull_u32 :: "bytes \<Rightarrow> bytes \<Rightarrow> bytes" where
  "vmull_u32 b c = unlanes (map2 (\<lambda>(x :: u32) (y :: u32). (ucast x * ucast y :: u64)) (lanes b) (lanes c))"

definition vmlal_u32 :: "bytes \<Rightarrow> bytes \<Rightarrow> bytes \<Rightarrow> bytes" where
  "vmlal_u32 a b c = add_epi64 a (vmull_u32 b c)"

definition vmlal_high_u32 :: "bytes \<Rightarrow> bytes \<Rightarrow> bytes \<Rightarrow> bytes" where
  "vmlal_high_u32 a b c = vmlal_u32 a (vget_high b) (vget_high c)"

definition vmovn_u64 :: "bytes \<Rightarrow> bytes" where
  "vmovn_u64 v = unlanes (map (\<lambda>x :: u64. (ucast x :: u32)) (lanes v))"

definition vshrn_n_u64 :: "nat \<Rightarrow> bytes \<Rightarrow> bytes" where
  "vshrn_n_u64 n v = unlanes (map (\<lambda>x :: u64. (ucast (drop_bit n x) :: u32)) (lanes v))"

section \<open>The kernel\<close>

text \<open>An empty \<open>asm!\<close> block that only keeps the compiler from reordering: the identity.\<close>

definition compiler_guard :: "bytes \<Rightarrow> bytes" where
  "compiler_guard value = value"

definition neon_accumulate_stripe ::
  "u64 list \<Rightarrow> bytes \<Rightarrow> nat \<Rightarrow> bytes \<Rightarrow> nat \<Rightarrow> u64 list option" where
  "neon_accumulate_stripe acc data i secret j =
     foldM (\<lambda>vector acc. let byte_offset = vector * 16; next_byte_offset = byte_offset + 16;
         acc_offset = vector * 2 in do {
         input_lo \<leftarrow> slice data (i + byte_offset) 16;
         input_hi \<leftarrow> slice data (i + next_byte_offset) 16;
         secret_lo \<leftarrow> slice secret (j + byte_offset) 16;
         secret_hi \<leftarrow> slice secret (j + next_byte_offset) 16;
         let mixed_lo = xor_si input_lo secret_lo;
         let mixed_hi = xor_si input_hi secret_hi;
         let low_words = vuzp1q_u32 mixed_lo mixed_hi;
         let high_words = vuzp2q_u32 mixed_lo mixed_hi;
         let swapped_lo = vext1q_u64 input_lo input_lo;
         let swapped_hi = vext1q_u64 input_hi input_hi;
         let sum_lo = compiler_guard (vmlal_u32 swapped_lo (vget_low low_words) (vget_low high_words));
         let sum_hi = compiler_guard (vmlal_high_u32 swapped_hi low_words high_words);
         old \<leftarrow> slice acc acc_offset 2;
         acc \<leftarrow> store acc acc_offset (lanes (add_epi64 (unlanes old) sum_lo));
         old \<leftarrow> slice acc (acc_offset + 2) 2;
         store acc (acc_offset + 2) (lanes (add_epi64 (unlanes old) sum_hi)) })
       (map (\<lambda>k. 2 * k) [0..<2]) acc"

definition neon_scramble :: "u64 list \<Rightarrow> bytes \<Rightarrow> u64 list option" where
  "neon_scramble acc secret =
     (let prime = unlanes [ucast P32_1 :: u32, ucast P32_1] in
      foldM (\<lambda>vector acc. let byte_offset = vector * 16; acc_offset = vector * 2 in do {
         old \<leftarrow> slice acc acc_offset 2;
         let value = unlanes old;
         secret_values \<leftarrow> slice secret (128 + byte_offset) 16;
         let mixed = xor_si (xor_si value (srli_epi64 47 value)) secret_values;
         let low_product = vmull_u32 (vmovn_u64 mixed) prime;
         let high_product = slli_epi64 32 (vmull_u32 (vshrn_n_u64 32 mixed) prime);
         store acc acc_offset (lanes (add_epi64 low_product high_product)) }) [0..<4] acc)"

definition neon_accumulate :: "bytes \<Rightarrow> bytes \<Rightarrow> u64 list option" where
  "neon_accumulate data secret =
     accumulate_loop neon_accumulate_stripe neon_scramble initial_accumulator data secret"

section \<open>The kernel meets the contract\<close>

lemma lanes32_pair: "(lanes (unlanes [x, y :: u32]) :: u32 list) = [x, y]"
  by (simp add: lanes32_unlanes)

lemma vmull_pair:
  fixes a b c d :: u32
  shows "vmull_u32 (unlanes [a, b]) (unlanes [c, d]) = unlanes [ucast a * ucast c, ucast b * ucast d :: u64]"
  by (simp add: vmull_u32_def lanes32_pair)

text \<open>Unzipping gives the low and the high halves of the 64-bit lanes.\<close>

lemma unzipped_products:
  assumes "length v = 16" "length w = 16"
  defines "low \<equiv> vuzp1q_u32 v w" and "high \<equiv> vuzp2q_u32 v w"
  shows "lanes (vmlal_u32 s (vget_low low) (vget_low high))
      = vadd (lanes s) (map (\<lambda>m. low32 m * drop_bit 32 m) (lanes v))"
    and "lanes (vmlal_high_u32 s low high) = vadd (lanes s) (map (\<lambda>m. low32 m * drop_bit 32 m) (lanes w))"
proof -
  obtain a0 a1 a2 a3 :: u32 where a: "lanes v = [a0, a1, a2, a3]" "v = unlanes [a0, a1] @ unlanes [a2, a3]"
    using assms(1) by (rule lanes32_block)
  obtain b0 b1 b2 b3 :: u32 where b: "lanes w = [b0, b1, b2, b3]" "w = unlanes [b0, b1] @ unlanes [b2, b3]"
    using assms(2) by (rule lanes32_block)
  have l: "low = unlanes [a0, a2] @ unlanes [b0, b2]" "high = unlanes [a1, a3] @ unlanes [b1, b3]"
    using a(1) b(1) by (simp_all add: low_def high_def vuzp1q_u32_def vuzp2q_u32_def unlanes_four)
  have "lanes v = [le_word (unlanes [a0, a1]), (le_word (unlanes [a2, a3]) :: u64)]"
    "lanes w = [le_word (unlanes [b0, b1]), (le_word (unlanes [b2, b3]) :: u64)]"
    unfolding a(2) b(2) by (rule lanes64_pairs)+
  then show "lanes (vmlal_u32 s (vget_low low) (vget_low high))
      = vadd (lanes s) (map (\<lambda>m. low32 m * drop_bit 32 m) (lanes v))"
    "lanes (vmlal_high_u32 s low high) = vadd (lanes s) (map (\<lambda>m. low32 m * drop_bit 32 m) (lanes w))"
    by (simp_all add: vmlal_high_u32_def vmlal_u32_def vget_low_def vget_high_def l vmull_pair
        lanes_add_epi64_vadd lanes64_unlanes word_pair)
qed

lemma lanes_vext1q: "length v = 16 \<Longrightarrow> (lanes (vext1q_u64 v v) :: u64 list) = swap_pairs (lanes v)"
  by (simp add: vext1q_u64_def vget_low_def vget_high_def lanes64_pair)

lemma neon_sums:
  assumes "length d = 16" "length e = 16" "length s = 16" "length t = 16"
  defines "low \<equiv> vuzp1q_u32 (xor_si d s) (xor_si e t)" and "high \<equiv> vuzp2q_u32 (xor_si d s) (xor_si e t)"
  shows "lanes (add_epi64 old (compiler_guard (vmlal_u32 (vext1q_u64 d d) (vget_low low) (vget_low high))))
      = stripe_lanes (lanes old) (lanes d) (lanes s)"
    and "lanes (add_epi64 old (compiler_guard (vmlal_high_u32 (vext1q_u64 e e) low high)))
      = stripe_lanes (lanes old) (lanes e) (lanes t)"
  using assms(1-4) unfolding low_def high_def
  by (simp_all add: compiler_guard_def lanes_add_epi64_vadd unzipped_products lanes_vext1q
      stripe_lanes_def lane_products_xor lanes_xor vadd_assoc)

lemma neon_stripe_law:
  assumes acc: "length acc = 8" and fit: "i + 64 \<le> length data" "j + 64 \<le> length secret"
  shows "neon_accumulate_stripe acc data i secret j
    = Some (stripe_spec acc (window data i) (window secret j))"
proof -
  obtain a0 a1 a2 a3 a4 a5 a6 a7 where a: "acc = [a0, a1, a2, a3, a4, a5, a6, a7]"
    using acc by (auto simp: length_eq_8)
  have two: "map (\<lambda>k. 2 * k) [0..<2] = [0, 2 :: nat]" by (simp add: upt_rec)
  show ?thesis
    using fit unfolding a neon_accumulate_stripe_def two
    by (simp add: Let_def slice_Some store_def neon_sums lanes64_unlanes lanes_slice16
        stripe_lanes_def lane_products_def vadd_def stripe_spec_def lanes_window upt_0_8)
      (simp add: add.commute)
qed

lemma vmull_prime:
  assumes "length (lanes m :: u64 list) = 2"
  defines "prime \<equiv> unlanes [ucast P32_1 :: u32, ucast P32_1]"
  shows "lanes (add_epi64 (vmull_u32 (vmovn_u64 m) prime) (slli_epi64 32 (vmull_u32 (vshrn_n_u64 32 m) prime)))
    = map (\<lambda>x. x * P32_1) (lanes m)"
proof -
  obtain x y :: u64 where m: "lanes m = [x, y]" using assms(1) by (auto simp: length_eq_2)
  have "ucast (ucast z :: u32) = low32 z" for z :: u64 by (simp add: low32_def)
  moreover have "low32 P32_1 = P32_1" by (simp add: P32_1_def low32_def)
  ultimately show ?thesis
    by (simp add: prime_def vmovn_u64_def vshrn_n_u64_def m vmull_pair lanes_add_epi64
        lanes_slli_epi64 lanes64_unlanes low32_drop mul_P32_1)
qed

lemma neon_scramble_law:
  assumes acc: "length acc = 8" and fit: "length secret = 192"
  shows "neon_scramble acc secret = Some (scramble_spec acc (window secret 128))"
proof -
  obtain a0 a1 a2 a3 a4 a5 a6 a7 where a: "acc = [a0, a1, a2, a3, a4, a5, a6, a7]"
    using acc by (auto simp: length_eq_8)
  have mixed: "lanes (xor_si (xor_si (unlanes [x, y]) (srli_epi64 47 (unlanes [x, y]))) s)
      = [(x XOR drop_bit 47 x) XOR p, (y XOR drop_bit 47 y) XOR q]"
    if "length s = 16" "lanes s = [p, q]" for x y p q :: u64 and s
    using that by (simp add: lanes_xor lanes_srli_epi64 length_srli_epi64 length_unlanes lanes64_unlanes)
  show ?thesis
    using fit lanes_slice16 [of 176 secret]
    unfolding a neon_scramble_def upt_0_4
    by (simp add: Let_def slice_Some store_def vmull_prime mixed lanes_slice16
        scramble_spec_def lanes_window upt_0_8)
qed

interpretation neon: xxh_kernel "\<lambda>a. length a = 8" "\<lambda>a. a" neon_accumulate_stripe neon_scramble
  by unfold_locales
    (simp_all add: neon_stripe_law neon_scramble_law length_stripe_spec length_scramble_spec)

lemma neon_accumulate_Some:
  "240 < length data \<Longrightarrow> length secret = 192 \<Longrightarrow>
   neon_accumulate data secret = Some (accumulate_spec data secret)"
  using neon.loop [of initial_accumulator data secret] by (auto simp: neon_accumulate_def)

end
