(* ===== verification/Xxh_Engine.thy ===== *)
theory Xxh_Engine
  imports Xxh_Neon Cpu_Backend
begin

text \<open>
  The dispatch of XXH3: \<open>LongEngine\<close> and the backend selection of
  \<open>src/xxhash/long_inputs/long_engine.rs\<close>, and the one-call functions of
  \<open>src/xxhash/one_shot.rs\<close>.  The processor is the predicate \<open>cpu\<close>; a kernel that is compiled
  for a feature the processor does not have has no defined result.
\<close>

section \<open>Selection of a backend\<close>

datatype x86_backend = X86_Scalar | X86_Ssse3 | X86_Avx2 | X86_Avx512

definition X86_BACKEND_PREFERENCE :: "x86_backend list" where
  "X86_BACKEND_PREFERENCE = [X86_Avx512, X86_Avx2, X86_Ssse3, X86_Scalar]"

fun x86_backend_supported :: "capabilities \<Rightarrow> x86_backend \<Rightarrow> bool" where
  "x86_backend_supported capabilities X86_Scalar = True"
| "x86_backend_supported capabilities X86_Ssse3 = supports capabilities Ssse3"
| "x86_backend_supported capabilities X86_Avx2 = supports capabilities Avx2"
| "x86_backend_supported capabilities X86_Avx512 = supports capabilities Avx512F"

definition select_x86_backend :: "capabilities \<Rightarrow> x86_backend option" where
  "select_x86_backend capabilities =
     find (x86_backend_supported capabilities) X86_BACKEND_PREFERENCE"

type_synonym cpu = "cpu_feature \<Rightarrow> bool"

type_synonym accumulation_kernel = "bytes \<Rightarrow> bytes \<Rightarrow> u64 list option"

fun select_x86_accumulation_kernel :: "cpu \<Rightarrow> x86_backend \<Rightarrow> accumulation_kernel option" where
  "select_x86_accumulation_kernel cpu X86_Ssse3 =
     Some (\<lambda>input secret. target_feature cpu [Ssse3] (ssse3_accumulate input secret))"
| "select_x86_accumulation_kernel cpu X86_Avx2 =
     Some (\<lambda>input secret. target_feature cpu [Avx2] (avx2_accumulate input secret))"
| "select_x86_accumulation_kernel cpu X86_Avx512 =
     Some (\<lambda>input secret. target_feature cpu [Avx512F] (avx512_accumulate input secret))"
| "select_x86_accumulation_kernel cpu X86_Scalar = None"

section \<open>The engine\<close>

datatype long_backend = Backend_Scalar | Backend_X86 accumulation_kernel | Backend_Neon

text \<open>The two flags exist in x86 builds only, where alone they are read.\<close>

record long_engine =
  backend :: long_backend
  avx2_available :: bool
  avx2_selected :: bool

definition new_with_capabilities :: "target_arch \<Rightarrow> cpu \<Rightarrow> capabilities \<Rightarrow> long_engine option" where
  "new_with_capabilities arch cpu capabilities =
     (if is_x86 arch then do {
        selected \<leftarrow> select_x86_backend capabilities;
        let backend = (case select_x86_accumulation_kernel cpu selected of
            Some accumulate_kernel \<Rightarrow> Backend_X86 accumulate_kernel
          | None \<Rightarrow> Backend_Scalar);
        Some \<lparr>backend = backend, avx2_available = supports capabilities Avx2,
              avx2_selected = (selected = X86_Avx2)\<rparr> }
      else if arch = Arch_AArch64 then
        Some \<lparr>backend = (if supports capabilities Neon then Backend_Neon else Backend_Scalar),
              avx2_available = False, avx2_selected = False\<rparr>
      else Some \<lparr>backend = Backend_Scalar, avx2_available = False, avx2_selected = False\<rparr>)"

definition long_engine_new :: "target_arch \<Rightarrow> cpu \<Rightarrow> long_engine option" where
  "long_engine_new arch cpu = new_with_capabilities arch cpu (detect_cpu_capabilities arch cpu)"

definition derive_secret :: "target_arch \<Rightarrow> cpu \<Rightarrow> long_engine \<Rightarrow> u64 \<Rightarrow> bytes option option" where
  "derive_secret arch cpu engine seed =
     (if seed = 0 then Some None
      else if is_x86 arch \<and> avx2_available engine then do {
        secret \<leftarrow> target_feature cpu [Avx2] (avx2_init_secret seed);
        Some (Some secret) }
      else do {
        secret \<leftarrow> initialize_secret_scalar seed;
        Some (Some secret) })"

definition secret_of :: "bytes option \<Rightarrow> bytes" where
  "secret_of derived = (case derived of Some secret \<Rightarrow> secret | None \<Rightarrow> SECRET)"

definition has_batch_kernel :: "target_arch \<Rightarrow> long_engine \<Rightarrow> bool" where
  "has_batch_kernel arch engine \<longleftrightarrow> is_x86 arch \<and> avx2_available engine"

definition engine_accumulate :: "cpu \<Rightarrow> long_engine \<Rightarrow> bytes \<Rightarrow> bytes \<Rightarrow> u64 list option" where
  "engine_accumulate cpu engine input secret =
     (case backend engine of
       Backend_Scalar \<Rightarrow> scalar_accumulate input secret
     | Backend_X86 accumulate_kernel \<Rightarrow> accumulate_kernel input secret
     | Backend_Neon \<Rightarrow> target_feature cpu [Neon] (neon_accumulate input secret))"

definition engine_hash ::
  "cpu \<Rightarrow> long_engine \<Rightarrow> bytes \<Rightarrow> bytes \<Rightarrow> (nat \<Rightarrow> bytes \<Rightarrow> u64 list \<Rightarrow> 'h option) \<Rightarrow> 'h option" where
  "engine_hash cpu engine input secret finalize =
     do {
       acc \<leftarrow> engine_accumulate cpu engine input secret;
       finalize (length input) secret acc
     }"

definition try_hash_128_medium ::
  "cpu \<Rightarrow> long_engine \<Rightarrow> bytes \<Rightarrow> bytes \<Rightarrow> hash128 option option" where
  "try_hash_128_medium cpu engine input secret =
     (if avx2_selected engine \<and> length input \<le> 1024 then do {
        hash \<leftarrow> target_feature cpu [Avx2] (hash_128_medium input secret);
        Some (Some hash) }
      else Some None)"

definition engine_hash_128 ::
  "target_arch \<Rightarrow> cpu \<Rightarrow> long_engine \<Rightarrow> bytes \<Rightarrow> bytes \<Rightarrow> hash128 option" where
  "engine_hash_128 arch cpu engine input secret =
     do {
       medium \<leftarrow> (if is_x86 arch then try_hash_128_medium cpu engine input secret else Some None);
       (case medium of
          Some hash \<Rightarrow> Some hash
        | None \<Rightarrow> engine_hash cpu engine input secret finalize_long_128)
     }"

definition hash_128_seeded ::
  "target_arch \<Rightarrow> cpu \<Rightarrow> long_engine \<Rightarrow> bytes \<Rightarrow> u64 \<Rightarrow> hash128 option" where
  "hash_128_seeded arch cpu engine input seed =
     (if is_x86 arch \<and> seed = 0 \<and> avx2_selected engine \<and> length input \<le> 1024
      then target_feature cpu [Avx2] (hash_128_medium input SECRET)
      else do {
        derived \<leftarrow> derive_secret arch cpu engine seed;
        engine_hash cpu engine input (secret_of derived) finalize_long_128 })"

definition xxh3_64_over_240_bytes :: "target_arch \<Rightarrow> cpu \<Rightarrow> bytes \<Rightarrow> u64 \<Rightarrow> u64 option" where
  "xxh3_64_over_240_bytes arch cpu input seed =
     do {
       engine \<leftarrow> long_engine_new arch cpu;
       derived \<leftarrow> derive_secret arch cpu engine seed;
       engine_hash cpu engine input (secret_of derived) finalize_long_64
     }"

section \<open>The one-call functions\<close>

definition xxh3_64 :: "target_arch \<Rightarrow> cpu \<Rightarrow> bytes \<Rightarrow> u64 \<Rightarrow> u64 option" where
  "xxh3_64 arch cpu input seed =
     (if length input \<le> 16 then xxh3_64_len_0_to_16 input seed
      else if length input \<le> 128 then xxh3_64_len_17_to_128 input seed
      else if length input \<le> 240 then xxh3_64_len_129_to_240 input seed
      else do {
        input \<leftarrow> long_input_new input;
        xxh3_64_over_240_bytes arch cpu input seed })"

definition xxh3_128 :: "target_arch \<Rightarrow> cpu \<Rightarrow> bytes \<Rightarrow> u64 \<Rightarrow> hash128 option" where
  "xxh3_128 arch cpu input seed =
     (if length input \<le> 16 then xxh3_128_len_0_to_16 input seed
      else if length input = 32 then xxh3_128_len_32 input seed
      else if length input = 64 then xxh3_128_len_64 input seed
      else if length input = 128 then xxh3_128_len_128 input seed
      else if length input \<le> 128 then xxh3_128_len_17_to_128 input seed
      else if length input \<le> 240 then xxh3_128_len_129_to_240 input seed
      else do {
        engine \<leftarrow> long_engine_new arch cpu;
        input \<leftarrow> long_input_new input;
        hash_128_seeded arch cpu engine input seed })"

section \<open>The published function\<close>

text \<open>No processor, no dispatch: one formula for each class of lengths.\<close>

definition seed_secret :: "u64 \<Rightarrow> bytes" where
  "seed_secret seed = (if seed = 0 then SECRET else derived_secret seed)"

definition xxh3_64_spec :: "bytes \<Rightarrow> u64 \<Rightarrow> u64" where
  "xxh3_64_spec input seed =
     (if length input \<le> 16 then xxh3_64_spec_0_to_16 input seed
      else if length input \<le> 128 then xxh3_64_spec_17_to_128 input seed
      else if length input \<le> 240 then xxh3_64_spec_129_to_240 input seed
      else finalize_64_spec (length input) (seed_secret seed) (accumulate_spec input (seed_secret seed)))"

definition xxh3_128_spec :: "bytes \<Rightarrow> u64 \<Rightarrow> hash128" where
  "xxh3_128_spec input seed =
     (if length input \<le> 16 then xxh3_128_spec_0_to_16 input seed
      else if length input \<le> 128 then xxh3_128_spec_17_to_128 input seed
      else if length input \<le> 240 then xxh3_128_spec_129_to_240 input seed
      else finalize_128_spec (length input) (seed_secret seed) (accumulate_spec input (seed_secret seed)))"

section \<open>Engines that run on the processor\<close>

text \<open>The selection never fails, and never picks a backend that is not supported.\<close>

lemma select_x86_backend_Some:
  "\<exists>b. select_x86_backend c = Some b \<and> x86_backend_supported c b"
  by (auto simp: select_x86_backend_def X86_BACKEND_PREFERENCE_def)

text \<open>
  An engine is sound for a processor when every kernel it may call runs there and computes the
  published accumulator.
\<close>

definition sound_engine :: "target_arch \<Rightarrow> cpu \<Rightarrow> long_engine \<Rightarrow> bool" where
  "sound_engine arch cpu e \<longleftrightarrow>
     (\<forall>data secret. 240 < length data \<longrightarrow> length secret = 192 \<longrightarrow>
        engine_accumulate cpu e data secret = Some (accumulate_spec data secret))
     \<and> (is_x86 arch \<longrightarrow> avx2_available e \<longrightarrow> cpu Avx2)
     \<and> (avx2_selected e \<longrightarrow> cpu Avx2)"

lemma sound_engineD:
  assumes "sound_engine arch cpu e"
  shows "240 < length data \<Longrightarrow> length secret = 192 \<Longrightarrow>
      engine_accumulate cpu e data secret = Some (accumulate_spec data secret)"
    and "is_x86 arch \<Longrightarrow> avx2_available e \<Longrightarrow> cpu Avx2"
    and "avx2_selected e \<Longrightarrow> cpu Avx2"
  using assms by (auto simp: sound_engine_def)

lemmas kernel_correct =
  scalar_accumulate_Some ssse3_accumulate_Some avx2_accumulate_Some avx512_accumulate_Some
  neon_accumulate_Some

lemma new_with_capabilities_sound:
  assumes "sound_capabilities cpu c"
  shows "\<exists>e. new_with_capabilities arch cpu c = Some e \<and> sound_engine arch cpu e"
proof -
  note d = sound_capabilitiesD [OF assms]
  obtain b where b: "select_x86_backend c = Some b" "x86_backend_supported c b"
    using select_x86_backend_Some by blast
  show ?thesis
  proof (cases "is_x86 arch")
    case True
    then show ?thesis
      using b d by (cases b) (auto simp: new_with_capabilities_def sound_engine_def
          engine_accumulate_def kernel_correct)
  next
    case False
    then show ?thesis
      using d by (auto simp: new_with_capabilities_def sound_engine_def engine_accumulate_def
          kernel_correct)
  qed
qed

lemma long_engine_new_sound: "\<exists>e. long_engine_new arch cpu = Some e \<and> sound_engine arch cpu e"
  unfolding long_engine_new_def by (rule new_with_capabilities_sound [OF sound_detected])

section \<open>Operations of a sound engine\<close>

lemma length_seed_secret [simp]: "length (seed_secret seed) = 192"
  by (simp add: seed_secret_def length_SECRET)

lemma derive_secret_Some:
  "sound_engine arch cpu e \<Longrightarrow>
   \<exists>derived. derive_secret arch cpu e seed = Some derived \<and> secret_of derived = seed_secret seed"
  by (auto simp: derive_secret_def secret_of_def seed_secret_def initialize_secret_scalar_Some
      avx2_init_secret_Some dest: sound_engineD)

lemma engine_hash_Some:
  "sound_engine arch cpu e \<Longrightarrow> 240 < length data \<Longrightarrow> length secret = 192 \<Longrightarrow>
   engine_hash cpu e data secret finalize = finalize (length data) secret (accumulate_spec data secret)"
  by (simp add: engine_hash_def sound_engineD)

lemma try_hash_128_medium_Some:
  assumes "sound_engine arch cpu e" "240 < length data" "length secret = 192"
  shows "try_hash_128_medium cpu e data secret \<in>
    {Some None, Some (Some (finalize_128_spec (length data) secret (accumulate_spec data secret)))}"
  using assms(2,3) sound_engineD(3) [OF assms(1)]
  by (auto simp: try_hash_128_medium_def hash_128_medium_Some)

lemma engine_hash_128_Some:
  assumes "sound_engine arch cpu e" "240 < length data" "length secret = 192"
  shows "engine_hash_128 arch cpu e data secret
    = Some (finalize_128_spec (length data) secret (accumulate_spec data secret))"
  using try_hash_128_medium_Some [OF assms] assms
  by (auto simp: engine_hash_128_def engine_hash_Some finalize_long_128_Some length_accumulate_spec)

lemma hash_128_seeded_Some:
  assumes "sound_engine arch cpu e" "240 < length data"
  shows "hash_128_seeded arch cpu e data seed
    = Some (finalize_128_spec (length data) (seed_secret seed) (accumulate_spec data (seed_secret seed)))"
proof -
  obtain derived where d: "derive_secret arch cpu e seed = Some derived"
    "secret_of derived = seed_secret seed" using derive_secret_Some [OF assms(1)] by blast
  have "hash_128_medium data SECRET
      = Some (finalize_128_spec (length data) SECRET (accumulate_spec data SECRET))"
    if "length data \<le> 1024" using that assms(2) by (simp add: hash_128_medium_Some length_SECRET)
  then show ?thesis
    using sound_engineD(3) [OF assms(1)] assms d
    by (simp add: hash_128_seeded_def engine_hash_Some finalize_long_128_Some
        length_accumulate_spec) (simp add: seed_secret_def)
qed

lemma xxh3_64_over_240_bytes_Some:
  assumes "240 < length data"
  shows "xxh3_64_over_240_bytes arch cpu data seed
    = Some (finalize_64_spec (length data) (seed_secret seed) (accumulate_spec data (seed_secret seed)))"
proof -
  obtain e where e: "long_engine_new arch cpu = Some e" "sound_engine arch cpu e"
    using long_engine_new_sound by blast
  obtain derived where d: "derive_secret arch cpu e seed = Some derived"
    "secret_of derived = seed_secret seed" using derive_secret_Some [OF e(2)] by blast
  show ?thesis
    using assms e d by (simp add: xxh3_64_over_240_bytes_def engine_hash_Some finalize_long_64_Some
        length_accumulate_spec)
qed

lemma xxh3_64_eq: "xxh3_64 arch cpu input seed = Some (xxh3_64_spec input seed)"
  by (simp add: xxh3_64_def xxh3_64_spec_def xxh3_64_len_0_to_16_Some xxh3_64_len_17_to_128_Some
      xxh3_64_len_129_to_240_Some xxh3_64_over_240_bytes_Some long_input_new_def)

lemma xxh3_128_eq: "xxh3_128 arch cpu input seed = Some (xxh3_128_spec input seed)"
proof -
  obtain e where "long_engine_new arch cpu = Some e" "sound_engine arch cpu e"
    using long_engine_new_sound by blast
  then show ?thesis
    by (simp add: xxh3_128_def xxh3_128_spec_def xxh3_128_len_0_to_16_Some xxh3_128_len_32_Some
        xxh3_128_len_64_Some xxh3_128_len_128_Some xxh3_128_len_17_to_128_Some
        xxh3_128_len_129_to_240_Some hash_128_seeded_Some long_input_new_def)
qed

section \<open>Properties\<close>

text \<open>
  C10: the 64-bit one-call hash is the published XXH3 function.  On every architecture and every
  processor, for every input and seed, the dispatch over lengths and kernels returns (nothing
  panics, no access is out of bounds, no instruction is missing) and the result is the published
  value.
\<close>

theorem xxh3_64_correct: "xxh3_64 arch cpu input seed = Some (xxh3_64_spec input seed)"
  by (rule xxh3_64_eq)

text \<open>
  C11: the 128-bit one-call hash is the published XXH3 function, with its special forms for 32,
  64 and 128 bytes and the two-chain AVX2 kernel for medium inputs.
\<close>

theorem xxh3_128_correct: "xxh3_128 arch cpu input seed = Some (xxh3_128_spec input seed)"
  by (rule xxh3_128_eq)

text \<open>
  C19: the x86 backend as a decision written out on the features, without the code's list and its
  predicate: AVX-512 where \<open>avx512f\<close> is there, otherwise AVX2, otherwise SSSE3, otherwise the scalar code,
  never a panic.  With capabilities that were detected, the features are those that the processor
  reports, on x86 builds only.
\<close>

theorem select_x86_backend_best:
  "select_x86_backend c =
     Some (if supports c Avx512F then X86_Avx512 else if supports c Avx2 then X86_Avx2
       else if supports c Ssse3 then X86_Ssse3 else X86_Scalar)
   \<and> select_x86_backend (detect_cpu_capabilities arch detected) =
     Some (if is_x86 arch \<and> detected Avx512F then X86_Avx512 else if is_x86 arch \<and> detected Avx2 then X86_Avx2
       else if is_x86 arch \<and> detected Ssse3 then X86_Ssse3 else X86_Scalar)"
proof -
  have decision: "select_x86_backend c =
     Some (if supports c Avx512F then X86_Avx512 else if supports c Avx2 then X86_Avx2
       else if supports c Ssse3 then X86_Ssse3 else X86_Scalar)" for c
    by (simp add: select_x86_backend_def X86_BACKEND_PREFERENCE_def)
  have "f \<in> arch_features arch \<longleftrightarrow> is_x86 arch" if "f \<in> {Avx512F, Avx2, Ssse3}" for f
    using that by (cases arch) (auto simp: is_x86_def)
  then show ?thesis by (simp add: decision supports_detected)
qed

text \<open>
  C12: every engine that is built from capabilities the processor has accumulates a long input to
  the published eight lanes, whichever kernel it selected.
\<close>

theorem engine_accumulate_correct:
  assumes "sound_capabilities cpu c" "240 < length data" "length secret = 192"
  shows "\<exists>e. new_with_capabilities arch cpu c = Some e
    \<and> engine_accumulate cpu e data secret = Some (accumulate_spec data secret)"
  using new_with_capabilities_sound [OF assms(1), of arch] assms(2,3) by (auto dest: sound_engineD)

theorem engine_accumulate_correct_witness:
  "\<exists>e. new_with_capabilities Arch_X86_64 (\<lambda>f. f = Avx2) (from_feature_flags [(Avx2, True)]) = Some e
    \<and> engine_accumulate (\<lambda>f. f = Avx2) e (replicate 241 7) SECRET
      = Some (accumulate_spec (replicate 241 7) SECRET)"
  by (rule engine_accumulate_correct)
    (simp_all add: sound_capabilities_def supports_from_feature_flags length_SECRET)

text \<open>
  C18: the secret of a seed does not depend on the processor: the vectorised initialisation and
  the scalar loop derive the same 192 bytes.
\<close>

theorem secret_initialisation_agrees:
  "avx2_init_secret seed = initialize_secret_scalar seed
   \<and> initialize_secret_scalar seed = Some (derived_secret seed)"
  by (simp add: initialize_secret_scalar_Some avx2_init_secret_Some)

text \<open>The published test vectors for the empty input.\<close>

lemma xxh3_64_empty: "xxh3_64 arch cpu [] 0 = Some 0x2d06800538d394c2"
  by (simp add: xxh3_64_eq xxh3_64_spec_def) code_simp

lemma xxh3_128_empty: "xxh3_128 arch cpu [] 0 = Some (0x6001c324468d497f, 0x99aa06d3014798d8)"
  by (simp add: xxh3_128_eq xxh3_128_spec_def) code_simp

end
