(* ===== verification/Xxh_Batch.thy ===== *)
theory Xxh_Batch
  imports Xxh_Engine
begin

text \<open>
  Batches and prepared seeds: \<open>LongRun\<close> and \<open>LongBatch\<close> of
  \<open>src/xxhash/long_inputs/long_engine.rs\<close>, the interleaved AVX2 kernels of
  \<open>src/xxhash/long_inputs/x86/avx2_batch.rs\<close>, the scheduling of \<open>src/xxhash/batch.rs\<close> and
  \<open>PreparedXxh3\<close> of \<open>src/xxhash/prepared.rs\<close>.  An output callback is a function on the
  caller's state, called once per hash in the order of the calls; it may panic (\<open>None\<close>).
\<close>

section \<open>Runs of long inputs\<close>

text \<open>
  \<open>LongRun::new\<close>: the result is Rust's own \<open>Option\<close>; the function has no panic.  A run is the
  list of its inputs, at most four.
\<close>

definition same_stripes :: "nat \<Rightarrow> bytes \<Rightarrow> bool" where
  "same_stripes stripes input = (case long_input_new input of
       Some input \<Rightarrow> regular_stripes input = stripes
     | None \<Rightarrow> False)"

definition long_run_new :: "bytes list \<Rightarrow> bytes list option" where
  "long_run_new inputs =
     do {
       input \<leftarrow> (case inputs of [] \<Rightarrow> None | input # _ \<Rightarrow> Some input);
       first \<leftarrow> long_input_new input;
       let stripes = regular_stripes first;
       let run_length = length (takeWhile (same_stripes stripes) (take 4 inputs));
       Some (take run_length inputs)
     }"

text \<open>\<open>batch2\<close>, \<open>batch3\<close>, \<open>batch4\<close>: the \<open>n\<close> inputs from an index on.\<close>

definition long_run_batch :: "bytes list \<Rightarrow> nat \<Rightarrow> nat \<Rightarrow> bytes list option" where
  "long_run_batch run index n = traverse (\<lambda>k. get run (index + k)) [0..<n]"

section \<open>The interleaved AVX2 kernel\<close>

text \<open>One macro defines the kernels for two, three and four inputs; the number is \<open>length inputs\<close>.\<close>

definition batch_registers ::
  "bytes list \<Rightarrow> nat \<Rightarrow> bytes \<Rightarrow> nat \<Rightarrow> avx2_accumulator list \<Rightarrow> avx2_accumulator list option" where
  "batch_registers data input_offset secret j accs =
     traverse (\<lambda>(d, acc). accumulate_registers acc d input_offset secret j) (zip data accs)"

definition avx2_accumulate_batch :: "bytes list \<Rightarrow> bytes \<Rightarrow> u64 list list option" where
  "avx2_accumulate_batch inputs secret =
     do {
       accs \<leftarrow> traverse (\<lambda>_. avx2_initial) inputs;
       first \<leftarrow> get inputs 0;
       let schedule = build_long_input_schedule first;
       accs \<leftarrow> foldM (\<lambda>block accs. let offset = block * 1024 in do {
           (if block + 2 \<le> full_blocks schedule then
              let prefetch_offset = (block + 2) * 1024
              in guard (list_all (\<lambda>d. prefetch_offset \<le> length d) inputs)
            else Some ());
           accs \<leftarrow> foldM (\<lambda>stripe. batch_registers inputs (offset + stripe * 64) secret (stripe * 8))
             [0..<16] accs;
           traverse (\<lambda>acc. scramble_registers acc secret 128) accs })
         [0..<full_blocks schedule] accs;
       accs \<leftarrow> foldM (\<lambda>stripe.
           batch_registers inputs (tail_offset schedule + stripe * 64) secret (stripe * 8))
         [0..<tail_stripes schedule] accs;
       accs \<leftarrow> traverse (\<lambda>(d, acc). accumulate_registers acc d (length d - 64) secret 121)
         (zip inputs accs);
       traverse avx2_finish accs
     }"

definition engine_accumulate_batch ::
  "target_arch \<Rightarrow> cpu \<Rightarrow> long_engine \<Rightarrow> bytes list \<Rightarrow> bytes \<Rightarrow> u64 list list option" where
  "engine_accumulate_batch arch cpu engine inputs secret =
     (if is_x86 arch \<and> avx2_available engine
      then target_feature cpu [Avx2] (avx2_accumulate_batch inputs secret)
      else traverse (\<lambda>input. engine_accumulate cpu engine input secret) inputs)"

section \<open>Scheduling a batch\<close>

type_synonym 'h short_hash = "bytes \<Rightarrow> u64 \<Rightarrow> 'h option"
type_synonym 'h medium_hash = "long_engine \<Rightarrow> bytes \<Rightarrow> bytes \<Rightarrow> 'h option option"
type_synonym 'h finalizer = "nat \<Rightarrow> bytes \<Rightarrow> u64 list \<Rightarrow> 'h option"
type_synonym ('h, 's) callback = "'h \<Rightarrow> 's \<Rightarrow> 's option"

definition emit_long_group ::
  "bytes \<Rightarrow> bytes list \<Rightarrow> u64 list list \<Rightarrow> 'h finalizer \<Rightarrow> ('h, 's) callback \<Rightarrow> 's \<Rightarrow> 's option" where
  "emit_long_group secret inputs accumulators finalize output s =
     foldM (\<lambda>(input, acc) s. do {
         hash \<leftarrow> finalize (length input) secret acc;
         output hash s }) (zip inputs accumulators) s"

text \<open>The loop over the short inputs at the front, which both functions below begin with.\<close>

function short_prefix ::
  "bytes list \<Rightarrow> u64 \<Rightarrow> 'h short_hash \<Rightarrow> ('h, 's) callback \<Rightarrow> nat \<Rightarrow> 's \<Rightarrow> (nat \<times> 's) option" where
  "short_prefix inputs seed short output index s =
     (if index < length inputs \<and> length (inputs ! index) \<le> 240 then do {
        hash \<leftarrow> short (inputs ! index) seed;
        s \<leftarrow> output hash s;
        short_prefix inputs seed short output (index + 1) s }
      else Some (index, s))"
  by pat_completeness auto
termination
  by (relation "measure (\<lambda>(inputs, _, _, _, index, _). length inputs - index)") auto

declare short_prefix.simps [simp del]

lemma long_run_newE:
  assumes "long_run_new inputs = Some run"
  obtains x xs where "inputs = x # xs" "240 < length x"
    "run = takeWhile (same_stripes (regular_stripes x)) (take 4 inputs)"
proof -
  from assms obtain x xs where x: "inputs = x # xs" "240 < length x"
    by (auto simp: long_run_new_def long_input_new_def split: list.splits if_splits bind_splits)
  let ?p = "same_stripes (regular_stripes x)"
  have "takeWhile ?p (take 4 inputs) = take (length (takeWhile ?p (take 4 inputs))) (take 4 inputs)"
    by (rule takeWhile_eq_take)
  moreover have "length (takeWhile ?p (take 4 inputs)) \<le> 4"
    using length_takeWhile_le [of ?p "take 4 inputs"] by simp
  ultimately have "takeWhile ?p (take 4 inputs) = take (length (takeWhile ?p (take 4 inputs))) inputs"
    by (simp add: min_absorb1)
  then have "run = takeWhile ?p (take 4 inputs)"
    using assms x by (simp add: long_run_new_def long_input_new_def Let_def)
  with x that show ?thesis by blast
qed

lemma long_run_new_length:
  assumes "long_run_new inputs = Some run"
  shows "0 < length run \<and> length run \<le> 4"
proof -
  from assms obtain x xs where x: "inputs = x # xs" "240 < length x"
    "run = takeWhile (same_stripes (regular_stripes x)) (take 4 inputs)" by (rule long_run_newE)
  have "length run \<le> 4" unfolding x(3) by (rule order.trans [OF length_takeWhile_le]) simp
  then show ?thesis using x by (simp add: same_stripes_def long_input_new_def)
qed

function hash_input_runs ::
  "target_arch \<Rightarrow> cpu \<Rightarrow> bytes list \<Rightarrow> u64 \<Rightarrow> 'h short_hash \<Rightarrow> 'h medium_hash \<Rightarrow> 'h finalizer \<Rightarrow>
   long_engine \<Rightarrow> bytes \<Rightarrow> ('h, 's) callback \<Rightarrow> nat \<Rightarrow> 's \<Rightarrow> 's option" where
  "hash_input_runs arch cpu inputs seed short medium finalize engine secret output index s =
     (if index < length inputs then
        (case long_run_new (drop index inputs) of
          None \<Rightarrow> do {
            hash \<leftarrow> short (inputs ! index) seed;
            s \<leftarrow> output hash s;
            hash_input_runs arch cpu inputs seed short medium finalize engine secret output (index + 1) s }
        | Some run \<Rightarrow> do {
            s \<leftarrow> (if length run = 4 then do {
                group \<leftarrow> long_run_batch run 0 4;
                accumulators \<leftarrow> engine_accumulate_batch arch cpu engine group secret;
                emit_long_group secret group accumulators finalize output s }
              else if length run = 3 then do {
                group \<leftarrow> long_run_batch run 0 3;
                accumulators \<leftarrow> engine_accumulate_batch arch cpu engine group secret;
                emit_long_group secret group accumulators finalize output s }
              else if length run = 2 then do {
                group \<leftarrow> long_run_batch run 0 2;
                accumulators \<leftarrow> engine_accumulate_batch arch cpu engine group secret;
                emit_long_group secret group accumulators finalize output s }
              else do {
                input \<leftarrow> get run 0;
                medium_result \<leftarrow> medium engine input secret;
                hash \<leftarrow> (case medium_result of
                    Some hash \<Rightarrow> Some hash
                  | None \<Rightarrow> engine_hash cpu engine input secret finalize);
                output hash s });
            hash_input_runs arch cpu inputs seed short medium finalize engine secret output
              (index + length run) s })
      else Some s)"
  by pat_completeness auto

termination
proof (relation "measure (\<lambda>(_, _, inputs, _, _, _, _, _, _, _, index, _). length inputs - index)",
    goal_cases)
  case 3
  then show ?case
    using 3(1) long_run_new_length [OF 3(2)] by (simp del: length_greater_0_conv) arith
qed simp_all

declare hash_input_runs.simps [simp del]

text \<open>The loop for architectures without a batch kernel.\<close>

function hash_individually ::
  "cpu \<Rightarrow> bytes list \<Rightarrow> u64 \<Rightarrow> 'h short_hash \<Rightarrow> 'h finalizer \<Rightarrow> long_engine \<Rightarrow> bytes \<Rightarrow>
   ('h, 's) callback \<Rightarrow> nat \<Rightarrow> 's \<Rightarrow> 's option" where
  "hash_individually cpu inputs seed short finalize engine secret output index s =
     (if index < length inputs then do {
        hash \<leftarrow> (case long_input_new (inputs ! index) of
            Some input \<Rightarrow> engine_hash cpu engine input secret finalize
          | None \<Rightarrow> short (inputs ! index) seed);
        s \<leftarrow> output hash s;
        hash_individually cpu inputs seed short finalize engine secret output (index + 1) s }
      else Some s)"
  by pat_completeness auto
termination
  by (relation "measure (\<lambda>(_, inputs, _, _, _, _, _, _, index, _). length inputs - index)") auto

declare hash_individually.simps [simp del]

definition hash_each_input_with_secret ::
  "target_arch \<Rightarrow> cpu \<Rightarrow> bytes list \<Rightarrow> u64 \<Rightarrow> 'h short_hash \<Rightarrow> 'h medium_hash \<times> 'h finalizer \<Rightarrow>
   long_engine \<Rightarrow> bytes \<Rightarrow> ('h, 's) callback \<Rightarrow> 's \<Rightarrow> 's option" where
  "hash_each_input_with_secret arch cpu inputs seed short long engine secret output s =
     do {
       (index, s) \<leftarrow> short_prefix inputs seed short output 0 s;
       if index = length inputs then Some s
       else if is_x86 arch \<and> has_batch_kernel arch engine then
         hash_input_runs arch cpu (drop index inputs) seed short (fst long) (snd long) engine secret
           output 0 s
       else hash_individually cpu inputs seed short (snd long) engine secret output index s
     }"

definition hash_each_input ::
  "target_arch \<Rightarrow> cpu \<Rightarrow> bytes list \<Rightarrow> u64 \<Rightarrow> 'h short_hash \<Rightarrow> 'h medium_hash \<times> 'h finalizer \<Rightarrow>
   ('h, 's) callback \<Rightarrow> 's \<Rightarrow> 's option" where
  "hash_each_input arch cpu inputs seed short long output s =
     do {
       (index, s) \<leftarrow> short_prefix inputs seed short output 0 s;
       if index = length inputs then Some s
       else do {
         engine \<leftarrow> long_engine_new arch cpu;
         derived_secret \<leftarrow> derive_secret arch cpu engine seed;
         hash_each_input_with_secret arch cpu (drop index inputs) seed short long engine
           (secret_of derived_secret) output s }
     }"

definition no_medium :: "'h medium_hash" where
  "no_medium = (\<lambda>_ _ _. Some None)"

text \<open>The callback of the functions that return a vector.\<close>

definition push :: "'h \<Rightarrow> 'h list \<Rightarrow> 'h list option" where
  "push hash hashes = Some (hashes @ [hash])"

definition xxh3_64_batch :: "target_arch \<Rightarrow> cpu \<Rightarrow> bytes list \<Rightarrow> u64 \<Rightarrow> u64 list option" where
  "xxh3_64_batch arch cpu inputs seed =
     hash_each_input arch cpu inputs seed (xxh3_64 arch cpu) (no_medium, finalize_long_64) push []"

definition xxh3_64_batch_for_each ::
  "target_arch \<Rightarrow> cpu \<Rightarrow> bytes list \<Rightarrow> u64 \<Rightarrow> (u64, 's) callback \<Rightarrow> 's \<Rightarrow> 's option" where
  "xxh3_64_batch_for_each arch cpu inputs seed output s =
     hash_each_input arch cpu inputs seed (xxh3_64 arch cpu) (no_medium, finalize_long_64) output s"

definition xxh3_128_batch :: "target_arch \<Rightarrow> cpu \<Rightarrow> bytes list \<Rightarrow> u64 \<Rightarrow> hash128 list option" where
  "xxh3_128_batch arch cpu inputs seed =
     hash_each_input arch cpu inputs seed (xxh3_128 arch cpu) (no_medium, finalize_long_128) push []"

definition xxh3_128_batch_for_each ::
  "target_arch \<Rightarrow> cpu \<Rightarrow> bytes list \<Rightarrow> u64 \<Rightarrow> (hash128, 's) callback \<Rightarrow> 's \<Rightarrow> 's option" where
  "xxh3_128_batch_for_each arch cpu inputs seed output s =
     hash_each_input arch cpu inputs seed (xxh3_128 arch cpu) (no_medium, finalize_long_128) output s"

section \<open>A prepared seed\<close>

record prepared_xxh3 =
  prepared_seed :: u64
  prepared_secret :: "bytes option"

definition prepared_new :: "target_arch \<Rightarrow> cpu \<Rightarrow> u64 \<Rightarrow> prepared_xxh3 option" where
  "prepared_new arch cpu seed =
     do {
       engine \<leftarrow> long_engine_new arch cpu;
       secret \<leftarrow> derive_secret arch cpu engine seed;
       Some \<lparr>prepared_seed = seed, prepared_secret = secret\<rparr>
     }"

definition prepared_default :: "target_arch \<Rightarrow> cpu \<Rightarrow> prepared_xxh3 option" where
  "prepared_default arch cpu = prepared_new arch cpu 0"

definition prepared_hash_64 :: "target_arch \<Rightarrow> cpu \<Rightarrow> prepared_xxh3 \<Rightarrow> bytes \<Rightarrow> u64 option" where
  "prepared_hash_64 arch cpu self input =
     (case long_input_new input of
       None \<Rightarrow> xxh3_64 arch cpu input (prepared_seed self)
     | Some input \<Rightarrow> do {
         engine \<leftarrow> long_engine_new arch cpu;
         engine_hash cpu engine input (secret_of (prepared_secret self)) finalize_long_64 })"

definition prepared_hash_128 :: "target_arch \<Rightarrow> cpu \<Rightarrow> prepared_xxh3 \<Rightarrow> bytes \<Rightarrow> hash128 option" where
  "prepared_hash_128 arch cpu self input =
     (case long_input_new input of
       None \<Rightarrow> xxh3_128 arch cpu input (prepared_seed self)
     | Some input \<Rightarrow> do {
         engine \<leftarrow> long_engine_new arch cpu;
         engine_hash_128 arch cpu engine input (secret_of (prepared_secret self)) })"

definition prepared_hash_64_batch_for_each ::
  "target_arch \<Rightarrow> cpu \<Rightarrow> prepared_xxh3 \<Rightarrow> bytes list \<Rightarrow> (u64, 's) callback \<Rightarrow> 's \<Rightarrow> 's option" where
  "prepared_hash_64_batch_for_each arch cpu self inputs output s =
     do {
       engine \<leftarrow> long_engine_new arch cpu;
       hash_each_input_with_secret arch cpu inputs (prepared_seed self) (xxh3_64 arch cpu)
         (no_medium, finalize_long_64) engine (secret_of (prepared_secret self)) output s
     }"

definition prepared_hash_64_batch ::
  "target_arch \<Rightarrow> cpu \<Rightarrow> prepared_xxh3 \<Rightarrow> bytes list \<Rightarrow> u64 list option" where
  "prepared_hash_64_batch arch cpu self inputs =
     prepared_hash_64_batch_for_each arch cpu self inputs push []"

definition prepared_hash_128_batch ::
  "target_arch \<Rightarrow> cpu \<Rightarrow> prepared_xxh3 \<Rightarrow> bytes list \<Rightarrow> hash128 list option" where
  "prepared_hash_128_batch arch cpu self inputs =
     do {
       engine \<leftarrow> long_engine_new arch cpu;
       hash_each_input_with_secret arch cpu inputs (prepared_seed self) (xxh3_128 arch cpu)
         (if is_x86 arch then try_hash_128_medium cpu else no_medium, finalize_long_128) engine
         (secret_of (prepared_secret self)) push []
     }"

definition prepared_hash_128_batch_for_each ::
  "target_arch \<Rightarrow> cpu \<Rightarrow> prepared_xxh3 \<Rightarrow> bytes list \<Rightarrow> (hash128, 's) callback \<Rightarrow> 's \<Rightarrow> 's option" where
  "prepared_hash_128_batch_for_each arch cpu self inputs output s =
     do {
       engine \<leftarrow> long_engine_new arch cpu;
       hash_each_input_with_secret arch cpu inputs (prepared_seed self) (xxh3_128 arch cpu)
         (no_medium, finalize_long_128) engine (secret_of (prepared_secret self)) output s
     }"

section \<open>The interleaved kernel computes each input's lanes\<close>

text \<open>
  Beside the registers of the batch runs a ghost: a function from an input to the lanes the
  published algorithm has for it at that moment.
\<close>

definition tracks :: "bytes list \<Rightarrow> (bytes \<Rightarrow> u64 list) \<Rightarrow> avx2_accumulator list \<Rightarrow> bool" where
  "tracks inputs w accs \<longleftrightarrow> list_all2 (\<lambda>d acc. avx2_ok acc \<and> avx2_view acc = w d) inputs accs"

lemma tracks_initial:
  "\<exists>accs. traverse (\<lambda>_. avx2_initial) inputs = Some accs \<and> tracks inputs (\<lambda>_. initial_accumulator) accs"
proof -
  obtain acc where acc: "avx2_initial = Some acc" "avx2_ok acc" "avx2_view acc = initial_accumulator"
    using avx2_initial_Some by blast
  then have "traverse (\<lambda>_. avx2_initial) inputs = Some (map (\<lambda>_. acc) inputs)"
    by (intro traverse_Some) simp
  with acc show ?thesis
    by (auto simp: tracks_def list.rel_map intro!: list.rel_refl_strong)
qed

lemma tracks_stripe:
  assumes "tracks inputs w accs" "j + 64 \<le> length secret"
    and "\<And>d. d \<in> set inputs \<Longrightarrow> off d + 64 \<le> length d"
  shows "\<exists>accs'. traverse (\<lambda>(d, acc). accumulate_registers acc d (off d) secret j) (zip inputs accs) = Some accs'
    \<and> tracks inputs (\<lambda>d. stripe_spec (w d) (window d (off d)) (window secret j)) accs'"
  unfolding tracks_def
  by (rule traverse_zip [OF assms(1) [unfolded tracks_def]])
    (use assms(2,3) avx2_stripe_law in fastforce)

lemma tracks_stripes:
  assumes "tracks inputs w accs"
    and "\<And>k d. k \<in> set ks \<Longrightarrow> d \<in> set inputs \<Longrightarrow> off + k * 64 + 64 \<le> length d"
    and "\<And>k. k \<in> set ks \<Longrightarrow> k * 8 + 64 \<le> length secret"
  shows "\<exists>accs'. foldM (\<lambda>k. batch_registers inputs (off + k * 64) secret (k * 8)) ks accs = Some accs'
    \<and> tracks inputs (\<lambda>d. stripes_spec d secret off ks (w d)) accs'"
proof -
  have "\<exists>accs'. foldM (\<lambda>k. batch_registers inputs (off + k * 64) secret (k * 8)) ks accs = Some accs'
    \<and> tracks inputs (fold (\<lambda>k w d. stripe_spec (w d) (window d (off + k * 64)) (window secret (k * 8))) ks w) accs'"
    by (rule foldM_tracked [where R = "tracks inputs", OF _ assms(1)])
      (auto simp: batch_registers_def intro!: tracks_stripe assms(2,3))
  moreover have "fold (\<lambda>k w d. stripe_spec (w d) (window d (off + k * 64)) (window secret (k * 8))) ks w
      = (\<lambda>d. stripes_spec d secret off ks (w d))"
    unfolding stripes_spec_def
    by (rule ext) (rule fold_pointwise [where g = "\<lambda>k d v. stripe_spec v (window d (off + k * 64)) (window secret (k * 8))"])
  ultimately show ?thesis by simp
qed

lemma tracks_scramble:
  assumes "tracks inputs w accs" "length secret = 192"
  shows "\<exists>accs'. traverse (\<lambda>acc. scramble_registers acc secret 128) accs = Some accs'
    \<and> tracks inputs (\<lambda>d. scramble_spec (w d) (window secret 128)) accs'"
  unfolding tracks_def
  by (rule traverse_list_all2 [OF assms(1) [unfolded tracks_def]])
    (use assms(2) avx2_scramble_law in fastforce)

lemma tracks_finish:
  assumes "tracks inputs w accs"
  shows "traverse avx2_finish accs = Some (map w inputs)"
proof -
  have "\<exists>zs. traverse avx2_finish accs = Some zs \<and> list_all2 (\<lambda>d z. z = w d) inputs zs"
    by (rule traverse_list_all2 [OF assms [unfolded tracks_def]]) (auto simp: avx2_finish_Some)
  then obtain zs where "traverse avx2_finish accs = Some zs" "list_all2 (\<lambda>d z. z = w d) inputs zs"
    by blast
  moreover from this(2) have "zs = map w inputs" by (induction) simp_all
  ultimately show ?thesis by simp
qed

lemma sub_mult_div: "0 < q \<Longrightarrow> (m - q * k) div q = m div q - (k :: nat)"
proof (cases "q * k \<le> m")
  case True
  then obtain r where "m = q * k + r" using le_Suc_ex by blast
  then show "0 < q \<Longrightarrow> ?thesis" by simp
next
  case False
  then have "m div q < k" by (simp add: less_mult_imp_div_less mult.commute)
  then show ?thesis using False by simp
qed

text \<open>Inputs with equally many stripes have the same blocks and the same tail.\<close>

lemma same_schedule:
  assumes "regular_stripes d = regular_stripes e" "240 < length d" "240 < length e"
  shows "(length d - 1) div 1024 = (length e - 1) div 1024"
    and "(length d - (length e - 1) div 1024 * 1024 - 1) div 64
      = (length e - (length e - 1) div 1024 * 1024 - 1) div 64"
proof -
  have s: "(length d - 1) div 64 = (length e - 1) div 64" using assms(1) by (simp add: regular_stripes_def)
  have "n div 1024 = n div 64 div 16" for n :: nat by (simp add: div_mult2_eq [symmetric])
  with s show b: "(length d - 1) div 1024 = (length e - 1) div 1024" by metis
  have "(length x - m * 1024 - 1) div 64 = (length x - 1) div 64 - 16 * m" for x :: bytes and m
    using sub_mult_div [of 64 "length x - 1" "16 * m"] by (simp add: diff_commute mult.commute)
  with s show "(length d - (length e - 1) div 1024 * 1024 - 1) div 64
      = (length e - (length e - 1) div 1024 * 1024 - 1) div 64" by simp
qed

lemma tracks_block:
  assumes w: "tracks inputs w accs" and "length secret = 192"
    and fit: "\<And>d. d \<in> set inputs \<Longrightarrow> b * 1024 + 1024 \<le> length d"
  shows "\<exists>accs'. (do {
        accs \<leftarrow> foldM (\<lambda>k. batch_registers inputs (b * 1024 + k * 64) secret (k * 8)) [0..<16] accs;
        traverse (\<lambda>acc. scramble_registers acc secret 128) accs }) = Some accs'
    \<and> tracks inputs (\<lambda>d. block_spec d secret b (w d)) accs'"
proof -
  have "b * 1024 + k * 64 + 64 \<le> length d" if "k \<in> set [0..<16]" "d \<in> set inputs" for k d
    using fit [OF that(2)] that(1) by simp
  then obtain accs1 where
    "foldM (\<lambda>k. batch_registers inputs (b * 1024 + k * 64) secret (k * 8)) [0..<16] accs = Some accs1"
    "tracks inputs (\<lambda>d. stripes_spec d secret (b * 1024) [0..<16] (w d)) accs1"
    using tracks_stripes [OF w, of "[0..<16]" "b * 1024" secret] assms(2) by auto
  with tracks_scramble [OF this(2) assms(2)] show ?thesis by (auto simp: block_spec_def)
qed

lemma avx2_accumulate_batch_Some:
  assumes ne: "inputs \<noteq> []" and secret: "length secret = 192"
    and run: "\<And>d. d \<in> set inputs \<Longrightarrow> 240 < length d \<and> regular_stripes d = n"
  shows "avx2_accumulate_batch inputs secret = Some (map (\<lambda>d. accumulate_spec d secret) inputs)"
proof -
  obtain first rest where first: "inputs = first # rest" using ne by (cases inputs) auto
  let ?n = "(length first - 1) div 1024"
  let ?t = "(length first - ?n * 1024 - 1) div 64"
  have sched: "(length d - 1) div 1024 = ?n" "(length d - ?n * 1024 - 1) div 64 = ?t"
    if "d \<in> set inputs" for d
    using same_schedule [of d first] run [OF that] run [of first] first by auto
  have whole: "b * 1024 \<le> length d" if "d \<in> set inputs" "b \<le> ?n" for b d
  proof -
    have "b * 1024 \<le> (length d - 1) div 1024 * 1024" using that sched(1) by (intro mult_le_mono) simp_all
    also have "\<dots> \<le> length d" by (rule order.trans [OF div_times_less_eq_dividend]) simp
    finally show ?thesis .
  qed
  have block: "b * 1024 + 1024 \<le> length d" if "d \<in> set inputs" "b < ?n" for b d
    using whole [of d "Suc b"] that by simp
  have tail: "?n * 1024 + k * 64 + 64 \<le> length d"
    if "k \<in> set [0..<?t]" "d \<in> set inputs" for k d
  proof -
    have "Suc k \<le> (length d - ?n * 1024 - 1) div 64" using that sched(2) by simp
    then have "Suc k * 64 \<le> length d - ?n * 1024 - 1"
      by (metis div_times_less_eq_dividend le_trans mult_le_mono1)
    then show ?thesis using whole [OF that(2) order.refl] by simp
  qed
  have "?t \<le> 15" by auto
  then have in_secret: "k * 8 + 64 \<le> length secret" if "k \<in> set [0..<?t]" for k
    using that secret by simp
  obtain a0 where a0: "traverse (\<lambda>_. avx2_initial) inputs = Some a0"
    "tracks inputs (\<lambda>_. initial_accumulator) a0" using tracks_initial by blast
  let ?block = "\<lambda>block accs. let offset = block * 1024 in do {
           (if block + 2 \<le> ?n then
              let prefetch_offset = (block + 2) * 1024
              in guard (list_all (\<lambda>d. prefetch_offset \<le> length d) inputs)
            else Some ());
           accs \<leftarrow> foldM (\<lambda>stripe. batch_registers inputs (offset + stripe * 64) secret (stripe * 8))
             [0..<16] accs;
           traverse (\<lambda>acc. scramble_registers acc secret 128) accs }"
  have step: "\<exists>accs'. ?block b accs = Some accs' \<and> tracks inputs (\<lambda>d. block_spec d secret b (w d)) accs'"
    if "b \<in> set [0..<?n]" "tracks inputs w accs" for b w accs
  proof -
    have "(if b + 2 \<le> ?n then
              let prefetch_offset = (b + 2) * 1024
              in guard (list_all (\<lambda>d. prefetch_offset \<le> length d) inputs)
            else Some ()) = Some ()"
      using whole [of _ "b + 2"] by (auto simp: Let_def list_all_iff guard_def)
    moreover have "\<And>d. d \<in> set inputs \<Longrightarrow> b * 1024 + 1024 \<le> length d" using block that(1) by simp
    ultimately show ?thesis using tracks_block [OF that(2) secret] by (simp add: Let_def)
  qed
  have "\<exists>accs. foldM ?block [0..<?n] a0 = Some accs
      \<and> tracks inputs (fold (\<lambda>b w d. block_spec d secret b (w d)) [0..<?n] (\<lambda>_. initial_accumulator)) accs"
    by (rule foldM_tracked [where R = "tracks inputs", OF _ a0(2)]) (rule step)
  moreover have "fold (\<lambda>b w d. block_spec d secret b (w d)) [0..<?n] (\<lambda>_. initial_accumulator)
      = (\<lambda>d. fold (block_spec d secret) [0..<?n] initial_accumulator)"
    by (rule ext) (rule fold_pointwise [where g = "\<lambda>b d. block_spec d secret b"])
  ultimately obtain a1 where a1: "foldM ?block [0..<?n] a0 = Some a1"
    "tracks inputs (\<lambda>d. fold (block_spec d secret) [0..<?n] initial_accumulator) a1" by auto
  obtain a2 where a2: "foldM (\<lambda>k. batch_registers inputs (?n * 1024 + k * 64) secret (k * 8)) [0..<?t] a1 = Some a2"
    "tracks inputs (\<lambda>d. stripes_spec d secret (?n * 1024) [0..<?t]
       (fold (block_spec d secret) [0..<?n] initial_accumulator)) a2"
    using tracks_stripes [OF a1(2) tail in_secret] by blast
  have "length d - 64 + 64 \<le> length d" if "d \<in> set inputs" for d using run [OF that] by simp
  then obtain a3 where a3: "traverse (\<lambda>(d, acc). accumulate_registers acc d (length d - 64) secret 121)
      (zip inputs a2) = Some a3"
    "tracks inputs (\<lambda>d. stripe_spec (stripes_spec d secret (?n * 1024) [0..<?t]
       (fold (block_spec d secret) [0..<?n] initial_accumulator)) (window d (length d - 64)) (window secret 121)) a3"
    using tracks_stripe [OF a2(2), of 121 secret "\<lambda>d. length d - 64"] secret by auto
  have "avx2_accumulate_batch inputs secret = traverse avx2_finish a3"
    unfolding avx2_accumulate_batch_def
    using a0(1) a1(1) a2(1) a3(1) first
    by (simp add: get_def build_long_input_schedule_def Let_def)
  also have "\<dots> = Some (map (\<lambda>d. accumulate_spec d secret) inputs)"
    unfolding tracks_finish [OF a3(2)] accumulate_spec_def blocks_spec_def Let_def
    by (simp only: option.inject, rule map_cong [OF refl], simp only: sched)
  finally show ?thesis .
qed

lemma engine_accumulate_batch_Some:
  assumes "sound_engine arch cpu e" "inputs \<noteq> []" "length secret = 192"
    and "\<And>d. d \<in> set inputs \<Longrightarrow> 240 < length d \<and> regular_stripes d = n"
  shows "engine_accumulate_batch arch cpu e inputs secret = Some (map (\<lambda>d. accumulate_spec d secret) inputs)"
proof -
  have "traverse (\<lambda>d. engine_accumulate cpu e d secret) inputs
      = Some (map (\<lambda>d. accumulate_spec d secret) inputs)"
    by (rule traverse_Some) (use assms sound_engineD(1) in auto)
  then show ?thesis
    using sound_engineD(2) [OF assms(1)] avx2_accumulate_batch_Some [OF assms(2-4)]
    by (simp add: engine_accumulate_batch_def)
qed

section \<open>Runs\<close>

lemma long_run_new_None: "inputs \<noteq> [] \<Longrightarrow> long_run_new inputs = None \<longleftrightarrow> length (hd inputs) \<le> 240"
  by (cases inputs) (auto simp: long_run_new_def long_input_new_def Let_def)

lemma long_run_new_props:
  assumes "long_run_new inputs = Some run"
  shows "inputs = run @ drop (length run) inputs" "1 \<le> length run" "length run \<le> 4"
    and "\<exists>n. \<forall>d \<in> set run. 240 < length d \<and> regular_stripes d = n"
proof -
  from assms obtain x xs where x: "inputs = x # xs" "240 < length x"
    "run = takeWhile (same_stripes (regular_stripes x)) (take 4 inputs)" by (rule long_run_newE)
  have "run = take (length run) (take 4 inputs)" unfolding x(3) by (rule takeWhile_eq_take)
  then have "run = take (length run) inputs"
    using long_run_new_length [OF assms] by (simp add: min_absorb1)
  then show "inputs = run @ drop (length run) inputs" by (metis append_take_drop_id)
  show "1 \<le> length run" "length run \<le> 4" using long_run_new_length [OF assms] by (auto simp: Suc_le_eq)
  have "240 < length d \<and> regular_stripes d = regular_stripes x" if "d \<in> set run" for d
    using that unfolding x(3)
    by (auto dest!: set_takeWhileD simp: same_stripes_def long_input_new_def split: if_splits)
  then show "\<exists>n. \<forall>d \<in> set run. 240 < length d \<and> regular_stripes d = n" by blast
qed

lemma long_run_batch_whole: "n = length run \<Longrightarrow> long_run_batch run 0 n = Some run"
proof -
  have "traverse (get run) [0..<length run] = Some (map ((!) run) [0..<length run])"
    by (rule traverse_Some) (simp add: get_def)
  then show "n = length run \<Longrightarrow> ?thesis" by (simp add: long_run_batch_def map_nth)
qed

lemma foldM_push: "foldM push hs hs' = Some (hs' @ hs)"
  by (induction hs arbitrary: hs') (simp_all add: push_def)

section \<open>The contract of the hashes a batch is made of\<close>

text \<open>
  \<open>value_spec\<close> is the hash of an input, \<open>final_spec\<close> its finalisation of eight lanes.  A short
  input is hashed by \<open>short\<close>; \<open>medium\<close> may decline, and otherwise agrees with the long path.
\<close>

locale batch_hash =
  fixes arch :: target_arch and cpu :: cpu
    and short :: "'h short_hash" and medium :: "'h medium_hash" and finalize :: "'h finalizer"
    and value_spec :: "bytes \<Rightarrow> u64 \<Rightarrow> 'h" and final_spec :: "nat \<Rightarrow> bytes \<Rightarrow> u64 list \<Rightarrow> 'h"
  assumes short_law: "length input \<le> 240 \<Longrightarrow> short input seed = Some (value_spec input seed)"
    and medium_law: "sound_engine arch cpu e \<Longrightarrow> 240 < length input \<Longrightarrow> length secret = 192 \<Longrightarrow>
      medium e input secret \<in> {Some None,
        Some (Some (final_spec (length input) secret (accumulate_spec input secret)))}"
    and finalize_law: "length acc = 8 \<Longrightarrow> length secret = 192 \<Longrightarrow>
      finalize n secret acc = Some (final_spec n secret acc)"
    and long_law: "240 < length input \<Longrightarrow>
      value_spec input seed = final_spec (length input) (seed_secret seed) (accumulate_spec input (seed_secret seed))"
begin

definition emit_all :: "u64 \<Rightarrow> bytes list \<Rightarrow> ('h, 's) callback \<Rightarrow> 's \<Rightarrow> 's option" where
  "emit_all seed inputs output s = foldM output (map (\<lambda>input. value_spec input seed) inputs) s"

lemma emit_all_simps [simp]:
  "emit_all seed [] output = Some"
  "emit_all seed (x # xs) output s = output (value_spec x seed) s \<bind> emit_all seed xs output"
  by (simp_all add: emit_all_def [abs_def] fun_eq_iff)

lemma emit_all_append: "emit_all seed (xs @ ys) output s = emit_all seed xs output s \<bind> emit_all seed ys output"
  by (simp add: emit_all_def [abs_def] foldM_append)

lemma engine_hash_value:
  "sound_engine arch cpu e \<Longrightarrow> 240 < length input \<Longrightarrow>
   engine_hash cpu e input (seed_secret seed) finalize = Some (value_spec input seed)"
  by (simp add: engine_hash_Some finalize_law length_accumulate_spec long_law)

lemma shorts:
  assumes "index \<le> length inputs"
  shows "\<exists>n. index + n \<le> length inputs \<and> short_prefix inputs seed short output index s
    = (do { s \<leftarrow> emit_all seed (take n (drop index inputs)) output s; Some (index + n, s) })"
  using assms
proof (induction "length inputs - index" arbitrary: index s)
  case 0
  then show ?case by (intro exI [of _ 0]) (simp add: short_prefix.simps)
next
  case (Suc m)
  show ?case
  proof (cases "length (inputs ! index) \<le> 240")
    case False
    then show ?thesis using Suc by (intro exI [of _ 0]) (simp add: short_prefix.simps)
  next
    case True
    have less: "index < length inputs" using Suc.hyps(2) by simp
    have m: "m = length inputs - Suc index" using Suc.hyps(2) by simp
    from less have d: "drop index inputs = inputs ! index # drop (Suc index) inputs"
      by (simp add: Cons_nth_drop_Suc)
    show ?thesis
    proof (cases "output (value_spec (inputs ! index) seed) s")
      case None
      with True less d show ?thesis
        by (intro exI [of _ 1]) (simp add: short_prefix.simps [of inputs _ _ _ index] short_law)
    next
      case (Some s')
      obtain n where n: "Suc index + n \<le> length inputs"
        "short_prefix inputs seed short output (Suc index) s'
          = (do { s \<leftarrow> emit_all seed (take n (drop (Suc index) inputs)) output s'; Some (Suc index + n, s) })"
        using Suc.hyps(1) [OF m, of s'] less by auto
      with True less d Some show ?thesis
        by (intro exI [of _ "Suc n"])
          (simp add: short_prefix.simps [of inputs _ _ _ index] short_law)
    qed
  qed
qed

lemma individually:
  assumes "sound_engine arch cpu e"
  shows "hash_individually cpu inputs seed short finalize e (seed_secret seed) output index s
    = emit_all seed (drop index inputs) output s"
proof (induction "length inputs - index" arbitrary: index s)
  case 0
  then show ?case by (simp add: hash_individually.simps)
next
  case (Suc m)
  then have less: "index < length inputs" by simp
  have "(case long_input_new (inputs ! index) of
      Some input \<Rightarrow> engine_hash cpu e input (seed_secret seed) finalize
    | None \<Rightarrow> short (inputs ! index) seed) = Some (value_spec (inputs ! index) seed)"
    by (simp add: long_input_new_def engine_hash_value assms short_law)
  moreover have "hash_individually cpu inputs seed short finalize e (seed_secret seed) output (Suc index)
      = emit_all seed (drop (Suc index) inputs) output"
    using Suc.hyps(1) [of "Suc index"] Suc.hyps(2) by (intro ext) simp
  ultimately show ?case
    using less Cons_nth_drop_Suc [OF less, symmetric]
    by (simp add: hash_individually.simps [of cpu inputs _ _ _ _ _ _ index])
qed

lemma group:
  assumes "sound_engine arch cpu e" "inputs \<noteq> []"
    and "\<And>d. d \<in> set inputs \<Longrightarrow> 240 < length d \<and> regular_stripes d = n"
  shows "(do { accumulators \<leftarrow> engine_accumulate_batch arch cpu e inputs (seed_secret seed);
      emit_long_group (seed_secret seed) inputs accumulators finalize output s })
    = emit_all seed inputs output s"
proof -
  have "foldM (\<lambda>(input, acc) s. do {
         hash \<leftarrow> finalize (length input) (seed_secret seed) acc;
         output hash s }) (zip xs (map (\<lambda>d. accumulate_spec d (seed_secret seed)) xs)) s
      = emit_all seed xs output s" if "set xs \<subseteq> set inputs" for xs s
    using that
  proof (induction xs arbitrary: s)
    case (Cons x xs)
    then show ?case
      using assms(3) [of x] by (auto simp: finalize_law length_accumulate_spec long_law intro!: Option.bind_cong)
  qed simp
  then show ?thesis
    by (simp add: engine_accumulate_batch_Some [OF assms(1,2) _ assms(3)] emit_long_group_def)
qed

lemma runs:
  assumes e: "sound_engine arch cpu e"
  shows "hash_input_runs arch cpu inputs seed short medium finalize e (seed_secret seed) output index s
    = emit_all seed (drop index inputs) output s"
proof (induction "length inputs - index" arbitrary: index s rule: less_induct)
  case less
  show ?case
  proof (cases "index < length inputs")
    case False
    then show ?thesis by (simp add: hash_input_runs.simps)
  next
    case True
    show ?thesis
    proof (cases "long_run_new (drop index inputs)")
      case None
      then have "length (inputs ! index) \<le> 240"
        using long_run_new_None [of "drop index inputs"] True by (simp add: hd_drop_conv_nth)
      then show ?thesis
        using True None less.hyps [of "Suc index"] Cons_nth_drop_Suc [OF True, symmetric]
        by (simp add: hash_input_runs.simps [of arch cpu inputs _ _ _ _ _ _ _ index] short_law
            cong: Option.bind_cong)
    next
      case (Some run)
      note props = long_run_new_props [OF Some]
      obtain n where n: "\<And>d. d \<in> set run \<Longrightarrow> 240 < length d \<and> regular_stripes d = n"
        using props(4) by blast
      have rest: "hash_input_runs arch cpu inputs seed short medium finalize e (seed_secret seed) output
          (index + length run) = emit_all seed (drop (index + length run) inputs) output"
        by (rule ext, rule less.hyps) (use True props(2) in simp)
      have split: "drop index inputs = run @ drop (index + length run) inputs"
        using props(1) by (simp add: add.commute)
      have group_run: "(do { group \<leftarrow> long_run_batch run 0 k;
            accumulators \<leftarrow> engine_accumulate_batch arch cpu e group (seed_secret seed);
            emit_long_group (seed_secret seed) group accumulators finalize output s })
          = emit_all seed run output s" if "k = length run" for k
      proof -
        have "run \<noteq> []" using props(2) by auto
        with that show ?thesis by (simp add: long_run_batch_whole group [OF e _ n])
      qed
      have single: "(do { input \<leftarrow> get run 0;
            medium_result \<leftarrow> medium e input (seed_secret seed);
            hash \<leftarrow> (case medium_result of
                Some hash \<Rightarrow> Some hash
              | None \<Rightarrow> engine_hash cpu e input (seed_secret seed) finalize);
            output hash s }) = emit_all seed run output s" if one: "length run = 1"
      proof -
        obtain d where d: "run = [d]" using one by (auto simp: length_eq_1)
        with n have "240 < length d" by simp
        then show ?thesis
          using medium_law [OF e, of d "seed_secret seed"] d
          by (auto simp: get_def engine_hash_value e long_law)
      qed
      show ?thesis
        unfolding split emit_all_append hash_input_runs.simps [of arch cpu inputs _ _ _ _ _ _ _ index]
        using True props(2,3) by (simp add: Some split [symmetric] rest group_run single [simplified])
    qed
  qed
qed

lemma with_secret:
  assumes "sound_engine arch cpu e"
  shows "hash_each_input_with_secret arch cpu inputs seed short (medium, finalize) e (seed_secret seed) output s
    = emit_all seed inputs output s"
proof -
  have "\<exists>n. 0 + n \<le> length inputs \<and> short_prefix inputs seed short output 0 s
      = (do { s \<leftarrow> emit_all seed (take n (drop 0 inputs)) output s; Some (0 + n, s) })"
    by (rule shorts) simp
  then obtain n where n: "n \<le> length inputs" "short_prefix inputs seed short output 0 s
      = (do { s \<leftarrow> emit_all seed (take n inputs) output s; Some (n, s) })" by auto
  have "emit_all seed inputs output s
      = emit_all seed (take n inputs) output s \<bind> emit_all seed (drop n inputs) output"
    by (simp flip: emit_all_append)
  then show ?thesis
    using n by (auto simp: hash_each_input_with_secret_def runs individually assms
        intro!: Option.bind_cong)
qed

lemma each_input:
  "hash_each_input arch cpu inputs seed short (medium, finalize) output s = emit_all seed inputs output s"
proof -
  have "\<exists>n. 0 + n \<le> length inputs \<and> short_prefix inputs seed short output 0 s
      = (do { s \<leftarrow> emit_all seed (take n (drop 0 inputs)) output s; Some (0 + n, s) })"
    by (rule shorts) simp
  then obtain n where n: "n \<le> length inputs" "short_prefix inputs seed short output 0 s
      = (do { s \<leftarrow> emit_all seed (take n inputs) output s; Some (n, s) })" by auto
  obtain e where e: "long_engine_new arch cpu = Some e" "sound_engine arch cpu e"
    using long_engine_new_sound by blast
  obtain derived where d: "derive_secret arch cpu e seed = Some derived"
    "secret_of derived = seed_secret seed" using derive_secret_Some [OF e(2)] by blast
  have "emit_all seed inputs output s
      = emit_all seed (take n inputs) output s \<bind> emit_all seed (drop n inputs) output"
    by (simp flip: emit_all_append)
  then show ?thesis
    using n e d by (auto simp: hash_each_input_def with_secret intro!: Option.bind_cong)
qed

lemma pushes: "emit_all seed inputs push hs = Some (hs @ map (\<lambda>input. value_spec input seed) inputs)"
  by (simp add: emit_all_def foldM_push)

end

interpretation batch64: batch_hash arch cpu "xxh3_64 arch cpu" no_medium finalize_long_64
    xxh3_64_spec finalize_64_spec for arch cpu
  by unfold_locales
    (simp_all add: xxh3_64_eq no_medium_def finalize_long_64_Some xxh3_64_spec_def)

interpretation batch128: batch_hash arch cpu "xxh3_128 arch cpu" no_medium finalize_long_128
    xxh3_128_spec finalize_128_spec for arch cpu
  by unfold_locales
    (simp_all add: xxh3_128_eq no_medium_def finalize_long_128_Some xxh3_128_spec_def)

interpretation batch128_medium: batch_hash arch cpu "xxh3_128 arch cpu"
    "if is_x86 arch then try_hash_128_medium cpu else no_medium" finalize_long_128
    xxh3_128_spec finalize_128_spec for arch cpu
  by unfold_locales
    (auto simp: xxh3_128_eq no_medium_def finalize_long_128_Some xxh3_128_spec_def
      dest: try_hash_128_medium_Some)

section \<open>Properties\<close>

text \<open>
  C13: a batch of 64-bit hashes is the hashes of its inputs. The scheduler's runs of two to four
  long inputs, the interleaved kernel, the shared secret and the short inputs between them return,
  in the order of the inputs, what the one-call function returns for each.
\<close>

theorem xxh3_64_batch_correct:
  "xxh3_64_batch arch cpu inputs seed = traverse (\<lambda>input. xxh3_64 arch cpu input seed) inputs"
  by (simp add: xxh3_64_batch_def batch64.each_input batch64.pushes xxh3_64_eq
      traverse_Some [where g = "\<lambda>input. xxh3_64_spec input seed"])

text \<open>C14: a batch of 128-bit hashes is the hashes of its inputs, in their order.\<close>

theorem xxh3_128_batch_correct:
  "xxh3_128_batch arch cpu inputs seed = traverse (\<lambda>input. xxh3_128 arch cpu input seed) inputs"
  by (simp add: xxh3_128_batch_def batch128.each_input batch128.pushes xxh3_128_eq
      traverse_Some [where g = "\<lambda>input. xxh3_128_spec input seed"])

text \<open>
  C16: the callback variants call the caller's function once for each input, in the order of the
  inputs, with its hash, on every architecture and processor; a callback that panics stops the
  batch there, with nothing called after it.
\<close>

theorem batch_for_each_calls:
  "xxh3_64_batch_for_each arch cpu inputs seed output s
     = foldM output (map (\<lambda>input. xxh3_64_spec input seed) inputs) s
   \<and> xxh3_128_batch_for_each arch cpu inputs seed output' s'
     = foldM output' (map (\<lambda>input. xxh3_128_spec input seed) inputs) s'"
  by (simp add: xxh3_64_batch_for_each_def xxh3_128_batch_for_each_def batch64.each_input
      batch128.each_input batch64.emit_all_def batch128.emit_all_def)

lemma prepared_new_Some:
  "\<exists>p. prepared_new arch cpu seed = Some p \<and> prepared_seed p = seed
     \<and> secret_of (prepared_secret p) = seed_secret seed"
proof -
  obtain e where e: "long_engine_new arch cpu = Some e" "sound_engine arch cpu e"
    using long_engine_new_sound by blast
  obtain derived where "derive_secret arch cpu e seed = Some derived"
    "secret_of derived = seed_secret seed" using derive_secret_Some [OF e(2)] by blast
  with e show ?thesis by (simp add: prepared_new_def)
qed

lemma prepared_single:
  assumes "prepared_seed p = seed" "secret_of (prepared_secret p) = seed_secret seed"
  shows "prepared_hash_64 arch cpu p input = Some (xxh3_64_spec input seed)"
    and "prepared_hash_128 arch cpu p input = Some (xxh3_128_spec input seed)"
proof -
  obtain e where "long_engine_new arch cpu = Some e" "sound_engine arch cpu e"
    using long_engine_new_sound by blast
  then show "prepared_hash_64 arch cpu p input = Some (xxh3_64_spec input seed)"
    "prepared_hash_128 arch cpu p input = Some (xxh3_128_spec input seed)"
    using assms
    by (simp_all add: prepared_hash_64_def prepared_hash_128_def long_input_new_def xxh3_64_eq
        xxh3_128_eq batch64.engine_hash_value engine_hash_128_Some batch128.long_law)
qed

lemma prepared_batches:
  assumes "prepared_seed p = seed" "secret_of (prepared_secret p) = seed_secret seed"
  shows "prepared_hash_64_batch_for_each arch cpu p inputs output s
      = foldM output (map (\<lambda>input. xxh3_64_spec input seed) inputs) s"
    and "prepared_hash_128_batch_for_each arch cpu p inputs output' s'
      = foldM output' (map (\<lambda>input. xxh3_128_spec input seed) inputs) s'"
    and "prepared_hash_64_batch arch cpu p inputs = Some (map (\<lambda>input. xxh3_64_spec input seed) inputs)"
    and "prepared_hash_128_batch arch cpu p inputs = Some (map (\<lambda>input. xxh3_128_spec input seed) inputs)"
proof -
  obtain e where e: "long_engine_new arch cpu = Some e" "sound_engine arch cpu e"
    using long_engine_new_sound by blast
  show "prepared_hash_64_batch_for_each arch cpu p inputs output s
      = foldM output (map (\<lambda>input. xxh3_64_spec input seed) inputs) s"
    "prepared_hash_128_batch_for_each arch cpu p inputs output' s'
      = foldM output' (map (\<lambda>input. xxh3_128_spec input seed) inputs) s'"
    using e assms
    by (simp_all add: prepared_hash_64_batch_for_each_def prepared_hash_128_batch_for_each_def
        batch64.with_secret batch128.with_secret batch64.emit_all_def batch128.emit_all_def)
  show "prepared_hash_64_batch arch cpu p inputs = Some (map (\<lambda>input. xxh3_64_spec input seed) inputs)"
    "prepared_hash_128_batch arch cpu p inputs = Some (map (\<lambda>input. xxh3_128_spec input seed) inputs)"
    using e assms
    by (simp_all add: batch128_medium.with_secret prepared_hash_64_batch_def prepared_hash_64_batch_for_each_def
        prepared_hash_128_batch_def batch64.with_secret batch64.pushes batch128_medium.pushes
        split del: if_split)
qed

text \<open>
  C15: a prepared seed hashes as the one-call functions do with that seed: single inputs, batches
  and callback batches, of 64 and of 128 bits, on every processor.
\<close>

theorem prepared_hashes:
  "\<exists>p. prepared_new arch cpu seed = Some p
     \<and> prepared_hash_64 arch cpu p input = xxh3_64 arch cpu input seed
     \<and> prepared_hash_128 arch cpu p input = xxh3_128 arch cpu input seed
     \<and> prepared_hash_64_batch arch cpu p inputs = xxh3_64_batch arch cpu inputs seed
     \<and> prepared_hash_128_batch arch cpu p inputs = xxh3_128_batch arch cpu inputs seed
     \<and> prepared_hash_64_batch_for_each arch cpu p inputs output s
       = xxh3_64_batch_for_each arch cpu inputs seed output s
     \<and> prepared_hash_128_batch_for_each arch cpu p inputs output' s'
       = xxh3_128_batch_for_each arch cpu inputs seed output' s'"
proof -
  obtain p where p: "prepared_new arch cpu seed = Some p" "prepared_seed p = seed"
    "secret_of (prepared_secret p) = seed_secret seed" using prepared_new_Some by blast
  note single = prepared_single [OF p(2,3)] and batches = prepared_batches [OF p(2,3)]
  show ?thesis
    unfolding p(1) option.inject
    by (rule exI [of _ p])
      (simp add: single batches xxh3_64_eq xxh3_128_eq xxh3_64_batch_def xxh3_128_batch_def
        xxh3_64_batch_for_each_def xxh3_128_batch_for_each_def batch64.each_input batch128.each_input
        batch64.emit_all_def batch128.emit_all_def foldM_push)
qed

text \<open>
  C17: a run is never empty nor longer than four, it is a prefix of the batch, all its inputs are
  long and have the same number of stripes (what the interleaved kernel requires); and there is a
  run exactly when the batch begins with a long input.
\<close>

theorem long_run_new_sound:
  "(case long_run_new inputs of
     None \<Rightarrow> inputs = [] \<or> length (hd inputs) \<le> 240
   | Some run \<Rightarrow> inputs \<noteq> [] \<and> 240 < length (hd inputs) \<and> (\<exists>rest. inputs = run @ rest)
       \<and> 1 \<le> length run \<and> length run \<le> 4
       \<and> list_all (\<lambda>d. 240 < length d \<and> regular_stripes d = regular_stripes (hd inputs)) run)"
proof (cases "long_run_new inputs")
  case None
  then show ?thesis using long_run_new_None [of inputs] by auto
next
  case (Some run)
  note props = long_run_new_props [OF Some]
  obtain n where n: "\<forall>d \<in> set run. 240 < length d \<and> regular_stripes d = n" using props(4) by blast
  have "run \<noteq> []" using props(2) by auto
  then have "hd run = hd inputs" by (subst props(1)) (simp add: hd_append)
  moreover have "hd run \<in> set run" using \<open>run \<noteq> []\<close> by simp
  moreover have "inputs \<noteq> []" using Some by (auto simp: long_run_new_def)
  ultimately show ?thesis
    using n props(1-3) by (simp add: Some list_all_iff) (metis props(1))
qed

end
