(* ===== verification/Base64_Alphabet.thy ===== *)
theory Base64_Alphabet
  imports Byte_Words
begin

text \<open>
  The Base64 alphabets and errors (\<open>src/base64/alphabet.rs\<close>, \<open>src/base64/error.rs\<close>), and the
  codec of RFC 4648 that the kernels are compared with: \<open>sextets\<close> and \<open>octets\<close> regroup bits,
  \<open>encode_spec\<close> and \<open>decode_spec\<close> are the padded text format over an alphabet.  The lemmas show
  that the decode tables invert the alphabets, that regrouping keeps the bit string, and that
  decoding an encoded text gives the input back.
\<close>

section \<open>Alphabets and decode tables\<close>

definition ascii :: "char \<Rightarrow> u8" where
  [simp]: "ascii c = of_char c"

definition STANDARD_ALPHABET :: bytes where
  "STANDARD_ALPHABET =
     map ascii ''ABCDEFGHIJKLMNOPQRSTUVWXYZabcdefghijklmnopqrstuvwxyz0123456789+/''"

definition URLSAFE_ALPHABET :: bytes where
  "URLSAFE_ALPHABET =
     map ascii ''ABCDEFGHIJKLMNOPQRSTUVWXYZabcdefghijklmnopqrstuvwxyz0123456789-_''"

definition INVALID_VALUE :: u8 where
  "INVALID_VALUE = - 1"

definition decode_table :: "bool \<Rightarrow> bool \<Rightarrow> bytes" where
  "decode_table urlsafe mixed =
     (let table = replicate 256 INVALID_VALUE;
          table = fold (\<lambda>index table.
            (table[unat (ascii CHR ''A'') + index := of_nat index])
              [unat (ascii CHR ''a'') + index := of_nat index + 26]) [0..<26] table;
          table = fold (\<lambda>index table.
            table[unat (ascii CHR ''0'') + index := of_nat index + 52]) [0..<10] table;
          table = (if urlsafe \<or> mixed
            then (table[unat (ascii CHR ''-'') := 62])[unat (ascii CHR ''_'') := 63] else table)
      in if \<not> urlsafe \<or> mixed
         then (table[unat (ascii CHR ''+'') := 62])[unat (ascii CHR ''/'') := 63] else table)"

definition STANDARD_DECODE :: bytes where
  "STANDARD_DECODE = decode_table False False"

definition URLSAFE_DECODE :: bytes where
  "URLSAFE_DECODE = decode_table True False"

definition MIXED_DECODE :: bytes where
  "MIXED_DECODE = decode_table True True"

definition DECODE_STORE_PADDING :: nat where
  "DECODE_STORE_PADDING = 4"

datatype decode_alphabet = Standard | UrlSafe | Mixed

datatype base64_error = InvalidInput | OutputTooSmall (required: nat) (provided: nat)

text \<open>The selection \<open>match alphabet\<close> of the table, which the decoders repeat.\<close>

fun table_of :: "decode_alphabet \<Rightarrow> bytes" where
  "table_of Standard = STANDARD_DECODE"
| "table_of UrlSafe = URLSAFE_DECODE"
| "table_of Mixed = MIXED_DECODE"

text \<open>The encoders choose the alphabet by a flag, the decoders the table.\<close>

definition alphabet_of :: "bool \<Rightarrow> bytes" where
  "alphabet_of urlsafe = (if urlsafe then URLSAFE_ALPHABET else STANDARD_ALPHABET)"

definition decode_alphabet_of :: "bool \<Rightarrow> decode_alphabet" where
  "decode_alphabet_of urlsafe = (if urlsafe then UrlSafe else Standard)"

section \<open>What the tables hold\<close>

text \<open>The value of a symbol is its position in an alphabet.\<close>

definition indexed :: "bytes \<Rightarrow> (u8 \<times> u8) list" where
  "indexed alphabet = zip alphabet (map of_nat [0..<64])"

fun symbols :: "decode_alphabet \<Rightarrow> (u8 \<times> u8) list" where
  "symbols Standard = indexed STANDARD_ALPHABET"
| "symbols UrlSafe = indexed URLSAFE_ALPHABET"
| "symbols Mixed = indexed STANDARD_ALPHABET @ indexed URLSAFE_ALPHABET"

definition symbol_value :: "decode_alphabet \<Rightarrow> u8 \<Rightarrow> u8 option" where
  "symbol_value a b = map_of (symbols a) b"

lemma length_alphabets [simp]:
  "length STANDARD_ALPHABET = 64" "length URLSAFE_ALPHABET = 64" "length (alphabet_of u) = 64"
  by (simp_all add: STANDARD_ALPHABET_def URLSAFE_ALPHABET_def alphabet_of_def)

lemma length_decode_table [simp]: "length (decode_table u m) = 256"
proof -
  have f: "length (fold (\<lambda>i t. (t[p i := x i])[q i := y i]) is t) = length t"
    "length (fold (\<lambda>i t. t[p i := x i]) is t) = length t"
    for p q :: "nat \<Rightarrow> nat" and x y :: "nat \<Rightarrow> u8" and "is" t
    by (induction "is" arbitrary: t) simp_all
  show ?thesis by (simp add: decode_table_def Let_def f)
qed

lemma length_table_of [simp]: "length (table_of a) = 256"
  by (cases a) (simp_all add: STANDARD_DECODE_def URLSAFE_DECODE_def MIXED_DECODE_def)

lemma STANDARD_ALPHABET_bytes:
  "STANDARD_ALPHABET =
    [65, 66, 67, 68, 69, 70, 71, 72, 73, 74, 75, 76, 77, 78, 79, 80, 81, 82, 83, 84, 85, 86, 87,
     88, 89, 90, 97, 98, 99, 100, 101, 102, 103, 104, 105, 106, 107, 108, 109, 110, 111, 112,
     113, 114, 115, 116, 117, 118, 119, 120, 121, 122, 48, 49, 50, 51, 52, 53, 54, 55, 56, 57,
     43, 47]"
  by (simp add: STANDARD_ALPHABET_def)

lemma URLSAFE_ALPHABET_bytes:
  "URLSAFE_ALPHABET =
    [65, 66, 67, 68, 69, 70, 71, 72, 73, 74, 75, 76, 77, 78, 79, 80, 81, 82, 83, 84, 85, 86, 87,
     88, 89, 90, 97, 98, 99, 100, 101, 102, 103, 104, 105, 106, 107, 108, 109, 110, 111, 112,
     113, 114, 115, 116, 117, 118, 119, 120, 121, 122, 48, 49, 50, 51, 52, 53, 54, 55, 56, 57,
     45, 95]"
  by (simp add: URLSAFE_ALPHABET_def)

text \<open>Every symbol's entry is its index, and every entry that is not invalid belongs to a symbol.\<close>

lemma table_holds_indices:
  "list_all (\<lambda>(b, v). STANDARD_DECODE ! unat b = v) (indexed STANDARD_ALPHABET)"
  "list_all (\<lambda>(b, v). URLSAFE_DECODE ! unat b = v) (indexed URLSAFE_ALPHABET)"
  "list_all (\<lambda>(b, v). MIXED_DECODE ! unat b = v) (indexed STANDARD_ALPHABET @ indexed URLSAFE_ALPHABET)"
  unfolding STANDARD_ALPHABET_bytes URLSAFE_ALPHABET_bytes by code_simp+

text \<open>A check of every entry, with its position as a byte.\<close>

primrec entries_from :: "(u8 \<Rightarrow> u8 \<Rightarrow> bool) \<Rightarrow> u8 \<Rightarrow> bytes \<Rightarrow> bool" where
  "entries_from P i [] = True"
| "entries_from P i (v # vs) = (P i v \<and> entries_from P (i + 1) vs)"

lemma entries_from_nth: "entries_from P i vs \<Longrightarrow> j < length vs \<Longrightarrow> P (i + of_nat j) (vs ! j)"
proof (induction vs arbitrary: i j)
  case (Cons v vs)
  show ?case
  proof (cases j)
    case (Suc k)
    with Cons have "P (i + 1 + of_nat k) (vs ! k)" by simp
    with Suc show ?thesis by (simp add: algebra_simps)
  qed (use Cons in simp)
qed simp

lemma entries_of_table:
  assumes "entries_from P 0 table" "length table = 256"
  shows "P b (table ! unat b)"
  using entries_from_nth [OF assms(1), of "unat b"] unsigned_less [of b] assms(2) by simp

lemma table_holds_symbols:
  "entries_from (\<lambda>b v. v = 255 \<or> v < 64 \<and> STANDARD_ALPHABET ! unat v = b) 0 STANDARD_DECODE"
  "entries_from (\<lambda>b v. v = 255 \<or> v < 64 \<and> URLSAFE_ALPHABET ! unat v = b) 0 URLSAFE_DECODE"
  "entries_from (\<lambda>b v. v = 255 \<or> v < 64 \<and> (STANDARD_ALPHABET ! unat v = b
     \<or> URLSAFE_ALPHABET ! unat v = b)) 0 MIXED_DECODE"
  unfolding STANDARD_ALPHABET_bytes URLSAFE_ALPHABET_bytes by code_simp+

lemma fst_indexed: "length alphabet = 64 \<Longrightarrow> fst ` set (indexed alphabet) = set alphabet"
  by (simp add: indexed_def flip: set_map)

lemma in_indexed: "(b, v) \<in> set (indexed alphabet) \<Longrightarrow> length alphabet = 64 \<Longrightarrow> v < 64"
  by (auto simp: indexed_def in_set_zip word_less_nat_alt unsigned_of_nat take_bit_nat_eq_self)

lemma indexed_nth:
  "v < 64 \<Longrightarrow> length alphabet = 64 \<Longrightarrow> (alphabet ! unat v, v) \<in> set (indexed alphabet)"
  by (auto simp: indexed_def in_set_zip word_less_nat_alt intro!: exI [of _ "unat v"])

lemma table_of_symbol:
  assumes "symbol_value a b = Some v"
  shows "table_of a ! unat b = v \<and> v < 64"
proof -
  have *: "(b, v) \<in> set (symbols a)"
    using assms by (auto simp: symbol_value_def dest: map_of_SomeD)
  moreover have "list_all (\<lambda>(b, v). table_of a ! unat b = v) (symbols a)"
    using table_holds_indices by (cases a) simp_all
  ultimately have "table_of a ! unat b = v" by (auto simp: list_all_iff)
  moreover have "v < 64" using * by (cases a) (auto dest: in_indexed)
  ultimately show ?thesis by simp
qed

lemma symbol_of_table:
  assumes "table_of a ! unat b \<noteq> INVALID_VALUE"
  shows "symbol_value a b \<noteq> None"
proof -
  let ?v = "table_of a ! unat b"
  have *: "(b, ?v) \<in> set (symbols a)"
    using assms table_holds_symbols [THEN entries_of_table, of b]
      indexed_nth [of ?v STANDARD_ALPHABET] indexed_nth [of ?v URLSAFE_ALPHABET]
    by (cases a) (auto simp: INVALID_VALUE_def STANDARD_DECODE_def URLSAFE_DECODE_def
        MIXED_DECODE_def)
  then have "b \<in> fst ` set (symbols a)" by force
  then show ?thesis unfolding symbol_value_def by (simp add: map_of_eq_None_iff)
qed

lemma table_value:
  "table_of a ! unat b = (case symbol_value a b of Some v \<Rightarrow> v | None \<Rightarrow> INVALID_VALUE)"
  using table_of_symbol [of a b] symbol_of_table [of a b]
  by (cases "symbol_value a b") auto

lemma symbol_value_less: "symbol_value a b = Some v \<Longrightarrow> v < 64"
  using table_of_symbol by simp

text \<open>The padding character is no symbol.\<close>

lemma no_padding_symbol [simp]: "symbol_value a 61 = None"
  unfolding symbol_value_def
  by (cases a) (simp_all add: map_of_eq_None_iff image_Un fst_indexed,
      simp_all add: STANDARD_ALPHABET_bytes URLSAFE_ALPHABET_bytes)

section \<open>The codec\<close>

text \<open>
  Three bytes are four groups of six bits.  At the end of the input the last group is filled
  with zero bits.
\<close>

fun sextets :: "bytes \<Rightarrow> u8 list" where
  "sextets (a # b # c # bs) =
     [drop_bit 2 a, push_bit 4 (a AND 3) OR drop_bit 4 b, push_bit 2 (b AND 15) OR drop_bit 6 c,
      c AND 63] @ sextets bs"
| "sextets [a, b] = [drop_bit 2 a, push_bit 4 (a AND 3) OR drop_bit 4 b, push_bit 2 (b AND 15)]"
| "sextets [a] = [drop_bit 2 a, push_bit 4 (a AND 3)]"
| "sextets [] = []"

fun octets :: "u8 list \<Rightarrow> bytes" where
  "octets (p # q # r # s # vs) =
     [push_bit 2 p OR drop_bit 4 q, push_bit 4 q OR drop_bit 2 r, push_bit 6 r OR s] @ octets vs"
| "octets [p, q, r] = [push_bit 2 p OR drop_bit 4 q, push_bit 4 q OR drop_bit 2 r]"
| "octets [p, q] = [push_bit 2 p OR drop_bit 4 q]"
| "octets _ = []"

definition padding_for :: "nat \<Rightarrow> nat" where
  "padding_for n = (if n mod 3 = 0 then 0 else 3 - n mod 3)"

definition symbol :: "bytes \<Rightarrow> u8 \<Rightarrow> u8" where
  "symbol alphabet v = alphabet ! unat v"

definition encode_unpadded_spec :: "bytes \<Rightarrow> bytes \<Rightarrow> bytes" where
  "encode_unpadded_spec alphabet input = map (symbol alphabet) (sextets input)"

definition encode_spec :: "bytes \<Rightarrow> bytes \<Rightarrow> bytes" where
  "encode_spec alphabet input =
     encode_unpadded_spec alphabet input @ replicate (padding_for (length input)) (ascii CHR ''='')"

text \<open>
  The text without its padding, its symbols' values, and their bits regrouped.  A trailing group
  of one symbol holds no byte and is no text.
\<close>

definition decode_unpadded_spec :: "decode_alphabet \<Rightarrow> bytes \<Rightarrow> bytes option" where
  "decode_unpadded_spec a text =
     (if length text mod 4 = 1 then None else map_option octets (traverse (symbol_value a) text))"

definition trailing_padding :: "bytes \<Rightarrow> nat" where
  "trailing_padding text = min 2 (length (takeWhile (\<lambda>b. b = ascii CHR ''='') (rev text)))"

definition decode_spec :: "decode_alphabet \<Rightarrow> bytes \<Rightarrow> bytes option" where
  "decode_spec a text =
     (if length text mod 4 \<noteq> 0 then None
      else decode_unpadded_spec a (take (length text - trailing_padding text) text))"

text \<open>Bytes and sextets by their bits.\<close>

lemma byte_eq_bits:
  "x = y \<longleftrightarrow> bit x 0 = bit y 0 \<and> bit x 1 = bit y 1 \<and> bit x 2 = bit y 2 \<and> bit x 3 = bit y 3
     \<and> bit x 4 = bit y 4 \<and> bit x 5 = bit y 5 \<and> bit x 6 = bit y 6 \<and> bit x 7 = bit y 7"
  for x y :: u8
proof (intro iffI)
  assume *: "bit x 0 = bit y 0 \<and> bit x 1 = bit y 1 \<and> bit x 2 = bit y 2 \<and> bit x 3 = bit y 3
     \<and> bit x 4 = bit y 4 \<and> bit x 5 = bit y 5 \<and> bit x 6 = bit y 6 \<and> bit x 7 = bit y 7"
  show "x = y"
  proof (rule bit_word_eqI)
    fix n assume "n < LENGTH(8)"
    then have "n = 0 \<or> n = 1 \<or> n = 2 \<or> n = 3 \<or> n = 4 \<or> n = 5 \<or> n = 6 \<or> n = 7" by auto
    with * show "bit x n = bit y n" by auto
  qed
qed simp

lemma byte_high_bits: "8 \<le> n \<Longrightarrow> \<not> bit (x :: u8) n"
  by (auto dest: bit_imp_le_length)

lemma byte_less_power:
  assumes "unat (w :: u8) = 2 ^ k"
  shows "v < w \<longleftrightarrow> drop_bit k v = 0"
proof -
  have "unat (drop_bit k v) = drop_bit k (unat v)"
    using unsigned_less [where w = v and 'a = nat]
    by (simp add: unsigned_drop_bit_eq take_bit_nat_eq_self)
  then have "unat (drop_bit k v) = 0 \<longleftrightarrow> v < w"
    using assms by (simp add: word_less_nat_alt drop_bit_eq_div div_eq_0_iff)
  then show ?thesis by (simp only: unat_eq_zero)
qed

lemma sextet_iff_bits: "v < 64 \<longleftrightarrow> \<not> bit v 6 \<and> \<not> bit v 7" for v :: u8
  by (simp add: byte_less_power [where k = 6] byte_eq_bits bit_simps byte_high_bits)

lemma nibble_iff_bits: "v < 16 \<longleftrightarrow> \<not> bit v 4 \<and> \<not> bit v 5 \<and> \<not> bit v 6 \<and> \<not> bit v 7" for v :: u8
  by (simp add: byte_less_power [where k = 4] byte_eq_bits bit_simps byte_high_bits)

lemma nibble_and: "v < 16 \<Longrightarrow> v AND 15 = v" for v :: u8
  by (simp add: nibble_iff_bits byte_eq_bits bit_simps byte_high_bits)

lemma sextets_less: "list_all (\<lambda>v. v < 64) (sextets bs)"
  by (induction bs rule: sextets.induct) (simp_all add: sextet_iff_bits bit_simps byte_high_bits)

lemma octets_sextets: "octets (sextets bs) = bs"
  by (induction bs rule: sextets.induct) (simp_all add: byte_eq_bits bit_simps byte_high_bits)

lemma length_sextets: "length (sextets bs) = (4 * length bs + 2) div 3"
  by (induction bs rule: sextets.induct) auto

text \<open>Regrouping keeps the bit string: the sextets' bits are the bytes' bits and zero fill.\<close>

definition bits_of :: "nat \<Rightarrow> u8 \<Rightarrow> bool list" where
  "bits_of k v = rev (map (bit v) [0..<k])"

lemma bits_of_explicit:
  "bits_of 6 v = [bit v 5, bit v 4, bit v 3, bit v 2, bit v 1, bit v 0]"
  "bits_of 8 v = bit v 7 # bit v 6 # bits_of 6 v"
  by (simp_all add: bits_of_def numeral_eq_Suc)

lemma replicate_fill: "replicate 2 x = [x, x]" "replicate 4 x = [x, x, x, x]"
  by (simp_all add: numeral_eq_Suc)

lemma sextets_bits:
  "concat (map (bits_of 6) (sextets bs))
   = concat (map (bits_of 8) bs) @ replicate (2 * padding_for (length bs)) False"
proof (induction bs rule: sextets.induct)
  case (1 a b c bs)
  have "padding_for (length (a # b # c # bs)) = padding_for (length bs)"
    by (simp add: padding_for_def)
  with 1 show ?case
    by (simp add: bits_of_explicit bit_simps byte_high_bits)
qed (simp_all add: bits_of_explicit bit_simps byte_high_bits padding_for_def replicate_fill)

text \<open>Texts of whole groups concatenate.\<close>

lemma dvd_Suc_group: "3 dvd Suc (Suc (Suc n)) \<longleftrightarrow> 3 dvd n" "4 dvd Suc (Suc (Suc (Suc n))) \<longleftrightarrow> 4 dvd n"
  by presburger+

lemma sextets_append: "3 dvd length bs \<Longrightarrow> sextets (bs @ cs) = sextets bs @ sextets cs"
  by (induction bs rule: sextets.induct) (auto simp: dvd_Suc_group dest: dvd_imp_le)

lemma octets_append: "4 dvd length vs \<Longrightarrow> octets (vs @ ws) = octets vs @ octets ws"
  by (induction vs rule: octets.induct) (auto simp: dvd_Suc_group dest: dvd_imp_le)

lemma length_octets: "length (octets vs) = length vs * 3 div 4"
  by (induction vs rule: octets.induct) auto

text \<open>Encoding and decoding.\<close>

lemma distinct_alphabet: "distinct (alphabet_of u)"
  by (simp add: alphabet_of_def STANDARD_ALPHABET_bytes URLSAFE_ALPHABET_bytes)

lemma symbol_value_symbol [simp]:
  assumes "v < 64"
  shows "symbol_value (decode_alphabet_of u) (symbol (alphabet_of u) v) = Some v"
proof -
  have "unat v < 64" using assms by (simp add: word_less_nat_alt)
  then have "map_of (indexed (alphabet_of u)) (alphabet_of u ! unat v) = Some v"
    unfolding indexed_def by (subst map_of_zip_nth) (simp_all add: distinct_alphabet)
  then show ?thesis
    by (cases u) (simp_all add: symbol_value_def symbol_def decode_alphabet_of_def alphabet_of_def)
qed

lemma traverse_symbols:
  "list_all (\<lambda>v. v < 64) vs \<Longrightarrow>
   traverse (symbol_value (decode_alphabet_of u)) (map (symbol (alphabet_of u)) vs) = Some vs"
  by (induction vs) simp_all

lemma padding_fills: "(4 * n + 2) div 3 + padding_for n = (n + 2) div 3 * 4"
proof -
  obtain q r where n: "n = 3 * q + r" "r = 0 \<or> r = 1 \<or> r = 2"
    by (rule that [of "n div 3" "n mod 3"]) auto
  have "(4 * (3 * q + r) + 2) div 3 = 4 * q + (4 * r + 2) div 3"
    "(3 * q + r + 2) div 3 = q + (r + 2) div 3" by presburger+
  with n show ?thesis by (auto simp: padding_for_def)
qed

lemma length_encode_unpadded: "length (encode_unpadded_spec alphabet input) = (4 * length input + 2) div 3"
  by (simp add: encode_unpadded_spec_def length_sextets)

lemma length_encode_spec: "length (encode_spec alphabet input) = (length input + 2) div 3 * 4"
  using padding_fills [of "length input"] by (simp add: encode_spec_def length_encode_unpadded)

lemma decode_encode_unpadded:
  "decode_unpadded_spec (decode_alphabet_of u) (encode_unpadded_spec (alphabet_of u) input) = Some input"
proof -
  have "(4 * n + 2) div 3 mod 4 \<noteq> 1" for n :: nat by presburger
  then show ?thesis
    by (simp add: decode_unpadded_spec_def length_encode_unpadded)
      (simp add: encode_unpadded_spec_def traverse_symbols sextets_less octets_sextets)
qed

lemma symbol_not_padding:
  assumes "v < 64"
  shows "symbol (alphabet_of u) v \<noteq> 61"
  using symbol_value_symbol [OF assms, of u] by (metis no_padding_symbol option.distinct(1))

lemma trailing_padding_encode:
  "trailing_padding (encode_spec (alphabet_of u) input) = padding_for (length input)"
proof -
  have "b \<noteq> 61" if "b \<in> set (encode_unpadded_spec (alphabet_of u) input)" for b
    using that sextets_less [of input]
    by (auto simp: encode_unpadded_spec_def list_all_iff symbol_not_padding)
  then have *: "takeWhile (\<lambda>b. b = 61) (rev (encode_unpadded_spec (alphabet_of u) input)) = []"
    by (subst takeWhile_eq_Nil_iff) (metis hd_in_set set_rev)
  have "takeWhile (\<lambda>b. b = 61) (replicate n 61 @ xs) = replicate n 61 @ takeWhile (\<lambda>b. b = 61) xs"
    for n and xs :: bytes
    by (rule takeWhile_append2) simp
  with * show ?thesis
    by (simp add: trailing_padding_def encode_spec_def padding_for_def)
qed

lemma decode_encode_spec:
  "decode_spec (decode_alphabet_of u) (encode_spec (alphabet_of u) input) = Some input"
proof -
  have "take (length (encode_spec (alphabet_of u) input) - padding_for (length input))
      (encode_spec (alphabet_of u) input) = encode_unpadded_spec (alphabet_of u) input"
    by (simp add: encode_spec_def)
  then show ?thesis
    by (simp add: decode_spec_def trailing_padding_encode decode_encode_unpadded)
      (simp add: length_encode_spec)
qed

end
