(* ===== verification/Base64_Backend.thy ===== *)
theory Base64_Backend
  imports Base64_Alphabet Cpu_Backend
begin

text \<open>
  The choice of a Base64 backend (\<open>src/base64/backend.rs\<close>) and the cache policy of the encoder
  (\<open>src/base64/encode/cache.rs\<close>).  The \<open>cpuid\<close> instruction is a parameter: a function from
  leaf and index to the registers.  Backends are ordered by preference, as an instance of the
  library's class of linear orders; the selection returns the greatest supported one.
\<close>

section \<open>Selection\<close>

datatype base64_backend =
  Base64_Scalar | Base64_Neon | Base64_Ssse3 | Base64_Sse41 | Base64_Avx2 | Base64_Avx512Vbmi

fun required_features :: "base64_backend \<Rightarrow> cpu_feature list" where
  "required_features Base64_Scalar = []"
| "required_features Base64_Neon = [Neon]"
| "required_features Base64_Ssse3 = [Ssse3]"
| "required_features Base64_Sse41 = [Sse41, Ssse3]"
| "required_features Base64_Avx2 = [Avx2, Ssse3]"
| "required_features Base64_Avx512Vbmi = [Avx512F, Avx512Bw, Avx512Vbmi, Avx2, Ssse3]"

definition supports_backend :: "capabilities \<Rightarrow> base64_backend \<Rightarrow> bool" where
  "supports_backend capabilities backend = supports_all capabilities (required_features backend)"

definition select_backend :: "capabilities \<Rightarrow> base64_backend" where
  "select_backend capabilities =
     (case find (supports_backend capabilities)
        [Base64_Avx512Vbmi, Base64_Avx2, Base64_Sse41, Base64_Ssse3, Base64_Neon] of
       Some backend \<Rightarrow> backend
     | None \<Rightarrow> Base64_Scalar)"

section \<open>Cache topology\<close>

record cpuid_result =
  reg_eax :: u32
  reg_ebx :: u32
  reg_ecx :: u32

type_synonym cpuid = "u32 \<Rightarrow> u32 \<Rightarrow> cpuid_result"

definition USIZE_MAX :: nat where
  "USIZE_MAX = 2 ^ 64 - 1"

definition deterministic_cache_bytes :: "u32 \<Rightarrow> u32 \<Rightarrow> nat" where
  "deterministic_cache_bytes ebx ecx =
     (let line_bytes = (ucast ((ebx AND 0xfff) + 1) :: u128);
          partitions = ucast ((drop_bit 12 ebx AND 0x3ff) + 1);
          ways = ucast (drop_bit 22 ebx + 1);
          sets = ucast ecx + 1;
          bytes = line_bytes * partitions * ways * sets
      in unat (min bytes (of_nat USIZE_MAX)))"

text \<open>
  The loop reads the cache descriptors of a leaf until one has type 0; nothing but the
  processor bounds it, so its value is \<open>None\<close> where it does not end.
\<close>

partial_function (option) private_cache_scan ::
  "cpuid \<Rightarrow> u32 \<Rightarrow> u32 \<Rightarrow> nat option \<Rightarrow> nat option option" where
  "private_cache_scan cpuid leaf index largest =
     (let registers = cpuid leaf index;
          cache_type = reg_eax registers AND 0x1f
      in if cache_type = 0 then Some largest
         else
           let level = drop_bit 5 (reg_eax registers) AND 0x7;
               is_data_or_unified = (cache_type = 1 \<or> cache_type = 3);
               largest =
                 (if level \<le> 2 \<and> is_data_or_unified then
                    let bytes = deterministic_cache_bytes (reg_ebx registers) (reg_ecx registers)
                    in Some (case largest of None \<Rightarrow> bytes | Some current \<Rightarrow> max current bytes)
                  else largest)
           in private_cache_scan cpuid leaf (index + 1) largest)"

definition deterministic_private_cache :: "cpuid \<Rightarrow> u32 \<Rightarrow> nat option option" where
  "deterministic_private_cache cpuid leaf = private_cache_scan cpuid leaf 0 None"

definition private_cache_from_leaves ::
  "u32 \<Rightarrow> u32 \<Rightarrow> (u32 \<Rightarrow> nat option option) \<Rightarrow> nat option option" where
  "private_cache_from_leaves basic_max extended_max read_leaf =
     do {
       basic \<leftarrow> (if basic_max \<ge> 4 then read_leaf 4 else Some None);
       (case basic of
          Some bytes \<Rightarrow> Some (Some bytes)
        | None \<Rightarrow> (if extended_max \<ge> 0x8000001d then read_leaf 0x8000001d else Some None))
     }"

definition detect_private_cache :: "cpuid \<Rightarrow> nat option option" where
  "detect_private_cache cpuid =
     private_cache_from_leaves (reg_eax (cpuid 0 0)) (reg_eax (cpuid 0x80000000 0))
       (deterministic_private_cache cpuid)"

definition cached_input_limit :: "cpuid \<Rightarrow> nat option option" where
  "cached_input_limit cpuid = map_option (map_option (\<lambda>bytes. bytes div 7 * 3)) (detect_private_cache cpuid)"

text \<open>\<open>output\<close> is the address of the destination; \<open>align_offset(16) == 0\<close> says it is a multiple of 16.\<close>

definition cache_use_streaming_stores :: "nat option \<Rightarrow> nat \<Rightarrow> nat \<Rightarrow> bool" where
  "cache_use_streaming_stores input_limit input_len output =
     (case input_limit of
       None \<Rightarrow> False
     | Some limit \<Rightarrow> limit < input_len \<and> output mod 16 = 0)"

section \<open>The runtime backend\<close>

record runtime_backend =
  runtime_backend :: base64_backend
  runtime_input_limit :: "nat option"

definition use_streaming_stores :: "target_arch \<Rightarrow> runtime_backend \<Rightarrow> nat \<Rightarrow> nat \<Rightarrow> bool" where
  "use_streaming_stores arch selection input_len output =
     (arch = Arch_X86_64
      \<and> cache_use_streaming_stores (runtime_input_limit selection) input_len output)"

definition detect_runtime_backend ::
  "target_arch \<Rightarrow> (cpu_feature \<Rightarrow> bool) \<Rightarrow> cpuid \<Rightarrow> runtime_backend option" where
  "detect_runtime_backend arch detected cpuid =
     do {
       limit \<leftarrow> (if arch = Arch_X86_64 then cached_input_limit cpuid else Some None);
       Some \<lparr>runtime_backend = select_backend (detect_cpu_capabilities arch detected),
             runtime_input_limit = limit\<rparr>
     }"

section \<open>The order of preference\<close>

fun backend_rank :: "base64_backend \<Rightarrow> nat" where
  "backend_rank Base64_Scalar = 0"
| "backend_rank Base64_Neon = 1"
| "backend_rank Base64_Ssse3 = 2"
| "backend_rank Base64_Sse41 = 3"
| "backend_rank Base64_Avx2 = 4"
| "backend_rank Base64_Avx512Vbmi = 5"

instantiation base64_backend :: linorder
begin

definition less_eq_base64_backend :: "base64_backend \<Rightarrow> base64_backend \<Rightarrow> bool" where
  "less_eq_base64_backend b c \<longleftrightarrow> backend_rank b \<le> backend_rank c"

definition less_base64_backend :: "base64_backend \<Rightarrow> base64_backend \<Rightarrow> bool" where
  "less_base64_backend b c \<longleftrightarrow> backend_rank b < backend_rank c"

instance
proof
  fix b c :: base64_backend
  show "b \<le> c \<Longrightarrow> c \<le> b \<Longrightarrow> b = c"
    by (cases b; cases c) (simp_all add: less_eq_base64_backend_def)
qed (auto simp: less_eq_base64_backend_def less_base64_backend_def)

end

lemma select_backend_supported: "supports_backend c (select_backend c)"
  by (auto simp: select_backend_def supports_backend_def [of c Base64_Scalar] supports_all_def
      split: option.splits dest!: find_Some_iff [THEN iffD1])



text \<open>The selected kernel and the kernels it falls back to run on the processor.\<close>

lemma selected_runs:
  assumes "sound_capabilities detected c"
  shows "list_all detected (required_features (select_backend c))"
  using select_backend_supported [of c] assms
  by (auto simp: supports_backend_def supports_all_def list_all_iff dest: sound_capabilitiesD)

lemma selected_family:
  assumes "b = select_backend (detect_cpu_capabilities arch detected)"
  shows "is_x86 arch \<Longrightarrow> b \<noteq> Base64_Neon"
    and "arch = Arch_AArch64 \<Longrightarrow> b = Base64_Neon \<or> b = Base64_Scalar"
    and "arch = Arch_Other \<Longrightarrow> b = Base64_Scalar"
  using select_backend_supported [of "detect_cpu_capabilities arch detected"] assms
  by (cases b; auto simp: supports_backend_def supports_all_def supports_detected is_x86_def)+

section \<open>The size of a cache\<close>

lemma unat_fields:
  "unat (x AND 0xfff :: u32) = unat x mod 2 ^ 12"
  "unat (x AND 0x3ff :: u32) = unat x mod 2 ^ 10"
  "unat (drop_bit n x) = unat x div 2 ^ n"
proof -
  have *: "unat (x AND mask k :: u32) = unat x mod 2 ^ k" for k
  proof -
    have "unat (x AND mask k) = take_bit k (unat x)"
      by (simp only: unsigned_take_bit_eq flip: take_bit_eq_mask)
    then show ?thesis by (simp only: take_bit_eq_mod)
  qed
  have m: "(0xfff :: u32) = mask 12" "(0x3ff :: u32) = mask 10" by (simp_all add: mask_eq_exp_minus_1)
  show "unat (x AND 0xfff :: u32) = unat x mod 2 ^ 12" unfolding m by (rule *)
  show "unat (x AND 0x3ff :: u32) = unat x mod 2 ^ 10" unfolding m by (rule *)
  show "unat (drop_bit n x) = unat x div 2 ^ n"
  proof -
    have "unat (drop_bit n x) = drop_bit n (unat x)"
      using unsigned_less [where w = x and 'a = nat] by (simp add: unsigned_drop_bit_eq take_bit_nat_eq_self)
    then show ?thesis by (simp only: drop_bit_eq_div)
  qed
qed

lemma unat_Suc_small: "unat x + 1 < 2 ^ LENGTH('a) \<Longrightarrow> unat (x + 1 :: 'a::len word) = unat x + 1"
  by (simp add: unat_word_ariths)

text \<open>The size is the product of the four fields; only the largest descriptor saturates.\<close>

lemma deterministic_cache_bytes_exact:
  "deterministic_cache_bytes b c =
     min ((unat b mod 2 ^ 12 + 1) * (unat b div 2 ^ 12 mod 2 ^ 10 + 1)
            * (unat b div 2 ^ 22 + 1) * (unat c + 1)) USIZE_MAX"
proof -
  let ?l = "unat b mod 2 ^ 12 + 1" and ?p = "unat b div 2 ^ 12 mod 2 ^ 10 + 1"
  let ?w = "unat b div 2 ^ 22 + 1" and ?s = "unat c + 1"
  have b: "unat b < 2 ^ 32" and c: "unat c < 2 ^ 32"
    using unsigned_less [of b] unsigned_less [of c] by simp_all
  have bounds: "?l \<le> 2 ^ 12" "?p \<le> 2 ^ 10" "?w \<le> 2 ^ 10" "?s \<le> 2 ^ 32"
    using b c by (simp_all add: Suc_leI less_mult_imp_div_less)
  then have "?l * ?p * ?w * ?s \<le> 2 ^ 12 * 2 ^ 10 * 2 ^ 10 * 2 ^ 32" by (intro mult_le_mono)
  then have small: "?l * ?p * ?w * ?s < 2 ^ 128" by simp
  have u: "(ucast y :: u128) = of_nat (unat y)" for y :: u32 by simp
  have n: "unat ((b AND 0xfff) + 1) = ?l" "unat ((drop_bit 12 b AND 0x3ff) + 1) = ?p"
    "unat (drop_bit 22 b + 1) = ?w"
    using bounds by (simp_all add: unat_Suc_small unat_fields)
  have f: "(ucast ((b AND 0xfff) + 1) :: u128) = of_nat ?l"
    "(ucast ((drop_bit 12 b AND 0x3ff) + 1) :: u128) = of_nat ?p"
    "(ucast (drop_bit 22 b + 1) :: u128) = of_nat ?w" "(ucast c + 1 :: u128) = of_nat ?s"
    unfolding u n by simp_all
  have "unat (of_nat (?l * ?p * ?w * ?s) :: u128) = ?l * ?p * ?w * ?s"
    using small by (simp only: unat_of_nat) simp
  moreover have "unat (of_nat USIZE_MAX :: u128) = USIZE_MAX" by (simp add: USIZE_MAX_def)
  ultimately show ?thesis
    unfolding deterministic_cache_bytes_def Let_def f of_nat_mult [symmetric]
    by (simp only: min_def word_le_nat_alt if_distrib [of unat])
qed

section \<open>The descriptor loop\<close>

text \<open>What the descriptors before the first null one contribute.\<close>

definition descriptor_null :: "cpuid_result \<Rightarrow> bool" where
  "descriptor_null r \<longleftrightarrow> reg_eax r AND 0x1f = 0"

definition private_descriptor :: "cpuid_result \<Rightarrow> bool" where
  "private_descriptor r \<longleftrightarrow> drop_bit 5 (reg_eax r) AND 0x7 \<le> 2
     \<and> (reg_eax r AND 0x1f = 1 \<or> reg_eax r AND 0x1f = 3)"

definition largest_cache :: "nat option \<Rightarrow> cpuid_result list \<Rightarrow> nat option" where
  "largest_cache largest rs =
     fold (\<lambda>r largest. Some (case largest of None \<Rightarrow> deterministic_cache_bytes (reg_ebx r) (reg_ecx r)
       | Some current \<Rightarrow> max current (deterministic_cache_bytes (reg_ebx r) (reg_ecx r))))
       (filter private_descriptor rs) largest"

lemma largest_cache_Cons:
  "largest_cache largest (r # rs) = largest_cache (largest_cache largest [r]) rs"
  by (simp add: largest_cache_def)

lemma private_cache_scan_step:
  "private_cache_scan cpuid leaf i largest =
     (if descriptor_null (cpuid leaf i) then Some largest
      else private_cache_scan cpuid leaf (i + 1) (largest_cache largest [cpuid leaf i]))"
  by (subst private_cache_scan.simps)
    (auto simp: Let_def descriptor_null_def private_descriptor_def largest_cache_def)

lemma private_cache_scan_ends:
  assumes "descriptor_null (cpuid leaf (i + of_nat n))"
    and "\<And>k. k < n \<Longrightarrow> \<not> descriptor_null (cpuid leaf (i + of_nat k))"
  shows "private_cache_scan cpuid leaf i largest
    = Some (largest_cache largest (map (\<lambda>k. cpuid leaf (i + of_nat k)) [0..<n]))"
  using assms
proof (induction n arbitrary: i largest)
  case 0
  then show ?case by (subst private_cache_scan_step) (simp add: largest_cache_def)
next
  case (Suc n)
  have "private_cache_scan cpuid leaf (i + 1) (largest_cache largest [cpuid leaf i])
    = Some (largest_cache (largest_cache largest [cpuid leaf i])
        (map (\<lambda>k. cpuid leaf (i + 1 + of_nat k)) [0..<n]))"
    by (rule Suc.IH) (use Suc.prems(1) Suc.prems(2) [of "Suc _"] in \<open>simp_all add: algebra_simps\<close>)
  moreover have "\<not> descriptor_null (cpuid leaf i)" using Suc.prems(2) [of 0] by simp
  moreover have "map (\<lambda>k. cpuid leaf (i + of_nat k)) [0..<Suc n]
      = cpuid leaf i # map (\<lambda>k. cpuid leaf (i + 1 + of_nat k)) [0..<n]"
    by (simp add: map_upt_Suc algebra_simps del: upt_Suc)
  ultimately show ?case
    by (simp add: private_cache_scan_step [of cpuid leaf i largest]
        largest_cache_Cons [of largest "cpuid leaf i" "map _ _"])
qed

section \<open>What detection returns\<close>

definition descriptors :: "cpuid \<Rightarrow> u32 \<Rightarrow> nat \<Rightarrow> cpuid_result list" where
  "descriptors cpuid leaf n =
     takeWhile (\<lambda>r. \<not> descriptor_null r) (map (\<lambda>k. cpuid leaf (of_nat k)) [0..<n])"

definition private_cache_of :: "cpuid \<Rightarrow> nat \<Rightarrow> nat option" where
  "private_cache_of cpuid n =
     (if 4 \<le> reg_eax (cpuid 0 0) \<and> largest_cache None (descriptors cpuid 4 n) \<noteq> None
      then largest_cache None (descriptors cpuid 4 n)
      else if 0x8000001d \<le> reg_eax (cpuid 0x80000000 0)
      then largest_cache None (descriptors cpuid 0x8000001d n) else None)"

lemma deterministic_private_cache_ends:
  assumes "descriptor_null (cpuid leaf (of_nat k))" "k < n"
  shows "deterministic_private_cache cpuid leaf = Some (largest_cache None (descriptors cpuid leaf n))"
proof -
  define i where "i = (LEAST k. descriptor_null (cpuid leaf (of_nat k)))"
  have null: "descriptor_null (cpuid leaf (of_nat i))"
    unfolding i_def by (rule LeastI) (rule assms(1))
  have least: "\<not> descriptor_null (cpuid leaf (of_nat j))" if "j < i" for j
    using that not_less_Least unfolding i_def by blast
  have "i \<le> k" unfolding i_def by (rule Least_le) (rule assms(1))
  then have "[0..<n] = [0..<i] @ i # [Suc i..<n]"
    using assms(2) upt_add_eq_append [of 0 i "n - i"] by (simp add: upt_conv_Cons)
  moreover have "\<forall>r\<in>set (map (\<lambda>k. cpuid leaf (of_nat k)) [0..<i]). \<not> descriptor_null r"
    using least by simp
  ultimately have "descriptors cpuid leaf n = map (\<lambda>k. cpuid leaf (of_nat k)) [0..<i]"
    using null least by (simp add: descriptors_def takeWhile_append)
  then show ?thesis
    using private_cache_scan_ends [of cpuid leaf 0 i None] null least
    by (simp add: deterministic_private_cache_def)
qed

lemma detect_private_cache_ends:
  assumes "descriptor_null (cpuid 4 (of_nat j))" "descriptor_null (cpuid 0x8000001d (of_nat k))"
    and "j < n" "k < n"
  shows "detect_private_cache cpuid = Some (private_cache_of cpuid n)"
  using deterministic_private_cache_ends [where cpuid = cpuid and leaf = 4 and k = j and n = n, OF assms(1,3)]
    deterministic_private_cache_ends [where cpuid = cpuid and leaf = "0x8000001d" and k = k and n = n, OF assms(2,4)]
  by (auto simp: detect_private_cache_def private_cache_from_leaves_def private_cache_of_def
      split: option.splits)

section \<open>The machine\<close>

text \<open>What the code runs on: the architecture of the build and what the processor reports.\<close>

record machine =
  arch_of :: target_arch
  cpu_of :: "cpu_feature \<Rightarrow> bool"
  cpuid_of :: cpuid

definition selected_backend :: "machine \<Rightarrow> runtime_backend option" where
  "selected_backend machine = detect_runtime_backend (arch_of machine) (cpu_of machine) (cpuid_of machine)"

lemma selected_backend_SomeD:
  assumes "selected_backend machine = Some selection"
  shows "runtime_backend selection = select_backend (detect_cpu_capabilities (arch_of machine) (cpu_of machine))"
  using assms by (auto simp: selected_backend_def detect_runtime_backend_def split: bind_splits)

lemma selected_backend_runs:
  assumes "selected_backend machine = Some selection"
  shows "list_all (cpu_of machine) (required_features (runtime_backend selection))"
  unfolding selected_backend_SomeD [OF assms] by (intro selected_runs sound_detected)

lemma selected_backend_family:
  assumes "selected_backend machine = Some selection"
  shows "is_x86 (arch_of machine) \<Longrightarrow> runtime_backend selection \<noteq> Base64_Neon"
    and "arch_of machine = Arch_AArch64 \<Longrightarrow>
      runtime_backend selection = Base64_Neon \<or> runtime_backend selection = Base64_Scalar"
    and "arch_of machine = Arch_Other \<Longrightarrow> runtime_backend selection = Base64_Scalar"
  using selected_family [OF selected_backend_SomeD [OF assms]] by blast+

text \<open>A processor with one private cache of 512 KiB, described by leaf 4.\<close>

definition example_cpuid :: cpuid where
  "example_cpuid leaf index =
     (if leaf = 0 then \<lparr>reg_eax = 4, reg_ebx = 0, reg_ecx = 0\<rparr>
      else if leaf = 4 \<and> index = 0 then \<lparr>reg_eax = 0x43, reg_ebx = 0x1C0003F, reg_ecx = 1023\<rparr>
      else \<lparr>reg_eax = 0, reg_ebx = 0, reg_ecx = 0\<rparr>)"

lemma example_capabilities: "select_backend (detect_cpu_capabilities Arch_X86_64 (\<lambda>_. True)) = Base64_Avx512Vbmi"
  by code_simp

lemma example_descriptors:
  "descriptor_null (example_cpuid 4 (of_nat 1))" "descriptor_null (example_cpuid 0x8000001d (of_nat 0))"
  by (simp_all add: example_cpuid_def descriptor_null_def)

lemma example_private_cache: "private_cache_of example_cpuid 2 = Some 524288"
proof -
  have "descriptors example_cpuid 4 2 = [\<lparr>reg_eax = 0x43, reg_ebx = 0x1C0003F, reg_ecx = 1023\<rparr>]"
    by code_simp
  then show ?thesis
    by (simp add: private_cache_of_def largest_cache_def private_descriptor_def
        deterministic_cache_bytes_exact USIZE_MAX_def example_cpuid_def)
qed

definition example_machine :: machine where
  "example_machine = \<lparr>arch_of = Arch_X86_64, cpu_of = (\<lambda>_. True), cpuid_of = example_cpuid\<rparr>"

lemma example_selected:
  "selected_backend example_machine =
     Some \<lparr>runtime_backend = Base64_Avx512Vbmi, runtime_input_limit = Some (524288 div 7 * 3)\<rparr>"
  using detect_private_cache_ends [OF example_descriptors, of 2]
  by (simp add: selected_backend_def detect_runtime_backend_def cached_input_limit_def example_machine_def
      example_private_cache example_capabilities)

section \<open>Properties\<close>


text \<open>
  C22: the size of a cache is the exact product of the four fields of its descriptor, computed
  in 128 bits where it cannot overflow, and the conversion to \<open>usize\<close> saturates.
\<close>
theorem deterministic_cache_bytes_saturates:
  "deterministic_cache_bytes ebx ecx =
     min ((unat ebx mod 2 ^ 12 + 1) * (unat ebx div 2 ^ 12 mod 2 ^ 10 + 1)
            * (unat ebx div 2 ^ 22 + 1) * (unat ecx + 1)) USIZE_MAX"
  by (rule deterministic_cache_bytes_exact)

text \<open>
  C21: detection ends on every processor whose two lists of cache descriptors have a null
  descriptor, as the manuals of the processors specify; it then returns the selected backend,
  and on x86-64 three sevenths of the largest data or unified cache of level one or two among
  the descriptors before the null one, leaf 4 first and the extended leaf where leaf 4 has none.
\<close>
theorem detect_runtime_backend_ends:
  assumes "descriptor_null (cpuid 4 (of_nat j))" "descriptor_null (cpuid 0x8000001d (of_nat k))"
    and "j < n" "k < n"
  shows "detect_runtime_backend arch detected cpuid =
     Some \<lparr>runtime_backend = select_backend (detect_cpu_capabilities arch detected),
           runtime_input_limit =
             (if arch = Arch_X86_64 then map_option (\<lambda>bytes. bytes div 7 * 3) (private_cache_of cpuid n)
              else None)\<rparr>"
  using detect_private_cache_ends [OF assms]
  by (simp add: detect_runtime_backend_def cached_input_limit_def)

lemma detect_runtime_backend_ends_witness:
  "detect_runtime_backend Arch_X86_64 (\<lambda>_. True) example_cpuid =
     Some \<lparr>runtime_backend = Base64_Avx512Vbmi, runtime_input_limit = Some (524288 div 7 * 3)\<rparr>"
  using detect_runtime_backend_ends [OF example_descriptors, of 2 Arch_X86_64 "\<lambda>_. True"]
  by (simp add: example_private_cache example_capabilities)

end
