(* ===== verification/Base64_Encode_Scalar.thy ===== *)
theory Base64_Encode_Scalar
  imports Base64_Alphabet
begin

text \<open>
  The scalar encoder of \<open>src/base64/encode/api.rs\<close>, which serves short inputs, the tails of the
  vector kernels, and builds without a kernel; and the contract that every encoding kernel keeps.
  The kernels come in two forms, for plain and for line-wrapped output.  What they share is the
  locale \<open>encode_sink\<close>: an output that takes encoded groups one after another.
\<close>

section \<open>The scalar encoder\<close>

definition block_at :: "bytes \<Rightarrow> nat \<Rightarrow> u32 option" where
  "block_at input source =
     do {
       a \<leftarrow> get input source;
       b \<leftarrow> get input (source + 1);
       c \<leftarrow> get input (source + 2);
       Some (push_bit 16 (ucast a) OR push_bit 8 (ucast b) OR ucast c)
     }"

definition character :: "bytes \<Rightarrow> u32 \<Rightarrow> nat \<Rightarrow> u8 option" where
  "character alphabet block shift = get alphabet (unat (drop_bit shift block AND 0x3f))"

definition encode_six_loop :: "bytes \<Rightarrow> bytes \<Rightarrow> nat \<Rightarrow> nat \<times> bytes \<Rightarrow> (nat \<times> bytes) option" where
  "encode_six_loop input alphabet source = (\<lambda>(destination, output).
     do {
       first \<leftarrow> block_at input source;
       second \<leftarrow> block_at input (source + 3);
       encoded \<leftarrow> traverse (\<lambda>(block, shift). character alphabet block shift)
         [(first, 18), (first, 12), (first, 6), (first, 0),
          (second, 18), (second, 12), (second, 6), (second, 0)];
       output \<leftarrow> store output destination encoded;
       Some (destination + 8, output)
     })"

definition encode_three_loop :: "bytes \<Rightarrow> bytes \<Rightarrow> nat \<Rightarrow> nat \<times> bytes \<Rightarrow> (nat \<times> bytes) option" where
  "encode_three_loop input alphabet source = (\<lambda>(destination, output).
     do {
       block \<leftarrow> block_at input source;
       c \<leftarrow> character alphabet block 18;
       output \<leftarrow> store output destination [c];
       c \<leftarrow> character alphabet block 12;
       output \<leftarrow> store output (destination + 1) [c];
       c \<leftarrow> character alphabet block 6;
       output \<leftarrow> store output (destination + 2) [c];
       c \<leftarrow> character alphabet block 0;
       output \<leftarrow> store output (destination + 3) [c];
       Some (destination + 4, output)
     })"

definition encode_scalar_tail :: "bytes \<Rightarrow> bytes \<Rightarrow> nat \<Rightarrow> nat \<Rightarrow> bytes \<Rightarrow> bytes option" where
  "encode_scalar_tail input alphabet source destination output =
     (let remaining = length input - source in
      if remaining = 1 then do {
        a \<leftarrow> get input source;
        let block = push_bit 16 (ucast a);
        c \<leftarrow> character alphabet block 18;
        output \<leftarrow> store output destination [c];
        c \<leftarrow> character alphabet block 12;
        output \<leftarrow> store output (destination + 1) [c];
        output \<leftarrow> store output (destination + 2) [ascii CHR ''=''];
        store output (destination + 3) [ascii CHR ''=''] }
      else if remaining = 2 then do {
        a \<leftarrow> get input source;
        b \<leftarrow> get input (source + 1);
        let block = push_bit 16 (ucast a) OR push_bit 8 (ucast b);
        c \<leftarrow> character alphabet block 18;
        output \<leftarrow> store output destination [c];
        c \<leftarrow> character alphabet block 12;
        output \<leftarrow> store output (destination + 1) [c];
        c \<leftarrow> character alphabet block 6;
        output \<leftarrow> store output (destination + 2) [c];
        store output (destination + 3) [ascii CHR ''=''] }
      else Some output)"

definition encode_scalar_ptr_with_alphabet :: "bytes \<Rightarrow> bytes \<Rightarrow> bytes \<Rightarrow> bytes option" where
  "encode_scalar_ptr_with_alphabet input output alphabet =
     do {
       (source, state) \<leftarrow>
         scan_while (length input) 6 6 (encode_six_loop input alphabet) 0 (0, output);
       (source, destination, output) \<leftarrow>
         scan_while (length input) 3 3 (encode_three_loop input alphabet) source state;
       encode_scalar_tail input alphabet source destination output
     }"

definition encode_scalar_ptr :: "bytes \<Rightarrow> bytes \<Rightarrow> bool \<Rightarrow> bytes option" where
  "encode_scalar_ptr input output urlsafe =
     encode_scalar_ptr_with_alphabet input output (alphabet_of urlsafe)"

section \<open>Outputs that take encoded groups\<close>

abbreviation groups_text :: "bytes \<Rightarrow> bytes \<Rightarrow> bytes" where
  "groups_text \<equiv> encode_unpadded_spec"

lemma groups_text_append:
  "3 dvd length xs \<Longrightarrow> groups_text table (xs @ ys) = groups_text table xs @ groups_text table ys"
  by (simp add: encode_unpadded_spec_def sextets_append)

lemma length_groups_text: "3 dvd length xs \<Longrightarrow> length (groups_text table xs) = length xs div 3 * 4"
  by (auto simp: length_encode_unpadded elim!: dvdE)

lemma groups_text_quads: "3 dvd length xs \<Longrightarrow> 4 dvd length (groups_text table xs)"
  by (simp add: length_groups_text)

lemma groups_text_Nil [simp]: "groups_text table [] = []"
  by (simp add: encode_unpadded_spec_def)

lemma groups_text_take:
  assumes "3 dvd m" "m \<le> length xs"
  shows "groups_text table (take (m + n) xs) = groups_text table (take m xs) @ groups_text table (take n (drop m xs))"
  using assms by (simp add: take_add groups_text_append)

text \<open>How often the loop \<open>while off + width <= len { ...; off += stride }\<close> runs.\<close>

definition passes :: "nat \<Rightarrow> nat \<Rightarrow> nat \<Rightarrow> nat \<Rightarrow> nat" where
  "passes len width stride off =
     (if off + width \<le> len then (len - off - width) div stride + 1 else 0)"

lemma passes_step:
  assumes "off + width \<le> len" "0 < stride"
  shows "passes len width stride off = Suc (passes len width stride (off + stride))"
proof (cases "off + stride + width \<le> len")
  case True
  then obtain r where "len = off + stride + width + r" by (metis le_Suc_ex)
  moreover have "(stride + r) div stride = Suc (r div stride)"
    using assms(2) div_add_self1 [of stride r] by simp
  ultimately show ?thesis by (simp add: passes_def)
next
  case False
  with assms show ?thesis by (simp add: passes_def div_eq_0_iff)
qed

lemma passes_end: "0 < stride \<Longrightarrow> len < off + passes len width stride off * stride + width"
proof (induction "Suc len - off" arbitrary: off rule: less_induct)
  case less
  show ?case
  proof (cases "off + width \<le> len")
    case True
    have "len < off + stride + passes len width stride (off + stride) * stride + width"
      using True less.prems by (intro less.hyps) arith+
    then show ?thesis using passes_step [OF True less.prems] by simp
  qed (simp add: passes_def)
qed

lemma passes_bound:
  "off + passes len width stride off * stride + width \<le> len + stride \<or> passes len width stride off = 0"
proof (cases "off + width \<le> len")
  case True
  then obtain r where r: "len = off + width + r" by (metis le_Suc_ex)
  have "r div stride * stride \<le> r" by (rule div_times_less_eq_dividend)
  then show ?thesis using r by (simp add: passes_def)
qed (simp add: passes_def)

locale encode_sink =
  fixes emit :: "bytes \<Rightarrow> 's \<Rightarrow> 's option" and ok :: "'s \<Rightarrow> bool"
  assumes emit_Nil: "emit [] s = Some s"
    and emit_append: "4 dvd length x \<Longrightarrow> ok s \<Longrightarrow> emit (x @ y) s = emit x s \<bind> emit y"
    and emit_ok: "ok s \<Longrightarrow> 4 dvd length x \<Longrightarrow> emit x s = Some s' \<Longrightarrow> ok s'"
begin

lemma emit_groups:
  assumes "ok s" "3 dvd m" "m \<le> length xs"
  shows "emit (groups_text table (take m xs)) s \<bind> emit (groups_text table (take n (drop m xs)))
    = emit (groups_text table (take (m + n) xs)) s"
  using assms by (simp add: groups_text_take emit_append groups_text_quads)

text \<open>A loop whose body emits the groups it passes emits the groups the loop passes.\<close>

lemma emit_loop:
  assumes "0 < stride" "3 dvd stride" "ok s"
    and body: "\<And>off s. off + width \<le> len \<Longrightarrow> ok s \<Longrightarrow>
      off + stride \<le> length xs \<and> body off s = emit (groups_text table (take stride (drop off xs))) s"
  shows "scan_while len width stride body off s
      = emit (groups_text table (take (passes len width stride off * stride) (drop off xs))) s
        \<bind> (\<lambda>s'. Some (off + passes len width stride off * stride, s'))"
  using assms(3)
proof (induction "Suc len - off" arbitrary: off s rule: less_induct)
  case less
  show ?case
  proof (cases "off + width \<le> len")
    case True
    let ?k = "passes len width stride (off + stride)"
    let ?e = "\<lambda>n off. emit (groups_text table (take n (drop off xs)))"
    note b = body [OF True less.prems]
    have "Suc len - (off + stride) < Suc len - off" using True assms(1) by arith
    then have IH: "scan_while len width stride body (off + stride) s'
        = ?e (?k * stride) (off + stride) s' \<bind> (\<lambda>s''. Some (off + stride + ?k * stride, s''))"
      if "ok s'" for s' using less.hyps [OF _ that] by blast
    have "scan_while len width stride body off s
        = ?e stride off s \<bind> (\<lambda>s'. ?e (?k * stride) (off + stride) s'
            \<bind> (\<lambda>s''. Some (off + stride + ?k * stride, s'')))"
      unfolding scan_while_step [OF True assms(1)] b [THEN conjunct2]
    proof (rule Option.bind_cong [OF refl])
      fix s' assume "?e stride off s = Some s'"
      moreover have "4 dvd length (groups_text table (take stride (drop off xs)))"
        using b assms(2) by (intro groups_text_quads) (simp add: min_absorb2 le_diff_conv2)
      ultimately have "ok s'" using less.prems emit_ok by blast
      then show "scan_while len width stride body (off + stride) s'
        = ?e (?k * stride) (off + stride) s' \<bind> (\<lambda>s''. Some (off + stride + ?k * stride, s''))"
        by (rule IH)
    qed
    also have "\<dots> = (?e stride off s \<bind> ?e (?k * stride) (off + stride))
        \<bind> (\<lambda>s''. Some (off + stride + ?k * stride, s''))"
      by (rule bind_assoc [symmetric])
    also have "?e stride off s \<bind> ?e (?k * stride) (off + stride) = ?e (stride + ?k * stride) off s"
      using emit_groups [OF less.prems assms(2), of "drop off xs" table "?k * stride"] b
      by (simp add: add.commute [of stride off] le_diff_conv2)
    finally show ?thesis
      using passes_step [OF True assms(1)] by (simp add: add.assoc)
  next
    case False
    then show ?thesis by (simp add: scan_while_done emit_Nil passes_def)
  qed
qed

text \<open>A wide loop and then a narrow one, as in the vector kernels.\<close>

lemma emit_two_loops:
  assumes "0 < st" "3 dvd st" "0 < st'" "3 dvd st'" "ok s" "st \<le> width" "st' \<le> width'"
    and body: "\<And>off s. off + width \<le> length xs \<Longrightarrow> ok s \<Longrightarrow>
      body off s = emit (groups_text table (take st (drop off xs))) s"
    and body': "\<And>off s. off + width' \<le> length xs \<Longrightarrow> ok s \<Longrightarrow>
      body' off s = emit (groups_text table (take st' (drop off xs))) s"
  shows "\<exists>n. 3 dvd n \<and> n \<le> length xs \<and> length xs < n + width'
    \<and> scan_while (length xs) width st body 0 s
        \<bind> (\<lambda>(off, s). scan_while (length xs) width' st' body' off s)
      = emit (groups_text table (take n xs)) s \<bind> (\<lambda>s. Some (n, s))"
proof -
  define k where "k = passes (length xs) width st 0 * st"
  define k' where "k' = passes (length xs) width' st' k * st'"
  have k: "k \<le> length xs" "3 dvd k"
    using passes_bound [of 0 "length xs" width st] assms by (auto simp: k_def)
  have k': "k + k' \<le> length xs" "length xs < k + k' + width'" "3 dvd k'"
    using passes_bound [of k "length xs" width' st'] passes_end [of st' "length xs" k width'] k assms
    by (auto simp: k'_def)
  have 1: "scan_while (length xs) width st body 0 s
      = emit (groups_text table (take k xs)) s \<bind> (\<lambda>s. Some (k, s))"
    unfolding k_def using assms by (subst emit_loop [where xs = xs and table = table]) auto
  have 2: "scan_while (length xs) width' st' body' k s
      = emit (groups_text table (take k' (drop k xs))) s \<bind> (\<lambda>s. Some (k + k', s))" if "ok s" for s
    unfolding k'_def using assms that by (subst emit_loop [where xs = xs and table = table]) auto
  have "scan_while (length xs) width st body 0 s \<bind> (\<lambda>(off, s). scan_while (length xs) width' st' body' off s)
    = emit (groups_text table (take k xs)) s
        \<bind> (\<lambda>s. emit (groups_text table (take k' (drop k xs))) s \<bind> (\<lambda>s. Some (k + k', s)))"
  proof -
    have "ok s'" if "emit (groups_text table (take k xs)) s = Some s'" for s'
      using that k \<open>ok s\<close> by (intro emit_ok [OF _ _ that]) (simp_all add: groups_text_quads min_absorb2)
    then show ?thesis
      unfolding 1 by (auto simp: bind_assoc 2 intro!: Option.bind_cong)
  qed
  also have "\<dots> = emit (groups_text table (take (k + k') xs)) s \<bind> (\<lambda>s. Some (k + k', s))"
    unfolding emit_groups [OF \<open>ok s\<close> k(2,1), symmetric] by (rule bind_assoc [symmetric])
  finally show ?thesis using k k' by (intro exI [of _ "k + k'"]) (simp add: dvd_add)
qed

end

section \<open>Plain output\<close>

definition raw_emit :: "bytes \<Rightarrow> nat \<times> bytes \<Rightarrow> (nat \<times> bytes) option" where
  "raw_emit e = (\<lambda>(destination, output).
     if e = [] then Some (destination, output)
     else store output destination e \<bind> (\<lambda>output. Some (destination + length e, output)))"

lemma raw_emit_Nil: "raw_emit [] s = Some s"
  by (cases s) (simp add: raw_emit_def)

lemma raw_emit_append: "raw_emit (x @ y) s = raw_emit x s \<bind> raw_emit y"
  by (cases s) (auto simp: raw_emit_def store_def add.assoc add.commute add.left_commute split: bind_splits)

interpretation raw: encode_sink raw_emit "\<lambda>_. True"
  by unfold_locales (auto simp: raw_emit_append raw_emit_Nil)

lemma raw_emit_store:
  "e \<noteq> [] \<Longrightarrow> raw_emit e (d, o') = store o' d e \<bind> (\<lambda>o'. Some (d + length e, o'))"
  by (simp add: raw_emit_def)

lemma raw_emit_length:
  "length e = n \<Longrightarrow> 0 < n \<Longrightarrow>
   raw_emit e (d, o') = store o' d e \<bind> (\<lambda>o'. Some (d + n, o'))"
  by (auto simp: raw_emit_def)

section \<open>The scalar encoder is the specification\<close>

lemma sextet_cast:
  fixes x :: u32 and y :: u8
  assumes "bit x 0 = bit y 0" "bit x 1 = bit y 1" "bit x 2 = bit y 2" "bit x 3 = bit y 3"
    "bit x 4 = bit y 4" "bit x 5 = bit y 5" "\<not> bit y 6" "\<not> bit y 7"
  shows "unat (x AND 0x3f) = unat y"
proof -
  have "x AND mask 6 = ucast y"
  proof (rule bit_word_eqI)
    fix n assume "n < LENGTH(32)"
    then consider "n = 0" | "n = 1" | "n = 2" | "n = 3" | "n = 4" | "n = 5" | "n = 6" | "n = 7"
      | "8 \<le> n" by (auto simp: numeral_eq_Suc not_le less_Suc_eq_le le_Suc_eq)
    then show "bit (x AND mask 6) n = bit (ucast y :: u32) n"
      using assms by cases (simp_all add: bit_simps byte_high_bits)
  qed
  moreover have "(0x3f :: u32) = mask 6" by (simp add: mask_eq_exp_minus_1)
  moreover have "unat (ucast y :: u32) = unat y"
    using unsigned_less [where w = y and 'a = nat]
    by (simp add: unsigned_ucast_eq take_bit_nat_eq_self)
  ultimately show ?thesis by simp
qed

lemma character_symbol:
  assumes "length alphabet = 64" "unat (drop_bit n block AND 0x3f) = unat v" "v < 64"
  shows "character alphabet block n = Some (symbol alphabet v)"
  using assms by (simp add: character_def symbol_def get_Some word_less_nat_alt)

lemma block_characters:
  fixes a b c :: u8
  defines "block \<equiv> push_bit 16 (ucast a) OR push_bit 8 (ucast b) OR ucast c :: u32"
  assumes "length alphabet = 64"
  shows "character alphabet block 18 = Some (symbol alphabet (drop_bit 2 a))"
    and "character alphabet block 12 = Some (symbol alphabet (push_bit 4 (a AND 3) OR drop_bit 4 b))"
    and "character alphabet block 6 = Some (symbol alphabet (push_bit 2 (b AND 15) OR drop_bit 6 c))"
    and "character alphabet block 0 = Some (symbol alphabet (c AND 63))"
  unfolding block_def
  by (rule character_symbol [OF assms(2)]; (rule sextet_cast)?;
      simp add: sextet_iff_bits bit_simps byte_high_bits)+

lemma get_suffix: "drop off xs = ys \<Longrightarrow> k < length ys \<Longrightarrow> get xs (off + k) = Some (ys ! k)"
  by (auto simp: get_def)

lemma block_at_suffix:
  assumes "drop off input = a # b # c # r"
  shows "block_at input off = Some (push_bit 16 (ucast a) OR push_bit 8 (ucast b) OR ucast c)"
  using get_suffix [OF assms, of 0] get_suffix [OF assms, of 1] get_suffix [OF assms, of 2]
  by (simp add: block_at_def)

lemma store_four:
  "store m d [p] \<bind> (\<lambda>m. store m (d + 1) [q] \<bind> (\<lambda>m. store m (d + 2) [r] \<bind>
     (\<lambda>m. store m (d + 3) [s] \<bind> k))) = store m d [p, q, r, s] \<bind> k"
proof -
  have "store m d [p, q, r, s] = ((store m d [p] \<bind> (\<lambda>m. store m (d + 1) [q]))
      \<bind> (\<lambda>m. store m (d + 2) [r])) \<bind> (\<lambda>m. store m (d + 3) [s])"
    using store_store [of "[p]" 1 m d "[q]"] store_store [of "[p, q]" 2 m d "[r]"]
      store_store [of "[p, q, r]" 3 m d "[s]"]
    by simp
  then show ?thesis by (simp only: bind_assoc)
qed

lemmas store_four_Suc = store_four [simplified]
lemmas store_four_last = store_four [where k = Some, simplified]

lemma list_prefix: "n \<le> length xs \<Longrightarrow> \<exists>ys zs. xs = ys @ zs \<and> length ys = n"
  by (rule exI [of _ "take n xs"], rule exI [of _ "drop n xs"]) simp

lemma encode_six_loop_emits:
  assumes "length alphabet = 64" "off + 6 \<le> length input"
  shows "encode_six_loop input alphabet off s = raw_emit (groups_text alphabet (take 6 (drop off input))) s"
proof -
  have "6 \<le> length (drop off input)" using assms by simp
  then obtain a b c d e f r where *: "drop off input = [a, b, c, d, e, f] @ r"
    by (metis list_prefix length_eq_6)
  have "drop (off + 3) input = drop 3 (drop off input)" by (simp add: add.commute)
  then have "drop (off + 3) input = d # e # f # r" by (simp add: *)
  with * show ?thesis
    using assms(1)
    by (cases s) (simp add: encode_six_loop_def block_at_suffix block_characters
        encode_unpadded_spec_def raw_emit_length [where n = 8])
qed

lemma encode_three_loop_emits:
  assumes "length alphabet = 64" "off + 3 \<le> length input"
  shows "encode_three_loop input alphabet off s = raw_emit (groups_text alphabet (take 3 (drop off input))) s"
proof -
  have "3 \<le> length (drop off input)" using assms by simp
  then obtain a b c r where *: "drop off input = [a, b, c] @ r"
    by (metis list_prefix length_eq_3)
  then show ?thesis
    using assms(1)
    by (cases s) (simp add: encode_three_loop_def block_at_suffix block_characters
        encode_unpadded_spec_def raw_emit_length [where n = 4] store_four_Suc)
qed

lemma store_at_end:
  "length xs = d \<Longrightarrow> store m 0 xs \<bind> (\<lambda>m. store m d ys) = store m 0 (xs @ ys)"
  using store_store [of xs d m 0 ys] by simp

lemma encode_scalar_tail_store:
  assumes "length alphabet = 64" "off \<le> length input" "length input < off + 3"
  shows "encode_scalar_tail input alphabet off d output
    = (if off = length input then Some output
       else store output d (encode_spec alphabet (drop off input)))"
proof -
  have "length (drop off input) = 0 \<or> length (drop off input) = 1 \<or> length (drop off input) = 2"
    using assms by auto
  then consider "off = length input" | a where "drop off input = [a]"
    | a b where "drop off input = [a, b]"
  proof (elim disjE)
    assume "length (drop off input) = 0"
    with assms show ?thesis by (intro that(1)) simp
  qed (auto simp: length_eq_1 length_eq_2 simp del: length_drop intro: that)
  then show ?thesis
  proof cases
    case 2
    have "length input = off + 1" using arg_cong [OF 2, of length] assms by simp
    then show ?thesis
      using 2 assms(1) get_suffix [OF 2, of 0] block_characters [of alphabet a 0 0]
      by (simp add: encode_scalar_tail_def encode_spec_def encode_unpadded_spec_def padding_for_def
          store_four_last replicate_fill)
  next
    case (3 a b)
    have "length input = off + 2" using arg_cong [OF 3, of length] assms by simp
    then show ?thesis
      using 3 assms(1) get_suffix [OF 3, of 0] get_suffix [OF 3, of 1] block_characters [of alphabet a b 0]
      by (simp add: encode_scalar_tail_def encode_spec_def encode_unpadded_spec_def padding_for_def
          store_four_last)
  qed (simp add: encode_scalar_tail_def)
qed

lemma padding_for_drop: "3 dvd m \<Longrightarrow> m \<le> n \<Longrightarrow> padding_for (n - m) = padding_for n"
  by (auto simp: padding_for_def le_iff_add elim!: dvdE)

lemma encode_spec_split:
  assumes "3 dvd m" "m \<le> length input"
  shows "encode_spec table input = groups_text table (take m input) @ encode_spec table (drop m input)"
  using groups_text_append [of "take m input" table "drop m input"] assms
  by (simp add: encode_spec_def padding_for_drop min_absorb2)

lemma encode_spec_Nil [simp]: "encode_spec table [] = []"
  by (simp add: encode_spec_def padding_for_def)

lemma encode_spec_eq_Nil: "encode_spec table input = [] \<longleftrightarrow> input = []"
  using length_encode_spec [of table input] by (cases input) (auto simp flip: length_0_conv)

text \<open>What is emitted and then finished by a store at the cursor is one store.\<close>

lemma raw_emit_finish:
  "raw_emit e (0, o') \<bind> (\<lambda>(d, m). if ys = [] then Some m else store m d ys) = store o' 0 (e @ ys)"
  by (auto simp: raw_emit_def store_at_end bind_assoc) (simp add: store_def)

lemma encode_scalar_ptr_with_alphabet_eq:
  assumes "length alphabet = 64"
  shows "encode_scalar_ptr_with_alphabet input output alphabet = store output 0 (encode_spec alphabet input)"
proof -
  let ?n = "length input" and ?g = "\<lambda>m. groups_text alphabet (take m input)"
  define k1 where "k1 = passes ?n 6 6 0 * 6"
  define k2 where "k2 = passes ?n 3 3 k1 * 3"
  have k1: "k1 \<le> ?n" "?n < k1 + 6" "3 dvd k1"
    using passes_bound [of 0 ?n 6 6] passes_end [of 6 ?n 0 6] by (auto simp: k1_def)
  have k2: "k1 + k2 \<le> ?n" "?n < k1 + k2 + 3" "3 dvd k2"
    using passes_bound [of k1 ?n 3 3] passes_end [of 3 ?n k1 3] k1 by (auto simp: k2_def)
  have 1: "scan_while ?n 6 6 (encode_six_loop input alphabet) 0 (0, output)
      = raw_emit (?g k1) (0, output) \<bind> (\<lambda>s. Some (k1, s))"
    unfolding k1_def
    by (subst raw.emit_loop [where xs = input and table = alphabet])
      (auto simp: encode_six_loop_emits assms)
  have 2: "scan_while ?n 3 3 (encode_three_loop input alphabet) k1 s
      = raw_emit (groups_text alphabet (take k2 (drop k1 input))) s \<bind> (\<lambda>s. Some (k1 + k2, s))" for s
    unfolding k2_def
    by (subst raw.emit_loop [where xs = input and table = alphabet])
      (auto simp: encode_three_loop_emits assms)
  have "encode_scalar_ptr_with_alphabet input output alphabet
      = raw_emit (?g (k1 + k2)) (0, output)
          \<bind> (\<lambda>(d, m). encode_scalar_tail input alphabet (k1 + k2) d m)"
    by (simp add: encode_scalar_ptr_with_alphabet_def 1 2 split_def bind_assoc
        flip: raw.emit_groups [OF TrueI k1(3,1)])
  also have "\<dots> = raw_emit (?g (k1 + k2)) (0, output)
          \<bind> (\<lambda>(d, m). if encode_spec alphabet (drop (k1 + k2) input) = [] then Some m
               else store m d (encode_spec alphabet (drop (k1 + k2) input)))"
    using k2 by (simp add: encode_scalar_tail_store [OF assms] encode_spec_eq_Nil
        eq_commute [of "length input" "k1 + k2"])
  also have "\<dots> = store output 0 (encode_spec alphabet input)"
    using encode_spec_split [of "k1 + k2" input alphabet] k1 k2
    by (simp add: raw_emit_finish dvd_add)
  finally show ?thesis .
qed

text \<open>Four stores of one block each.\<close>

lemma store_four_blocks:
  assumes "length a = k" "length b = k" "length c = k" "k2 = k + k" "k3 = k + k + k"
  shows "store m d a \<bind> (\<lambda>m. store m (d + k) b \<bind> (\<lambda>m. store m (d + k2) c \<bind>
      (\<lambda>m. store m (d + k3) e \<bind> f))) = store m d (a @ b @ c @ e) \<bind> f"
proof -
  have "store m d (a @ b @ c @ e) = ((store m d a \<bind> (\<lambda>m. store m (d + k) b))
      \<bind> (\<lambda>m. store m (d + k2) c)) \<bind> (\<lambda>m. store m (d + k3) e)"
    using store_store [of a k m d b] store_store [of "a @ b" k2 m d c]
      store_store [of "a @ b @ c" k3 m d e] assms
    by simp
  then show ?thesis by (simp only: bind_assoc)
qed

lemma groups_text_four:
  assumes "4 * k \<le> length xs" "3 dvd k" "k2 = k + k" "k3 = k + k + k" "n = k + k + k + k"
  shows "groups_text table (take n xs) = groups_text table (take k xs) @ groups_text table (take k (drop k xs))
    @ groups_text table (take k (drop k2 xs)) @ groups_text table (take k (drop k3 xs))"
  using assms groups_text_take [of k xs table k] groups_text_take [of "k + k" xs table k]
    groups_text_take [of "k + k + k" xs table k]
  by (simp add: dvd_add)

section \<open>The contract of a kernel\<close>

text \<open>Raw pointer arithmetic on the destination: work on the part of the region from an offset on.\<close>

definition from_offset :: "nat \<Rightarrow> bytes \<Rightarrow> (bytes \<Rightarrow> bytes option) \<Rightarrow> bytes option" where
  "from_offset d output f =
     do {
       guard (d \<le> length output);
       rest \<leftarrow> f (drop d output);
       Some (take d output @ rest)
     }"

lemma from_offset_store: "from_offset d m (\<lambda>m. store m k ys) = store m (d + k) ys"
  by (auto simp: from_offset_def store_def guard_def take_add add.assoc add.commute add.left_commute)

text \<open>
  A kernel writes the text of some complete groups at the start of the region, reports how much
  input it took, and leaves the rest to the scalar encoder.
\<close>

locale encode_kernel =
  fixes kernel :: "bytes \<Rightarrow> bytes \<Rightarrow> (nat \<times> bytes) option" and table :: bytes
  assumes kernel_emits: "\<exists>n. 3 dvd n \<and> n \<le> length input
    \<and> kernel input output = store output 0 (groups_text table (take n input)) \<bind> (\<lambda>m. Some (n, m))"
    and table_length: "length table = 64"
begin

lemma kernel_then_scalar:
  "do { (n, m) \<leftarrow> kernel input output;
        guard (n \<le> length input);
        from_offset (n div 3 * 4) m (\<lambda>m. encode_scalar_ptr_with_alphabet (drop n input) m table) }
   = store output 0 (encode_spec table input)"
proof -
  obtain n where n: "3 dvd n" "n \<le> length input"
    "kernel input output = store output 0 (groups_text table (take n input)) \<bind> (\<lambda>m. Some (n, m))"
    using kernel_emits by blast
  have len: "length (groups_text table (take n input)) = n div 3 * 4"
    using n by (simp add: length_groups_text min_absorb2)
  have "store output 0 (groups_text table (take n input))
      \<bind> (\<lambda>m. store m (n div 3 * 4) (encode_spec table (drop n input)))
    = store output 0 (encode_spec table input)"
    unfolding store_at_end [OF len] encode_spec_split [OF n(1,2)] ..
  moreover have "from_offset d m (\<lambda>m. encode_scalar_ptr_with_alphabet (drop n input) m table)
      = store m d (encode_spec table (drop n input))" for d m
    unfolding encode_scalar_ptr_with_alphabet_eq [OF table_length] from_offset_store by simp
  ultimately show ?thesis unfolding n(3) using n(2) by (simp add: bind_assoc)
qed

end

text \<open>The kernel that takes nothing: builds and processors without one.\<close>

definition no_encode_kernel :: "bytes \<Rightarrow> bytes \<Rightarrow> (nat \<times> bytes) option" where
  "no_encode_kernel input output = Some (0, output)"

interpretation none: encode_kernel no_encode_kernel "alphabet_of u" for u
  by (unfold_locales, rule exI [of _ 0]) (simp_all add: no_encode_kernel_def store_def)

text \<open>A kernel's state that starts at the beginning of the region.\<close>

lemma raw_emit_start: "raw_emit e (0, m) \<bind> (\<lambda>s. Some (n, snd s)) = store m 0 e \<bind> (\<lambda>m. Some (n, m))"
  by (auto simp: raw_emit_def store_def)

end
