(* ===== verification/Byte_Vectors.thy ===== *)
theory Byte_Vectors
  imports Vector_Ops
begin

text \<open>
  The byte and 16-bit instructions of the Base64 kernels, in the style of \<open>Vector_Ops\<close>: a
  register is its bytes in memory order.  A byte-wise instruction is a \<open>map2\<close>; the table
  instructions (\<open>pshufb\<close>, \<open>vpermb\<close>, \<open>tbl\<close>) index a register.  The lemmas split an
  instruction on a register into the instruction on its parts.
\<close>

section \<open>Byte-wise instructions\<close>

definition and_si :: "bytes \<Rightarrow> bytes \<Rightarrow> bytes" where
  "and_si v w = map2 (AND) v w"

definition andnot_si :: "bytes \<Rightarrow> bytes \<Rightarrow> bytes" where
  "andnot_si v w = map2 (\<lambda>a b. NOT a AND b) v w"

definition add_epi8 :: "bytes \<Rightarrow> bytes \<Rightarrow> bytes" where
  "add_epi8 v w = map2 (+) v w"

definition sub_epi8 :: "bytes \<Rightarrow> bytes \<Rightarrow> bytes" where
  "sub_epi8 v w = map2 (-) v w"

text \<open>Unsigned subtraction that stops at zero.\<close>

definition subs_epu8 :: "bytes \<Rightarrow> bytes \<Rightarrow> bytes" where
  "subs_epu8 v w = map2 (\<lambda>a b. if a \<le> b then 0 else a - b) v w"

text \<open>Comparisons answer with all bits set or clear; \<open>cmpgt\<close> compares as signed bytes.\<close>

definition cmpgt_epi8 :: "bytes \<Rightarrow> bytes \<Rightarrow> bytes" where
  "cmpgt_epi8 v w = map2 (\<lambda>a b. if sint b < sint a then - 1 else 0) v w"

definition cmpeq_epi8 :: "bytes \<Rightarrow> bytes \<Rightarrow> bytes" where
  "cmpeq_epi8 v w = map2 (\<lambda>a b. if a = b then - 1 else 0) v w"

section \<open>16-bit instructions\<close>

definition mullo_epi16 :: "bytes \<Rightarrow> bytes \<Rightarrow> bytes" where
  "mullo_epi16 = lanewise2 ((*) :: u16 \<Rightarrow> u16 \<Rightarrow> u16)"

definition mulhi_epu16 :: "bytes \<Rightarrow> bytes \<Rightarrow> bytes" where
  "mulhi_epu16 = lanewise2 (\<lambda>(a :: u16) (b :: u16).
     (ucast (drop_bit 16 (ucast a * ucast b :: u32)) :: u16))"

definition srli_epi16 :: "nat \<Rightarrow> bytes \<Rightarrow> bytes" where
  "srli_epi16 n = lanewise1 (drop_bit n :: u16 \<Rightarrow> u16)"

section \<open>Table look-ups and moves\<close>

text \<open>
  \<open>shuffle_epi8\<close> looks up inside each 16-byte half: an index byte with its top bit set gives
  zero, otherwise its low four bits select.
\<close>

definition shuffle_epi8 :: "bytes \<Rightarrow> bytes \<Rightarrow> bytes" where
  "shuffle_epi8 = halves2 (\<lambda>table indices.
     map (\<lambda>i. if bit i 7 then 0 else table ! unat (i AND 15)) indices)"

text \<open>\<open>permutevar8x32\<close> selects 32-bit words across the whole 32-byte register.\<close>

definition permutevar8x32_epi32 :: "bytes \<Rightarrow> bytes \<Rightarrow> bytes" where
  "permutevar8x32_epi32 v indices =
     (let ws = (lanes v :: u32 list) in
      unlanes (map (\<lambda>i :: u32. ws ! unat (i AND 7)) (lanes indices)))"

text \<open>\<open>vpermb\<close>: a look-up in all 64 bytes; \<open>vpermi2b\<close>: in the 128 bytes of two registers.\<close>

definition permutexvar_epi8 :: "bytes \<Rightarrow> bytes \<Rightarrow> bytes" where
  "permutexvar_epi8 indices a = map (\<lambda>i. a ! unat (i AND 63)) indices"

definition permutex2var_epi8 :: "bytes \<Rightarrow> bytes \<Rightarrow> bytes \<Rightarrow> bytes" where
  "permutex2var_epi8 a indices b = map (\<lambda>i. (a @ b) ! unat (i AND 127)) indices"

text \<open>
  \<open>vpmultishiftqb\<close>: in each 64-bit lane, control byte \<open>s\<close> selects the eight bits that start
  at bit \<open>s mod 64\<close>, cyclically.
\<close>

definition multishift_epi64_epi8 :: "bytes \<Rightarrow> bytes \<Rightarrow> bytes" where
  "multishift_epi64_epi8 shifts v =
     concat (map2 (\<lambda>cs q. map (\<lambda>s. ucast (word_rotr (unat (s AND 63)) (le_word q :: u64))) cs)
       (chunks 8 shifts) (chunks 8 v))"

definition broadcastsi128 :: "bytes \<Rightarrow> bytes" where
  "broadcastsi128 v = v @ v"

section \<open>Masked memory access\<close>

text \<open>Only the bytes whose mask bit is set are accessed.\<close>

definition maskz_loadu_epi8 :: "u64 \<Rightarrow> bytes \<Rightarrow> nat \<Rightarrow> bytes option" where
  "maskz_loadu_epi8 k xs off =
     traverse (\<lambda>i. if bit k i then get xs (off + i) else Some 0) [0..<64]"

definition mask_storeu_epi8 :: "bytes \<Rightarrow> nat \<Rightarrow> u64 \<Rightarrow> bytes \<Rightarrow> bytes option" where
  "mask_storeu_epi8 out off k v =
     foldM (\<lambda>i out. if bit k i then store out (off + i) [v ! i] else Some out) [0..<64] out"

section \<open>Instructions on parts of a register\<close>

named_theorems part_simps "instructions on a register given as parts"

lemma and_si_append [part_simps]:
  "length v = length v' \<Longrightarrow> and_si (v @ w) (v' @ w') = and_si v v' @ and_si w w'"
  by (simp add: and_si_def)

lemma or_si_append [part_simps]:
  "length v = length v' \<Longrightarrow> or_si (v @ w) (v' @ w') = or_si v v' @ or_si w w'"
  by (simp add: or_si_def)

lemma lanewise1_append:
  "LENGTH('a) div 8 dvd length v \<Longrightarrow>
   lanewise1 (f :: 'a::len word \<Rightarrow> 'b::len word) (v @ w) = lanewise1 f v @ lanewise1 f w"
  by (simp add: lanewise1_def lanes_append unlanes_append)

lemma lanewise2_append:
  "LENGTH('a) div 8 dvd length v \<Longrightarrow> LENGTH('a) = LENGTH('b) \<Longrightarrow> 0 < LENGTH('b) div 8 \<Longrightarrow>
   length v = length v' \<Longrightarrow>
   lanewise2 (f :: 'a::len word \<Rightarrow> 'b::len word \<Rightarrow> 'c::len word) (v @ w) (v' @ w')
     = lanewise2 f v v' @ lanewise2 f w w'"
  by (simp add: lanewise2_def lanes_append unlanes_append length_lanes)

lemma mullo_epi16_append [part_simps]:
  "even (length v) \<Longrightarrow> length v = length v' \<Longrightarrow>
   mullo_epi16 (v @ w) (v' @ w') = mullo_epi16 v v' @ mullo_epi16 w w'"
  by (simp add: mullo_epi16_def lanewise2_append)

lemma mulhi_epu16_append [part_simps]:
  "even (length v) \<Longrightarrow> length v = length v' \<Longrightarrow>
   mulhi_epu16 (v @ w) (v' @ w') = mulhi_epu16 v v' @ mulhi_epu16 w w'"
  by (simp add: mulhi_epu16_def lanewise2_append)

lemma srli_epi16_append [part_simps]:
  "even (length v) \<Longrightarrow> srli_epi16 n (v @ w) = srli_epi16 n v @ srli_epi16 n w"
  by (simp add: srli_epi16_def lanewise1_append)

lemma set1_Suc [part_simps]: "set1 (Suc n) w = to_le w @ set1 n w"
  by (simp add: set1_def unlanes_def)

lemma set1_0 [part_simps]: "set1 0 w = []"
  by (simp add: set1_def unlanes_def)

lemma set1_byte: "set1 n (b :: u8) = replicate n b"
  by (induction n) (simp_all add: set1_def unlanes_def to_le_def)

lemma length_and_si [simp]: "length (and_si v w) = min (length v) (length w)"
  by (simp add: and_si_def)

lemma length_mullo_epi16 [lane_simps]:
  "even (length v) \<Longrightarrow> length w = length v \<Longrightarrow> length (mullo_epi16 v w) = length v"
  by (simp add: mullo_epi16_def length_lanewise2)

lemma length_mulhi_epu16 [lane_simps]:
  "even (length v) \<Longrightarrow> length w = length v \<Longrightarrow> length (mulhi_epu16 v w) = length v"
  by (simp add: mulhi_epu16_def length_lanewise2)

lemma length_srli_epi16 [lane_simps]:
  "even (length v) \<Longrightarrow> length (srli_epi16 n v) = length v"
  by (simp add: srli_epi16_def length_lanewise1)

text \<open>A pair of bytes is one 16-bit lane.\<close>

lemma lanes16_pair: "lanes [a, b] = [ucast a OR push_bit 8 (ucast b) :: u16]"
  by (simp add: lanes_def le_word_Cons)

lemma to_le16: "to_le (w :: u16) = [ucast w, ucast (drop_bit 8 w)]"
  by (simp add: to_le_def upt_rec)

lemma to_le32: "to_le (w :: u32) =
  [ucast w, ucast (drop_bit 8 w), ucast (drop_bit 16 w), ucast (drop_bit 24 w)]"
  by (simp add: to_le_def upt_rec)

text \<open>Shuffles inside halves.\<close>

lemma halves2_append: "length g = 16 \<Longrightarrow> length h = 16 \<Longrightarrow>
  halves2 f (g @ v) (h @ w) = f g h @ halves2 f v w"
  by (simp add: halves2_def chunks_append1)

lemma halves2_Nil [simp]: "halves2 f [] w = []" "halves2 f v [] = []"
  by (simp_all add: halves2_def)

lemma shuffle_epi8_half: "length t = 16 \<Longrightarrow> length i = 16 \<Longrightarrow>
  shuffle_epi8 t i = map (\<lambda>i. if bit i 7 then 0 else t ! unat (i AND 15)) i"
  by (simp add: shuffle_epi8_def halves2_single)

lemma shuffle_epi8_append [part_simps]: "length t = 16 \<Longrightarrow> length i = 16 \<Longrightarrow>
  shuffle_epi8 (t @ u) (i @ j) = shuffle_epi8 t i @ shuffle_epi8 u j"
  by (simp add: shuffle_epi8_def halves2_append halves2_single)

text \<open>A masked access whose mask is a run of low bits is an access to a prefix.\<close>

lemma bit_low_mask: "n \<le> 64 \<Longrightarrow> bit (2 ^ n - 1 :: u64) i \<longleftrightarrow> i < n"
  by (auto simp: bit_mask_iff simp flip: mask_eq_exp_minus_1)

lemma maskz_loadu_prefix:
  assumes "\<And>i. i < 64 \<Longrightarrow> bit k i \<longleftrightarrow> i < n" "n \<le> 64" "off + n \<le> length xs"
  shows "maskz_loadu_epi8 k xs off = Some (take n (drop off xs) @ replicate (64 - n) 0)"
proof -
  have "maskz_loadu_epi8 k xs off = Some (map (\<lambda>i. if bit k i then xs ! (off + i) else 0) [0..<64])"
    unfolding maskz_loadu_epi8_def
    by (rule traverse_Some) (use assms in \<open>auto simp: slice_simps\<close>)
  also have "map (\<lambda>i. if bit k i then xs ! (off + i) else 0) [0..<64]
      = take n (drop off xs) @ replicate (64 - n) 0"
    by (rule nth_equalityI) (use assms in \<open>auto simp: nth_append\<close>)
  finally show ?thesis .
qed

lemma foldM_store_bytes:
  assumes "0 < n" "n \<le> length v"
  shows "foldM (\<lambda>i out. store out (off + i) [v ! i]) [0..<n] out = store out off (take n v)"
  using assms
proof (induction n)
  case (Suc n)
  show ?case
  proof (cases "n = 0")
    case True
    with Suc.prems show ?thesis by (cases v) simp_all
  next
    case False
    with Suc have "foldM (\<lambda>i out. store out (off + i) [v ! i]) [0..<n] out = store out off (take n v)"
      by simp
    with Suc.prems show ?thesis
      by (simp add: foldM_append store_store take_Suc_conv_app_nth)
  qed
qed simp

lemma mask_storeu_prefix:
  assumes "\<And>i. i < 64 \<Longrightarrow> bit k i \<longleftrightarrow> i < n" "n \<le> 64" "length v = 64"
  shows "mask_storeu_epi8 out off k v = (if n = 0 then Some out else store out off (take n v))"
proof -
  let ?f = "\<lambda>i out. if bit k i then store out (off + i) [v ! i] else Some out"
  have "[0..<64] = [0..<n] @ [n..<64]" using assms(2) by (metis le0 upt_add_eq_append le_add_diff_inverse)
  then have "foldM ?f [0..<64] out = foldM ?f [0..<n] out \<bind> foldM ?f [n..<64]"
    by (simp add: foldM_append)
  moreover have "foldM ?f [n..<64] = Some"
  proof
    show "foldM ?f [n..<64] s = Some s" for s
      by (rule foldM_skip) (use assms(1) in auto)
  qed
  moreover have "foldM ?f [0..<n] out = foldM (\<lambda>i out. store out (off + i) [v ! i]) [0..<n] out"
    by (rule foldM_cong) (use assms in auto)
  ultimately show ?thesis
    unfolding mask_storeu_epi8_def using foldM_store_bytes [of n v off out] assms by auto
qed

text \<open>A register of sixteen bytes by its elements.\<close>

lemma list16: "length v = 16 \<longleftrightarrow> (\<exists>x0 x1 x2 x3 x4 x5 x6 x7 x8 x9 x10 x11 x12 x13 x14 x15.
  v = [x0, x1, x2, x3, x4, x5, x6, x7, x8, x9, x10, x11, x12, x13, x14, x15])"
  by (auto simp: numeral_eq_Suc length_Suc_conv)

end
