(* ===== verification/Base64_Encode_X86.thy ===== *)
theory Base64_Encode_X86
  imports Base64_Encode_Scalar Byte_Vectors
begin

text \<open>
  The SSSE3 encoding kernel, \<open>src/base64/encode/ssse3.rs\<close>, and the register arithmetic that it
  shares with the AVX2 kernels: spreading three bytes over four, cutting out the six-bit fields
  with 16-bit multiplications, and translating indices to characters by one table of offsets.
  A kernel that loads 16 bytes consumes 12 of them.
\<close>

section \<open>The kernel\<close>

definition SPREAD_12 :: bytes where
  "SPREAD_12 = [1, 0, 2, 1, 4, 3, 5, 4, 7, 6, 8, 7, 10, 9, 11, 10]"

definition ssse3_ascii_from_indices :: "bytes \<Rightarrow> bytes \<Rightarrow> bytes" where
  "ssse3_ascii_from_indices indices offsets =
     (let reduced = subs_epu8 indices (set1 16 (51 :: u8));
          lower = cmpgt_epi8 indices (set1 16 (25 :: u8));
          reduced = sub_epi8 reduced lower
      in add_epi8 (shuffle_epi8 offsets reduced) indices)"

definition ssse3_encode_12 :: "bytes \<Rightarrow> nat \<Rightarrow> bytes \<Rightarrow> bytes option" where
  "ssse3_encode_12 input source offsets =
     do {
       value \<leftarrow> slice input source 16;
       let value = shuffle_epi8 value SPREAD_12;
       let higher = and_si value (set1 4 (0x0fc0fc00 :: u32));
       let higher = mulhi_epu16 higher (set1 4 (0x04000040 :: u32));
       let lower = and_si value (set1 4 (0x003f03f0 :: u32));
       let lower = mullo_epi16 lower (set1 4 (0x01000010 :: u32));
       Some (ssse3_ascii_from_indices (or_si higher lower) offsets)
     }"

definition ssse3_standard_offsets :: "bool \<Rightarrow> bytes" where
  "ssse3_standard_offsets urlsafe =
     [ascii CHR ''A'', ascii CHR ''a'' - 26, - 4, - 4, - 4, - 4, - 4, - 4, - 4, - 4, - 4, - 4,
      if urlsafe then - 17 else - 19, if urlsafe then 32 else - 16, 0, 0]"

definition ssse3_encode_with_offsets :: "bytes \<Rightarrow> bytes \<Rightarrow> bytes \<Rightarrow> (nat \<times> bytes) option" where
  "ssse3_encode_with_offsets input output offsets =
     do {
       (source, state) \<leftarrow> scan_while (length input) 52 48 (\<lambda>source (destination, output). do {
           first \<leftarrow> ssse3_encode_12 input source offsets;
           second \<leftarrow> ssse3_encode_12 input (source + 12) offsets;
           third \<leftarrow> ssse3_encode_12 input (source + 24) offsets;
           fourth \<leftarrow> ssse3_encode_12 input (source + 36) offsets;
           output \<leftarrow> store output destination first;
           output \<leftarrow> store output (destination + 16) second;
           output \<leftarrow> store output (destination + 32) third;
           output \<leftarrow> store output (destination + 48) fourth;
           Some (destination + 64, output) }) 0 (0, output);
       (source, destination, output) \<leftarrow> scan_while (length input) 16 12
         (\<lambda>source (destination, output). do {
           encoded \<leftarrow> ssse3_encode_12 input source offsets;
           output \<leftarrow> store output destination encoded;
           Some (destination + 16, output) }) source state;
       Some (source, output)
     }"

definition ssse3_encode :: "bool \<Rightarrow> bytes \<Rightarrow> bytes \<Rightarrow> (nat \<times> bytes) option" where
  "ssse3_encode urlsafe input output =
     ssse3_encode_with_offsets input output (ssse3_standard_offsets urlsafe)"

definition ssse3_encode_custom :: "bytes \<Rightarrow> bytes \<Rightarrow> bytes \<Rightarrow> (nat \<times> bytes) option" where
  "ssse3_encode_custom input output offsets =
     do {
       offsets \<leftarrow> slice offsets 0 16;
       ssse3_encode_with_offsets input output offsets
     }"

section \<open>Indices\<close>

text \<open>The shuffled register: three bytes spread over the four bytes of a lane.\<close>

fun spread :: "bytes \<Rightarrow> bytes" where
  "spread (a # b # c # bs) = [b, a, c, b] @ spread bs"
| "spread _ = []"

definition indices_mulhi :: "nat \<Rightarrow> bytes \<Rightarrow> bytes" where
  "indices_mulhi n v =
     or_si (mulhi_epu16 (and_si v (set1 n (0x0fc0fc00 :: u32))) (set1 n (0x04000040 :: u32)))
       (mullo_epi16 (and_si v (set1 n (0x003f03f0 :: u32))) (set1 n (0x01000010 :: u32)))"

definition indices_srli :: "nat \<Rightarrow> bytes \<Rightarrow> bytes" where
  "indices_srli n v =
     or_si (srli_epi16 10 (mullo_epi16 v (set1 n (0x00100001 :: u32))))
       (mullo_epi16 (and_si v (set1 n (0x003f03f0 :: u32))) (set1 n (0x01000010 :: u32)))"

lemma indices_mulhi_Suc:
  "length p = 4 \<Longrightarrow> indices_mulhi (Suc n) (p @ v) = indices_mulhi 1 p @ indices_mulhi n v"
  by (simp add: indices_mulhi_def part_simps lane_simps)

lemma indices_srli_Suc:
  "length p = 4 \<Longrightarrow> indices_srli (Suc n) (p @ v) = indices_srli 1 p @ indices_srli n v"
  by (simp add: indices_srli_def part_simps lane_simps)

lemma lanes16_quad:
  "lanes [a, b, c, d] = [ucast a OR push_bit 8 (ucast b), ucast c OR push_bit 8 (ucast d) :: u16]"
  by (simp add: lanes_def le_word_Cons chunks.simps)

lemma mult_powers:
  "x * 64 = push_bit 6 x" "x * 1024 = push_bit 10 x" "x * 16 = push_bit 4 x" "x * 256 = push_bit 8 x"
  for x :: "'a::len word"
  by (simp_all add: push_bit_eq_mult)

lemmas lane_arithmetic = set1_Suc set1_0 to_le32 and_si_def or_si_def lanewise1_def lanewise2_def
  lanes16_quad unlanes_def to_le16 mult_powers

lemma indices_mulhi_one: "indices_mulhi 1 [b, a, c, b] = sextets [a, b, c]"
  by (simp add: indices_mulhi_def mulhi_epu16_def mullo_epi16_def lane_arithmetic)
    (simp add: byte_eq_bits bit_simps byte_high_bits)

lemma indices_srli_one: "indices_srli 1 [b, a, c, b] = sextets [a, b, c]"
  by (simp add: indices_srli_def srli_epi16_def mullo_epi16_def lane_arithmetic)
    (simp add: byte_eq_bits bit_simps byte_high_bits)

lemma indices_spread:
  assumes "length xs = 3 * n"
  shows "indices_mulhi n (spread xs) = sextets xs" "indices_srli n (spread xs) = sextets xs"
  using assms
proof (induction xs arbitrary: n rule: spread.induct)
  case (1 a b c bs)
  { case 1
    then obtain m where "n = Suc m" "length bs = 3 * m" by (cases n) auto
    with "1.IH"(1) [of m] show ?case
      using indices_mulhi_Suc [of "[b, a, c, b]" m "spread bs"] indices_mulhi_one by simp }
  { case 2
    then obtain m where "n = Suc m" "length bs = 3 * m" by (cases n) auto
    with "1.IH"(2) [of m] show ?case
      using indices_srli_Suc [of "[b, a, c, b]" m "spread bs"] indices_srli_one by simp }
qed (presburger | simp add: indices_mulhi_def indices_srli_def part_simps or_si_def and_si_def
  mulhi_epu16_def mullo_epi16_def srli_epi16_def lanewise1_def lanewise2_def)+

section \<open>Characters\<close>

text \<open>The row of the offset table that an index uses, and what a table of offsets encodes.\<close>

definition offset_row :: "u8 \<Rightarrow> u8" where
  "offset_row i = (if i \<le> 51 then 0 else i - 51) - (if sint (25 :: u8) < sint i then - 1 else 0)"

definition offsets_encode :: "bytes \<Rightarrow> bytes \<Rightarrow> bool" where
  "offsets_encode offsets table \<longleftrightarrow> length offsets = 16 \<and> length table = 64 \<and>
     (\<forall>i < 64. offset_row i < 16 \<and> offsets ! unat (offset_row i) + i = symbol table i)"

definition ascii_bytes :: "nat \<Rightarrow> bytes \<Rightarrow> bytes \<Rightarrow> bytes" where
  "ascii_bytes n indices offsets =
     add_epi8 (shuffle_epi8 offsets (sub_epi8 (subs_epu8 indices (set1 n (51 :: u8)))
       (cmpgt_epi8 indices (set1 n (25 :: u8))))) indices"

lemma map2_replicate_right: "length xs = n \<Longrightarrow> map2 f xs (replicate n y) = map (\<lambda>x. f x y) xs"
  by (induction xs arbitrary: n) auto

lemma offset_rows:
  "length indices = n \<Longrightarrow> sub_epi8 (subs_epu8 indices (set1 n (51 :: u8)))
     (cmpgt_epi8 indices (set1 n (25 :: u8))) = map offset_row indices"
  by (simp add: sub_epi8_def subs_epu8_def cmpgt_epi8_def set1_byte map2_replicate_right
      map2_map_map offset_row_def)

lemma row_lookup:
  assumes "r < 16"
  shows "(if bit r 7 then 0 else t ! unat (r AND 15)) = t ! unat (r :: u8)"
  using assms by (simp add: nibble_and) (simp add: nibble_iff_bits)

lemma map2_map_self: "map2 g (map f xs) xs = map (\<lambda>x. g (f x) x) xs"
  by (induction xs) simp_all

lemma ascii_bytes_16:
  assumes "offsets_encode offsets table" "list_all (\<lambda>i. i < 64) indices" "length indices = 16"
  shows "ascii_bytes 16 indices offsets = map (symbol table) indices"
proof -
  have "shuffle_epi8 offsets (map offset_row indices) = map (\<lambda>i. offsets ! unat (offset_row i)) indices"
    using assms by (auto simp: shuffle_epi8_half offsets_encode_def list_all_iff row_lookup)
  then show ?thesis
    using assms unfolding ascii_bytes_def offset_rows [OF assms(3)]
    by (auto simp: add_epi8_def map2_map_self offsets_encode_def list_all_iff)
qed

section \<open>Offsets of an alphabet\<close>

text \<open>
  An alphabet that a caller chooses.  Its first 62 symbols decide whether the vector kernels can
  translate it; the offsets exist in x86 builds only, where alone they are read.
\<close>

record custom_encode_alphabet =
  custom_table :: bytes
  has_standard_prefix :: bool
  custom_offsets :: bytes

definition custom_from_table :: "bytes \<Rightarrow> custom_encode_alphabet" where
  "custom_from_table table =
     \<lparr>custom_table = table,
      has_standard_prefix = (take 62 table = take 62 STANDARD_ALPHABET),
      custom_offsets =
        [ascii CHR ''A'', ascii CHR ''a'' - 26, - 4, - 4, - 4, - 4, - 4, - 4, - 4, - 4, - 4, - 4,
         table ! 62 - 62, table ! 63 - 63, 0, 0]\<rparr>"

definition custom_new :: "u8 \<Rightarrow> u8 \<Rightarrow> custom_encode_alphabet" where
  "custom_new value62 value63 =
     (let table = STANDARD_ALPHABET;
          table = table[62 := value62];
          table = table[63 := value63]
      in custom_from_table table)"

lemma common_offsets:
  "list_all (\<lambda>i. offset_row i < 12 \<and> [65, 71, - 4, - 4, - 4, - 4, - 4, - 4, - 4, - 4, - 4, - 4] !
     unat (offset_row i) + i = STANDARD_ALPHABET ! unat i) (map of_nat [0..<62])"
  unfolding STANDARD_ALPHABET_bytes by code_simp

lemma special_rows: "offset_row 62 = 12" "offset_row 63 = 13"
  by code_simp+

lemma custom_offsets_encode:
  assumes "take 62 table = take 62 STANDARD_ALPHABET" "length table = 64"
  shows "offsets_encode (custom_offsets (custom_from_table table)) table"
proof -
  let ?o = "custom_offsets (custom_from_table table)"
  define p :: bytes where "p = [65, 71, - 4, - 4, - 4, - 4, - 4, - 4, - 4, - 4, - 4, - 4]"
  have o: "?o = p @ [table ! 62 - 62, table ! 63 - 63, 0, 0]" and p: "length p = 12"
    by (simp_all add: custom_from_table_def p_def)
  have "offset_row i < 16 \<and> ?o ! unat (offset_row i) + i = symbol table i" if "i < 64" for i
  proof (cases "i < 62")
    case True
    then have "unat i < 62" by (simp add: word_less_nat_alt)
    then have t: "table ! unat i = STANDARD_ALPHABET ! unat i" using assms(1) by (metis nth_take)
    have "i \<in> set (map of_nat [0..<62])"
      using \<open>unat i < 62\<close> by (auto simp: image_iff intro!: bexI [of _ "unat i"])
    with common_offsets have c: "offset_row i < 12 \<and> p ! unat (offset_row i) + i = STANDARD_ALPHABET ! unat i"
      unfolding list_all_iff p_def by blast
    then have "unat (offset_row i) < 12" by (simp add: word_less_nat_alt)
    with c t show ?thesis
      unfolding o symbol_def by (auto simp: nth_append p word_less_nat_alt)
  next
    case False
    with that have "i = 62 \<or> i = 63"
      by (auto simp: word_less_nat_alt word_unat_eq_iff)
    then show ?thesis unfolding o symbol_def by (auto simp: special_rows nth_append p)
  qed
  then show ?thesis using assms(2) by (simp add: offsets_encode_def custom_from_table_def)
qed

lemma standard_offsets_encode: "offsets_encode (ssse3_standard_offsets u) (alphabet_of u)"
proof -
  have "ssse3_standard_offsets u = custom_offsets (custom_from_table (alphabet_of u))"
    by (simp add: ssse3_standard_offsets_def custom_from_table_def alphabet_of_def
        STANDARD_ALPHABET_bytes URLSAFE_ALPHABET_bytes)
  moreover have "take 62 (alphabet_of u) = take 62 STANDARD_ALPHABET"
    by (simp add: alphabet_of_def STANDARD_ALPHABET_bytes URLSAFE_ALPHABET_bytes)
  ultimately show ?thesis using custom_offsets_encode [of "alphabet_of u"] by simp
qed

section \<open>The kernel writes the text of the groups\<close>

lemma spread_12: "length v = 16 \<Longrightarrow> shuffle_epi8 v SPREAD_12 = spread (take 12 v)"
  by (auto simp: list16 shuffle_epi8_half SPREAD_12_def)

lemma group_ascii_16:
  assumes "offsets_encode offsets table" "length xs = 12"
  shows "ascii_bytes 16 (indices_mulhi 4 (spread xs)) offsets = groups_text table xs"
    and "ascii_bytes 16 (indices_srli 4 (spread xs)) offsets = groups_text table xs"
  using assms indices_spread [of xs 4]
  by (simp_all add: ascii_bytes_16 sextets_less length_sextets encode_unpadded_spec_def)

lemma ssse3_encode_12_groups:
  assumes "offsets_encode offsets table" "source + 16 \<le> length input"
  shows "ssse3_encode_12 input source offsets = Some (groups_text table (take 12 (drop source input)))"
  using assms group_ascii_16(1) [OF assms(1), of "take 12 (drop source input)"]
    spread_12 [of "take 16 (drop source input)"]
  by (simp add: ssse3_encode_12_def slice_simps ssse3_ascii_from_indices_def ascii_bytes_def
      indices_mulhi_def min_absorb1)

lemma length_block: "12 \<le> length xs \<Longrightarrow> length (groups_text table (take 12 xs)) = 16"
  by (simp add: length_groups_text min_absorb2)

lemma ssse3_encode_with_offsets_groups:
  assumes o: "offsets_encode offsets table"
  shows "\<exists>n. 3 dvd n \<and> n \<le> length input \<and> ssse3_encode_with_offsets input output offsets
    = store output 0 (groups_text table (take n input)) \<bind> (\<lambda>m. Some (n, m))"
proof -
  let ?wide = "\<lambda>source (destination, output). do {
           first \<leftarrow> ssse3_encode_12 input source offsets;
           second \<leftarrow> ssse3_encode_12 input (source + 12) offsets;
           third \<leftarrow> ssse3_encode_12 input (source + 24) offsets;
           fourth \<leftarrow> ssse3_encode_12 input (source + 36) offsets;
           output \<leftarrow> store output destination first;
           output \<leftarrow> store output (destination + 16) second;
           output \<leftarrow> store output (destination + 32) third;
           output \<leftarrow> store output (destination + 48) fourth;
           Some (destination + 64, output) }"
  let ?narrow = "\<lambda>source (destination, output). do {
           encoded \<leftarrow> ssse3_encode_12 input source offsets;
           output \<leftarrow> store output destination encoded;
           Some (destination + 16, output) }"
  have wide: "?wide off s = raw_emit (groups_text table (take 48 (drop off input))) s"
    if "off + 52 \<le> length input" for off s
    using that
    by (cases s) (simp add: ssse3_encode_12_groups [OF o] store_four_blocks [where k = 16]
        length_block raw_emit_length [where n = 64]
        groups_text_four [where k = 12 and n = 48 and ?k2.0 = 24 and ?k3.0 = 36] add.commute)
  have narrow: "?narrow off s = raw_emit (groups_text table (take 12 (drop off input))) s"
    if "off + 16 \<le> length input" for off s
    using that
    by (cases s) (simp add: ssse3_encode_12_groups [OF o] length_block raw_emit_length [where n = 16])
  obtain n where "3 dvd n" "n \<le> length input"
    and n: "scan_while (length input) 52 48 ?wide 0 (0, output)
        \<bind> (\<lambda>(off, s). scan_while (length input) 16 12 ?narrow off s)
      = raw_emit (groups_text table (take n input)) (0, output) \<bind> (\<lambda>s. Some (n, s))"
    using raw.emit_two_loops [where body = ?wide and body' = ?narrow and xs = input and table = table
        and s = "(0, output)" and st = 48 and st' = 12 and width = 52 and width' = 16] wide narrow
    by auto
  have "ssse3_encode_with_offsets input output offsets = (scan_while (length input) 52 48 ?wide 0 (0, output)
        \<bind> (\<lambda>(off, s). scan_while (length input) 16 12 ?narrow off s)) \<bind> (\<lambda>(n, d, m). Some (n, m))"
    by (simp add: ssse3_encode_with_offsets_def split_def bind_assoc)
  also have "\<dots> = store output 0 (groups_text table (take n input)) \<bind> (\<lambda>m. Some (n, m))"
    unfolding n by (simp add: bind_assoc split_def raw_emit_start)
  finally show ?thesis using \<open>3 dvd n\<close> \<open>n \<le> length input\<close> by blast
qed

interpretation ssse3: encode_kernel "ssse3_encode u" "alphabet_of u" for u
  by unfold_locales
    (simp_all add: ssse3_encode_def ssse3_encode_with_offsets_groups [OF standard_offsets_encode])

lemma ssse3_encode_custom_groups:
  assumes "take 62 table = take 62 STANDARD_ALPHABET" "length table = 64"
  shows "\<exists>n. 3 dvd n \<and> n \<le> length input
    \<and> ssse3_encode_custom input output (custom_offsets (custom_from_table table))
      = store output 0 (groups_text table (take n input)) \<bind> (\<lambda>m. Some (n, m))"
proof -
  note o = custom_offsets_encode [OF assms]
  then have "slice (custom_offsets (custom_from_table table)) 0 16 = Some (custom_offsets (custom_from_table table))"
    by (simp add: slice_simps offsets_encode_def)
  then show ?thesis using ssse3_encode_with_offsets_groups [OF o] by (simp add: ssse3_encode_custom_def)
qed

end
