(* ===== verification/Base64_Encode_Avx2.thy ===== *)
theory Base64_Encode_Avx2
  imports Base64_Encode_X86 Cpu_Backend
begin

text \<open>
  The AVX2 encoding kernel, \<open>src/base64/encode/avx2.rs\<close>.  A block of 24 bytes is loaded four
  bytes early, so that the bytes of each 16-byte half are where the byte shuffle can reach them.
  On x86-64 the body of a long input runs in an assembly loop over groups of 96 bytes, or, when
  the output does not fit the caches, in a loop of streaming stores, which fault unless their
  address is a multiple of 32: \<open>address\<close> is the address of the output.  The store fence that
  follows streaming stores orders them for other threads and is not modelled.
\<close>

datatype avx2_store_mode = Cached | Streaming

section \<open>Blocks\<close>

definition SPREAD_24 :: bytes where
  "SPREAD_24 = [5, 4, 6, 5, 8, 7, 9, 8, 11, 10, 12, 11, 14, 13, 15, 14,
     1, 0, 2, 1, 4, 3, 5, 4, 7, 6, 8, 7, 10, 9, 11, 10]"

definition avx2_ascii_from_indices_128 :: "bytes \<Rightarrow> bytes \<Rightarrow> bytes" where
  "avx2_ascii_from_indices_128 indices offsets =
     (let reduced = subs_epu8 indices (set1 16 (51 :: u8));
          lower = cmpgt_epi8 indices (set1 16 (25 :: u8));
          reduced = sub_epi8 reduced lower
      in add_epi8 (shuffle_epi8 offsets reduced) indices)"

definition avx2_ascii_from_indices :: "bytes \<Rightarrow> bytes \<Rightarrow> bytes" where
  "avx2_ascii_from_indices indices offsets =
     (let reduced = subs_epu8 indices (set1 32 (51 :: u8));
          lower = cmpgt_epi8 indices (set1 32 (25 :: u8));
          reduced = sub_epi8 reduced lower
      in add_epi8 (shuffle_epi8 offsets reduced) indices)"

definition avx2_encode_12 :: "bytes \<Rightarrow> nat \<Rightarrow> bytes \<Rightarrow> bytes option" where
  "avx2_encode_12 input source offsets =
     do {
       value \<leftarrow> slice input source 16;
       let value = shuffle_epi8 value SPREAD_12;
       let higher = and_si value (set1 4 (0x0fc0fc00 :: u32));
       let higher = mulhi_epu16 higher (set1 4 (0x04000040 :: u32));
       let lower = and_si value (set1 4 (0x003f03f0 :: u32));
       let lower = mullo_epi16 lower (set1 4 (0x01000010 :: u32));
       Some (avx2_ascii_from_indices_128 (or_si higher lower) offsets)
     }"

definition avx2_encode_24_shifted_value :: "bytes \<Rightarrow> bytes \<Rightarrow> bytes" where
  "avx2_encode_24_shifted_value shifted offsets =
     (let value = shuffle_epi8 shifted SPREAD_24;
          higher = and_si value (set1 8 (0x0fc0fc00 :: u32));
          higher = mulhi_epu16 higher (set1 8 (0x04000040 :: u32));
          lower = and_si value (set1 8 (0x003f03f0 :: u32));
          lower = mullo_epi16 lower (set1 8 (0x01000010 :: u32))
      in avx2_ascii_from_indices (or_si higher lower) offsets)"

definition avx2_encode_24_first :: "bytes \<Rightarrow> bytes \<Rightarrow> bytes option" where
  "avx2_encode_24_first input offsets =
     do {
       value \<leftarrow> slice input 0 32;
       let shifted = permutevar8x32_epi32 value (set_lanes [0, 0, 1, 2, 3, 4, 5, 6 :: u32]);
       Some (avx2_encode_24_shifted_value shifted offsets)
     }"

definition avx2_encode_24_shifted :: "bytes \<Rightarrow> nat \<Rightarrow> bytes \<Rightarrow> bytes option" where
  "avx2_encode_24_shifted input load_offset offsets =
     do {
       shifted \<leftarrow> slice input load_offset 32;
       Some (avx2_encode_24_shifted_value shifted offsets)
     }"

definition avx2_standard_offsets_128 :: "bool \<Rightarrow> bytes" where
  "avx2_standard_offsets_128 urlsafe =
     [ascii CHR ''A'', ascii CHR ''a'' - 26, - 4, - 4, - 4, - 4, - 4, - 4, - 4, - 4, - 4, - 4,
      if urlsafe then - 17 else - 19, if urlsafe then 32 else - 16, 0, 0]"

definition avx2_standard_offsets_256 :: "bool \<Rightarrow> bytes" where
  "avx2_standard_offsets_256 urlsafe = broadcastsi128 (avx2_standard_offsets_128 urlsafe)"

section \<open>Groups of 96 bytes\<close>

record encode_avx2_constants =
  reshuffle :: bytes
  align_mul :: bytes
  field_mask :: bytes
  field_mul :: bytes
  translate :: bytes
  last_lowercase_index :: bytes
  last_uppercase_index :: bytes

text \<open>\<open>_mm256_set_epi8\<close> lists the bytes from the last to the first.\<close>

definition encode_constants :: "bytes \<Rightarrow> encode_avx2_constants" where
  "encode_constants offsets =
     \<lparr>reshuffle = rev [10, 11, 9, 10, 7, 8, 6, 7, 4, 5, 3, 4, 1, 2, 0, 1, 14, 15, 13, 14, 11, 12,
        10, 11, 8, 9, 7, 8, 5, 6, 4, 5],
      align_mul = set1 8 (0x00100001 :: u32),
      field_mask = set1 8 (0x003f03f0 :: u32),
      field_mul = set1 8 (0x01000010 :: u32),
      translate = offsets,
      last_lowercase_index = set1 32 (51 :: u8),
      last_uppercase_index = set1 32 (25 :: u8)\<rparr>"

definition encode_96_values :: "bytes \<Rightarrow> encode_avx2_constants \<Rightarrow> bytes" where
  "encode_96_values input constants =
     (let shuffled = shuffle_epi8 input (reshuffle constants);
          aligned = srli_epi16 10 (mullo_epi16 shuffled (align_mul constants));
          fields = mullo_epi16 (and_si shuffled (field_mask constants)) (field_mul constants);
          indices = or_si aligned fields;
          lut_index = sub_epi8 (subs_epu8 indices (last_lowercase_index constants))
            (cmpgt_epi8 indices (last_uppercase_index constants))
      in add_epi8 indices (shuffle_epi8 (translate constants) lut_index))"

definition stream_si256 :: "nat \<Rightarrow> bytes \<Rightarrow> nat \<Rightarrow> bytes \<Rightarrow> bytes option" where
  "stream_si256 address output offset v =
     do {
       guard ((address + offset) mod 32 = 0);
       store output offset v
     }"

definition encode_24_constants ::
  "bytes \<Rightarrow> nat \<Rightarrow> encode_avx2_constants \<Rightarrow> bytes option" where
  "encode_24_constants input offset constants =
     do {
       v \<leftarrow> slice input offset 32;
       Some (encode_96_values v constants)
     }"

definition encode_96_streaming_group ::
  "bytes \<Rightarrow> nat \<Rightarrow> encode_avx2_constants \<Rightarrow> nat \<Rightarrow> nat \<Rightarrow> bytes \<Rightarrow> bytes option" where
  "encode_96_streaming_group input address constants i d output =
     do {
       first \<leftarrow> encode_24_constants input i constants;
       second \<leftarrow> encode_24_constants input (i + 24) constants;
       third \<leftarrow> encode_24_constants input (i + 48) constants;
       fourth \<leftarrow> encode_24_constants input (i + 72) constants;
       output \<leftarrow> stream_si256 address output d first;
       output \<leftarrow> stream_si256 address output (d + 32) second;
       output \<leftarrow> stream_si256 address output (d + 64) third;
       stream_si256 address output (d + 96) fourth
     }"

fun encode_96_streaming_loop ::
  "bytes \<Rightarrow> nat \<Rightarrow> encode_avx2_constants \<Rightarrow> nat \<Rightarrow> nat \<Rightarrow> nat \<Rightarrow> bytes \<Rightarrow> bytes option" where
  "encode_96_streaming_loop input address constants (Suc (Suc groups)) i d output =
     do {
       output \<leftarrow> encode_96_streaming_group input address constants i d output;
       output \<leftarrow> encode_96_streaming_group input address constants (i + 96) (d + 128) output;
       encode_96_streaming_loop input address constants groups (i + 192) (d + 256) output
     }"
| "encode_96_streaming_loop input address constants (Suc 0) i d output =
     encode_96_streaming_group input address constants i d output"
| "encode_96_streaming_loop input address constants 0 i d output = Some output"

definition encode_96_shifted_streaming ::
  "nat \<Rightarrow> bytes \<Rightarrow> nat \<Rightarrow> bytes \<Rightarrow> nat \<Rightarrow> nat \<Rightarrow> bytes \<Rightarrow> bytes option" where
  "encode_96_shifted_streaming address input i output d groups offsets =
     encode_96_streaming_loop input address (encode_constants offsets) groups i d output"

text \<open>The assembly body on the four loaded vectors, instruction by instruction.\<close>

definition encode_96_asm_body :: "bytes \<Rightarrow> bytes \<Rightarrow> bytes \<Rightarrow> bytes \<Rightarrow> bytes \<Rightarrow> bytes list" where
  "encode_96_asm_body offsets value0 value1 value2 value3 =
     (let shuffle = SPREAD_24;
          align_multiplier = set1 8 (0x00100001 :: u32);
          lower_mask = set1 8 (0x003f03f0 :: u32);
          lower_multiplier = set1 8 (0x01000010 :: u32);
          reduction_base = set1 32 (51 :: u8);
          lower_bound = set1 32 (25 :: u8);
          value0 = shuffle_epi8 value0 shuffle;
          value1 = shuffle_epi8 value1 shuffle;
          value2 = shuffle_epi8 value2 shuffle;
          value3 = shuffle_epi8 value3 shuffle;
          temporary0 = mullo_epi16 value0 align_multiplier;
          temporary1 = mullo_epi16 value1 align_multiplier;
          temporary0 = srli_epi16 10 temporary0;
          temporary1 = srli_epi16 10 temporary1;
          value0 = and_si value0 lower_mask;
          value1 = and_si value1 lower_mask;
          value0 = mullo_epi16 value0 lower_multiplier;
          value1 = mullo_epi16 value1 lower_multiplier;
          value0 = or_si value0 temporary0;
          value1 = or_si value1 temporary1;
          temporary0 = mullo_epi16 value2 align_multiplier;
          temporary1 = mullo_epi16 value3 align_multiplier;
          temporary0 = srli_epi16 10 temporary0;
          temporary1 = srli_epi16 10 temporary1;
          value2 = and_si value2 lower_mask;
          value3 = and_si value3 lower_mask;
          value2 = mullo_epi16 value2 lower_multiplier;
          value3 = mullo_epi16 value3 lower_multiplier;
          value2 = or_si value2 temporary0;
          value3 = or_si value3 temporary1;
          temporary0 = subs_epu8 value0 reduction_base;
          temporary1 = cmpgt_epi8 value0 lower_bound;
          temporary0 = sub_epi8 temporary0 temporary1;
          temporary0 = shuffle_epi8 offsets temporary0;
          value0 = add_epi8 value0 temporary0;
          temporary0 = subs_epu8 value1 reduction_base;
          temporary1 = cmpgt_epi8 value1 lower_bound;
          temporary0 = sub_epi8 temporary0 temporary1;
          temporary0 = shuffle_epi8 offsets temporary0;
          value1 = add_epi8 value1 temporary0;
          temporary0 = subs_epu8 value2 reduction_base;
          temporary1 = cmpgt_epi8 value2 lower_bound;
          temporary0 = sub_epi8 temporary0 temporary1;
          temporary0 = shuffle_epi8 offsets temporary0;
          value2 = add_epi8 value2 temporary0;
          temporary0 = subs_epu8 value3 reduction_base;
          temporary1 = cmpgt_epi8 value3 lower_bound;
          temporary0 = sub_epi8 temporary0 temporary1;
          temporary0 = shuffle_epi8 offsets temporary0;
          value3 = add_epi8 value3 temporary0
      in [value0, value1, value2, value3])"

definition encode_96_asm_iteration ::
  "bytes \<Rightarrow> bytes \<Rightarrow> nat \<Rightarrow> nat \<Rightarrow> bytes \<Rightarrow> bytes option" where
  "encode_96_asm_iteration input offsets i d output =
     do {
       value0 \<leftarrow> slice input i 32;
       value1 \<leftarrow> slice input (i + 24) 32;
       value2 \<leftarrow> slice input (i + 48) 32;
       value3 \<leftarrow> slice input (i + 72) 32;
       let values = encode_96_asm_body offsets value0 value1 value2 value3;
       output \<leftarrow> store output d (values ! 0);
       output \<leftarrow> store output (d + 32) (values ! 1);
       output \<leftarrow> store output (d + 64) (values ! 2);
       store output (d + 96) (values ! 3)
     }"

text \<open>
  The loop decrements the counter and tests it after the body: a count of zero would wrap around
  and run over the end of both buffers.
\<close>

fun encode_96_asm_loop ::
  "bytes \<Rightarrow> bytes \<Rightarrow> nat \<Rightarrow> nat \<Rightarrow> nat \<Rightarrow> bytes \<Rightarrow> bytes option" where
  "encode_96_asm_loop input offsets 0 i d output = None"
| "encode_96_asm_loop input offsets (Suc groups) i d output =
     do {
       output \<leftarrow> encode_96_asm_iteration input offsets i d output;
       (if groups = 0 then Some output
        else encode_96_asm_loop input offsets groups (i + 96) (d + 128) output)
     }"

definition encode_96_shifted_asm ::
  "bool \<Rightarrow> bytes \<Rightarrow> nat \<Rightarrow> bytes \<Rightarrow> nat \<Rightarrow> nat \<Rightarrow> bytes \<Rightarrow> bytes option" where
  "encode_96_shifted_asm urlsafe input i output d groups offsets =
     encode_96_asm_loop input (avx2_standard_offsets_256 urlsafe) groups i d output"

definition encode_96_shifted_asm_custom ::
  "bytes \<Rightarrow> nat \<Rightarrow> bytes \<Rightarrow> nat \<Rightarrow> nat \<Rightarrow> bytes \<Rightarrow> bytes option" where
  "encode_96_shifted_asm_custom input i output d groups offsets =
     encode_96_asm_loop input offsets groups i d output"

section \<open>The kernel\<close>

type_synonym encode_96_kernel = "bytes \<Rightarrow> nat \<Rightarrow> bytes \<Rightarrow> nat \<Rightarrow> nat \<Rightarrow> bytes \<Rightarrow> bytes option"

text \<open>The assembly part of an x86-64 build: load offset, destination and output advance.\<close>

definition encode_avx2_groups ::
  "nat \<Rightarrow> avx2_store_mode \<Rightarrow> encode_96_kernel \<Rightarrow> bytes \<Rightarrow> bytes
    \<Rightarrow> nat \<Rightarrow> nat \<times> bytes \<Rightarrow> (nat \<times> nat \<times> bytes) option" where
  "encode_avx2_groups address store_mode encode_96 input offsets load_offset =
     (\<lambda>(destination, output).
     do {
       guard (load_offset + 8 \<le> length input);
       let groups = (length input - load_offset - 8) div 96;
       (if 2 \<le> groups then do {
          (load_offset, destination, output, groups) \<leftarrow>
            (if address mod 32 = 16 then do {
               encoded \<leftarrow> avx2_encode_12 input 24 (take 16 offsets);
               output \<leftarrow> store output destination encoded;
               let load_offset = load_offset + 12;
               guard (load_offset + 8 \<le> length input);
               Some (load_offset, destination + 16, output, (length input - load_offset - 8) div 96) }
             else Some (load_offset, destination, output, groups));
          output \<leftarrow>
            (if store_mode = Streaming
             then encode_96_shifted_streaming address input load_offset output destination groups offsets
             else encode_96 input load_offset output destination groups offsets);
          Some (load_offset + groups * 96, destination + groups * 128, output) }
        else Some (load_offset, destination, output))
     })"

text \<open>The loop over 96 bytes of a 32-bit build.\<close>

definition encode_avx2_wide_loop ::
  "bytes \<Rightarrow> bytes \<Rightarrow> nat \<Rightarrow> nat \<times> bytes \<Rightarrow> (nat \<times> bytes) option" where
  "encode_avx2_wide_loop input offsets load_offset = (\<lambda>(destination, output).
     do {
       first \<leftarrow> avx2_encode_24_shifted input load_offset offsets;
       second \<leftarrow> avx2_encode_24_shifted input (load_offset + 24) offsets;
       third \<leftarrow> avx2_encode_24_shifted input (load_offset + 48) offsets;
       fourth \<leftarrow> avx2_encode_24_shifted input (load_offset + 72) offsets;
       output \<leftarrow> store output destination first;
       output \<leftarrow> store output (destination + 32) second;
       output \<leftarrow> store output (destination + 64) third;
       output \<leftarrow> store output (destination + 96) fourth;
       Some (destination + 128, output)
     })"

definition encode_avx2_narrow_loop ::
  "bytes \<Rightarrow> bytes \<Rightarrow> nat \<Rightarrow> nat \<times> bytes \<Rightarrow> (nat \<times> bytes) option" where
  "encode_avx2_narrow_loop input offsets load_offset = (\<lambda>(destination, output).
     do {
       encoded \<leftarrow> avx2_encode_24_shifted input load_offset offsets;
       output \<leftarrow> store output destination encoded;
       Some (destination + 32, output)
     })"

definition avx2_encode_with_offsets ::
  "target_arch \<Rightarrow> nat \<Rightarrow> avx2_store_mode \<Rightarrow> encode_96_kernel \<Rightarrow> bytes \<Rightarrow> bytes \<Rightarrow> bytes
    \<Rightarrow> (nat \<times> bytes) option" where
  "avx2_encode_with_offsets arch address store_mode encode_96 input output offsets =
     do {
       first \<leftarrow> avx2_encode_24_first input offsets;
       output \<leftarrow> store output 0 first;
       (load_offset, state) \<leftarrow>
         (if arch = Arch_X86_64
          then encode_avx2_groups address store_mode encode_96 input offsets 20 (32, output)
          else scan_while (length input) 104 96 (encode_avx2_wide_loop input offsets) 20 (32, output));
       (load_offset, destination, output) \<leftarrow>
         scan_while (length input) 32 24 (encode_avx2_narrow_loop input offsets) load_offset state;
       let source = load_offset + 4;
       (if source + 16 \<le> length input then do {
          encoded \<leftarrow> avx2_encode_12 input source (take 16 offsets);
          output \<leftarrow> store output destination encoded;
          Some (source + 12, output) }
        else Some (source, output))
     }"

definition avx2_encode_with_store ::
  "target_arch \<Rightarrow> (cpu_feature \<Rightarrow> bool) \<Rightarrow> nat \<Rightarrow> bool \<Rightarrow> avx2_store_mode \<Rightarrow> bytes \<Rightarrow> bytes
    \<Rightarrow> (nat \<times> bytes) option" where
  "avx2_encode_with_store arch cpu address urlsafe store_mode input output =
     (if length input < 32 then target_feature cpu [Ssse3] (ssse3_encode urlsafe input output)
      else avx2_encode_with_offsets arch address store_mode (encode_96_shifted_asm urlsafe)
        input output (avx2_standard_offsets_256 urlsafe))"

definition avx2_encode_custom ::
  "target_arch \<Rightarrow> (cpu_feature \<Rightarrow> bool) \<Rightarrow> nat \<Rightarrow> bytes \<Rightarrow> avx2_store_mode \<Rightarrow> bytes \<Rightarrow> bytes
    \<Rightarrow> (nat \<times> bytes) option" where
  "avx2_encode_custom arch cpu address offsets store_mode input output =
     (if length input < 32 then target_feature cpu [Ssse3] (ssse3_encode_custom input output offsets)
      else do {
        offsets \<leftarrow> slice offsets 0 16;
        avx2_encode_with_offsets arch address store_mode encode_96_shifted_asm_custom
          input output (broadcastsi128 offsets) })"

section \<open>Blocks write the text of their groups\<close>

lemma shuffle_SPREAD_24:
  assumes "length v = 32"
  shows "shuffle_epi8 v SPREAD_24 = spread (take 24 (drop 4 v))"
proof -
  let ?i = "[5, 4, 6, 5, 8, 7, 9, 8, 11, 10, 12, 11, 14, 13, 15, 14 :: u8]"
  let ?j = "[1, 0, 2, 1, 4, 3, 5, 4, 7, 6, 8, 7, 10, 9, 11, 10 :: u8]"
  obtain g h where v: "v = g @ h" "length g = 16" "length h = 16"
    using assms list_prefix [of 16 v] by auto
  have s: "SPREAD_24 = ?i @ ?j" by (simp add: SPREAD_24_def)
  have "shuffle_epi8 (g @ h) (?i @ ?j) = shuffle_epi8 g ?i @ shuffle_epi8 h ?j"
    by (rule shuffle_epi8_append) (simp_all add: v)
  then show ?thesis
    unfolding v(1) s using v(2,3) by (auto simp: list16 shuffle_epi8_half)
qed

lemma permute_shifts:
  assumes "length v = 32"
  shows "permutevar8x32_epi32 v (set_lanes [0, 0, 1, 2, 3, 4, 5, 6 :: u32]) = take 4 v @ take 28 v"
proof -
  have len: "length (lanes (take 28 v) :: u32 list) = 7" using assms by (simp add: length_lanes)
  have "lanes v = lanes (take 28 v) @ (lanes (drop 28 v) :: u32 list)"
    using lanes_append [of "take 28 v" "drop 28 v", where 'a = 32] assms by simp
  moreover obtain a b c d e f g where l: "lanes (take 28 v) = [a, b, c, d, e, f, g :: u32]"
    using len length_eq_7 by metis
  ultimately have "permutevar8x32_epi32 v (set_lanes [0, 0, 1, 2, 3, 4, 5, 6 :: u32])
      = to_le a @ unlanes (lanes (take 28 v) :: u32 list)"
    by (simp add: permutevar8x32_epi32_def lanes_set_lanes unlanes_def)
  moreover have "unlanes (lanes (take 28 v) :: u32 list) = take 28 v"
    using assms by (simp add: unlanes32_lanes)
  moreover have "a = le_word (take 4 v)"
    using nth_lanes [where 'a = 32 and j = 0 and bs = "take 28 v"] l assms by (simp add: min_def)
  then have "to_le a = take 4 v" using assms by (simp add: to_le_le_word)
  ultimately show ?thesis by simp
qed

text \<open>Two halves of twelve bytes each, translated by the same sixteen offsets.\<close>

lemma ascii_bytes_32:
  assumes o: "offsets_encode offsets table" and s: "list_all (\<lambda>i. i < 64) indices" "length indices = 32"
  shows "ascii_bytes 32 indices (broadcastsi128 offsets) = map (symbol table) indices"
proof -
  obtain g h where v: "indices = g @ h" "length g = 16" "length h = 16"
    using s list_prefix [of 16 indices] by auto
  have g: "list_all (\<lambda>i. i < 64) g" "list_all (\<lambda>i. i < 64) h" using s v by auto
  have "ascii_bytes 32 indices (offsets @ offsets) = ascii_bytes 16 g offsets @ ascii_bytes 16 h offsets"
    unfolding ascii_bytes_def offset_rows [OF s(2)] offset_rows [OF v(2)] offset_rows [OF v(3)]
    using v o by (simp add: shuffle_epi8_append offsets_encode_def add_epi8_def shuffle_epi8_half)
  then show ?thesis
    using ascii_bytes_16 [OF o g(1) v(2)] ascii_bytes_16 [OF o g(2) v(3)] v(1)
    by (simp add: broadcastsi128_def)
qed

lemma group_ascii_32:
  assumes "offsets_encode offsets table" "length xs = 24"
  shows "ascii_bytes 32 (indices_mulhi 8 (spread xs)) (broadcastsi128 offsets) = groups_text table xs"
    and "ascii_bytes 32 (indices_srli 8 (spread xs)) (broadcastsi128 offsets) = groups_text table xs"
  using assms indices_spread [of xs 8]
  by (simp_all add: ascii_bytes_32 sextets_less length_sextets encode_unpadded_spec_def)

lemma avx2_encode_24_shifted_value_groups:
  assumes "offsets_encode offsets table" "length v = 32"
  shows "avx2_encode_24_shifted_value v (broadcastsi128 offsets) = groups_text table (take 24 (drop 4 v))"
  using group_ascii_32(1) [OF assms(1), of "take 24 (drop 4 v)"] shuffle_SPREAD_24 [OF assms(2)] assms(2)
  by (simp add: avx2_encode_24_shifted_value_def avx2_ascii_from_indices_def ascii_bytes_def
      indices_mulhi_def)

lemma avx2_encode_12_eq: "avx2_encode_12 = ssse3_encode_12"
  by (intro ext) (simp add: avx2_encode_12_def ssse3_encode_12_def avx2_ascii_from_indices_128_def
      ssse3_ascii_from_indices_def)

lemma add_epi8_commute: "length v = length w \<Longrightarrow> add_epi8 v w = add_epi8 w v"
  by (induction v w rule: list_induct2) (simp_all add: add_epi8_def add.commute)

lemma length_ascii_bytes: "length indices = n \<Longrightarrow> length (ascii_bytes n indices offsets) \<le> n"
  by (simp add: ascii_bytes_def add_epi8_def)

lemma reshuffle_SPREAD: "reshuffle (encode_constants offsets) = SPREAD_24"
  by (simp add: encode_constants_def SPREAD_24_def)

lemma translated_block:
  assumes o: "offsets_encode offsets table" and v: "length v = 32"
  defines "indices \<equiv> indices_srli 8 (shuffle_epi8 v SPREAD_24)"
  shows "add_epi8 indices (shuffle_epi8 (broadcastsi128 offsets) (sub_epi8 (subs_epu8 indices
      (set1 32 (51 :: u8))) (cmpgt_epi8 indices (set1 32 (25 :: u8))))) = groups_text table (take 24 (drop 4 v))"
proof -
  let ?s = "shuffle_epi8 (broadcastsi128 offsets) (sub_epi8 (subs_epu8 indices (set1 32 (51 :: u8)))
    (cmpgt_epi8 indices (set1 32 (25 :: u8))))"
  have i: "indices = sextets (take 24 (drop 4 v))"
    using indices_spread(2) [of "take 24 (drop 4 v)" 8] v by (simp add: indices_def shuffle_SPREAD_24)
  have "add_epi8 ?s indices = groups_text table (take 24 (drop 4 v))"
    using group_ascii_32(2) [OF o, of "take 24 (drop 4 v)"] v
    by (simp add: ascii_bytes_def indices_def shuffle_SPREAD_24)
  moreover have "length ?s = length indices"
  proof -
    have "length indices = 32" using v by (simp add: i length_sextets)
    moreover have "length (groups_text table (take 24 (drop 4 v))) = 32"
      using v by (simp add: length_groups_text)
    ultimately have "length (add_epi8 ?s indices) = 32"
      using \<open>add_epi8 ?s indices = _\<close> by simp
    then have "32 \<le> length ?s" by (simp add: add_epi8_def)
    moreover have "length ?s \<le> 32"
      using o \<open>length indices = 32\<close>
      by (simp add: offset_rows shuffle_epi8_def halves2_def broadcastsi128_def offsets_encode_def
          chunks_append1 chunks.simps)
    ultimately show ?thesis using \<open>length indices = 32\<close> by simp
  qed
  ultimately show ?thesis by (simp add: add_epi8_commute)
qed

lemma encode_96_values_groups:
  assumes "offsets_encode offsets table" "length v = 32"
  shows "encode_96_values v (encode_constants (broadcastsi128 offsets)) = groups_text table (take 24 (drop 4 v))"
  using translated_block [OF assms]
  by (simp add: encode_96_values_def reshuffle_SPREAD Let_def)
    (simp add: encode_constants_def indices_srli_def)

lemma or_si_commute: "or_si v w = or_si w v"
proof (induction v arbitrary: w)
  case (Cons a v)
  then show ?case by (cases w) (simp_all add: or_si_def or.commute)
qed (simp add: or_si_def)

lemma encode_96_asm_body_groups:
  assumes "offsets_encode offsets table"
    "length v0 = 32" "length v1 = 32" "length v2 = 32" "length v3 = 32"
  shows "encode_96_asm_body (broadcastsi128 offsets) v0 v1 v2 v3
    = map (\<lambda>v. groups_text table (take 24 (drop 4 v))) [v0, v1, v2, v3]"
  using translated_block [OF assms(1,2)] translated_block [OF assms(1,3)]
    translated_block [OF assms(1,4)] translated_block [OF assms(1,5)]
  by (simp add: encode_96_asm_body_def Let_def or_si_commute [of "mullo_epi16 (and_si _ _) _"]
      flip: indices_srli_def)

section \<open>Groups of 96 bytes\<close>

text \<open>The text that the loads from offset \<open>i\<close> on stand for: they start four bytes early.\<close>

definition shifted_text :: "bytes \<Rightarrow> bytes \<Rightarrow> nat \<Rightarrow> nat \<Rightarrow> bytes" where
  "shifted_text table input i m = groups_text table (take m (drop (i + 4) input))"

lemma length_shifted_text:
  "i + 4 + m \<le> length input \<Longrightarrow> 3 dvd m \<Longrightarrow> length (shifted_text table input i m) = m div 3 * 4"
  by (simp add: shifted_text_def length_groups_text min_absorb2)

lemma shifted_text_add:
  "i + 4 + m \<le> length input \<Longrightarrow> 3 dvd m \<Longrightarrow>
   shifted_text table input i (m + n) = shifted_text table input i m @ shifted_text table input (i + m) n"
  by (simp add: shifted_text_def groups_text_take add.commute add.left_commute add.assoc)

lemma shifted_block:
  "i + 32 \<le> length input \<Longrightarrow>
   groups_text table (take 24 (drop 4 (take 32 (drop i input)))) = shifted_text table input i 24"
  by (simp add: shifted_text_def drop_take add.commute)

lemma shifted_text_96:
  "i + 104 \<le> length input \<Longrightarrow>
   shifted_text table input i 96 = shifted_text table input i 24 @ shifted_text table input (i + 24) 24
     @ shifted_text table input (i + 48) 24 @ shifted_text table input (i + 72) 24"
  using shifted_text_add [of i 24 input table 72] shifted_text_add [of "i + 24" 24 input table 48]
    shifted_text_add [of "i + 48" 24 input table 24]
  by (simp add: add.assoc)

lemma encode_24_constants_groups:
  assumes "offsets_encode offsets table" "i + 32 \<le> length input"
  shows "encode_24_constants input i (encode_constants (broadcastsi128 offsets))
    = Some (shifted_text table input i 24)"
  using assms shifted_block [of i input table]
  by (simp add: encode_24_constants_def slice_simps encode_96_values_groups)

lemma stream_aligned: "(address + d) mod 32 = 0 \<Longrightarrow> stream_si256 address m d v = store m d v"
  by (simp add: stream_si256_def)

lemma store_four_32:
  assumes "length a = 32" "length b = 32" "length c = 32" "d1 = d + 32" "d2 = d + 64" "d3 = d + 96"
  shows "store m d a \<bind> (\<lambda>m. store m d1 b \<bind> (\<lambda>m. store m d2 c \<bind>
      (\<lambda>m. store m d3 e \<bind> f))) = store m d (a @ b @ c @ e) \<bind> f"
    and "store m d a \<bind> (\<lambda>m. store m d1 b \<bind> (\<lambda>m. store m d2 c \<bind>
      (\<lambda>m. store m d3 e))) = store m d (a @ b @ c @ e)"
  using store_four_blocks [of a 32 b c 64 96 m d e] assms store_four_blocks [of a 32 b c 64 96 m d e Some]
  by simp_all

lemma encode_96_streaming_group_groups:
  assumes o: "offsets_encode offsets table" and "(address + d) mod 32 = 0" "i + 104 \<le> length input"
  shows "encode_96_streaming_group input address (encode_constants (broadcastsi128 offsets)) i d m
    = store m d (shifted_text table input i 96)"
proof -
  let ?t = "\<lambda>k. shifted_text table input (i + k) 24"
  have al: "(address + (d + 32 * k)) mod 32 = 0" for k using assms(2) by presburger
  have l: "length (?t k) = 32" if "k \<le> 72" for k
    using assms(3) that by (simp add: length_shifted_text)
  show ?thesis
    using assms al [of 1] al [of 2] al [of 3] l [of 0] l [of 24] l [of 48]
    by (simp add: encode_96_streaming_group_def encode_24_constants_groups stream_aligned
        store_four_32 shifted_text_96)
qed

lemma encode_96_streaming_loop_groups:
  assumes o: "offsets_encode offsets table" and "(address + d) mod 32 = 0"
    and "i + 96 * groups + 8 \<le> length input"
  shows "encode_96_streaming_loop input address (encode_constants (broadcastsi128 offsets)) groups i d m
    = (if groups = 0 then Some m else store m d (shifted_text table input i (96 * groups)))"
  using assms(2,3)
proof (induction groups arbitrary: i d m rule: induct_nat_012)
  case 1
  then show ?case by (simp add: encode_96_streaming_group_groups [OF o])
next
  case (ge2 n)
  have al: "(address + (d + 128)) mod 32 = 0" "(address + (d + 256)) mod 32 = 0"
    using ge2.prems(1) by presburger+
  let ?A = "shifted_text table input i 96" and ?B = "shifted_text table input (i + 96) 96"
  let ?C = "shifted_text table input (i + 192) (96 * n)"
  have lA: "length ?A = 128" "length ?B = 128"
    using ge2.prems(2) by (simp_all add: length_shifted_text)
  have IH: "encode_96_streaming_loop input address (encode_constants (broadcastsi128 offsets)) n (i + 192) (d + 256)
    = (\<lambda>m. if n = 0 then Some m else store m (d + 256) ?C)"
    using ge2.IH(1) [of "d + 256" "i + 192"] al ge2.prems(2) by (intro ext) simp
  have "encode_96_streaming_loop input address (encode_constants (broadcastsi128 offsets)) (Suc (Suc n)) i d m
    = store m d ?A \<bind> (\<lambda>m. store m (d + 128) ?B \<bind> (\<lambda>m. if n = 0 then Some m else store m (d + 256) ?C))"
    using ge2.prems al by (simp add: encode_96_streaming_group_groups [OF o] IH)
  also have "\<dots> = store m d (?A @ ?B @ ?C)"
    using lA store_store [of "?A @ ?B" 256 m d ?C]
    by (cases "n = 0") (simp_all add: store_store shifted_text_def [of _ _ _ 0] flip: bind_assoc)
  also have "?A @ ?B @ ?C = shifted_text table input i (96 * Suc (Suc n))"
    using shifted_text_add [of i 96 input table "96 + 96 * n"]
      shifted_text_add [of "i + 96" 96 input table "96 * n"] ge2.prems(2)
    by (simp add: add.commute [of i])
  finally show ?case by simp
qed simp

lemma encode_96_asm_iteration_groups:
  assumes o: "offsets_encode offsets table" and "i + 104 \<le> length input"
  shows "encode_96_asm_iteration input (broadcastsi128 offsets) i d m = store m d (shifted_text table input i 96)"
proof -
  let ?t = "\<lambda>k. shifted_text table input (i + k) 24"
  have l: "length (?t k) = 32" if "k \<le> 72" for k
    using assms(2) that by (simp add: length_shifted_text)
  have b: "groups_text table (take 24 (drop 4 (take 32 (drop (i + k) input)))) = ?t k" if "k \<le> 72" for k
    using shifted_block [of "i + k" input table] assms(2) that by simp
  show ?thesis
    using assms l [of 0] l [of 24] l [of 48] b [of 0] b [of 24] b [of 48] b [of 72]
    by (simp add: encode_96_asm_iteration_def slice_simps encode_96_asm_body_groups store_four_32
        shifted_text_96)
qed

lemma encode_96_asm_loop_groups:
  assumes o: "offsets_encode offsets table" and "0 < groups" "i + 96 * groups + 8 \<le> length input"
  shows "encode_96_asm_loop input (broadcastsi128 offsets) groups i d m
    = store m d (shifted_text table input i (96 * groups))"
  using assms(2,3)
proof (induction groups arbitrary: i d m)
  case (Suc n)
  have one: "encode_96_asm_iteration input (broadcastsi128 offsets) i d m = store m d (shifted_text table input i 96)"
    using Suc.prems by (intro encode_96_asm_iteration_groups [OF o]) simp
  show ?case
  proof (cases "n = 0")
    case True
    then show ?thesis using one by simp
  next
    case False
    have IH: "encode_96_asm_loop input (broadcastsi128 offsets) n (i + 96) (d + 128)
        = (\<lambda>m. store m (d + 128) (shifted_text table input (i + 96) (96 * n)))"
      by (intro ext Suc.IH) (use False Suc.prems in simp_all)
    have "length (shifted_text table input i 96) = 128"
      using Suc.prems by (simp add: length_shifted_text)
    then show ?thesis
      using False one IH shifted_text_add [of i 96 input table "96 * n"] Suc.prems
      by (simp add: store_store)
  qed
qed simp

section \<open>The kernel keeps the contract\<close>

text \<open>A kernel for groups of 96 bytes: the assembly loop at an offset where its loads fit.\<close>

definition encodes_groups :: "encode_96_kernel \<Rightarrow> bytes \<Rightarrow> bytes \<Rightarrow> bool" where
  "encodes_groups encode_96 offsets table \<longleftrightarrow> (\<forall>input i m d groups.
     0 < groups \<longrightarrow> i + 96 * groups + 8 \<le> length input \<longrightarrow>
     encode_96 input i m d groups (broadcastsi128 offsets) = store m d (shifted_text table input i (96 * groups)))"

lemma take_16_broadcast: "length offsets = 16 \<Longrightarrow> take 16 (broadcastsi128 offsets) = offsets"
  by (simp add: broadcastsi128_def)

lemma raw_emit_text:
  "i + 4 + m \<le> length input \<Longrightarrow> 3 dvd m \<Longrightarrow> 0 < m \<Longrightarrow>
   raw_emit (groups_text table (take m (drop (i + 4) input))) (d, o')
     = store o' d (shifted_text table input i m) \<bind> (\<lambda>o'. Some (d + m div 3 * 4, o'))"
  unfolding shifted_text_def
  by (rule raw_emit_length) (auto simp: length_groups_text min_absorb2 elim!: dvdE)

lemma group_step:
  assumes "offsets_encode offsets table" "encodes_groups encode_96 offsets table"
    and "0 < g" "i + 96 * g + 8 \<le> length input" "store_mode = Streaming \<Longrightarrow> (address + d) mod 32 = 0"
  shows "(if store_mode = Streaming
      then encode_96_shifted_streaming address input i m d g (broadcastsi128 offsets)
      else encode_96 input i m d g (broadcastsi128 offsets)) = store m d (shifted_text table input i (96 * g))"
  using assms by (auto simp: encode_96_shifted_streaming_def encode_96_streaming_loop_groups encodes_groups_def)

lemma groups_fit:
  assumes "i + 8 \<le> n"
  shows "i + 96 * ((n - i - 8) div 96) + 8 \<le> (n :: nat)"
  using assms div_times_less_eq_dividend [of "n - i - 8" 96] by (simp add: mult.commute)

lemma encode_avx2_groups_progress:
  assumes o: "offsets_encode offsets table" and e: "encodes_groups encode_96 offsets table"
    and len: "32 \<le> length input" and al: "store_mode = Streaming \<Longrightarrow> address mod 16 = 0"
  shows "\<exists>k. 3 dvd k \<and> 24 + k \<le> length input
    \<and> (\<forall>o'. encode_avx2_groups address store_mode encode_96 input (broadcastsi128 offsets) 20 (32, o')
        = raw_emit (groups_text table (take k (drop 24 input))) (32, o') \<bind> (\<lambda>s. Some (20 + k, s)))"
proof (cases "2 \<le> (length input - 28) div 96")
  case False
  then show ?thesis
    using len by (intro exI [of _ 0]) (simp add: encode_avx2_groups_def raw_emit_Nil Let_def)
next
  case True
  have off: "length offsets = 16" using o by (simp add: offsets_encode_def)
  show ?thesis
  proof (cases "address mod 32 = 16")
    case False
    define g where "g = (length input - 28) div 96"
    have g: "0 < g" "20 + 96 * g + 8 \<le> length input"
      using groups_fit [of 20 "length input"] len True by (simp_all add: g_def)
    have st: "(address + 32) mod 32 = 0" if "store_mode = Streaming" using al [OF that] False by presburger
    have "encode_avx2_groups address store_mode encode_96 input (broadcastsi128 offsets) 20 (32, o')
        = store o' 32 (shifted_text table input 20 (96 * g)) \<bind> (\<lambda>m. Some (20 + 96 * g, 32 + 128 * g, m))" for o'
      using True False len group_step [OF o e g, of store_mode address 32 o'] st
      by (auto simp: encode_avx2_groups_def Let_def mult.commute simp flip: g_def)
    moreover have "raw_emit (groups_text table (take (96 * g) (drop 24 input))) (32, o')
        = store o' 32 (shifted_text table input 20 (96 * g)) \<bind> (\<lambda>m. Some (32 + 128 * g, m))" for o'
      using raw_emit_text [of 20 "96 * g" input table 32 o'] g by simp
    ultimately show ?thesis
      using g by (intro exI [of _ "96 * g"]) (simp add: bind_assoc)
  next
    case al16: True
    define g where "g = (length input - 40) div 96"
    have "192 \<le> length input - 28" using True by simp
    then have big: "220 \<le> length input" by simp
    have g: "0 < g" "32 + 96 * g + 8 \<le> length input"
      using groups_fit [of 32 "length input"] big by (simp_all add: g_def div_greater_zero_iff)
    have st: "(address + 48) mod 32 = 0" if "store_mode = Streaming" using al16 by presburger
    have 12: "avx2_encode_12 input 24 (take 16 (broadcastsi128 offsets)) = Some (groups_text table (take 12 (drop 24 input)))"
      using o big ssse3_encode_12_groups [of offsets table 24 input]
      by (simp add: avx2_encode_12_eq take_16_broadcast off)
    have "length (groups_text table (take 12 (drop 24 input))) = 16"
      using big by (simp add: length_groups_text)
    then have r12: "raw_emit (groups_text table (take 12 (drop 24 input))) (32, o')
        = store o' 32 (groups_text table (take 12 (drop 24 input))) \<bind> (\<lambda>m. Some (48, m))" for o'
      by (simp add: raw_emit_length [where n = 16])
    have "encode_avx2_groups address store_mode encode_96 input (broadcastsi128 offsets) 20 (32, o')
        = raw_emit (groups_text table (take (12 + 96 * g) (drop 24 input))) (32, o') \<bind> (\<lambda>s. Some (32 + 96 * g, s))" for o'
    proof -
      have "encode_avx2_groups address store_mode encode_96 input (broadcastsi128 offsets) 20 (32, o')
        = store o' 32 (groups_text table (take 12 (drop 24 input)))
            \<bind> (\<lambda>m. store m 48 (shifted_text table input 32 (96 * g)) \<bind> (\<lambda>m. Some (32 + 96 * g, 48 + 128 * g, m)))"
        using True al16 big 12 group_step [OF o e g, of store_mode address "32 + 16"] st
        by (auto simp: encode_avx2_groups_def Let_def mult.commute simp flip: g_def)
      also have "\<dots> = (raw_emit (groups_text table (take 12 (drop 24 input))) (32, o')
          \<bind> raw_emit (groups_text table (take (96 * g) (drop 12 (drop 24 input))))) \<bind> (\<lambda>s. Some (32 + 96 * g, s))"
        using raw_emit_text [of 32 "96 * g" input table 48] g
        by (simp add: r12 bind_assoc)
      also have "raw_emit (groups_text table (take 12 (drop 24 input))) (32, o')
          \<bind> raw_emit (groups_text table (take (96 * g) (drop 12 (drop 24 input))))
          = raw_emit (groups_text table (take (12 + 96 * g) (drop 24 input))) (32, o')"
        using big by (intro raw.emit_groups) simp_all
      finally show ?thesis .
    qed
    then show ?thesis using g by (intro exI [of _ "12 + 96 * g"]) (simp add: dvd_add)
  qed
qed

lemma wide_loop_emits:
  assumes o: "offsets_encode offsets table" and "i + 104 \<le> length input"
  shows "encode_avx2_wide_loop input (broadcastsi128 offsets) i s
    = raw_emit (groups_text table (take 96 (drop i (drop 4 input)))) s"
proof -
  let ?t = "\<lambda>k. shifted_text table input (i + k) 24"
  have l: "length (?t k) = 32" if "k \<le> 72" for k
    using assms(2) that by (simp add: length_shifted_text)
  have b: "avx2_encode_24_shifted input (i + k) (broadcastsi128 offsets) = Some (?t k)" if "k \<le> 72" for k
    using shifted_block [of "i + k" input table] assms that
    by (simp add: avx2_encode_24_shifted_def slice_simps avx2_encode_24_shifted_value_groups)
  obtain d m where s: "s = (d, m)" by (cases s)
  have "raw_emit (groups_text table (take 96 (drop i (drop 4 input)))) s
      = store m d (shifted_text table input i 96) \<bind> (\<lambda>m. Some (d + 128, m))"
    using raw_emit_text [of i 96 input table d m] assms(2) s by (simp add: add.commute)
  then show ?thesis
    using b [of 0] b [of 24] b [of 48] b [of 72] l [of 0] l [of 24] l [of 48] assms(2) s
    by (simp add: encode_avx2_wide_loop_def store_four_32 shifted_text_96)
qed

lemma narrow_loop_emits:
  assumes o: "offsets_encode offsets table" and "i + 32 \<le> length input"
  shows "encode_avx2_narrow_loop input (broadcastsi128 offsets) i s
    = raw_emit (groups_text table (take 24 (drop i (drop 4 input)))) s"
proof -
  obtain d m where s: "s = (d, m)" by (cases s)
  have "raw_emit (groups_text table (take 24 (drop i (drop 4 input)))) s
      = store m d (shifted_text table input i 24) \<bind> (\<lambda>m. Some (d + 32, m))"
    using raw_emit_text [of i 24 input table d m] assms(2) s by (simp add: add.commute)
  then show ?thesis
    using shifted_block [of i input table] assms s
    by (simp add: encode_avx2_narrow_loop_def avx2_encode_24_shifted_def slice_simps
        avx2_encode_24_shifted_value_groups)
qed

lemma avx2_body:
  assumes o: "offsets_encode offsets table" and e: "encodes_groups encode_96 offsets table"
    and len: "32 \<le> length input" and al: "store_mode = Streaming \<Longrightarrow> address mod 16 = 0"
  shows "\<exists>k. 3 dvd k \<and> 24 + k \<le> length input
    \<and> (\<forall>m. (if arch = Arch_X86_64
          then encode_avx2_groups address store_mode encode_96 input (broadcastsi128 offsets) 20 (32, m)
          else scan_while (length input) 104 96 (encode_avx2_wide_loop input (broadcastsi128 offsets)) 20 (32, m))
        = raw_emit (groups_text table (take k (drop 24 input))) (32, m) \<bind> (\<lambda>s. Some (20 + k, s)))"
proof (cases "arch = Arch_X86_64")
  case True
  then show ?thesis using encode_avx2_groups_progress [OF o e len al] by simp
next
  case False
  let ?k = "passes (length input) 104 96 20 * 96"
  have "scan_while (length input) 104 96 (encode_avx2_wide_loop input (broadcastsi128 offsets)) 20 s
      = raw_emit (groups_text table (take ?k (drop 20 (drop 4 input)))) s \<bind> (\<lambda>s. Some (20 + ?k, s))" for s
    by (rule raw.emit_loop) (auto simp: wide_loop_emits [OF o])
  then show ?thesis
    using False len passes_bound [of 20 "length input" 104 96] by (intro exI [of _ ?k]) auto
qed

lemma avx2_encode_with_offsets_groups:
  assumes o: "offsets_encode offsets table" and e: "encodes_groups encode_96 offsets table"
    and len: "32 \<le> length input" and al: "store_mode = Streaming \<Longrightarrow> address mod 16 = 0"
  shows "\<exists>n. 3 dvd n \<and> n \<le> length input
    \<and> avx2_encode_with_offsets arch address store_mode encode_96 input output (broadcastsi128 offsets)
      = store output 0 (groups_text table (take n input)) \<bind> (\<lambda>m. Some (n, m))"
proof -
  let ?g = "\<lambda>n. raw_emit (groups_text table (take n input)) (0, output)"
  have first: "avx2_encode_24_first input (broadcastsi128 offsets) = Some (groups_text table (take 24 input))"
    using len avx2_encode_24_shifted_value_groups [OF o, of "take 4 input @ take 28 input"]
    by (simp add: avx2_encode_24_first_def slice_simps permute_shifts min_def)
  have g24: "?g 24 = store output 0 (groups_text table (take 24 input)) \<bind> (\<lambda>m. Some (32, m))"
    using len by (simp add: raw_emit_length [where n = 32] length_groups_text)
  obtain k where k: "3 dvd k" "24 + k \<le> length input"
    and body: "\<And>m. (if arch = Arch_X86_64
          then encode_avx2_groups address store_mode encode_96 input (broadcastsi128 offsets) 20 (32, m)
          else scan_while (length input) 104 96 (encode_avx2_wide_loop input (broadcastsi128 offsets)) 20 (32, m))
        = raw_emit (groups_text table (take k (drop 24 input))) (32, m) \<bind> (\<lambda>s. Some (20 + k, s))"
    using avx2_body [OF o e len al] by blast
  let ?p = "passes (length input) 32 24 (20 + k) * 24"
  have p: "24 + k + ?p \<le> length input" "3 dvd ?p"
    using passes_bound [of "20 + k" "length input" 32 24] k by auto
  have narrow: "scan_while (length input) 32 24 (encode_avx2_narrow_loop input (broadcastsi128 offsets)) (20 + k) s
      = raw_emit (groups_text table (take ?p (drop (24 + k) input))) s \<bind> (\<lambda>s. Some (20 + k + ?p, s))" for s
  proof -
    have "scan_while (length input) 32 24 (encode_avx2_narrow_loop input (broadcastsi128 offsets)) (20 + k) s
      = raw_emit (groups_text table (take ?p (drop (20 + k) (drop 4 input)))) s \<bind> (\<lambda>s. Some (20 + k + ?p, s))"
      by (rule raw.emit_loop) (auto simp: narrow_loop_emits [OF o])
    then show ?thesis by (simp add: ac_simps)
  qed
  let ?tail = "\<lambda>(i, d, m). if i + 4 + 16 \<le> length input then do {
          encoded \<leftarrow> avx2_encode_12 input (i + 4) (take 16 (broadcastsi128 offsets));
          output \<leftarrow> store m d encoded;
          Some (i + 4 + 12, output) }
        else Some (i + 4, m)"
  have "avx2_encode_with_offsets arch address store_mode encode_96 input output (broadcastsi128 offsets)
    = ((?g 24 \<bind> raw_emit (groups_text table (take k (drop 24 input))))
        \<bind> raw_emit (groups_text table (take ?p (drop (24 + k) input)))) \<bind> (\<lambda>s. ?tail (20 + k + ?p, s))"
    by (simp add: avx2_encode_with_offsets_def first g24 body narrow bind_assoc split_def Let_def)
  also have "?g 24 \<bind> raw_emit (groups_text table (take k (drop 24 input))) = ?g (24 + k)"
    using len by (intro raw.emit_groups) simp_all
  also have "?g (24 + k) \<bind> raw_emit (groups_text table (take ?p (drop (24 + k) input))) = ?g (24 + k + ?p)"
    using k by (intro raw.emit_groups) (simp_all add: dvd_add)
  finally have main: "avx2_encode_with_offsets arch address store_mode encode_96 input output (broadcastsi128 offsets)
    = ?g (24 + k + ?p) \<bind> (\<lambda>s. ?tail (20 + k + ?p, s))" .
  define N where "N = 24 + k + ?p"
  have N: "20 + k + ?p + 4 = N" "3 dvd N" "N \<le> length input" using k p by (simp_all add: N_def dvd_add)
  show ?thesis
  proof (cases "N + 16 \<le> length input")
    case False
    then show ?thesis
      using main N by (intro exI [of _ N]) (simp add: split_def raw_emit_start flip: N_def)
  next
    case True
    have off: "length offsets = 16" using o by (simp add: offsets_encode_def)
    have 12: "avx2_encode_12 input N (take 16 (broadcastsi128 offsets)) = Some (groups_text table (take 12 (drop N input)))"
      using ssse3_encode_12_groups [OF o True] by (simp add: avx2_encode_12_eq take_16_broadcast off)
    have e12: "store m d (groups_text table (take 12 (drop N input))) \<bind> (\<lambda>m. Some (N + 12, m))
        = raw_emit (groups_text table (take 12 (drop N input))) (d, m) \<bind> (\<lambda>s. Some (N + 12, snd s))" for d m
      using True by (simp add: raw_emit_length [where n = 16] length_groups_text bind_assoc)
    have "avx2_encode_with_offsets arch address store_mode encode_96 input output (broadcastsi128 offsets)
      = (?g N \<bind> raw_emit (groups_text table (take 12 (drop N input)))) \<bind> (\<lambda>s. Some (N + 12, snd s))"
      using main N True by (simp add: split_def 12 e12 bind_assoc flip: N_def)
    also have "?g N \<bind> raw_emit (groups_text table (take 12 (drop N input))) = ?g (N + 12)"
      using N by (intro raw.emit_groups) simp_all
    finally show ?thesis
      using N True by (intro exI [of _ "N + 12"]) (simp add: raw_emit_start dvd_add)
  qed
qed

lemma avx2_standard_offsets_eq:
  "avx2_standard_offsets_128 u = ssse3_standard_offsets u"
  "avx2_standard_offsets_256 u = broadcastsi128 (ssse3_standard_offsets u)"
  by (simp_all add: avx2_standard_offsets_256_def avx2_standard_offsets_128_def ssse3_standard_offsets_def)

lemma asm_encodes_groups:
  "encodes_groups (encode_96_shifted_asm u) (ssse3_standard_offsets u) (alphabet_of u)"
  "offsets_encode offsets table \<Longrightarrow> encodes_groups encode_96_shifted_asm_custom offsets table"
  by (auto simp: encodes_groups_def encode_96_shifted_asm_def encode_96_shifted_asm_custom_def
      avx2_standard_offsets_eq encode_96_asm_loop_groups standard_offsets_encode)

lemma avx2_encode_with_store_groups:
  assumes "cpu Ssse3" and "store_mode = Streaming \<Longrightarrow> address mod 16 = 0"
  shows "\<exists>n. 3 dvd n \<and> n \<le> length input \<and> avx2_encode_with_store arch cpu address u store_mode input output
    = store output 0 (groups_text (alphabet_of u) (take n input)) \<bind> (\<lambda>m. Some (n, m))"
proof (cases "length input < 32")
  case True
  then show ?thesis using assms(1) ssse3.kernel_emits [of input u "output"] by (simp add: avx2_encode_with_store_def)
next
  case False
  then show ?thesis
    using avx2_encode_with_offsets_groups [OF standard_offsets_encode asm_encodes_groups(1) _ assms(2)]
    by (simp add: avx2_encode_with_store_def avx2_standard_offsets_eq)
qed

lemma avx2_encode_custom_groups:
  assumes "cpu Ssse3" and "store_mode = Streaming \<Longrightarrow> address mod 16 = 0"
    and t: "take 62 table = take 62 STANDARD_ALPHABET" "length table = 64"
  shows "\<exists>n. 3 dvd n \<and> n \<le> length input
    \<and> avx2_encode_custom arch cpu address (custom_offsets (custom_from_table table)) store_mode input output
      = store output 0 (groups_text table (take n input)) \<bind> (\<lambda>m. Some (n, m))"
proof (cases "length input < 32")
  case True
  then show ?thesis using assms(1) ssse3_encode_custom_groups [OF t] by (simp add: avx2_encode_custom_def)
next
  case False
  note o = custom_offsets_encode [OF t]
  then have "slice (custom_offsets (custom_from_table table)) 0 16 = Some (custom_offsets (custom_from_table table))"
    by (simp add: slice_simps offsets_encode_def)
  then show ?thesis
    using False avx2_encode_with_offsets_groups [OF o asm_encodes_groups(2) [OF o] _ assms(2)]
    by (simp add: avx2_encode_custom_def)
qed

text \<open>On a processor with SSSE3 the kernel keeps the contract, at every output address.\<close>

interpretation avx2_cached: encode_kernel
  "avx2_encode_with_store arch (\<lambda>_. True) address u Cached" "alphabet_of u" for arch address u
  by unfold_locales (rule avx2_encode_with_store_groups, simp_all)

interpretation avx2_streaming: encode_kernel
  "avx2_encode_with_store arch (\<lambda>_. True) (16 * line) u Streaming" "alphabet_of u" for arch line u
  by unfold_locales (rule avx2_encode_with_store_groups, simp_all)

end
