(* ===== verification/Base64_Encode_Avx512.thy ===== *)
theory Base64_Encode_Avx512
  imports Base64_Encode_Avx2
begin

text \<open>
  The AVX-512 VBMI encoding kernel, \<open>src/base64/encode/avx512.rs\<close>: one byte permutation, one
  multi-shift and one table look-up for 48 bytes; masked loads and stores take the last complete
  groups, so that fewer than three bytes remain for the scalar encoder.  Inputs under 48 bytes
  go to the AVX2 kernel.
\<close>

definition INPUT_MASK_48 :: u64 where
  "INPUT_MASK_48 = push_bit 48 1 - 1"

definition ENCODE_SHUFFLE :: bytes where
  "ENCODE_SHUFFLE = fold (\<lambda>group shuffle.
     let input = group * 3; out = group * 4 in
     (((shuffle[out := of_nat (input + 1)])
        [out + 1 := of_nat input])
        [out + 2 := of_nat (input + 2)])
        [out + 3 := of_nat (input + 1)]) [0..<16] (replicate 64 0)"

definition MULTISHIFT_SHIFTS :: bytes where
  "MULTISHIFT_SHIFTS = [10, 4, 22, 16, 42, 36, 54, 48]"

text \<open>\<open>_mm512_set1_epi64(i64::from_le_bytes(MULTISHIFT_SHIFTS))\<close>\<close>

definition avx512_shifts :: bytes where
  "avx512_shifts = set1 8 (le_word MULTISHIFT_SHIFTS :: u64)"

definition avx512_encode_48_value :: "bytes \<Rightarrow> nat \<Rightarrow> bytes \<Rightarrow> bytes \<Rightarrow> bytes \<Rightarrow> bytes option" where
  "avx512_encode_48_value input source shuffle shifts table =
     do {
       input \<leftarrow> maskz_loadu_epi8 INPUT_MASK_48 input source;
       let shuffled = permutexvar_epi8 shuffle input;
       let indices = multishift_epi64_epi8 shifts shuffled;
       Some (permutexvar_epi8 indices table)
     }"

definition avx512_encode_48 ::
  "bytes \<Rightarrow> nat \<Rightarrow> bytes \<Rightarrow> bytes \<Rightarrow> bytes \<Rightarrow> bytes \<Rightarrow> nat \<Rightarrow> bytes option" where
  "avx512_encode_48 input source shuffle shifts table output destination =
     do {
       encoded \<leftarrow> avx512_encode_48_value input source shuffle shifts table;
       store output destination encoded
     }"

definition avx512_encode_tail_value ::
  "bytes \<Rightarrow> nat \<Rightarrow> nat \<Rightarrow> bytes \<Rightarrow> bytes \<Rightarrow> bytes \<Rightarrow> bytes option" where
  "avx512_encode_tail_value input source input_len shuffle shifts table =
     do {
       guard (input_len < 64);
       let input_mask = push_bit input_len 1 - 1;
       input \<leftarrow> maskz_loadu_epi8 input_mask input source;
       let shuffled = permutexvar_epi8 shuffle input;
       let indices = multishift_epi64_epi8 shifts shuffled;
       Some (permutexvar_epi8 indices table)
     }"

definition avx512_encode_with_table :: "bytes \<Rightarrow> bytes \<Rightarrow> bytes \<Rightarrow> (nat \<times> bytes) option" where
  "avx512_encode_with_table input output table =
     do {
       shuffle \<leftarrow> slice ENCODE_SHUFFLE 0 64;
       let shifts = avx512_shifts;
       (source, state) \<leftarrow> scan_while (length input) 192 192 (\<lambda>source (destination, output). do {
           output \<leftarrow> avx512_encode_48 input source shuffle shifts table output destination;
           output \<leftarrow> avx512_encode_48 input (source + 48) shuffle shifts table output (destination + 64);
           output \<leftarrow> avx512_encode_48 input (source + 96) shuffle shifts table output (destination + 128);
           output \<leftarrow> avx512_encode_48 input (source + 144) shuffle shifts table output (destination + 192);
           Some (destination + 256, output) }) 0 (0, output);
       (source, destination, output) \<leftarrow> scan_while (length input) 48 48 (\<lambda>source (destination, output). do {
           output \<leftarrow> avx512_encode_48 input source shuffle shifts table output destination;
           Some (destination + 64, output) }) source state;
       let remaining = length input - source;
       let complete_input = remaining div 3 * 3;
       output \<leftarrow>
         (if complete_input \<noteq> 0 then do {
            encoded \<leftarrow> avx512_encode_tail_value input source complete_input shuffle shifts table;
            let complete_output = complete_input div 3 * 4;
            guard (complete_output < 64);
            let output_mask = push_bit complete_output 1 - 1;
            mask_storeu_epi8 output destination output_mask encoded }
          else Some output);
       Some (source + complete_input, output)
     }"

definition avx512_encode ::
  "target_arch \<Rightarrow> (cpu_feature \<Rightarrow> bool) \<Rightarrow> nat \<Rightarrow> bool \<Rightarrow> bytes \<Rightarrow> bytes \<Rightarrow> (nat \<times> bytes) option" where
  "avx512_encode arch cpu address urlsafe input output =
     (if length input < 48
      then target_feature cpu [Avx2] (avx2_encode_with_store arch cpu address urlsafe Cached input output)
      else do {
        table \<leftarrow> slice (alphabet_of urlsafe) 0 64;
        avx512_encode_with_table input output table })"

definition avx512_encode_custom ::
  "target_arch \<Rightarrow> (cpu_feature \<Rightarrow> bool) \<Rightarrow> nat \<Rightarrow> custom_encode_alphabet \<Rightarrow> bytes \<Rightarrow> bytes
    \<Rightarrow> (nat \<times> bytes) option" where
  "avx512_encode_custom arch cpu address alphabet input output =
     (if length input < 48
      then target_feature cpu [Avx2]
        (avx2_encode_custom arch cpu address (custom_offsets alphabet) Cached input output)
      else do {
        table \<leftarrow> slice (custom_table alphabet) 0 64;
        avx512_encode_with_table input output table })"

section \<open>The register arithmetic\<close>

lemma ENCODE_SHUFFLE_bytes:
  "ENCODE_SHUFFLE = [1, 0, 2, 1, 4, 3, 5, 4, 7, 6, 8, 7, 10, 9, 11, 10, 13, 12, 14, 13, 16, 15, 17, 16,
     19, 18, 20, 19, 22, 21, 23, 22, 25, 24, 26, 25, 28, 27, 29, 28, 31, 30, 32, 31, 34, 33, 35, 34,
     37, 36, 38, 37, 40, 39, 41, 40, 43, 42, 44, 43, 46, 45, 47, 46]"
  by code_simp

lemma spread_nth:
  "length xs = 3 * n \<Longrightarrow> spread xs = concat (map (\<lambda>g. [xs ! (3 * g + 1), xs ! (3 * g), xs ! (3 * g + 2),
     xs ! (3 * g + 1)]) [0..<n])"
proof (induction xs arbitrary: n rule: spread.induct)
  case (1 a b c bs)
  then obtain m where m: "n = Suc m" "length bs = 3 * m" by (cases n) auto
  have "[0..<Suc m] = 0 # map Suc [0..<m]" by (simp add: map_Suc_upt upt_conv_Cons del: upt_Suc)
  then show ?case using 1(1) [OF m(2)] m(1) by (simp add: comp_def del: upt_Suc)
qed (presburger | simp)+

lemma permute_spread:
  assumes "length v = 64"
  shows "permutexvar_epi8 ENCODE_SHUFFLE v = spread (take 48 v)"
proof -
  have "spread (take 48 v) = concat (map (\<lambda>g. [take 48 v ! (3 * g + 1), take 48 v ! (3 * g),
      take 48 v ! (3 * g + 2), take 48 v ! (3 * g + 1)]) [0..<16])"
    using assms by (intro spread_nth) simp
  also have "\<dots> = permutexvar_epi8 ENCODE_SHUFFLE v"
    by (simp add: permutexvar_epi8_def ENCODE_SHUFFLE_bytes upt_rec flip: numeral_2_eq_2)
  finally show ?thesis by simp
qed

text \<open>One 64-bit lane: two groups; the look-up ignores the two bits above an index.\<close>

lemma multishift_lane:
  "map (\<lambda>s. ucast (word_rotr (unat (s AND 63)) (le_word [b, a, c, b, e, d, f, e] :: u64)) AND 63) MULTISHIFT_SHIFTS
   = sextets [a, b, c, d, e, f]"
  by (simp add: MULTISHIFT_SHIFTS_def byte_eq_bits bit_simps byte_high_bits bit_le_word)

text \<open>The whole register, lane by lane.\<close>

lemma length_MULTISHIFT: "length MULTISHIFT_SHIFTS = 8"
  by (simp add: MULTISHIFT_SHIFTS_def)

lemma avx512_shifts_Suc: "set1 (Suc n) (le_word MULTISHIFT_SHIFTS :: u64) = MULTISHIFT_SHIFTS @ set1 n (le_word MULTISHIFT_SHIFTS :: u64)"
  by (simp add: set1_Suc to_le_le_word MULTISHIFT_SHIFTS_def)

lemma multishift_Suc:
  "length q = 8 \<Longrightarrow> multishift_epi64_epi8 (set1 (Suc n) (le_word MULTISHIFT_SHIFTS :: u64)) (q @ v)
   = map (\<lambda>s. ucast (word_rotr (unat (s AND 63)) (le_word q :: u64))) MULTISHIFT_SHIFTS
     @ multishift_epi64_epi8 (set1 n (le_word MULTISHIFT_SHIFTS :: u64)) v"
  by (simp add: avx512_shifts_Suc multishift_epi64_epi8_def chunks_append1 length_MULTISHIFT)

lemma multishift_spread:
  "length xs = 6 * n \<Longrightarrow>
   map (\<lambda>i. i AND 63) (multishift_epi64_epi8 (set1 n (le_word MULTISHIFT_SHIFTS :: u64)) (spread xs)) = sextets xs"
proof (induction n arbitrary: xs)
  case 0
  then show ?case by (simp add: multishift_epi64_epi8_def)
next
  case (Suc n)
  have "6 \<le> length xs" using Suc.prems by simp
  then obtain a b c d e f ys where xs: "xs = [a, b, c, d, e, f] @ ys"
    by (metis list_prefix length_eq_6)
  have "spread xs = [b, a, c, b, e, d, f, e] @ spread ys" by (simp add: xs)
  then show ?case
    using Suc.IH [of ys] Suc.prems multishift_lane [of b a c e d f]
    by (simp add: multishift_Suc xs comp_def del: append_Cons append.simps)
      (simp add: sextets_append)
qed

definition vbmi_text :: "bytes \<Rightarrow> bytes \<Rightarrow> bytes" where
  "vbmi_text v table =
     permutexvar_epi8 (multishift_epi64_epi8 avx512_shifts (permutexvar_epi8 ENCODE_SHUFFLE v)) table"

lemma vbmi_text_groups:
  assumes "length v = 64"
  shows "vbmi_text v table = groups_text table (take 48 v)"
proof -
  have "permutexvar_epi8 is table = map (symbol table) (map (\<lambda>i. i AND 63) is)" for "is"
    by (simp add: permutexvar_epi8_def symbol_def)
  then have "vbmi_text v table = map (symbol table) (map (\<lambda>i. i AND 63)
      (multishift_epi64_epi8 avx512_shifts (permutexvar_epi8 ENCODE_SHUFFLE v)))"
    unfolding vbmi_text_def by blast
  also have "\<dots> = map (symbol table) (sextets (take 48 v))"
    using multishift_spread [of "take 48 v" 8] assms by (simp only: avx512_shifts_def permute_spread) simp
  finally show ?thesis by (simp add: encode_unpadded_spec_def)
qed

lemma low_mask_bits: "n < 64 \<Longrightarrow> bit (push_bit n 1 - 1 :: u64) i \<longleftrightarrow> i < n"
  using bit_low_mask [of n i] by (simp add: push_bit_of_1)

lemma avx512_encode_48_value_groups:
  assumes "off + 48 \<le> length input"
  shows "avx512_encode_48_value input off ENCODE_SHUFFLE avx512_shifts table
    = Some (groups_text table (take 48 (drop off input)))"
proof -
  have "maskz_loadu_epi8 INPUT_MASK_48 input off = Some (take 48 (drop off input) @ replicate 16 0)"
    using maskz_loadu_prefix [of INPUT_MASK_48 48 off input] assms
    unfolding INPUT_MASK_48_def by (simp only: low_mask_bits) simp
  then show ?thesis
    using assms vbmi_text_groups [of "take 48 (drop off input) @ replicate 16 0" table]
    by (simp add: avx512_encode_48_value_def vbmi_text_def)
qed

lemma avx512_encode_tail_groups:
  assumes "off + n \<le> length input" "3 dvd n" "n < 48"
  shows "\<exists>e. avx512_encode_tail_value input off n ENCODE_SHUFFLE avx512_shifts table = Some e
    \<and> length e = 64 \<and> take (n div 3 * 4) e = groups_text table (take n (drop off input))"
proof -
  let ?v = "take n (drop off input) @ replicate (64 - n) 0"
  have "maskz_loadu_epi8 (push_bit n 1 - 1) input off = Some ?v"
    using assms low_mask_bits [of n] by (intro maskz_loadu_prefix) auto
  then have "avx512_encode_tail_value input off n ENCODE_SHUFFLE avx512_shifts table = Some (vbmi_text ?v table)"
    using assms by (simp add: avx512_encode_tail_value_def vbmi_text_def)
  moreover have "vbmi_text ?v table = groups_text table (take 48 ?v)"
    using assms by (intro vbmi_text_groups) simp
  moreover have "take 48 ?v = take n (drop off input) @ replicate (48 - n) 0" using assms by simp
  then have "groups_text table (take 48 ?v)
      = groups_text table (take n (drop off input)) @ groups_text table (replicate (48 - n) 0)"
    using assms by (simp add: groups_text_append)
  moreover have "length (groups_text table (take 48 ?v)) = 64" using assms by (simp add: length_groups_text)
  moreover have "length (groups_text table (take n (drop off input))) = n div 3 * 4"
    using assms by (simp add: length_groups_text)
  ultimately show ?thesis by simp
qed

section \<open>The kernel keeps the contract\<close>

lemma avx512_encode_48_store:
  assumes "off + 48 \<le> length input"
  shows "avx512_encode_48 input off ENCODE_SHUFFLE avx512_shifts table m d
    = store m d (groups_text table (take 48 (drop off input)))"
  using assms by (simp add: avx512_encode_48_def avx512_encode_48_value_groups)

text \<open>The last complete groups, fewer than 48 bytes of them.\<close>

definition avx512_encode_rest :: "bytes \<Rightarrow> bytes \<Rightarrow> nat \<Rightarrow> nat \<times> bytes \<Rightarrow> (nat \<times> bytes) option" where
  "avx512_encode_rest input table source = (\<lambda>(destination, output).
     do {
       let remaining = length input - source;
       let complete_input = remaining div 3 * 3;
       output \<leftarrow>
         (if complete_input \<noteq> 0 then do {
            encoded \<leftarrow> avx512_encode_tail_value input source complete_input ENCODE_SHUFFLE avx512_shifts table;
            let complete_output = complete_input div 3 * 4;
            guard (complete_output < 64);
            let output_mask = push_bit complete_output 1 - 1;
            mask_storeu_epi8 output destination output_mask encoded }
          else Some output);
       Some (source + complete_input, output)
     })"

lemma avx512_encode_rest_emits:
  assumes "off \<le> length input" "length input < off + 48"
  defines "c \<equiv> (length input - off) div 3 * 3"
  shows "avx512_encode_rest input table off s
    = raw_emit (groups_text table (take c (drop off input))) s \<bind> (\<lambda>s. Some (off + c, snd s))"
proof -
  obtain d m where s: "s = (d, m)" by (cases s)
  have c: "3 dvd c" "c < 48" "off + c \<le> length input"
    using assms div_times_less_eq_dividend [of "length input - off" 3] by (auto simp: c_def)
  show ?thesis
  proof (cases "c = 0")
    case True
    then show ?thesis
      unfolding avx512_encode_rest_def s Let_def c_def [symmetric] by (simp add: raw_emit_Nil)
  next
    case False
    obtain e where e: "avx512_encode_tail_value input off c ENCODE_SHUFFLE avx512_shifts table = Some e"
      "length e = 64" "take (c div 3 * 4) e = groups_text table (take c (drop off input))"
      using avx512_encode_tail_groups [of off c input table] c by auto
    have pos: "0 < c div 3 * 4" "c div 3 * 4 < 64" using False c by (auto elim!: dvdE)
    have "mask_storeu_epi8 m d (push_bit (c div 3 * 4) 1 - 1) e = store m d (groups_text table (take c (drop off input)))"
      using mask_storeu_prefix [of "push_bit (c div 3 * 4) 1 - 1" "c div 3 * 4" e m d] pos e
        low_mask_bits [OF pos(2)]
      by auto
    moreover have "length (groups_text table (take c (drop off input))) = c div 3 * 4"
      using c by (simp add: length_groups_text)
    ultimately show ?thesis
      using False e(1) pos unfolding avx512_encode_rest_def s Let_def c_def [symmetric]
      by (simp add: raw_emit_length [OF _ pos(1)] bind_assoc)
  qed
qed

lemma avx512_encode_with_table_groups:
  "\<exists>n. 3 dvd n \<and> n \<le> length input \<and> avx512_encode_with_table input output table
    = store output 0 (groups_text table (take n input)) \<bind> (\<lambda>m. Some (n, m))"
proof -
  let ?e = "\<lambda>source. avx512_encode_48 input source ENCODE_SHUFFLE avx512_shifts table"
  let ?wide = "\<lambda>source (destination, output). do {
           output \<leftarrow> ?e source output destination;
           output \<leftarrow> ?e (source + 48) output (destination + 64);
           output \<leftarrow> ?e (source + 96) output (destination + 128);
           output \<leftarrow> ?e (source + 144) output (destination + 192);
           Some (destination + 256, output) }"
  let ?narrow = "\<lambda>source (destination, output). do {
           output \<leftarrow> ?e source output destination;
           Some (destination + 64, output) }"
  have l: "length (groups_text table (take 48 (drop off input))) = 64" if "off + 48 \<le> length input" for off
    using that by (simp add: length_groups_text)
  have wide: "?wide off s = raw_emit (groups_text table (take 192 (drop off input))) s"
    if "off + 192 \<le> length input" for off s
    using that l [of off] l [of "off + 48"] l [of "off + 96"]
    by (cases s) (simp add: avx512_encode_48_store store_four_blocks [where k = 64]
        raw_emit_length [where n = 256] length_groups_text
        groups_text_four [where k = 48 and n = 192 and ?k2.0 = 96 and ?k3.0 = 144] add.commute)
  have narrow: "?narrow off s = raw_emit (groups_text table (take 48 (drop off input))) s"
    if "off + 48 \<le> length input" for off s
    using that l [of off] by (cases s) (simp add: avx512_encode_48_store raw_emit_length [where n = 64])
  obtain n where n: "3 dvd n" "n \<le> length input" "length input < n + 48"
    and loops: "scan_while (length input) 192 192 ?wide 0 (0, output)
        \<bind> (\<lambda>(off, s). scan_while (length input) 48 48 ?narrow off s)
      = raw_emit (groups_text table (take n input)) (0, output) \<bind> (\<lambda>s. Some (n, s))"
    using raw.emit_two_loops [where body = ?wide and body' = ?narrow and xs = input and table = table
        and s = "(0, output)" and st = 192 and st' = 48 and width = 192 and width' = 48] wide narrow
    by auto
  define c where "c = (length input - n) div 3 * 3"
  have c: "3 dvd c" "n + c \<le> length input"
    using n div_times_less_eq_dividend [of "length input - n" 3] by (auto simp: c_def)
  have "slice ENCODE_SHUFFLE 0 64 = Some ENCODE_SHUFFLE"
    by (simp add: slice_simps ENCODE_SHUFFLE_bytes)
  then have "avx512_encode_with_table input output table = (scan_while (length input) 192 192 ?wide 0 (0, output)
        \<bind> (\<lambda>(off, s). scan_while (length input) 48 48 ?narrow off s)) \<bind> (\<lambda>(n, s). avx512_encode_rest input table n s)"
    by (simp add: avx512_encode_with_table_def avx512_encode_rest_def split_def bind_assoc)
  also have "\<dots> = (raw_emit (groups_text table (take n input)) (0, output)
      \<bind> raw_emit (groups_text table (take c (drop n input)))) \<bind> (\<lambda>s. Some (n + c, snd s))"
    unfolding loops using n by (simp add: avx512_encode_rest_emits bind_assoc c_def)
  also have "raw_emit (groups_text table (take n input)) (0, output)
      \<bind> raw_emit (groups_text table (take c (drop n input)))
      = raw_emit (groups_text table (take (n + c) input)) (0, output)"
    using n by (intro raw.emit_groups) simp_all
  finally show ?thesis using n c by (intro exI [of _ "n + c"]) (simp add: raw_emit_start dvd_add)
qed

lemma avx512_encode_groups:
  assumes "cpu Avx2" "cpu Ssse3"
  shows "\<exists>n. 3 dvd n \<and> n \<le> length input \<and> avx512_encode arch cpu address u input output
    = store output 0 (groups_text (alphabet_of u) (take n input)) \<bind> (\<lambda>m. Some (n, m))"
  using avx2_encode_with_store_groups [of cpu Cached address input arch u "output"]
    avx512_encode_with_table_groups [of input "output" "alphabet_of u"] assms
  by (simp add: avx512_encode_def slice_simps)

lemma avx512_encode_custom_groups:
  assumes "cpu Avx2" "cpu Ssse3"
    and t: "take 62 table = take 62 STANDARD_ALPHABET" "length table = 64"
  shows "\<exists>n. 3 dvd n \<and> n \<le> length input
    \<and> avx512_encode_custom arch cpu address (custom_from_table table) input output
      = store output 0 (groups_text table (take n input)) \<bind> (\<lambda>m. Some (n, m))"
proof -
  have "\<exists>n. 3 dvd n \<and> n \<le> length input
    \<and> avx2_encode_custom arch cpu address (custom_offsets (custom_from_table table)) Cached input output
      = store output 0 (groups_text table (take n input)) \<bind> (\<lambda>m. Some (n, m))"
    by (rule avx2_encode_custom_groups) (use assms in simp_all)
  moreover have "custom_table (custom_from_table table) = table" by (simp add: custom_from_table_def)
  ultimately show ?thesis
    using avx512_encode_with_table_groups [of input "output" table] assms
    by (simp add: avx512_encode_custom_def slice_simps)
qed

interpretation avx512: encode_kernel "avx512_encode arch (\<lambda>_. True) address u" "alphabet_of u"
  for arch address u
  by unfold_locales (rule avx512_encode_groups, simp_all)

end
