(* ===== verification/Base64_Encode_Neon.thy ===== *)
theory Base64_Encode_Neon
  imports Base64_Encode_X86
begin

text \<open>
  The AArch64 NEON encoding kernel, \<open>src/base64/encode/aarch64.rs\<close> (plain output).  The
  structure loads and stores separate and merge the bytes of a group: \<open>vld3\<close> gives the first,
  second and third bytes of the groups as three vectors, \<open>vst4\<close> writes four vectors of characters
  in turn.  The \<open>q\<close> forms on 16 lanes and the others on 8 lanes are the same functions of lists.
\<close>

section \<open>Instructions\<close>

fun deinterleave3 :: "bytes \<Rightarrow> bytes \<times> bytes \<times> bytes" where
  "deinterleave3 (a # b # c # rest) =
     (case deinterleave3 rest of (x, y, z) \<Rightarrow> (a # x, b # y, c # z))"
| "deinterleave3 _ = ([], [], [])"

fun interleave4 :: "bytes \<times> bytes \<times> bytes \<times> bytes \<Rightarrow> bytes" where
  "interleave4 (a # x, b # y, c # z, d # w) = a # b # c # d # interleave4 (x, y, z, w)"
| "interleave4 _ = []"

definition vld3 :: "nat \<Rightarrow> bytes \<Rightarrow> nat \<Rightarrow> (bytes \<times> bytes \<times> bytes) option" where
  "vld3 n input offset = map_option deinterleave3 (slice input offset (3 * n))"

definition vst4 :: "bytes \<Rightarrow> nat \<Rightarrow> bytes \<times> bytes \<times> bytes \<times> bytes \<Rightarrow> bytes option" where
  "vst4 output offset v = store output offset (interleave4 v)"

definition vshr_n_u8 :: "nat \<Rightarrow> bytes \<Rightarrow> bytes" where
  "vshr_n_u8 n = map (drop_bit n)"

text \<open>Shift left and insert: the low \<open>n\<close> bits stay those of the first operand.\<close>

definition vsli_n_u8 :: "nat \<Rightarrow> bytes \<Rightarrow> bytes \<Rightarrow> bytes" where
  "vsli_n_u8 n = map2 (\<lambda>a b. push_bit n b OR (a AND mask n))"

text \<open>A look-up in the four registers of a table; an index outside gives zero.\<close>

definition vqtbl4 :: "bytes \<Rightarrow> bytes \<Rightarrow> bytes" where
  "vqtbl4 table = map (\<lambda>i. if i < 64 then table ! unat i else 0)"

section \<open>The kernel\<close>

definition neon_encode_24_value :: "bytes \<Rightarrow> nat \<Rightarrow> bytes \<Rightarrow> (bytes \<times> bytes \<times> bytes \<times> bytes) option" where
  "neon_encode_24_value input source table =
     do {
       (input0, input1, input2) \<leftarrow> vld3 8 input source;
       let first = vshr_n_u8 2 input0;
       let second = and_si (vsli_n_u8 4 (vshr_n_u8 4 input1) input0) (replicate 8 0x3f);
       let third = and_si (vsli_n_u8 2 (vshr_n_u8 6 input2) input1) (replicate 8 0x3f);
       let fourth = and_si input2 (replicate 8 0x3f);
       Some (vqtbl4 table first, vqtbl4 table second, vqtbl4 table third, vqtbl4 table fourth)
     }"

definition neon_encode_24 :: "bytes \<Rightarrow> nat \<Rightarrow> bytes \<Rightarrow> bytes \<Rightarrow> nat \<Rightarrow> bytes option" where
  "neon_encode_24 input source table output destination =
     do {
       v \<leftarrow> neon_encode_24_value input source table;
       vst4 output destination v
     }"

definition neon_encode_48_value :: "bytes \<Rightarrow> nat \<Rightarrow> bytes \<Rightarrow> (bytes \<times> bytes \<times> bytes \<times> bytes) option" where
  "neon_encode_48_value input source table =
     do {
       (input0, input1, input2) \<leftarrow> vld3 16 input source;
       let first = vshr_n_u8 2 input0;
       let second = and_si (vsli_n_u8 4 (vshr_n_u8 4 input1) input0) (replicate 16 0x3f);
       let third = and_si (vsli_n_u8 2 (vshr_n_u8 6 input2) input1) (replicate 16 0x3f);
       let fourth = and_si input2 (replicate 16 0x3f);
       Some (vqtbl4 table first, vqtbl4 table second, vqtbl4 table third, vqtbl4 table fourth)
     }"

definition neon_encode_48 :: "bytes \<Rightarrow> nat \<Rightarrow> bytes \<Rightarrow> bytes \<Rightarrow> nat \<Rightarrow> bytes option" where
  "neon_encode_48 input source table output destination =
     do {
       v \<leftarrow> neon_encode_48_value input source table;
       vst4 output destination v
     }"

definition neon_encode_with_table :: "bytes \<Rightarrow> bytes \<Rightarrow> bytes \<Rightarrow> (nat \<times> bytes) option" where
  "neon_encode_with_table input output table =
     do {
       (source, state) \<leftarrow> scan_while (length input) 192 192 (\<lambda>source (destination, output). do {
           output \<leftarrow> neon_encode_48 input source table output destination;
           output \<leftarrow> neon_encode_48 input (source + 48) table output (destination + 64);
           output \<leftarrow> neon_encode_48 input (source + 96) table output (destination + 128);
           output \<leftarrow> neon_encode_48 input (source + 144) table output (destination + 192);
           Some (destination + 256, output) }) 0 (0, output);
       (source, destination, output) \<leftarrow> scan_while (length input) 48 48 (\<lambda>source (destination, output). do {
           output \<leftarrow> neon_encode_48 input source table output destination;
           Some (destination + 64, output) }) source state;
       (if source + 24 \<le> length input then do {
          output \<leftarrow> neon_encode_24 input source table output destination;
          Some (source + 24, output) }
        else Some (source, output))
     }"

definition load_table_64 :: "bytes \<Rightarrow> bytes option" where
  "load_table_64 alphabet =
     do {
       first \<leftarrow> slice alphabet 0 16;
       second \<leftarrow> slice alphabet 16 16;
       third \<leftarrow> slice alphabet 32 16;
       fourth \<leftarrow> slice alphabet 48 16;
       Some (first @ second @ third @ fourth)
     }"

definition neon_encode :: "bool \<Rightarrow> bytes \<Rightarrow> bytes \<Rightarrow> (nat \<times> bytes) option" where
  "neon_encode urlsafe input output =
     do {
       table \<leftarrow> load_table_64 (alphabet_of urlsafe);
       neon_encode_with_table input output table
     }"

definition neon_encode_custom :: "bytes \<Rightarrow> bytes \<Rightarrow> bytes \<Rightarrow> (nat \<times> bytes) option" where
  "neon_encode_custom input output alphabet =
     do {
       table \<leftarrow> load_table_64 alphabet;
       neon_encode_with_table input output table
     }"

section \<open>The groups\<close>

text \<open>The four vectors of characters of the three vectors of input bytes.\<close>

definition neon_text :: "bytes \<Rightarrow> bytes \<times> bytes \<times> bytes \<Rightarrow> bytes \<times> bytes \<times> bytes \<times> bytes" where
  "neon_text table = (\<lambda>(x, y, z). let m = map (\<lambda>v. v AND 0x3f) in
     (vqtbl4 table (vshr_n_u8 2 x), vqtbl4 table (m (vsli_n_u8 4 (vshr_n_u8 4 y) x)),
      vqtbl4 table (m (vsli_n_u8 2 (vshr_n_u8 6 z) y)), vqtbl4 table (m z)))"

lemma neon_sextets:
  "sextets (a # b # c # rest) = drop_bit 2 a # ((push_bit 4 a OR (drop_bit 4 b AND mask 4)) AND 63)
    # ((push_bit 2 b OR (drop_bit 6 c AND mask 2)) AND 63) # (c AND 63) # sextets rest"
proof -
  have "push_bit 4 (a AND 3) OR drop_bit 4 b = (push_bit 4 a OR (drop_bit 4 b AND mask 4)) AND 63"
    "push_bit 2 (b AND 15) OR drop_bit 6 c = (push_bit 2 b OR (drop_bit 6 c AND mask 2)) AND 63"
    unfolding byte_eq_bits by (simp_all add: bit_simps byte_high_bits)
  then show ?thesis by simp
qed

lemma sextet_bounds: "drop_bit 2 a < 64" "a AND 63 < 64" for a :: u8
  unfolding sextet_iff_bits by (simp_all add: bit_simps byte_high_bits)

lemma neon_text_groups:
  assumes "3 dvd length v"
  shows "interleave4 (neon_text table (deinterleave3 v)) = groups_text table v"
  using assms
proof (induction v rule: deinterleave3.induct)
  case (1 a b c rest)
  obtain x y z where d: "deinterleave3 rest = (x, y, z)" by (cases "deinterleave3 rest")
  then show ?case
    using 1 by (simp add: neon_text_def vqtbl4_def vshr_n_u8_def vsli_n_u8_def Let_def
        encode_unpadded_spec_def symbol_def neon_sextets sextet_bounds dvd_Suc_group del: sextets.simps)
qed (auto simp: neon_text_def vqtbl4_def vshr_n_u8_def vsli_n_u8_def dest: dvd_imp_le)

lemma neon_text_and:
  assumes "deinterleave3 v = (x, y, z)" "length v = 3 * n"
  shows "length x = n \<and> length y = n \<and> length z = n"
  using assms
proof (induction v arbitrary: x y z n rule: deinterleave3.induct)
  case (1 a b c rest)
  then show ?case by (cases n) (auto split: prod.splits)
qed auto

lemma neon_value_text:
  assumes "slice input off (3 * n) = Some v"
  shows "vld3 n input off \<bind> (\<lambda>(x, y, z).
      Some (vqtbl4 table (vshr_n_u8 2 x),
        vqtbl4 table (and_si (vsli_n_u8 4 (vshr_n_u8 4 y) x) (replicate n 0x3f)),
        vqtbl4 table (and_si (vsli_n_u8 2 (vshr_n_u8 6 z) y) (replicate n 0x3f)),
        vqtbl4 table (and_si z (replicate n 0x3f)))) = Some (neon_text table (deinterleave3 v))"
proof -
  obtain x y z where d: "deinterleave3 v = (x, y, z)" by (cases "deinterleave3 v")
  then show ?thesis
    using neon_text_and [OF d, of n] assms slice_SomeD [OF assms]
    by (simp add: vld3_def neon_text_def and_si_def vsli_n_u8_def vshr_n_u8_def Let_def map2_replicate)
qed

lemma neon_encode_blocks:
  "off + 48 \<le> length input \<Longrightarrow>
    neon_encode_48 input off table m d = store m d (groups_text table (take 48 (drop off input)))"
  "off + 24 \<le> length input \<Longrightarrow>
    neon_encode_24 input off table m d = store m d (groups_text table (take 24 (drop off input)))"
  using neon_value_text [of input off 16 _ table] neon_value_text [of input off 8 _ table]
  by (auto simp: neon_encode_48_def neon_encode_48_value_def neon_encode_24_def neon_encode_24_value_def
      vst4_def slice_simps neon_text_groups)

section \<open>The kernel keeps the contract\<close>

lemma length_groups_48: "off + 48 \<le> length input \<Longrightarrow>
  length (groups_text table (take 48 (drop off input))) = 64"
  by (simp add: length_groups_text)

lemma neon_encode_with_table_groups:
  "\<exists>n. 3 dvd n \<and> n \<le> length input \<and> neon_encode_with_table input output table
    = store output 0 (groups_text table (take n input)) \<bind> (\<lambda>m. Some (n, m))"
proof -
  let ?e = "\<lambda>source. neon_encode_48 input source table"
  let ?wide = "\<lambda>source (destination, output). do {
           output \<leftarrow> ?e source output destination;
           output \<leftarrow> ?e (source + 48) output (destination + 64);
           output \<leftarrow> ?e (source + 96) output (destination + 128);
           output \<leftarrow> ?e (source + 144) output (destination + 192);
           Some (destination + 256, output) }"
  let ?narrow = "\<lambda>source (destination, output). do {
           output \<leftarrow> ?e source output destination;
           Some (destination + 64, output) }"
  let ?rest = "\<lambda>(source, destination, output). if source + 24 \<le> length input then do {
          output \<leftarrow> neon_encode_24 input source table output destination;
          Some (source + 24, output) }
        else Some (source, output)"
  have wide: "?wide off s = raw_emit (groups_text table (take 192 (drop off input))) s"
    if "off + 192 \<le> length input" for off s
    using that length_groups_48 [of off input table] length_groups_48 [of "off + 48" input table]
      length_groups_48 [of "off + 96" input table]
    by (cases s) (simp add: neon_encode_blocks store_four_blocks [where k = 64]
        raw_emit_length [where n = 256] length_groups_text
        groups_text_four [where k = 48 and n = 192 and ?k2.0 = 96 and ?k3.0 = 144] add.commute)
  have narrow: "?narrow off s = raw_emit (groups_text table (take 48 (drop off input))) s"
    if "off + 48 \<le> length input" for off s
    using that length_groups_48 [of off input table]
    by (cases s) (simp add: neon_encode_blocks raw_emit_length [where n = 64])
  obtain n where n: "3 dvd n" "n \<le> length input"
    and loops: "scan_while (length input) 192 192 ?wide 0 (0, output)
        \<bind> (\<lambda>(off, s). scan_while (length input) 48 48 ?narrow off s)
      = raw_emit (groups_text table (take n input)) (0, output) \<bind> (\<lambda>s. Some (n, s))"
    using raw.emit_two_loops [where body = ?wide and body' = ?narrow and xs = input and table = table
        and s = "(0, output)" and st = 192 and st' = 48 and width = 192 and width' = 48] wide narrow
    by auto
  define c where "c = (if n + 24 \<le> length input then 24 else 0 :: nat)"
  have rest: "?rest (n, s) = raw_emit (groups_text table (take c (drop n input))) s \<bind> (\<lambda>s. Some (n + c, snd s))" for s
    by (cases s) (simp add: c_def neon_encode_blocks raw_emit_length [where n = 32] length_groups_text
        raw_emit_Nil)
  have "neon_encode_with_table input output table = (scan_while (length input) 192 192 ?wide 0 (0, output)
        \<bind> (\<lambda>(off, s). scan_while (length input) 48 48 ?narrow off s)) \<bind> ?rest"
    by (simp add: neon_encode_with_table_def split_def bind_assoc)
  also have "\<dots> = (raw_emit (groups_text table (take n input)) (0, output)
      \<bind> raw_emit (groups_text table (take c (drop n input)))) \<bind> (\<lambda>s. Some (n + c, snd s))"
    unfolding loops bind_assoc by (simp only: bind.bind_lunit rest)
  also have "raw_emit (groups_text table (take n input)) (0, output)
      \<bind> raw_emit (groups_text table (take c (drop n input)))
      = raw_emit (groups_text table (take (n + c) input)) (0, output)"
    using n by (intro raw.emit_groups) simp_all
  finally show ?thesis
    using n by (intro exI [of _ "n + c"]) (simp add: raw_emit_start c_def)
qed

lemma load_table_64_Some: "length alphabet = 64 \<Longrightarrow> load_table_64 alphabet = Some alphabet"
  by (simp add: load_table_64_def slice_simps flip: append_assoc)
    (simp add: take_add [of 16 16, simplified, symmetric] take_add [of 32 16, simplified, symmetric]
      take_add [of 48 16, simplified, symmetric])

lemma neon_encode_custom_groups:
  assumes "length table = 64"
  shows "\<exists>n. 3 dvd n \<and> n \<le> length input \<and> neon_encode_custom input output table
    = store output 0 (groups_text table (take n input)) \<bind> (\<lambda>m. Some (n, m))"
  using neon_encode_with_table_groups [of input "output" table] assms
  by (simp add: neon_encode_custom_def load_table_64_Some)

interpretation neon: encode_kernel "neon_encode u" "alphabet_of u" for u
  by unfold_locales (simp_all add: neon_encode_def load_table_64_Some neon_encode_with_table_groups)

end
