(* ===== verification/Base64_Encode.thy ===== *)
theory Base64_Encode
  imports Base64_Backend Base64_Encode_Avx512 Base64_Encode_Neon
begin

text \<open>
  The encoding side of \<open>src/base64/runtime_dispatch.rs\<close> and the public encoders of
  \<open>src/base64/encode/api.rs\<close>.  A kernel is called through its \<open>target_feature\<close> guard, so a call
  on a processor without the feature is \<open>None\<close>; so are a panic, an access outside a region, and
  a detection of the caches that does not end.  The address of the destination is a parameter, as
  the streaming stores depend on it, and so are the bytes a fresh allocation holds.
\<close>

section \<open>Dispatch\<close>

definition encode_x86_kernel ::
  "machine \<Rightarrow> nat \<Rightarrow> bool \<Rightarrow> base64_backend \<Rightarrow> (bytes \<Rightarrow> bytes \<Rightarrow> (nat \<times> bytes) option) option" where
  "encode_x86_kernel machine address urlsafe backend =
     (case backend of
        Base64_Avx512Vbmi \<Rightarrow> Some (\<lambda>input output. target_feature (cpu_of machine) [Avx512Vbmi, Avx512Bw]
          (avx512_encode (arch_of machine) (cpu_of machine) address urlsafe input output))
      | Base64_Sse41 \<Rightarrow> Some (\<lambda>input output. target_feature (cpu_of machine) [Ssse3]
          (ssse3_encode urlsafe input output))
      | Base64_Ssse3 \<Rightarrow> Some (\<lambda>input output. target_feature (cpu_of machine) [Ssse3]
          (ssse3_encode urlsafe input output))
      | Base64_Avx2 \<Rightarrow> None
      | Base64_Scalar \<Rightarrow> None
      | Base64_Neon \<Rightarrow> None)"

definition encode_x86 ::
  "machine \<Rightarrow> nat \<Rightarrow> bool \<Rightarrow> base64_backend \<Rightarrow> bool \<Rightarrow> bytes \<Rightarrow> bytes \<Rightarrow> (nat \<times> bytes) option" where
  "encode_x86 machine address urlsafe backend streaming_stores input output =
     (if backend = Base64_Avx2 then
        let store_mode = (if streaming_stores then Streaming else Cached)
        in target_feature (cpu_of machine) [Avx2]
             (avx2_encode_with_store (arch_of machine) (cpu_of machine) address urlsafe store_mode
               input output)
      else
        case encode_x86_kernel machine address urlsafe backend of
          None \<Rightarrow> Some (0, output)
        | Some run \<Rightarrow> run input output)"

definition encode_with_backend_ptr ::
  "machine \<Rightarrow> nat \<Rightarrow> base64_backend \<Rightarrow> bool \<Rightarrow> bool \<Rightarrow> bytes \<Rightarrow> bytes \<Rightarrow> (nat \<times> bytes) option" where
  "encode_with_backend_ptr machine address backend urlsafe streaming_stores input output =
     (if is_x86 (arch_of machine) then
        encode_x86 machine address urlsafe backend streaming_stores input output
      else if arch_of machine = Arch_AArch64 \<and> backend = Base64_Neon then
        target_feature (cpu_of machine) [Neon] (neon_encode urlsafe input output)
      else Some (0, output))"

definition encode_with_runtime_backend ::
  "machine \<Rightarrow> nat \<Rightarrow> bool \<Rightarrow> bool \<Rightarrow> bytes \<Rightarrow> bytes \<Rightarrow> (nat \<times> bytes) option" where
  "encode_with_runtime_backend machine address urlsafe allow_streaming_stores input output =
     do {
       selection \<leftarrow> selected_backend machine;
       encode_with_backend_ptr machine address (runtime_backend selection) urlsafe
         (allow_streaming_stores
          \<and> use_streaming_stores (arch_of machine) selection (length input) address)
         input output
     }"

definition encode_custom_with_backend_inner ::
  "machine \<Rightarrow> nat \<Rightarrow> base64_backend \<Rightarrow> custom_encode_alphabet \<Rightarrow> bool \<Rightarrow> bytes \<Rightarrow> bytes
    \<Rightarrow> (nat \<times> bytes) option" where
  "encode_custom_with_backend_inner machine address backend alphabet streaming_stores input output =
     (if \<not> has_standard_prefix alphabet then Some (0, output)
      else if is_x86 (arch_of machine) then
        case backend of
          Base64_Avx512Vbmi \<Rightarrow> target_feature (cpu_of machine) [Avx512Vbmi, Avx512Bw]
            (avx512_encode_custom (arch_of machine) (cpu_of machine) address alphabet input output)
        | Base64_Avx2 \<Rightarrow> target_feature (cpu_of machine) [Avx2]
            (avx2_encode_custom (arch_of machine) (cpu_of machine) address (custom_offsets alphabet)
              (if streaming_stores then Streaming else Cached) input output)
        | Base64_Sse41 \<Rightarrow> target_feature (cpu_of machine) [Ssse3]
            (ssse3_encode_custom input output (custom_offsets alphabet))
        | Base64_Ssse3 \<Rightarrow> target_feature (cpu_of machine) [Ssse3]
            (ssse3_encode_custom input output (custom_offsets alphabet))
        | Base64_Scalar \<Rightarrow> Some (0, output)
        | Base64_Neon \<Rightarrow> Some (0, output)
      else if arch_of machine = Arch_AArch64 \<and> backend = Base64_Neon then
        target_feature (cpu_of machine) [Neon]
          (neon_encode_custom input output (custom_table alphabet))
      else Some (0, output))"

definition encode_custom_with_runtime_backend ::
  "machine \<Rightarrow> nat \<Rightarrow> custom_encode_alphabet \<Rightarrow> bool \<Rightarrow> bytes \<Rightarrow> bytes \<Rightarrow> (nat \<times> bytes) option" where
  "encode_custom_with_runtime_backend machine address alphabet allow_streaming_stores input output =
     do {
       selection \<leftarrow> selected_backend machine;
       let streaming_stores = allow_streaming_stores
         \<and> use_streaming_stores (arch_of machine) selection (length input) address;
       encode_custom_with_backend_inner machine address (runtime_backend selection) alphabet
         streaming_stores input output
     }"

section \<open>The encoders\<close>

text \<open>\<open>usize::div_ceil\<close> and \<open>checked_mul\<close>.\<close>

definition b64encoded_len :: "nat \<Rightarrow> nat option" where
  "b64encoded_len input_len =
     (let groups = (input_len + 2) div 3 in
      if groups * 4 \<le> USIZE_MAX then Some (groups * 4) else None)"

definition encoded_len :: "nat \<Rightarrow> nat option" where
  "encoded_len input_len = b64encoded_len input_len"

definition encode_to_ptr :: "machine \<Rightarrow> nat \<Rightarrow> bool \<Rightarrow> bytes \<Rightarrow> bytes \<Rightarrow> bytes option" where
  "encode_to_ptr machine address urlsafe input output =
     (if length input < 16 then encode_scalar_ptr input output urlsafe
      else do {
        (input_offset, output) \<leftarrow> encode_with_runtime_backend machine address urlsafe True input output;
        guard (input_offset \<le> length input);
        from_offset (input_offset div 3 * 4) output
          (\<lambda>output. encode_scalar_ptr (drop input_offset input) output urlsafe) })"

definition encode_to_ptr_cached :: "machine \<Rightarrow> nat \<Rightarrow> bool \<Rightarrow> bytes \<Rightarrow> bytes \<Rightarrow> bytes option" where
  "encode_to_ptr_cached machine address urlsafe input output =
     (if length input < 16 then encode_scalar_ptr input output urlsafe
      else do {
        (input_offset, output) \<leftarrow> encode_with_runtime_backend machine address urlsafe False input output;
        guard (input_offset \<le> length input);
        from_offset (input_offset div 3 * 4) output
          (\<lambda>output. encode_scalar_ptr (drop input_offset input) output urlsafe) })"

definition encode_to_ptr_with_custom_alphabet ::
  "machine \<Rightarrow> nat \<Rightarrow> custom_encode_alphabet \<Rightarrow> bool \<Rightarrow> bytes \<Rightarrow> bytes \<Rightarrow> bytes option" where
  "encode_to_ptr_with_custom_alphabet machine address alphabet cached input output =
     (if length input < 16
      then encode_scalar_ptr_with_alphabet input output (custom_table alphabet)
      else do {
        (input_offset, output) \<leftarrow>
          encode_custom_with_runtime_backend machine address alphabet (\<not> cached) input output;
        guard (input_offset \<le> length input);
        from_offset (input_offset div 3 * 4) output
          (\<lambda>output. encode_scalar_ptr_with_alphabet (drop input_offset input) output
            (custom_table alphabet)) })"

definition encode_to_slice :: "machine \<Rightarrow> nat \<Rightarrow> bool \<Rightarrow> bytes \<Rightarrow> bytes \<Rightarrow> bytes option" where
  "encode_to_slice machine address urlsafe input output =
     do {
       required \<leftarrow> encoded_len (length input);
       guard (length output = required);
       encode_to_ptr machine address urlsafe input output
     }"

text \<open>
  A fresh allocation of \<open>length\<close> bytes holds whatever \<open>memory\<close> says.  An allocation of more
  than \<open>isize::MAX\<close> bytes panics.
\<close>

definition ISIZE_MAX :: nat where
  "ISIZE_MAX = 2 ^ 63 - 1"

definition allocate_uninitialized_output :: "(nat \<Rightarrow> u8) \<Rightarrow> nat \<Rightarrow> bytes option" where
  "allocate_uninitialized_output memory count =
     do {
       guard (count \<le> ISIZE_MAX);
       Some (map memory [0..<count])
     }"

definition assume_output_initialized :: "bytes \<Rightarrow> nat \<Rightarrow> bytes option" where
  "assume_output_initialized output count =
     do {
       guard (count \<le> length output);
       Some (take count output)
     }"

definition b64encode_with_alphabet ::
  "machine \<Rightarrow> nat \<Rightarrow> (nat \<Rightarrow> u8) \<Rightarrow> bytes \<Rightarrow> bool \<Rightarrow> bytes option" where
  "b64encode_with_alphabet machine address memory input urlsafe =
     do {
       output_len \<leftarrow> encoded_len (length input);
       output \<leftarrow> allocate_uninitialized_output memory output_len;
       output \<leftarrow> encode_to_ptr machine address urlsafe input output;
       assume_output_initialized output output_len
     }"

definition b64encode :: "machine \<Rightarrow> nat \<Rightarrow> (nat \<Rightarrow> u8) \<Rightarrow> bytes \<Rightarrow> bytes option" where
  "b64encode machine address memory input = b64encode_with_alphabet machine address memory input False"

definition b64encode_urlsafe :: "machine \<Rightarrow> nat \<Rightarrow> (nat \<Rightarrow> u8) \<Rightarrow> bytes \<Rightarrow> bytes option" where
  "b64encode_urlsafe machine address memory input =
     b64encode_with_alphabet machine address memory input True"

text \<open>The caller's slice is part of the result: what it holds after the call.\<close>

definition b64encode_into_with_alphabet ::
  "machine \<Rightarrow> nat \<Rightarrow> bytes \<Rightarrow> bytes \<Rightarrow> bool \<Rightarrow> ((base64_error + nat) \<times> bytes) option" where
  "b64encode_into_with_alphabet machine address input output urlsafe =
     do {
       required \<leftarrow> encoded_len (length input);
       (if length output < required then Some (Inl (OutputTooSmall required (length output)), output)
        else do {
          prefix \<leftarrow> encode_to_slice machine address urlsafe input (take required output);
          Some (Inr required, prefix @ drop required output) })
     }"

definition b64encode_into ::
  "machine \<Rightarrow> nat \<Rightarrow> bytes \<Rightarrow> bytes \<Rightarrow> ((base64_error + nat) \<times> bytes) option" where
  "b64encode_into machine address input output =
     b64encode_into_with_alphabet machine address input output False"

definition b64encode_urlsafe_into ::
  "machine \<Rightarrow> nat \<Rightarrow> bytes \<Rightarrow> bytes \<Rightarrow> ((base64_error + nat) \<times> bytes) option" where
  "b64encode_urlsafe_into machine address input output =
     b64encode_into_with_alphabet machine address input output True"

section \<open>Every selected kernel keeps the contract\<close>

lemma streaming_alignment:
  "use_streaming_stores arch selection len address \<Longrightarrow> arch = Arch_X86_64 \<and> address mod 16 = 0"
  by (auto simp: use_streaming_stores_def cache_use_streaming_stores_def split: option.splits)

lemma takes_nothing:
  "\<exists>n. 3 dvd n \<and> n \<le> length input
    \<and> Some (0, output) = store output 0 (groups_text table (take n input)) \<bind> (\<lambda>m. Some (n, m))"
  by (rule exI [of _ 0]) (simp add: store_def)

lemma encode_with_backend_ptr_groups:
  assumes "list_all (cpu_of machine) (required_features backend)"
    and "streaming \<Longrightarrow> address mod 16 = 0"
  shows "\<exists>n. 3 dvd n \<and> n \<le> length input
    \<and> encode_with_backend_ptr machine address backend u streaming input output
      = store output 0 (groups_text (alphabet_of u) (take n input)) \<bind> (\<lambda>m. Some (n, m))"
proof (cases "is_x86 (arch_of machine)")
  case True
  note defs = encode_with_backend_ptr_def encode_x86_def encode_x86_kernel_def Let_def
  let ?mode = "if streaming then Streaming else Cached"
  have avx2: "\<exists>n. 3 dvd n \<and> n \<le> length input
      \<and> avx2_encode_with_store (arch_of machine) (cpu_of machine) address u ?mode input output
        = store output 0 (groups_text (alphabet_of u) (take n input)) \<bind> (\<lambda>m. Some (n, m))"
    if "cpu_of machine Ssse3"
    by (rule avx2_encode_with_store_groups [where store_mode = ?mode])
      (use that assms(2) in \<open>simp_all split: if_splits\<close>)
  show ?thesis
  proof (cases backend)
    case Base64_Avx512Vbmi
    then show ?thesis
      using True assms(1) avx512_encode_groups [of "cpu_of machine" input "arch_of machine" address u "output"]
      by (simp add: defs)
  next
    case Base64_Avx2
    then show ?thesis using True assms(1) avx2 by (simp add: defs)
  qed (use True assms(1) ssse3.kernel_emits [of input u "output"]
      takes_nothing [of input "output" "alphabet_of u"] in \<open>simp_all add: defs\<close>)
next
  case False
  show ?thesis
  proof (cases "arch_of machine = Arch_AArch64 \<and> backend = Base64_Neon")
    case True
    then show ?thesis
      using False assms(1) neon.kernel_emits [of input u "output"]
      by (simp add: encode_with_backend_ptr_def)
  next
    case no_neon: False
    show ?thesis
      unfolding encode_with_backend_ptr_def if_not_P [OF False] if_not_P [OF no_neon] by (rule takes_nothing)
  qed
qed

lemma runtime_kernel:
  assumes "selected_backend machine = Some selection"
  shows "encode_kernel (encode_with_runtime_backend machine address u allow) (alphabet_of u)"
proof
  fix input "output" :: bytes
  let ?s = "allow \<and> use_streaming_stores (arch_of machine) selection (length input) address"
  have "\<exists>n. 3 dvd n \<and> n \<le> length input
    \<and> encode_with_backend_ptr machine address (runtime_backend selection) u ?s input output
      = store output 0 (groups_text (alphabet_of u) (take n input)) \<bind> (\<lambda>m. Some (n, m))"
    by (rule encode_with_backend_ptr_groups [OF selected_backend_runs [OF assms]])
      (use streaming_alignment in blast)
  then show "\<exists>n. 3 dvd n \<and> n \<le> length input \<and> encode_with_runtime_backend machine address u allow input output
      = store output 0 (groups_text (alphabet_of u) (take n input)) \<bind> (\<lambda>m. Some (n, m))"
    using assms by (simp add: encode_with_runtime_backend_def)
qed simp

lemma custom_kernel:
  assumes "selected_backend machine = Some selection" "length table = 64"
  shows "encode_kernel (encode_custom_with_runtime_backend machine address (custom_from_table table) allow) table"
proof
  fix input "output" :: bytes
  let ?s = "allow \<and> use_streaming_stores (arch_of machine) selection (length input) address"
  let ?a = "custom_from_table table"
  note runs = selected_backend_runs [OF assms(1)]
  have [simp]: "custom_table ?a = table" by (simp add: custom_from_table_def)
  have "\<exists>n. 3 dvd n \<and> n \<le> length input
      \<and> encode_custom_with_backend_inner machine address (runtime_backend selection) ?a ?s input output
        = store output 0 (groups_text table (take n input)) \<bind> (\<lambda>m. Some (n, m))"
  proof (cases "has_standard_prefix ?a")
    case True
    then have t: "take 62 table = take 62 STANDARD_ALPHABET" by (simp add: custom_from_table_def)
    show ?thesis
    proof (cases "is_x86 (arch_of machine)")
      case True
      have "\<exists>n. 3 dvd n \<and> n \<le> length input
        \<and> avx2_encode_custom (arch_of machine) (cpu_of machine) address (custom_offsets ?a)
            (if ?s then Streaming else Cached) input output
          = store output 0 (groups_text table (take n input)) \<bind> (\<lambda>m. Some (n, m))"
        if "cpu_of machine Ssse3"
        by (rule avx2_encode_custom_groups [where store_mode = "if ?s then Streaming else Cached"])
          (use that t assms(2) streaming_alignment [of "arch_of machine" selection "length input" address]
            in \<open>simp_all split: if_splits\<close>)
      with True show ?thesis
        using runs \<open>has_standard_prefix ?a\<close> t assms(2) takes_nothing [of input "output" table]
          avx512_encode_custom_groups [of "cpu_of machine" table input "arch_of machine" address "output"]
          ssse3_encode_custom_groups [of table input "output"]
        by (cases "runtime_backend selection") (simp_all add: encode_custom_with_backend_inner_def)
    next
      case x86: False
      let ?neon = "arch_of machine = Arch_AArch64 \<and> runtime_backend selection = Base64_Neon"
      show ?thesis
      proof (cases ?neon)
        case True
        then show ?thesis
          using x86 runs \<open>has_standard_prefix ?a\<close> neon_encode_custom_groups [OF assms(2), of input "output"]
          by (simp add: encode_custom_with_backend_inner_def)
      next
        case False
        show ?thesis
          using \<open>has_standard_prefix ?a\<close> takes_nothing [of input "output" table]
          unfolding encode_custom_with_backend_inner_def if_not_P [OF x86] if_not_P [OF False] by simp
      qed
    qed
  next
    case False
    then show ?thesis using takes_nothing [of input "output" table]
      by (simp add: encode_custom_with_backend_inner_def)
  qed
  then show "\<exists>n. 3 dvd n \<and> n \<le> length input
      \<and> encode_custom_with_runtime_backend machine address ?a allow input output
        = store output 0 (groups_text table (take n input)) \<bind> (\<lambda>m. Some (n, m))"
    using assms(1) by (simp add: encode_custom_with_runtime_backend_def)
qed (rule assms(2))

section \<open>The encoders write the specified text\<close>

lemma encode_scalar_ptr_eq:
  "encode_scalar_ptr input output u = store output 0 (encode_spec (alphabet_of u) input)"
  by (simp add: encode_scalar_ptr_def encode_scalar_ptr_with_alphabet_eq)

lemma encode_to_ptr_eq:
  assumes "selected_backend machine = Some selection"
  shows "encode_to_ptr machine address u input output = store output 0 (encode_spec (alphabet_of u) input)"
    and "encode_to_ptr_cached machine address u input output = store output 0 (encode_spec (alphabet_of u) input)"
  using encode_kernel.kernel_then_scalar [OF runtime_kernel [OF assms, of address u True], of input "output"]
    encode_kernel.kernel_then_scalar [OF runtime_kernel [OF assms, of address u False], of input "output"]
  by (simp_all add: encode_to_ptr_def encode_to_ptr_cached_def encode_scalar_ptr_eq
      encode_scalar_ptr_with_alphabet_eq)

lemma encode_to_ptr_with_custom_alphabet_eq:
  assumes "selected_backend machine = Some selection" "length table = 64"
  shows "encode_to_ptr_with_custom_alphabet machine address (custom_from_table table) cached input output
    = store output 0 (encode_spec table input)"
  using encode_kernel.kernel_then_scalar [OF custom_kernel [OF assms, of address "\<not> cached"], of input "output"]
    assms(2)
  by (simp add: encode_to_ptr_with_custom_alphabet_def encode_scalar_ptr_with_alphabet_eq)
    (simp add: custom_from_table_def encode_scalar_ptr_with_alphabet_eq)

lemma b64encoded_len_eq:
  "b64encoded_len n = (if (n + 2) div 3 * 4 \<le> USIZE_MAX then Some ((n + 2) div 3 * 4) else None)"
  by (simp add: b64encoded_len_def Let_def)

lemma store_all: "length ys = length xs \<Longrightarrow> store xs 0 ys = Some ys"
  by (simp add: store_def)

lemma encode_to_slice_eq:
  assumes "selected_backend machine = Some selection"
    and "length output = (length input + 2) div 3 * 4" "length output \<le> USIZE_MAX"
  shows "encode_to_slice machine address u input output = Some (encode_spec (alphabet_of u) input)"
  using assms
  by (simp add: encode_to_slice_def encoded_len_def b64encoded_len_eq encode_to_ptr_eq store_all length_encode_spec)

lemma b64encode_with_alphabet_eq:
  assumes "selected_backend machine = Some selection"
  shows "b64encode_with_alphabet machine address memory input u =
    (if (length input + 2) div 3 * 4 \<le> ISIZE_MAX then Some (encode_spec (alphabet_of u) input) else None)"
proof -
  have "ISIZE_MAX \<le> USIZE_MAX" by (simp add: ISIZE_MAX_def USIZE_MAX_def)
  then show ?thesis
    by (auto simp: b64encode_with_alphabet_def encoded_len_def b64encoded_len_eq
        allocate_uninitialized_output_def guard_def encode_to_ptr_eq [OF assms] store_all length_encode_spec
        assume_output_initialized_def)
qed

lemma b64encode_into_with_alphabet_eq:
  fixes input :: bytes
  assumes "selected_backend machine = Some selection"
  defines "n \<equiv> (length input + 2) div 3 * 4"
  shows "b64encode_into_with_alphabet machine address input output u =
    (if USIZE_MAX < n then None
     else if length output < n then Some (Inl (OutputTooSmall n (length output)), output)
     else Some (Inr n, encode_spec (alphabet_of u) input @ drop n output))"
  using encode_to_slice_eq [OF assms(1), of "take n output" input address u]
  by (auto simp: b64encode_into_with_alphabet_def encoded_len_def b64encoded_len_eq n_def)

lemma alphabet_of_cases: "alphabet_of False = STANDARD_ALPHABET" "alphabet_of True = URLSAFE_ALPHABET"
  by (simp_all add: alphabet_of_def)

lemma encode_spec_ascii:
  "list_all (\<lambda>b. (b \<in> set (alphabet_of u) \<or> b = 61) \<and> b < 128) (encode_spec (alphabet_of u) input)"
proof -
  have s: "symbol (alphabet_of u) v \<in> set (alphabet_of u)" if "v < 64" for v :: u8
    using that by (simp add: symbol_def word_less_nat_alt)
  have "list_all (\<lambda>b. b < (128 :: u8)) (alphabet_of u)"
    by (simp add: alphabet_of_def STANDARD_ALPHABET_bytes URLSAFE_ALPHABET_bytes)
  with s show ?thesis
    using sextets_less [of input]
    by (auto simp: encode_spec_def encode_unpadded_spec_def list_all_iff ascii_def)
qed

section \<open>Properties\<close>

text \<open>
  C23: on every machine whose detection ends, the encoders return the padded text of the
  specification (the symbols of the input's six-bit groups in order, then the padding),
  whichever kernel is selected, wherever the allocation lies and whatever it held before; they
  panic only where the text is longer than an allocation can be.
\<close>
theorem b64encode_correct:
  assumes "selected_backend machine = Some selection"
  shows "b64encode machine address memory input =
      (if (length input + 2) div 3 * 4 \<le> ISIZE_MAX then Some (encode_spec STANDARD_ALPHABET input) else None)
    \<and> b64encode_urlsafe machine address memory input =
      (if (length input + 2) div 3 * 4 \<le> ISIZE_MAX then Some (encode_spec URLSAFE_ALPHABET input) else None)"
  using b64encode_with_alphabet_eq [OF assms, of address memory input]
  by (simp add: b64encode_def b64encode_urlsafe_def alphabet_of_cases)

lemma b64encode_correct_witness:
  "b64encode example_machine 4096 (\<lambda>_. 7) (map of_char ''hello'') = Some (map of_char ''aGVsbG8='')"
proof -
  have "encode_spec STANDARD_ALPHABET (map of_char ''hello'') = map of_char ''aGVsbG8=''"
    by (simp add: encode_spec_def encode_unpadded_spec_def padding_for_def symbol_def STANDARD_ALPHABET_bytes)
  then show ?thesis
    using b64encode_correct [OF example_selected, of 4096 "\<lambda>_. 7" "map of_char ''hello''"]
    by (simp add: ISIZE_MAX_def)
qed

text \<open>
  C24: encoding into a caller's slice: a slice that is too short is reported with both lengths and
  left as it was; otherwise the text is written at the start, its length is returned, and every
  byte after it keeps its value.
\<close>
theorem b64encode_into_correct:
  assumes "selected_backend machine = Some selection"
  shows "let n = (length input + 2) div 3 * 4 in
    b64encode_into machine address input output =
      (if USIZE_MAX < n then None
       else if length output < n then Some (Inl (OutputTooSmall n (length output)), output)
       else Some (Inr n, encode_spec STANDARD_ALPHABET input @ drop n output))
    \<and> b64encode_urlsafe_into machine address input output =
      (if USIZE_MAX < n then None
       else if length output < n then Some (Inl (OutputTooSmall n (length output)), output)
       else Some (Inr n, encode_spec URLSAFE_ALPHABET input @ drop n output))"
  using b64encode_into_with_alphabet_eq [OF assms(1), of address input "output"]
  by (simp add: b64encode_into_def b64encode_urlsafe_into_def alphabet_of_cases Let_def)

lemma b64encode_into_correct_witness:
  "b64encode_into example_machine 32 [0xfb, 0xff] [1, 2, 3] = Some (Inl (OutputTooSmall 4 3), [1, 2, 3])
   \<and> b64encode_urlsafe_into example_machine 32 [0xfb, 0xff] [1, 2, 3, 4, 5]
     = Some (Inr 4, map of_char ''-_8='' @ [5])"
proof -
  have "encode_spec URLSAFE_ALPHABET [0xfb, 0xff] = map of_char ''-_8=''"
    by (simp add: encode_spec_def encode_unpadded_spec_def padding_for_def symbol_def URLSAFE_ALPHABET_bytes)
  then show ?thesis
    using b64encode_into_correct [OF example_selected, of "[0xfb, 0xff]" 32 "[1, 2, 3]", unfolded Let_def]
      b64encode_into_correct [OF example_selected, of "[0xfb, 0xff]" 32 "[1, 2, 3, 4, 5]", unfolded Let_def]
    by (simp add: USIZE_MAX_def)
qed

text \<open>
  C26: the announced length is the length of the text for every input and alphabet, and it is
  absent exactly when the text would be longer than \<open>usize\<close> counts.
\<close>
theorem b64encoded_len_exact:
  "b64encoded_len (length input) =
     (if length (encode_spec table input) \<le> USIZE_MAX then Some (length (encode_spec table input)) else None)
   \<and> (b64encoded_len n = None \<longleftrightarrow> 3 * (2 ^ 62 - 1) < n)"
proof -
  have "(n + 2) div 3 * 4 \<le> USIZE_MAX \<longleftrightarrow> (n + 2) div 3 < 2 ^ 62"
    unfolding USIZE_MAX_def by auto
  also have "\<dots> \<longleftrightarrow> n \<le> 3 * (2 ^ 62 - 1)" by (auto simp: div_less_iff_less_mult)
  finally have "(n + 2) div 3 * 4 \<le> USIZE_MAX \<longleftrightarrow> n \<le> 3 * (2 ^ 62 - 1)" .
  then show ?thesis by (auto simp: b64encoded_len_eq length_encode_spec not_le)
qed

text \<open>
  C25: the encoder for a caller's alphabet writes the text over that alphabet for every table of
  64 bytes: tables that share the first 62 symbols with the standard one run a vector kernel with
  the offsets computed from the table, the others run the scalar encoder.
\<close>
theorem custom_alphabet_correct:
  assumes "selected_backend machine = Some selection" "length table = 64"
  shows "encode_to_ptr_with_custom_alphabet machine address (custom_from_table table) cached input output
    = store output 0 (encode_spec table input)"
  using assms by (rule encode_to_ptr_with_custom_alphabet_eq)

lemma custom_alphabet_correct_witness:
  "encode_to_ptr_with_custom_alphabet example_machine 0
     (custom_from_table (STANDARD_ALPHABET[62 := 46, 63 := 33])) False (replicate 3 255) (replicate 5 0)
   = Some [33, 33, 33, 33, 0]"
proof -
  have "encode_spec (STANDARD_ALPHABET[62 := 46, 63 := 33]) (replicate 3 255) = [33, 33, 33, 33]"
    by (simp add: encode_spec_def encode_unpadded_spec_def padding_for_def symbol_def numeral_3_eq_3)
  then show ?thesis
    using custom_alphabet_correct [OF example_selected, of "STANDARD_ALPHABET[62 := 46, 63 := 33]" 0 False
        "replicate 3 255" "replicate 5 0"]
    by (simp add: store_def STANDARD_ALPHABET_bytes)
qed

text \<open>
  C27: every byte an encoder returns is a symbol of its alphabet or the padding character, so it
  is ASCII and the unchecked conversion to a string is sound.
\<close>
theorem b64encode_ascii:
  assumes "selected_backend machine = Some selection"
    and "b64encode_with_alphabet machine address memory input urlsafe = Some encoded"
  shows "list_all (\<lambda>b. (b \<in> set (alphabet_of urlsafe) \<or> b = 61) \<and> b < 128) encoded"
  using assms encode_spec_ascii [of urlsafe input]
  by (simp add: b64encode_with_alphabet_eq split: if_splits)

lemma b64encode_ascii_witness:
  "list_all (\<lambda>b. (b \<in> set (alphabet_of True) \<or> b = 61) \<and> b < 128) (encode_spec URLSAFE_ALPHABET [1, 2])"
proof -
  have "b64encode_with_alphabet example_machine 0 (\<lambda>_. 0) [1, 2] True = Some (encode_spec URLSAFE_ALPHABET [1, 2])"
    using b64encode_with_alphabet_eq [OF example_selected, of 0 "\<lambda>_. 0" "[1, 2]" True]
    by (simp add: ISIZE_MAX_def alphabet_of_cases)
  from b64encode_ascii [OF example_selected this] show ?thesis .
qed

end
