(* ===== verification/Base64_Wrapped_Output.thy ===== *)
theory Base64_Wrapped_Output
  imports Base64_Encode
begin

text \<open>
  Line-wrapped output: the cursor \<open>WrappedOutput\<close> of \<open>src/base64/encode/api.rs\<close>, which starts a
  new line before the first character that does not fit, and the scalar encoder that writes
  through it.  The text that it should write is \<open>wrap_lines\<close>: lines of the chosen width, joined
  by newlines.  A cursor is an \<open>encode_sink\<close>, so that the loops of the kernels are covered by the
  lemmas that serve plain output.
\<close>

section \<open>The cursor\<close>

text \<open>
  The raw pointer is a region and an offset into it.  Reserving the region is the caller's duty;
  a write outside it is \<open>None\<close>.
\<close>

record wrapped_output =
  wrapped_region :: bytes
  wrapped_at :: nat
  wrapped_width :: nat
  wrapped_column :: nat

definition wrapped_new :: "bytes \<Rightarrow> nat \<Rightarrow> wrapped_output option" where
  "wrapped_new output width =
     do {
       guard (4 \<le> width \<and> width mod 4 = 0);
       Some \<lparr>wrapped_region = output, wrapped_at = 0, wrapped_width = width, wrapped_column = 0\<rparr>
     }"

definition wrapped_start_line :: "wrapped_output \<Rightarrow> wrapped_output option" where
  "wrapped_start_line out =
     (if wrapped_column out = wrapped_width out then do {
        region \<leftarrow> store (wrapped_region out) (wrapped_at out) [10];
        Some (out\<lparr>wrapped_region := region, wrapped_at := wrapped_at out + 1, wrapped_column := 0\<rparr>) }
      else Some out)"

text \<open>A copy at the cursor, which then stands behind it.\<close>

definition wrapped_copy :: "bytes \<Rightarrow> wrapped_output \<Rightarrow> wrapped_output option" where
  "wrapped_copy block out =
     do {
       region \<leftarrow> store (wrapped_region out) (wrapped_at out) block;
       Some (out\<lparr>wrapped_region := region, wrapped_at := wrapped_at out + length block,
         wrapped_column := wrapped_column out + length block\<rparr>)
     }"

definition wrapped_write_quad_ptr :: "bytes \<Rightarrow> nat \<Rightarrow> wrapped_output \<Rightarrow> wrapped_output option" where
  "wrapped_write_quad_ptr input offset out =
     do {
       out \<leftarrow> wrapped_start_line out;
       value \<leftarrow> slice input offset 4;
       wrapped_copy value out
     }"

definition wrapped_write_16 :: "bytes \<Rightarrow> wrapped_output \<Rightarrow> wrapped_output option" where
  "wrapped_write_16 block out =
     do {
       out \<leftarrow> wrapped_start_line out;
       guard (wrapped_column out \<le> wrapped_width out);
       (if length block \<le> wrapped_width out - wrapped_column out then wrapped_copy block out
        else foldM (wrapped_write_quad_ptr block) [0, 4, 8, 12] out)
     }"

definition wrapped_write_bytes :: "bytes \<Rightarrow> wrapped_output \<Rightarrow> wrapped_output option" where
  "wrapped_write_bytes input out =
     (let complete = length input div 4 * 4 in
      do {
        out \<leftarrow> foldM (\<lambda>i. wrapped_write_quad_ptr input (4 * i)) [0..<length input div 4] out;
        (if complete \<noteq> length input then do {
           out \<leftarrow> wrapped_start_line out;
           let tail = drop complete input;
           guard (wrapped_column out \<le> wrapped_width out
             \<and> length tail \<le> wrapped_width out - wrapped_column out);
           wrapped_copy tail out }
         else Some out) })"

section \<open>The scalar encoder\<close>

definition encode_scalar_wrapped_with_alphabet ::
  "bytes \<Rightarrow> bytes \<Rightarrow> bool \<Rightarrow> wrapped_output \<Rightarrow> wrapped_output option" where
  "encode_scalar_wrapped_with_alphabet input alphabet padded out =
     do {
       (source, out) \<leftarrow> scan_while (length input) 6 6 (\<lambda>source out. do {
           group \<leftarrow> slice input source 6;
           encoded \<leftarrow> encode_scalar_ptr_with_alphabet group (replicate 8 0) alphabet;
           wrapped_write_bytes encoded out }) 0 out;
       (if source \<noteq> length input then do {
          let tail = drop source input;
          encoded \<leftarrow> encode_scalar_ptr_with_alphabet tail (replicate 8 0) alphabet;
          padded_len \<leftarrow> encoded_len (length tail);
          let written = (if padded then padded_len
            else padded_len - of_bool (length tail mod 3 \<noteq> 0) * (3 - length tail mod 3));
          encoded \<leftarrow> slice encoded 0 written;
          wrapped_write_bytes encoded out }
        else Some out)
     }"

definition encode_scalar_wrapped ::
  "bytes \<Rightarrow> bool \<Rightarrow> bool \<Rightarrow> wrapped_output \<Rightarrow> wrapped_output option" where
  "encode_scalar_wrapped input urlsafe padded out =
     encode_scalar_wrapped_with_alphabet input (alphabet_of urlsafe) padded out"

section \<open>The text of a cursor\<close>

text \<open>The reference: lines of \<open>width\<close> characters with a newline between them.\<close>

function wrap_lines :: "nat \<Rightarrow> bytes \<Rightarrow> bytes" where
  "wrap_lines width t =
     (if width = 0 \<or> length t \<le> width then t
      else take width t @ 10 # wrap_lines width (drop width t))"
  by pat_completeness auto
termination by (relation "measure (\<lambda>(width, t). length t)") auto

declare wrap_lines.simps [simp del]

text \<open>What a cursor in a given column makes of a text, and the column it ends in.\<close>

fun wrap_from :: "nat \<Rightarrow> nat \<Rightarrow> bytes \<Rightarrow> bytes" where
  "wrap_from width column [] = []"
| "wrap_from width column (b # bs) =
     (if column = width then 10 # b # wrap_from width 1 bs
      else b # wrap_from width (column + 1) bs)"

fun wrap_column :: "nat \<Rightarrow> nat \<Rightarrow> bytes \<Rightarrow> nat" where
  "wrap_column width column [] = column"
| "wrap_column width column (b # bs) = wrap_column width (if column = width then 1 else column + 1) bs"

lemma wrap_from_append:
  "wrap_from width column (x @ y) = wrap_from width column x @ wrap_from width (wrap_column width column x) y"
  "wrap_column width column (x @ y) = wrap_column width (wrap_column width column x) y"
  by (induction x arbitrary: column) auto

lemma wrap_fits:
  "column + length t \<le> width \<Longrightarrow> wrap_from width column t = t"
  "column + length t \<le> width \<Longrightarrow> wrap_column width column t = column + length t"
  by (induction t arbitrary: column) auto

lemma wrap_new_line:
  "t \<noteq> [] \<Longrightarrow> 0 < width \<Longrightarrow> wrap_from width width t = 10 # wrap_from width 0 t
    \<and> wrap_column width width t = wrap_column width 0 t"
  by (cases t) auto

lemma wrap_from_eq_Nil [simp]: "wrap_from width column t = [] \<longleftrightarrow> t = []"
  by (cases t) auto

lemma wrap_from_lines:
  assumes "0 < width"
  shows "wrap_from width 0 t = wrap_lines width t"
  using assms
proof (induction width t rule: wrap_lines.induct)
  case (1 width t)
  show ?case
  proof (cases "width = 0 \<or> length t \<le> width")
    case False
    have "wrap_from width 0 (take width t @ drop width t) = take width t @ wrap_from width width (drop width t)"
      using False by (simp only: wrap_from_append wrap_fits length_take) (simp add: min_absorb2 wrap_fits)
    also have "wrap_from width width (drop width t) = 10 # wrap_lines width (drop width t)"
      using False 1 wrap_new_line [of "drop width t" width] by simp
    finally show ?thesis using False by (simp add: wrap_lines.simps)
  qed (use 1 in \<open>auto simp: wrap_lines.simps wrap_fits\<close>)
qed

text \<open>Emitting a text through a cursor.\<close>

definition emit_wrapped :: "bytes \<Rightarrow> wrapped_output \<Rightarrow> wrapped_output option" where
  "emit_wrapped e out =
     (if e = [] then Some out
      else do {
        let t = wrap_from (wrapped_width out) (wrapped_column out) e;
        region \<leftarrow> store (wrapped_region out) (wrapped_at out) t;
        Some (out\<lparr>wrapped_region := region, wrapped_at := wrapped_at out + length t,
          wrapped_column := wrap_column (wrapped_width out) (wrapped_column out) e\<rparr>) })"

definition wrapped_ok :: "wrapped_output \<Rightarrow> bool" where
  "wrapped_ok out \<longleftrightarrow> 4 \<le> wrapped_width out \<and> 4 dvd wrapped_width out
     \<and> wrapped_column out \<le> wrapped_width out \<and> 4 dvd wrapped_column out"

lemma emit_wrapped_Nil [simp]: "emit_wrapped [] s = Some s"
  by (simp add: emit_wrapped_def)

lemma store_append: "store m d (x @ y) = store m d x \<bind> (\<lambda>m. store m (d + length x) y)"
  using store_store [of x "length x" m d y] by simp

lemma emit_wrapped_append: "emit_wrapped (x @ y) s = emit_wrapped x s \<bind> emit_wrapped y"
  by (cases "x = []"; cases "y = []")
    (simp_all add: emit_wrapped_def wrap_from_append store_append bind_assoc add.assoc Let_def)

lemma wrap_column_quad:
  assumes "length q = 4" "4 \<le> width" "4 dvd width" "4 dvd column" "column \<le> width"
  shows "wrap_column width column q = (if column = width then 4 else column + 4)"
    and "wrap_from width column q = (if column = width then 10 # q else q)"
    and "4 dvd wrap_column width column q \<and> wrap_column width column q \<le> width"
proof -
  have room: "column + 4 \<le> width" if "column \<noteq> width" using assms that by (auto elim!: dvdE)
  have "q \<noteq> []" using assms(1) by auto
  show c: "wrap_column width column q = (if column = width then 4 else column + 4)"
    and "wrap_from width column q = (if column = width then 10 # q else q)"
    using assms room wrap_new_line [OF \<open>q \<noteq> []\<close>, of width] by (auto simp: wrap_fits)
  show "4 dvd wrap_column width column q \<and> wrap_column width column q \<le> width"
    unfolding c using assms room by auto
qed

lemma wrap_column_quads:
  assumes "4 \<le> width" "4 dvd width" "4 dvd column" "column \<le> width" "4 dvd length x"
  shows "4 dvd wrap_column width column x \<and> wrap_column width column x \<le> width"
  using assms(3-)
proof (induction x arbitrary: column rule: length_induct)
  case (1 x)
  show ?case
  proof (cases "x = []")
    case False
    with 1 obtain q y where x: "x = q @ y" "length q = 4"
      using list_prefix [of 4 x] by (metis dvd_imp_le length_greater_0_conv)
    have q: "4 dvd wrap_column width column q \<and> wrap_column width column q \<le> width"
      using 1 x assms(1,2) by (intro wrap_column_quad(3)) auto
    then show ?thesis using 1 x by (auto simp: wrap_from_append)
  qed (use 1 in simp)
qed

lemma emit_wrapped_fields:
  assumes "emit_wrapped x s = Some s'"
  shows "wrapped_width s' = wrapped_width s"
    and "wrapped_column s' = wrap_column (wrapped_width s) (wrapped_column s) x"
  using assms by (auto simp: emit_wrapped_def Let_def split: if_splits bind_splits)

interpretation wrapped: encode_sink emit_wrapped wrapped_ok
proof
  fix s s' x
  assume "wrapped_ok s" "4 dvd length x" "emit_wrapped x s = Some s'"
  then show "wrapped_ok s'"
    using emit_wrapped_fields [of x s s'] wrap_column_quads [of "wrapped_width s" "wrapped_column s" x]
    by (simp add: wrapped_ok_def)
qed (simp_all add: emit_wrapped_append)

section \<open>The operations emit what they are given\<close>

lemma start_line_emit:
  assumes "wrapped_ok s" "t \<noteq> []"
  shows "wrapped_start_line s \<bind> emit_wrapped t = emit_wrapped t s"
  using assms wrap_new_line [of t "wrapped_width s"]
    store_store [of "[10]" 1 "wrapped_region s" "wrapped_at s"]
  by (auto simp: wrapped_start_line_def emit_wrapped_def wrapped_ok_def Let_def split: bind_splits)

lemma start_line_room:
  assumes "wrapped_ok s" "wrapped_start_line s = Some s'"
  shows "wrapped_ok s'" "wrapped_column s' + 4 \<le> wrapped_width s'"
  using assms by (auto simp: wrapped_start_line_def wrapped_ok_def split: if_splits bind_splits elim!: dvdE)

lemma copy_emit:
  "t \<noteq> [] \<Longrightarrow> wrapped_column s + length t \<le> wrapped_width s \<Longrightarrow> wrapped_copy t s = emit_wrapped t s"
  by (simp add: wrapped_copy_def emit_wrapped_def wrap_fits Let_def)

text \<open>After a new line, where there is room for the text, copying it is emitting it.\<close>

lemma start_line_then:
  assumes "wrapped_ok s" "t \<noteq> []"
    and "\<And>s'. wrapped_ok s' \<Longrightarrow> wrapped_column s' + 4 \<le> wrapped_width s' \<Longrightarrow> f s' = emit_wrapped t s'"
  shows "wrapped_start_line s \<bind> f = emit_wrapped t s"
  unfolding start_line_emit [OF assms(1,2), symmetric]
  using start_line_room [OF assms(1)] assms(3) by (auto intro!: Option.bind_cong)

lemma write_quad_emit:
  assumes "wrapped_ok s" "offset + 4 \<le> length input"
  shows "wrapped_write_quad_ptr input offset s = emit_wrapped (take 4 (drop offset input)) s"
proof -
  have "take 4 (drop offset input) \<noteq> []" using assms by auto
  then show ?thesis
    unfolding wrapped_write_quad_ptr_def using assms
    by (intro start_line_then) (auto simp: slice_simps copy_emit)
qed

lemma foldM_map: "foldM f (map g xs) s = foldM (\<lambda>x. f (g x)) xs s"
proof (induction xs arbitrary: s)
  case (Cons x xs)
  then have "foldM f (map g xs) = foldM (\<lambda>x. f (g x)) xs" by (intro ext)
  then show ?case by simp
qed simp

text \<open>A loop over quads, from the quad at \<open>offset\<close> on.\<close>

lemma write_quads_emit:
  assumes "wrapped_ok s" "4 * n \<le> length input"
  shows "foldM (\<lambda>i. wrapped_write_quad_ptr input (4 * i)) [0..<n] s = emit_wrapped (take (4 * n) input) s"
  using assms(2)
proof (induction n)
  case (Suc n)
  have t: "take (4 * Suc n) input = take (4 * n) input @ take 4 (drop (4 * n) input)"
    using take_add [of "4 * n" 4 input] by (simp add: add.commute)
  have "wrapped_write_quad_ptr input (4 * n) s' = emit_wrapped (take 4 (drop (4 * n) input)) s'"
    if "emit_wrapped (take (4 * n) input) s = Some s'" for s'
    using that Suc.prems assms(1) wrapped.emit_ok [OF assms(1) _ that]
    by (intro write_quad_emit) (simp_all add: min_absorb2)
  then have "emit_wrapped (take (4 * n) input) s \<bind> wrapped_write_quad_ptr input (4 * n)
      = emit_wrapped (take (4 * Suc n) input) s"
    unfolding t emit_wrapped_append by (intro Option.bind_cong refl)
  then show ?case using Suc by (simp add: foldM_append)
qed simp

lemma write_16_emit:
  assumes "wrapped_ok s" "length block = 16"
  shows "wrapped_write_16 block s = emit_wrapped block s"
  unfolding wrapped_write_16_def
proof (rule start_line_then [OF assms(1)])
  show block: "block \<noteq> []" using assms(2) by auto
  fix s' assume s': "wrapped_ok s'" "wrapped_column s' + 4 \<le> wrapped_width s'"
  have "[0, 4, 8, 12] = map (\<lambda>i. 4 * i) [0..<4 :: nat]" by (simp add: upt_rec)
  then have "foldM (wrapped_write_quad_ptr block) [0, 4, 8, 12] s' = emit_wrapped block s'"
    using write_quads_emit [OF s'(1), of 4 block] assms(2) by (simp only: foldM_map) simp
  then show "(do {
       guard (wrapped_column s' \<le> wrapped_width s');
       (if length block \<le> wrapped_width s' - wrapped_column s' then wrapped_copy block s'
        else foldM (wrapped_write_quad_ptr block) [0, 4, 8, 12] s') }) = emit_wrapped block s'"
    using s' assms(2) copy_emit [OF block, of s'] by auto
qed

lemma write_bytes_emit:
  assumes "wrapped_ok s"
  shows "wrapped_write_bytes input s = emit_wrapped input s"
proof -
  define c where "c = length input div 4 * 4"
  have c: "c \<le> length input" "length input - c < 4" "4 dvd c" "4 * (length input div 4) = c"
    by (auto simp: c_def)
  have ok: "wrapped_ok s'" if "emit_wrapped (take c input) s = Some s'" for s'
    using that c by (intro wrapped.emit_ok [OF assms _ that]) simp
  let ?tail = "\<lambda>s. if c \<noteq> length input then do {
           out \<leftarrow> wrapped_start_line s;
           let tail = drop c input;
           guard (wrapped_column out \<le> wrapped_width out
             \<and> length tail \<le> wrapped_width out - wrapped_column out);
           wrapped_copy tail out }
         else Some s"
  have tail: "?tail s' = emit_wrapped (drop c input) s'" if "wrapped_ok s'" for s'
  proof (cases "c = length input")
    case False
    with c have "drop c input \<noteq> []" by simp
    then have "wrapped_start_line s' \<bind> (\<lambda>out. do {
           let tail = drop c input;
           guard (wrapped_column out \<le> wrapped_width out
             \<and> length tail \<le> wrapped_width out - wrapped_column out);
           wrapped_copy tail out }) = emit_wrapped (drop c input) s'"
      using c by (intro start_line_then [OF that]) (auto simp: copy_emit guard_def)
    then show ?thesis using False by simp
  qed simp
  have "wrapped_write_bytes input s = emit_wrapped (take c input) s \<bind> ?tail"
    using write_quads_emit [OF assms, of "length input div 4" input] c
    by (simp add: wrapped_write_bytes_def Let_def c_def [symmetric])
  also have "\<dots> = emit_wrapped (take c input) s \<bind> emit_wrapped (drop c input)"
    using ok tail by (auto intro!: Option.bind_cong)
  finally show ?thesis by (simp flip: emit_wrapped_append)
qed

section \<open>The scalar encoder emits the rest of the text\<close>

text \<open>The text with its padding or without.\<close>

definition encode_padded_spec :: "bytes \<Rightarrow> bool \<Rightarrow> bytes \<Rightarrow> bytes" where
  "encode_padded_spec table padded input =
     (if padded then encode_spec table input else encode_unpadded_spec table input)"

lemma encode_padded_split:
  assumes "3 dvd m" "m \<le> length input"
  shows "encode_padded_spec table padded input
    = groups_text table (take m input) @ encode_padded_spec table padded (drop m input)"
  using encode_spec_split [OF assms, of table] groups_text_append [of "take m input" table "drop m input"] assms
  by (simp add: encode_padded_spec_def min_absorb2)

lemma encode_padded_Nil [simp]: "encode_padded_spec table padded [] = []"
  by (simp add: encode_padded_spec_def)

lemma encode_spec_complete: "3 dvd length input \<Longrightarrow> encode_spec table input = groups_text table input"
  by (auto simp: encode_spec_def padding_for_def elim!: dvdE)

lemma length_unpadded: "length (encode_unpadded_spec table input)
  = (length input + 2) div 3 * 4 - of_bool (length input mod 3 \<noteq> 0) * (3 - length input mod 3)"
proof -
  define q where "q = length input div 3"
  define r where "r = length input mod 3"
  have l: "length input = 3 * q + r" "r < 3" by (simp_all add: q_def r_def)
  have "(4 * (3 * q) + 2) div 3 = 4 * q" "(4 * (3 * q + 1) + 2) div 3 = 4 * q + 2"
    "(4 * (3 * q + 2) + 2) div 3 = 4 * q + 3" "(3 * q + 2) div 3 = q" "(3 * q + 1 + 2) div 3 = q + 1"
    "(3 * q + 2 + 2) div 3 = q + 1" "3 * q mod 3 = 0" "(3 * q + 1) mod 3 = 1" "(3 * q + 2) mod 3 = 2"
    by presburger+
  note n = this
  from l(2) consider "r = 0" | "r = 1" | "r = 2" by linarith
  then show ?thesis
    unfolding length_encode_unpadded l(1)
    by cases (simp_all only: add_0_right n, simp_all)
qed

text \<open>The last characters: a buffer of eight, of which the first ones are written.\<close>

lemma scalar_tail_text:
  assumes "length alphabet = 64" "length tail < 6"
  shows "(do {
      encoded \<leftarrow> encode_scalar_ptr_with_alphabet tail (replicate 8 0) alphabet;
      padded_len \<leftarrow> encoded_len (length tail);
      let written = (if padded then padded_len
        else padded_len - of_bool (length tail mod 3 \<noteq> 0) * (3 - length tail mod 3));
      slice encoded 0 written }) = Some (encode_padded_spec alphabet padded tail)"
proof -
  have len: "length (encode_spec alphabet tail) = (length tail + 2) div 3 * 4" by (rule length_encode_spec)
  have 8: "(length tail + 2) div 3 * 4 \<le> 8" using assms(2) by simp
  let ?e = "encode_spec alphabet tail @ drop (length (encode_spec alphabet tail)) (replicate 8 0)"
  have "encode_scalar_ptr_with_alphabet tail (replicate 8 0) alphabet = Some ?e"
    using 8 len by (simp add: encode_scalar_ptr_with_alphabet_eq [OF assms(1)] store_def)
  moreover have "encoded_len (length tail) = Some ((length tail + 2) div 3 * 4)"
    using 8 by (simp add: encoded_len_def b64encoded_len_eq USIZE_MAX_def)
  moreover have "slice ?e 0 (length (encode_unpadded_spec alphabet tail)) = Some (encode_unpadded_spec alphabet tail)"
    by (simp add: slice_simps encode_spec_def)
  moreover have "slice ?e 0 (length (encode_spec alphabet tail)) = Some (encode_spec alphabet tail)"
    by (simp add: slice_simps)
  ultimately show ?thesis
    unfolding len length_unpadded
    by (simp only: bind.bind_lunit Let_def encode_padded_spec_def) (cases padded; simp)
qed

lemma encode_scalar_wrapped_emit:
  assumes "length alphabet = 64" "wrapped_ok s"
  shows "encode_scalar_wrapped_with_alphabet input alphabet padded s
    = emit_wrapped (encode_padded_spec alphabet padded input) s"
proof -
  let ?n = "length input"
  define k where "k = passes ?n 6 6 0 * 6"
  have k: "k \<le> ?n" "?n < k + 6" "3 dvd k"
    using passes_bound [of 0 ?n 6 6] passes_end [of 6 ?n 0 6] by (auto simp: k_def)
  let ?body = "\<lambda>source out. do {
           group \<leftarrow> slice input source 6;
           encoded \<leftarrow> encode_scalar_ptr_with_alphabet group (replicate 8 0) alphabet;
           wrapped_write_bytes encoded out }"
  have body: "?body off s' = emit_wrapped (groups_text alphabet (take 6 (drop off input))) s'"
    if "off + 6 \<le> ?n" "wrapped_ok s'" for off s'
  proof -
    let ?g = "take 6 (drop off input)"
    have "length ?g = 6" using that by simp
    then have "encode_spec alphabet ?g = groups_text alphabet ?g" "length (groups_text alphabet ?g) = 8"
      by (simp_all add: encode_spec_complete length_groups_text)
    then have "encode_scalar_ptr_with_alphabet ?g (replicate 8 0) alphabet = Some (groups_text alphabet ?g)"
      by (simp add: encode_scalar_ptr_with_alphabet_eq [OF assms(1)] store_def)
    then show ?thesis using that by (simp add: slice_simps write_bytes_emit)
  qed
  have loop: "scan_while ?n 6 6 ?body 0 s
      = emit_wrapped (groups_text alphabet (take k input)) s \<bind> (\<lambda>s. Some (k, s))"
    unfolding k_def using body assms(2)
    by (subst wrapped.emit_loop [where xs = input and table = alphabet]) auto
  let ?tail = "\<lambda>out. if k \<noteq> ?n then do {
          encoded \<leftarrow> encode_scalar_ptr_with_alphabet (drop k input) (replicate 8 0) alphabet;
          padded_len \<leftarrow> encoded_len (length (drop k input));
          let written = (if padded then padded_len
            else padded_len - of_bool (length (drop k input) mod 3 \<noteq> 0) * (3 - length (drop k input) mod 3));
          encoded \<leftarrow> slice encoded 0 written;
          wrapped_write_bytes encoded out }
        else Some out"
  have tail: "?tail s' = emit_wrapped (encode_padded_spec alphabet padded (drop k input)) s'"
    if "wrapped_ok s'" for s'
  proof (cases "k = ?n")
    case False
    have "length (drop k input) < 6" using k by simp
    from arg_cong [OF scalar_tail_text [OF assms(1) this, of padded], of "\<lambda>r. r \<bind> (\<lambda>e. wrapped_write_bytes e s')"]
    show ?thesis
      using False that by (simp only: bind_assoc Let_def bind.bind_lunit write_bytes_emit) simp
  qed simp
  have "encode_scalar_wrapped_with_alphabet input alphabet padded s
      = emit_wrapped (groups_text alphabet (take k input)) s \<bind> ?tail"
    by (simp only: encode_scalar_wrapped_with_alphabet_def loop bind_assoc Let_def prod.case bind.bind_lunit)
  also have "\<dots> = emit_wrapped (groups_text alphabet (take k input)) s
      \<bind> emit_wrapped (encode_padded_spec alphabet padded (drop k input))"
  proof (rule Option.bind_cong [OF refl])
    fix s' assume e: "emit_wrapped (groups_text alphabet (take k input)) s = Some s'"
    have "wrapped_ok s'"
      by (rule wrapped.emit_ok [OF assms(2) _ e]) (use k in \<open>simp add: groups_text_quads\<close>)
    then show "?tail s' = emit_wrapped (encode_padded_spec alphabet padded (drop k input)) s'" by (rule tail)
  qed
  finally show ?thesis
    by (simp add: encode_padded_split [OF k(3,1)] emit_wrapped_append)
qed

end
