(* ===== verification/Base64_Wrapped.thy ===== *)
theory Base64_Wrapped
  imports Base64_Wrapped_Output
begin

text \<open>
  The encoding kernels for line-wrapped output (\<open>encode_wrapped\<close> in \<open>ssse3.rs\<close>, \<open>avx2.rs\<close>,
  \<open>avx512.rs\<close> and \<open>aarch64.rs\<close> of \<open>src/base64/encode/\<close>), their dispatch in
  \<open>src/base64/runtime_dispatch.rs\<close>, and the two entry points of \<open>encode/api.rs\<close>.  The kernels
  compute the same registers as for plain output and hand them to the cursor in blocks of 16
  characters; they keep the contract \<open>wrapped_kernel\<close>.
\<close>

section \<open>SSSE3\<close>

definition ssse3_encode_wrapped_with_offsets ::
  "bytes \<Rightarrow> wrapped_output \<Rightarrow> bytes \<Rightarrow> (nat \<times> wrapped_output) option" where
  "ssse3_encode_wrapped_with_offsets input out offsets =
     do {
       (source, out) \<leftarrow> scan_while (length input) 52 48 (\<lambda>source. foldM (\<lambda>offset out. do {
             encoded \<leftarrow> ssse3_encode_12 input (source + offset) offsets;
             wrapped_write_16 encoded out }) [0, 12, 24, 36]) 0 out;
       scan_while (length input) 16 12 (\<lambda>source out. do {
           encoded \<leftarrow> ssse3_encode_12 input source offsets;
           wrapped_write_16 encoded out }) source out
     }"

definition ssse3_encode_wrapped :: "bool \<Rightarrow> bytes \<Rightarrow> wrapped_output \<Rightarrow> (nat \<times> wrapped_output) option" where
  "ssse3_encode_wrapped urlsafe input out =
     ssse3_encode_wrapped_with_offsets input out (ssse3_standard_offsets urlsafe)"

definition ssse3_encode_wrapped_custom ::
  "bytes \<Rightarrow> wrapped_output \<Rightarrow> bytes \<Rightarrow> (nat \<times> wrapped_output) option" where
  "ssse3_encode_wrapped_custom input out offsets =
     do {
       offsets \<leftarrow> slice offsets 0 16;
       ssse3_encode_wrapped_with_offsets input out offsets
     }"

section \<open>AVX2\<close>

definition avx2_write_wrapped_32 :: "bytes \<Rightarrow> wrapped_output \<Rightarrow> wrapped_output option" where
  "avx2_write_wrapped_32 v out =
     do {
       out \<leftarrow> wrapped_write_16 (take 16 v) out;
       wrapped_write_16 (take 16 (drop 16 v)) out
     }"

definition avx2_encode_wrapped_with_offsets ::
  "bytes \<Rightarrow> wrapped_output \<Rightarrow> bytes \<Rightarrow> (nat \<times> wrapped_output) option" where
  "avx2_encode_wrapped_with_offsets input out offsets =
     do {
       first \<leftarrow> avx2_encode_24_first input offsets;
       out \<leftarrow> avx2_write_wrapped_32 first out;
       (load_offset, out) \<leftarrow> scan_while (length input) 104 96 (\<lambda>load_offset. foldM (\<lambda>offset out. do {
             encoded \<leftarrow> avx2_encode_24_shifted input (load_offset + offset) offsets;
             avx2_write_wrapped_32 encoded out }) [0, 24, 48, 72]) 20 out;
       (load_offset, out) \<leftarrow> scan_while (length input) 32 24 (\<lambda>load_offset out. do {
           encoded \<leftarrow> avx2_encode_24_shifted input load_offset offsets;
           avx2_write_wrapped_32 encoded out }) load_offset out;
       let source = load_offset + 4;
       (if source + 16 \<le> length input then do {
          encoded \<leftarrow> avx2_encode_12 input source (take 16 offsets);
          out \<leftarrow> wrapped_write_16 encoded out;
          Some (source + 12, out) }
        else Some (source, out))
     }"

definition avx2_encode_wrapped ::
  "(cpu_feature \<Rightarrow> bool) \<Rightarrow> bool \<Rightarrow> bytes \<Rightarrow> wrapped_output \<Rightarrow> (nat \<times> wrapped_output) option" where
  "avx2_encode_wrapped cpu urlsafe input out =
     (if length input < 32 then target_feature cpu [Ssse3] (ssse3_encode_wrapped urlsafe input out)
      else avx2_encode_wrapped_with_offsets input out (avx2_standard_offsets_256 urlsafe))"

definition avx2_encode_wrapped_custom ::
  "(cpu_feature \<Rightarrow> bool) \<Rightarrow> bytes \<Rightarrow> wrapped_output \<Rightarrow> bytes \<Rightarrow> (nat \<times> wrapped_output) option" where
  "avx2_encode_wrapped_custom cpu input out offsets =
     (if length input < 32 then target_feature cpu [Ssse3] (ssse3_encode_wrapped_custom input out offsets)
      else do {
        offsets \<leftarrow> slice offsets 0 16;
        avx2_encode_wrapped_with_offsets input out (broadcastsi128 offsets) })"

section \<open>AVX-512\<close>

definition avx512_write_wrapped_64 :: "bytes \<Rightarrow> wrapped_output \<Rightarrow> wrapped_output option" where
  "avx512_write_wrapped_64 v out =
     do {
       out \<leftarrow> wrapped_write_16 (take 16 v) out;
       out \<leftarrow> wrapped_write_16 (take 16 (drop 16 v)) out;
       out \<leftarrow> wrapped_write_16 (take 16 (drop 32 v)) out;
       wrapped_write_16 (take 16 (drop 48 v)) out
     }"

definition avx512_encode_wrapped_with_table ::
  "bytes \<Rightarrow> wrapped_output \<Rightarrow> bytes \<Rightarrow> (nat \<times> wrapped_output) option" where
  "avx512_encode_wrapped_with_table input out table =
     do {
       shuffle \<leftarrow> slice ENCODE_SHUFFLE 0 64;
       let shifts = avx512_shifts;
       (source, out) \<leftarrow> scan_while (length input) 192 192 (\<lambda>source. foldM (\<lambda>offset out. do {
             encoded \<leftarrow> avx512_encode_48_value input (source + offset) shuffle shifts table;
             avx512_write_wrapped_64 encoded out }) [0, 48, 96, 144]) 0 out;
       (source, out) \<leftarrow> scan_while (length input) 48 48 (\<lambda>source out. do {
           encoded \<leftarrow> avx512_encode_48_value input source shuffle shifts table;
           avx512_write_wrapped_64 encoded out }) source out;
       let remaining = length input - source;
       let complete_input = remaining div 3 * 3;
       out \<leftarrow>
         (if complete_input \<noteq> 0 then do {
            encoded \<leftarrow> avx512_encode_tail_value input source complete_input shuffle shifts table;
            let complete_output = complete_input div 3 * 4;
            guard (complete_output < 64);
            let output_mask = push_bit complete_output 1 - 1;
            region \<leftarrow> mask_storeu_epi8 (replicate 64 0) 0 output_mask encoded;
            region \<leftarrow> slice region 0 complete_output;
            wrapped_write_bytes region out }
          else Some out);
       Some (source + complete_input, out)
     }"

definition avx512_encode_wrapped ::
  "(cpu_feature \<Rightarrow> bool) \<Rightarrow> bool \<Rightarrow> bytes \<Rightarrow> wrapped_output \<Rightarrow> (nat \<times> wrapped_output) option" where
  "avx512_encode_wrapped cpu urlsafe input out =
     (if length input < 48 then target_feature cpu [Avx2] (avx2_encode_wrapped cpu urlsafe input out)
      else do {
        table \<leftarrow> slice (alphabet_of urlsafe) 0 64;
        avx512_encode_wrapped_with_table input out table })"

definition avx512_encode_wrapped_custom ::
  "(cpu_feature \<Rightarrow> bool) \<Rightarrow> bytes \<Rightarrow> wrapped_output \<Rightarrow> custom_encode_alphabet
    \<Rightarrow> (nat \<times> wrapped_output) option" where
  "avx512_encode_wrapped_custom cpu input out alphabet =
     (if length input < 48
      then target_feature cpu [Avx2] (avx2_encode_wrapped_custom cpu input out (custom_offsets alphabet))
      else do {
        table \<leftarrow> slice (custom_table alphabet) 0 64;
        avx512_encode_wrapped_with_table input out table })"

section \<open>NEON\<close>

text \<open>
  \<open>vzip\<close>: the lanes of two vectors in turn, first half and second half.  On 16-bit lanes the
  bytes move in pairs.
\<close>

fun interleave2 :: "'a list \<Rightarrow> 'a list \<Rightarrow> 'a list" where
  "interleave2 (x # xs) (y # ys) = x # y # interleave2 xs ys"
| "interleave2 _ _ = []"

definition vzip1_u8 :: "bytes \<Rightarrow> bytes \<Rightarrow> bytes" where
  "vzip1_u8 v w = take (length v) (interleave2 v w)"

definition vzip2_u8 :: "bytes \<Rightarrow> bytes \<Rightarrow> bytes" where
  "vzip2_u8 v w = drop (length v) (interleave2 v w)"

definition vzip1_u16 :: "bytes \<Rightarrow> bytes \<Rightarrow> bytes" where
  "vzip1_u16 v w = take (length v) (concat (interleave2 (chunks 2 v) (chunks 2 w)))"

definition vzip2_u16 :: "bytes \<Rightarrow> bytes \<Rightarrow> bytes" where
  "vzip2_u16 v w = drop (length v) (concat (interleave2 (chunks 2 v) (chunks 2 w)))"

definition neon_write_wrapped_32 ::
  "bytes \<times> bytes \<times> bytes \<times> bytes \<Rightarrow> wrapped_output \<Rightarrow> wrapped_output option" where
  "neon_write_wrapped_32 = (\<lambda>(value0, value1, value2, value3) out.
     let first_second0 = vzip1_u8 value0 value1; first_second1 = vzip2_u8 value0 value1;
         third_fourth0 = vzip1_u8 value2 value3; third_fourth1 = vzip2_u8 value2 value3;
         low0 = vzip1_u16 first_second0 third_fourth0; low1 = vzip2_u16 first_second0 third_fourth0;
         high0 = vzip1_u16 first_second1 third_fourth1; high1 = vzip2_u16 first_second1 third_fourth1
     in do {
       out \<leftarrow> wrapped_write_16 (low0 @ low1) out;
       wrapped_write_16 (high0 @ high1) out })"

definition neon_write_wrapped_64 ::
  "bytes \<times> bytes \<times> bytes \<times> bytes \<Rightarrow> wrapped_output \<Rightarrow> wrapped_output option" where
  "neon_write_wrapped_64 = (\<lambda>(value0, value1, value2, value3) out.
     let first_second_low = vzip1_u8 value0 value1; first_second_high = vzip2_u8 value0 value1;
         third_fourth_low = vzip1_u8 value2 value3; third_fourth_high = vzip2_u8 value2 value3
     in do {
       out \<leftarrow> wrapped_write_16 (vzip1_u16 first_second_low third_fourth_low) out;
       out \<leftarrow> wrapped_write_16 (vzip2_u16 first_second_low third_fourth_low) out;
       out \<leftarrow> wrapped_write_16 (vzip1_u16 first_second_high third_fourth_high) out;
       wrapped_write_16 (vzip2_u16 first_second_high third_fourth_high) out })"

definition neon_encode_wrapped_with_table ::
  "bytes \<Rightarrow> wrapped_output \<Rightarrow> bytes \<Rightarrow> (nat \<times> wrapped_output) option" where
  "neon_encode_wrapped_with_table input out table =
     do {
       (source, out) \<leftarrow> scan_while (length input) 192 192 (\<lambda>source. foldM (\<lambda>offset out. do {
             encoded \<leftarrow> neon_encode_48_value input (source + offset) table;
             neon_write_wrapped_64 encoded out }) [0, 48, 96, 144]) 0 out;
       (source, out) \<leftarrow> scan_while (length input) 48 48 (\<lambda>source out. do {
           encoded \<leftarrow> neon_encode_48_value input source table;
           neon_write_wrapped_64 encoded out }) source out;
       (if source + 24 \<le> length input then do {
          encoded \<leftarrow> neon_encode_24_value input source table;
          out \<leftarrow> neon_write_wrapped_32 encoded out;
          Some (source + 24, out) }
        else Some (source, out))
     }"

definition neon_encode_wrapped :: "bool \<Rightarrow> bytes \<Rightarrow> wrapped_output \<Rightarrow> (nat \<times> wrapped_output) option" where
  "neon_encode_wrapped urlsafe input out =
     do {
       table \<leftarrow> load_table_64 (alphabet_of urlsafe);
       neon_encode_wrapped_with_table input out table
     }"

definition neon_encode_wrapped_custom ::
  "bytes \<Rightarrow> wrapped_output \<Rightarrow> bytes \<Rightarrow> (nat \<times> wrapped_output) option" where
  "neon_encode_wrapped_custom input out alphabet =
     do {
       table \<leftarrow> load_table_64 alphabet;
       neon_encode_wrapped_with_table input out table
     }"

section \<open>Dispatch\<close>

definition encode_wrapped_with_backend_inner ::
  "machine \<Rightarrow> bytes \<Rightarrow> wrapped_output \<Rightarrow> base64_backend \<Rightarrow> bool \<Rightarrow> (nat \<times> wrapped_output) option" where
  "encode_wrapped_with_backend_inner machine input out backend urlsafe =
     (if is_x86 (arch_of machine) then
        case backend of
          Base64_Avx512Vbmi \<Rightarrow> target_feature (cpu_of machine) [Avx512Vbmi, Avx512Bw]
            (avx512_encode_wrapped (cpu_of machine) urlsafe input out)
        | Base64_Avx2 \<Rightarrow> target_feature (cpu_of machine) [Avx2]
            (avx2_encode_wrapped (cpu_of machine) urlsafe input out)
        | Base64_Sse41 \<Rightarrow> target_feature (cpu_of machine) [Ssse3] (ssse3_encode_wrapped urlsafe input out)
        | Base64_Ssse3 \<Rightarrow> target_feature (cpu_of machine) [Ssse3] (ssse3_encode_wrapped urlsafe input out)
        | Base64_Scalar \<Rightarrow> Some (0, out)
        | Base64_Neon \<Rightarrow> Some (0, out)
      else if arch_of machine = Arch_AArch64 \<and> backend = Base64_Neon then
        target_feature (cpu_of machine) [Neon] (neon_encode_wrapped urlsafe input out)
      else Some (0, out))"

definition encode_wrapped_with_runtime_backend ::
  "machine \<Rightarrow> bytes \<Rightarrow> wrapped_output \<Rightarrow> bool \<Rightarrow> (nat \<times> wrapped_output) option" where
  "encode_wrapped_with_runtime_backend machine input out urlsafe =
     do {
       selection \<leftarrow> selected_backend machine;
       encode_wrapped_with_backend_inner machine input out (runtime_backend selection) urlsafe
     }"

definition encode_wrapped_custom_with_backend_inner ::
  "machine \<Rightarrow> bytes \<Rightarrow> wrapped_output \<Rightarrow> base64_backend \<Rightarrow> custom_encode_alphabet
    \<Rightarrow> (nat \<times> wrapped_output) option" where
  "encode_wrapped_custom_with_backend_inner machine input out backend alphabet =
     (if \<not> has_standard_prefix alphabet then Some (0, out)
      else if is_x86 (arch_of machine) then
        case backend of
          Base64_Avx512Vbmi \<Rightarrow> target_feature (cpu_of machine) [Avx512Vbmi, Avx512Bw]
            (avx512_encode_wrapped_custom (cpu_of machine) input out alphabet)
        | Base64_Avx2 \<Rightarrow> target_feature (cpu_of machine) [Avx2]
            (avx2_encode_wrapped_custom (cpu_of machine) input out (custom_offsets alphabet))
        | Base64_Sse41 \<Rightarrow> target_feature (cpu_of machine) [Ssse3]
            (ssse3_encode_wrapped_custom input out (custom_offsets alphabet))
        | Base64_Ssse3 \<Rightarrow> target_feature (cpu_of machine) [Ssse3]
            (ssse3_encode_wrapped_custom input out (custom_offsets alphabet))
        | Base64_Scalar \<Rightarrow> Some (0, out)
        | Base64_Neon \<Rightarrow> Some (0, out)
      else if arch_of machine = Arch_AArch64 \<and> backend = Base64_Neon then
        target_feature (cpu_of machine) [Neon]
          (neon_encode_wrapped_custom input out (custom_table alphabet))
      else Some (0, out))"

definition encode_wrapped_custom_with_runtime_backend ::
  "machine \<Rightarrow> bytes \<Rightarrow> wrapped_output \<Rightarrow> custom_encode_alphabet \<Rightarrow> (nat \<times> wrapped_output) option" where
  "encode_wrapped_custom_with_runtime_backend machine input out alphabet =
     do {
       selection \<leftarrow> selected_backend machine;
       encode_wrapped_custom_with_backend_inner machine input out (runtime_backend selection) alphabet
     }"

section \<open>The entry points\<close>

definition encode_wrapped_to_ptr_cached ::
  "machine \<Rightarrow> bytes \<Rightarrow> bytes \<Rightarrow> bool \<Rightarrow> bool \<Rightarrow> nat \<Rightarrow> bytes option" where
  "encode_wrapped_to_ptr_cached machine input output urlsafe padded width =
     do {
       out \<leftarrow> wrapped_new output width;
       (consumed, out) \<leftarrow>
         (if length input < 16 then Some (0, out)
          else encode_wrapped_with_runtime_backend machine input out urlsafe);
       guard (consumed \<le> length input);
       out \<leftarrow> encode_scalar_wrapped (drop consumed input) urlsafe padded out;
       Some (wrapped_region out)
     }"

definition encode_wrapped_to_ptr_custom ::
  "machine \<Rightarrow> bytes \<Rightarrow> bytes \<Rightarrow> custom_encode_alphabet \<Rightarrow> bool \<Rightarrow> nat \<Rightarrow> bytes option" where
  "encode_wrapped_to_ptr_custom machine input output alphabet padded width =
     do {
       out \<leftarrow> wrapped_new output width;
       (consumed, out) \<leftarrow>
         (if length input < 16 then Some (0, out)
          else encode_wrapped_custom_with_runtime_backend machine input out alphabet);
       guard (consumed \<le> length input);
       out \<leftarrow> encode_scalar_wrapped_with_alphabet (drop consumed input) (custom_table alphabet) padded out;
       Some (wrapped_region out)
     }"

section \<open>Steps of a kernel\<close>

context encode_sink
begin

lemma foldM_emit:
  assumes "ok s" "\<And>x. x \<in> set xs \<Longrightarrow> 4 dvd length (c x)"
    and "\<And>x s. x \<in> set xs \<Longrightarrow> ok s \<Longrightarrow> body x s = emit (c x) s"
  shows "foldM body xs s = emit (concat (map c xs)) s"
  using assms
proof (induction xs arbitrary: s)
  case (Cons x xs)
  have "emit (c x) s \<bind> foldM body xs = emit (c x) s \<bind> emit (concat (map c xs))"
  proof (rule Option.bind_cong [OF refl])
    fix s' assume e: "emit (c x) s = Some s'"
    have "ok s'" by (rule emit_ok [OF Cons.prems(1) _ e]) (simp add: Cons.prems(2))
    then show "foldM body xs s' = emit (concat (map c xs)) s'" using Cons by simp
  qed
  then show ?case using Cons.prems by (simp add: emit_append)
qed (simp add: emit_Nil)

text \<open>A step that goes on after \<open>n\<close> bytes and takes \<open>c\<close> more; the counters are the loop's own.\<close>

lemma emit_step:
  assumes "r = emit (groups_text table (take n xs)) s \<bind> (\<lambda>s. Some (l, s))"
    and "\<And>s. ok s \<Longrightarrow> rest (l, s) = emit (groups_text table (take c (drop n xs))) s \<bind> (\<lambda>s. Some (l', s))"
    and "ok s" "3 dvd n" "n \<le> length xs"
  shows "r \<bind> rest = emit (groups_text table (take (n + c) xs)) s \<bind> (\<lambda>s. Some (l', s))"
proof -
  have "r \<bind> rest = emit (groups_text table (take n xs)) s \<bind> (\<lambda>s. rest (l, s))"
    by (simp add: assms(1) bind_assoc)
  also have "\<dots> = emit (groups_text table (take n xs)) s
      \<bind> (\<lambda>s. emit (groups_text table (take c (drop n xs))) s \<bind> (\<lambda>s. Some (l', s)))"
  proof (rule Option.bind_cong [OF refl])
    fix s' assume e: "emit (groups_text table (take n xs)) s = Some s'"
    have "ok s'"
      by (rule emit_ok [OF assms(3) _ e]) (use assms(4,5) in \<open>simp add: groups_text_quads\<close>)
    then show "rest (l, s') = emit (groups_text table (take c (drop n xs))) s' \<bind> (\<lambda>s. Some (l', s))"
      by (rule assms(2))
  qed
  finally show ?thesis unfolding emit_groups [OF assms(3-5), symmetric] bind_assoc .
qed

end

text \<open>The contract: some complete groups are emitted, and their number of bytes is reported.\<close>

locale wrapped_kernel =
  fixes run :: "bytes \<Rightarrow> wrapped_output \<Rightarrow> (nat \<times> wrapped_output) option" and table :: bytes
  assumes run_emits: "wrapped_ok s \<Longrightarrow> \<exists>n. 3 dvd n \<and> n \<le> length input
    \<and> run input s = emit_wrapped (groups_text table (take n input)) s \<bind> (\<lambda>s. Some (n, s))"
    and table_length: "length table = 64"
begin

lemma run_then_scalar:
  assumes "wrapped_ok s"
  shows "do { (n, s) \<leftarrow> run input s;
      guard (n \<le> length input);
      encode_scalar_wrapped_with_alphabet (drop n input) table padded s }
    = emit_wrapped (encode_padded_spec table padded input) s"
proof -
  obtain n where n: "3 dvd n" "n \<le> length input"
    "run input s = emit_wrapped (groups_text table (take n input)) s \<bind> (\<lambda>s. Some (n, s))"
    using run_emits [OF assms] by blast
  have "emit_wrapped (groups_text table (take n input)) s
      \<bind> (\<lambda>s. encode_scalar_wrapped_with_alphabet (drop n input) table padded s)
    = emit_wrapped (groups_text table (take n input)) s
      \<bind> emit_wrapped (encode_padded_spec table padded (drop n input))"
  proof (rule Option.bind_cong [OF refl])
    fix s' assume e: "emit_wrapped (groups_text table (take n input)) s = Some s'"
    have "wrapped_ok s'"
      by (rule wrapped.emit_ok [OF assms _ e]) (use n in \<open>simp add: groups_text_quads\<close>)
    then show "encode_scalar_wrapped_with_alphabet (drop n input) table padded s'
        = emit_wrapped (encode_padded_spec table padded (drop n input)) s'"
      by (rule encode_scalar_wrapped_emit [OF table_length])
  qed
  then show ?thesis
    using n by (simp add: bind_assoc encode_padded_split [OF n(1,2)] emit_wrapped_append)
qed

end

lemma wrapped_takes_nothing:
  "\<exists>n. 3 dvd n \<and> n \<le> length input
    \<and> Some (0, s) = emit_wrapped (groups_text table (take n input)) s \<bind> (\<lambda>s. Some (n, s))"
  by (rule exI [of _ 0]) simp

section \<open>The kernels keep the contract\<close>

lemma write_groups_16:
  assumes "wrapped_ok s" "off + 12 \<le> length input"
  shows "wrapped_write_16 (groups_text table (take 12 (drop off input))) s
    = emit_wrapped (groups_text table (take 12 (drop off input))) s"
  using assms length_block [of "drop off input" table] by (simp add: write_16_emit)

lemma foldM_Cons: "foldM f (x # xs) = (\<lambda>s. f x s \<bind> foldM f xs)"
  by (rule ext) simp

text \<open>Blocks of 16 characters, one after another.\<close>

lemma write_blocks_16:
  assumes "wrapped_ok s" "length v = 16 * n"
  shows "foldM (\<lambda>i. wrapped_write_16 (take 16 (drop (16 * i) v))) [0..<n] s = emit_wrapped v s"
proof -
  have "foldM (\<lambda>i. wrapped_write_16 (take 16 (drop (16 * i) v))) [0..<n] s
      = emit_wrapped (concat (map (\<lambda>i. take 16 (drop (16 * i) v)) [0..<n])) s"
  proof (rule wrapped.foldM_emit [OF assms(1)])
    fix i assume "i \<in> set [0..<n]"
    then have "16 * i + 16 \<le> length v" using assms(2) by simp
    then have l: "length (take 16 (drop (16 * i) v)) = 16" by simp
    then show "4 dvd length (take 16 (drop (16 * i) v))" by simp
    show "wrapped_write_16 (take 16 (drop (16 * i) v)) s = emit_wrapped (take 16 (drop (16 * i) v)) s"
      if "wrapped_ok s" for s by (rule write_16_emit [OF that l])
  qed
  moreover have "concat (map (\<lambda>i. take 16 (drop (16 * i) v)) [0..<n]) = take (16 * n) v" for n
    by (induction n) (simp_all add: take_add [of "16 * _" 16, symmetric] add.commute)
  ultimately show ?thesis using assms(2) by simp
qed

lemma write_32_emit:
  "wrapped_ok s \<Longrightarrow> length v = 32 \<Longrightarrow> avx2_write_wrapped_32 v s = emit_wrapped v s"
  using write_blocks_16 [of s v 2] by (simp add: avx2_write_wrapped_32_def upt_rec foldM_Cons)

lemma write_64_emit:
  "wrapped_ok s \<Longrightarrow> length v = 64 \<Longrightarrow> avx512_write_wrapped_64 v s = emit_wrapped v s"
  using write_blocks_16 [of s v 4] by (simp add: avx512_write_wrapped_64_def upt_rec foldM_Cons)

text \<open>Four blocks of \<open>k\<close> input bytes.\<close>

lemma four_blocks_emit:
  assumes "wrapped_ok s" "off + m \<le> length input" "3 dvd k" "os = [0, k, k + k, k + k + k]" "m = 4 * k"
    and body: "\<And>x s. x \<in> set os \<Longrightarrow> wrapped_ok s \<Longrightarrow>
      body x s = emit_wrapped (groups_text table (take k (drop (off + x) input))) s"
  shows "foldM body os s = emit_wrapped (groups_text table (take m (drop off input))) s"
proof -
  have "foldM body os s
      = emit_wrapped (concat (map (\<lambda>x. groups_text table (take k (drop (off + x) input))) os)) s"
    using assms by (intro wrapped.foldM_emit) (auto intro!: groups_text_quads)
  also have "concat (map (\<lambda>x. groups_text table (take k (drop (off + x) input))) os)
      = groups_text table (take m (drop off input))"
    using assms(2-5) groups_text_four [of k "drop off input" "k + k" "k + k + k" "4 * k" table]
    by (simp add: ac_simps)
  finally show ?thesis .
qed

lemma ssse3_encode_wrapped_emits:
  assumes o: "offsets_encode offsets table" and "wrapped_ok s"
  shows "\<exists>n. 3 dvd n \<and> n \<le> length input \<and> ssse3_encode_wrapped_with_offsets input s offsets
    = emit_wrapped (groups_text table (take n input)) s \<bind> (\<lambda>s. Some (n, s))"
proof -
  let ?wide = "\<lambda>source. foldM (\<lambda>offset out. do {
             encoded \<leftarrow> ssse3_encode_12 input (source + offset) offsets;
             wrapped_write_16 encoded out }) [0, 12, 24, 36]"
  let ?narrow = "\<lambda>source out. do {
           encoded \<leftarrow> ssse3_encode_12 input source offsets;
           wrapped_write_16 encoded out }"
  have narrow: "?narrow off s = emit_wrapped (groups_text table (take 12 (drop off input))) s"
    if "off + 16 \<le> length input" "wrapped_ok s" for off s
    using that by (simp add: ssse3_encode_12_groups [OF o] write_groups_16)
  have wide: "?wide off s = emit_wrapped (groups_text table (take 48 (drop off input))) s"
    if "off + 52 \<le> length input" "wrapped_ok s" for off s
    using that narrow by (intro four_blocks_emit [where k = 12]) auto
  show ?thesis
    using wrapped.emit_two_loops [where body = ?wide and body' = ?narrow and xs = input and table = table
        and s = s and st = 48 and st' = 12 and width = 52 and width' = 16] wide narrow assms(2)
    by (auto simp: ssse3_encode_wrapped_with_offsets_def)
qed

interpretation ssse3_wrapped: wrapped_kernel "ssse3_encode_wrapped u" "alphabet_of u" for u
  by unfold_locales (simp_all add: ssse3_encode_wrapped_def ssse3_encode_wrapped_emits standard_offsets_encode)

lemma ssse3_encode_wrapped_custom_emits:
  assumes "take 62 table = take 62 STANDARD_ALPHABET" "length table = 64" "wrapped_ok s"
  shows "\<exists>n. 3 dvd n \<and> n \<le> length input
    \<and> ssse3_encode_wrapped_custom input s (custom_offsets (custom_from_table table))
      = emit_wrapped (groups_text table (take n input)) s \<bind> (\<lambda>s. Some (n, s))"
proof -
  note o = custom_offsets_encode [OF assms(1,2)]
  then have "slice (custom_offsets (custom_from_table table)) 0 16 = Some (custom_offsets (custom_from_table table))"
    by (simp add: slice_simps offsets_encode_def)
  then show ?thesis
    using ssse3_encode_wrapped_emits [OF o assms(3)] by (simp add: ssse3_encode_wrapped_custom_def)
qed

lemma write_groups_24:
  assumes "wrapped_ok s" "off + 24 \<le> length input"
  shows "avx2_write_wrapped_32 (groups_text table (take 24 (drop off input))) s
    = emit_wrapped (groups_text table (take 24 (drop off input))) s"
  using assms by (simp add: write_32_emit length_groups_text)

lemma avx2_encode_wrapped_emits:
  assumes o: "offsets_encode offsets table" and s: "wrapped_ok s" and len: "32 \<le> length input"
  shows "\<exists>n. 3 dvd n \<and> n \<le> length input
    \<and> avx2_encode_wrapped_with_offsets input s (broadcastsi128 offsets)
      = emit_wrapped (groups_text table (take n input)) s \<bind> (\<lambda>s. Some (n, s))"
proof -
  let ?o = "broadcastsi128 offsets" and ?n = "length input"
  let ?g = "\<lambda>n. emit_wrapped (groups_text table (take n input)) s"
  let ?wide = "\<lambda>load_offset. foldM (\<lambda>offset out. do {
             encoded \<leftarrow> avx2_encode_24_shifted input (load_offset + offset) ?o;
             avx2_write_wrapped_32 encoded out }) [0, 24, 48, 72]"
  let ?narrow = "\<lambda>load_offset out. do {
           encoded \<leftarrow> avx2_encode_24_shifted input load_offset ?o;
           avx2_write_wrapped_32 encoded out }"
  let ?tail = "\<lambda>(load_offset, out). let source = load_offset + 4 in
       if source + 16 \<le> length input then do {
          encoded \<leftarrow> avx2_encode_12 input source (take 16 ?o);
          out \<leftarrow> wrapped_write_16 encoded out;
          Some (source + 12, out) }
        else Some (source, out)"
  have first: "avx2_encode_24_first input ?o = Some (groups_text table (take 24 input))"
    using len avx2_encode_24_shifted_value_groups [OF o, of "take 4 input @ take 28 input"]
    by (simp add: avx2_encode_24_first_def slice_simps permute_shifts min_def)
  have narrow: "?narrow off s = emit_wrapped (groups_text table (take 24 (drop off (drop 4 input)))) s"
    if "off + 32 \<le> ?n" "wrapped_ok s" for off s
    using that shifted_block [of off input table] write_groups_24 [of s "off + 4" input table]
    by (simp add: avx2_encode_24_shifted_def slice_simps avx2_encode_24_shifted_value_groups [OF o]
        shifted_text_def)
  have wide: "?wide off s = emit_wrapped (groups_text table (take 96 (drop off (drop 4 input)))) s"
    if "off + 104 \<le> ?n" "wrapped_ok s" for off s
    by (rule four_blocks_emit [where k = 24]) (use that narrow in auto)
  define k where "k = passes ?n 104 96 20 * 96"
  define p where "p = passes ?n 32 24 (20 + k) * 24"
  define c where "c = (if 24 + k + p + 16 \<le> ?n then 12 else 0 :: nat)"
  have k: "3 dvd k" "24 + k \<le> ?n"
    using passes_bound [of 20 ?n 104 96] len by (auto simp: k_def)
  have p: "3 dvd p" "24 + k + p \<le> ?n"
    using passes_bound [of "20 + k" ?n 32 24] k by (auto simp: p_def)
  have loop1: "scan_while ?n 104 96 ?wide 20 s
      = emit_wrapped (groups_text table (take k (drop 24 input))) s \<bind> (\<lambda>s. Some (20 + k, s))"
    if "wrapped_ok s" for s
    using that wide unfolding k_def
    by (subst wrapped.emit_loop [where xs = "drop 4 input" and table = table]) auto
  have loop2: "scan_while ?n 32 24 ?narrow (20 + k) s
      = emit_wrapped (groups_text table (take p (drop (24 + k) input))) s \<bind> (\<lambda>s. Some (20 + (k + p), s))"
    if "wrapped_ok s" for s
    using that narrow unfolding p_def
    by (subst wrapped.emit_loop [where xs = "drop 4 input" and table = table]) (auto simp: ac_simps)
  have tail: "?tail (20 + (k + p), s)
      = emit_wrapped (groups_text table (take c (drop (24 + k + p) input))) s \<bind> (\<lambda>s. Some (24 + k + p + c, s))"
    if "wrapped_ok s" for s
  proof -
    have "length offsets = 16" using o by (simp add: offsets_encode_def)
    then show ?thesis
      using that ssse3_encode_12_groups [OF o, of "24 + k + p" input] write_groups_16 [of s "24 + k + p" input table]
      by (auto simp: c_def avx2_encode_12_eq take_16_broadcast Let_def ac_simps)
  qed
  have "?g 24 \<bind> (\<lambda>s. Some ((), s)) \<bind> (\<lambda>(_, s). scan_while ?n 104 96 ?wide 20 s)
      = ?g (24 + k) \<bind> (\<lambda>s. Some (20 + k, s))"
    by (rule wrapped.emit_step [OF refl _ s]) (use loop1 len in simp_all)
  then have 1: "avx2_write_wrapped_32 (groups_text table (take 24 input)) s \<bind> scan_while ?n 104 96 ?wide 20
      = ?g (24 + k) \<bind> (\<lambda>s. Some (20 + k, s))"
    using write_groups_24 [OF s, of 0 input table] len by (simp add: bind_assoc)
  have 2: "(?g (24 + k) \<bind> (\<lambda>s. Some (20 + k, s))) \<bind> (\<lambda>(off, s). scan_while ?n 32 24 ?narrow off s)
      = ?g (24 + k + p) \<bind> (\<lambda>s. Some (20 + (k + p), s))"
    by (rule wrapped.emit_step [OF refl _ s]) (use loop2 k in \<open>simp_all add: dvd_add\<close>)
  have 3: "(?g (24 + k + p) \<bind> (\<lambda>s. Some (20 + (k + p), s))) \<bind> ?tail
      = ?g (24 + k + p + c) \<bind> (\<lambda>s. Some (24 + k + p + c, s))"
    by (rule wrapped.emit_step [OF refl _ s]) (use tail k p in \<open>simp_all add: dvd_add\<close>)
  have "avx2_encode_wrapped_with_offsets input s ?o
      = ((avx2_write_wrapped_32 (groups_text table (take 24 input)) s \<bind> scan_while ?n 104 96 ?wide 20)
          \<bind> (\<lambda>(off, s). scan_while ?n 32 24 ?narrow off s)) \<bind> ?tail"
    unfolding avx2_encode_wrapped_with_offsets_def first by (simp add: bind_assoc split_def)
  also have "\<dots> = ?g (24 + k + p + c) \<bind> (\<lambda>s. Some (24 + k + p + c, s))"
    unfolding 1 2 3 ..
  finally show ?thesis
    using k p by (intro exI [of _ "24 + k + p + c"]) (simp add: dvd_add c_def)
qed

lemma avx2_encode_wrapped_kernel:
  assumes "cpu Ssse3" "wrapped_ok s"
  shows "\<exists>n. 3 dvd n \<and> n \<le> length input \<and> avx2_encode_wrapped cpu u input s
    = emit_wrapped (groups_text (alphabet_of u) (take n input)) s \<bind> (\<lambda>s. Some (n, s))"
  using assms avx2_encode_wrapped_emits [OF standard_offsets_encode assms(2), of input u]
    ssse3_wrapped.run_emits [OF assms(2), of input u]
  by (simp add: avx2_encode_wrapped_def avx2_standard_offsets_eq)

lemma avx2_encode_wrapped_custom_kernel:
  assumes "cpu Ssse3" and t: "take 62 table = take 62 STANDARD_ALPHABET" "length table = 64" and "wrapped_ok s"
  shows "\<exists>n. 3 dvd n \<and> n \<le> length input
    \<and> avx2_encode_wrapped_custom cpu input s (custom_offsets (custom_from_table table))
      = emit_wrapped (groups_text table (take n input)) s \<bind> (\<lambda>s. Some (n, s))"
proof -
  note o = custom_offsets_encode [OF t]
  then have "slice (custom_offsets (custom_from_table table)) 0 16 = Some (custom_offsets (custom_from_table table))"
    by (simp add: slice_simps offsets_encode_def)
  then show ?thesis
    using assms avx2_encode_wrapped_emits [OF o assms(4), of input]
      ssse3_encode_wrapped_custom_emits [OF t assms(4), of input]
    by (simp add: avx2_encode_wrapped_custom_def)
qed

lemma write_groups_48:
  assumes "wrapped_ok s" "off + 48 \<le> length input"
  shows "avx512_write_wrapped_64 (groups_text table (take 48 (drop off input))) s
    = emit_wrapped (groups_text table (take 48 (drop off input))) s"
  using assms by (simp add: write_64_emit length_groups_text)

text \<open>The last complete groups go through a buffer of 64 bytes.\<close>

lemma avx512_wrapped_rest:
  assumes "wrapped_ok s" "off \<le> length input" "length input < off + 48"
  defines "c \<equiv> (length input - off) div 3 * 3"
  shows "(if c \<noteq> 0 then do {
            encoded \<leftarrow> avx512_encode_tail_value input off c ENCODE_SHUFFLE avx512_shifts table;
            let complete_output = c div 3 * 4;
            guard (complete_output < 64);
            let output_mask = push_bit complete_output 1 - 1;
            region \<leftarrow> mask_storeu_epi8 (replicate 64 0) 0 output_mask encoded;
            region \<leftarrow> slice region 0 complete_output;
            wrapped_write_bytes region s }
          else Some s) = emit_wrapped (groups_text table (take c (drop off input))) s"
proof (cases "c = 0")
  case False
  have c: "3 dvd c" "c < 48" "off + c \<le> length input"
    using assms div_times_less_eq_dividend [of "length input - off" 3] by (auto simp: c_def)
  obtain e where e: "avx512_encode_tail_value input off c ENCODE_SHUFFLE avx512_shifts table = Some e"
    "length e = 64" "take (c div 3 * 4) e = groups_text table (take c (drop off input))"
    using avx512_encode_tail_groups [of off c input table] c by auto
  have pos: "0 < c div 3 * 4" "c div 3 * 4 < 64" using False c by (auto elim!: dvdE)
  have len: "length (groups_text table (take c (drop off input))) = c div 3 * 4"
    using c by (simp add: length_groups_text)
  have "mask_storeu_epi8 (replicate 64 0) 0 (push_bit (c div 3 * 4) 1 - 1) e
      = store (replicate 64 0) 0 (groups_text table (take c (drop off input)))"
    using mask_storeu_prefix [of "push_bit (c div 3 * 4) 1 - 1" "c div 3 * 4" e "replicate 64 0" 0] pos e
      low_mask_bits [OF pos(2)]
    by auto
  then show ?thesis
    using False e(1) pos len by (simp add: Let_def store_def slice_simps write_bytes_emit [OF assms(1)])
qed simp

lemma avx512_encode_wrapped_emits:
  assumes s: "wrapped_ok s"
  shows "\<exists>n. 3 dvd n \<and> n \<le> length input \<and> avx512_encode_wrapped_with_table input s table
    = emit_wrapped (groups_text table (take n input)) s \<bind> (\<lambda>s. Some (n, s))"
proof -
  let ?g = "\<lambda>n. emit_wrapped (groups_text table (take n input)) s"
  let ?block = "\<lambda>source. avx512_encode_48_value input source ENCODE_SHUFFLE avx512_shifts table"
  let ?wide = "\<lambda>source. foldM (\<lambda>offset out. do {
             encoded \<leftarrow> ?block (source + offset);
             avx512_write_wrapped_64 encoded out }) [0, 48, 96, 144]"
  let ?narrow = "\<lambda>source out. do {
           encoded \<leftarrow> ?block source;
           avx512_write_wrapped_64 encoded out }"
  let ?tail = "\<lambda>(source, out). do {
       let remaining = length input - source;
       let complete_input = remaining div 3 * 3;
       out \<leftarrow>
         (if complete_input \<noteq> 0 then do {
            encoded \<leftarrow> avx512_encode_tail_value input source complete_input ENCODE_SHUFFLE avx512_shifts table;
            let complete_output = complete_input div 3 * 4;
            guard (complete_output < 64);
            let output_mask = push_bit complete_output 1 - 1;
            region \<leftarrow> mask_storeu_epi8 (replicate 64 0) 0 output_mask encoded;
            region \<leftarrow> slice region 0 complete_output;
            wrapped_write_bytes region out }
          else Some out);
       Some (source + complete_input, out) }"
  have shuffle: "slice ENCODE_SHUFFLE 0 64 = Some ENCODE_SHUFFLE"
    by (simp add: slice_simps ENCODE_SHUFFLE_bytes)
  have narrow: "?narrow off s = emit_wrapped (groups_text table (take 48 (drop off input))) s"
    if "off + 48 \<le> length input" "wrapped_ok s" for off s
    using that by (simp add: avx512_encode_48_value_groups write_groups_48)
  have wide: "?wide off s = emit_wrapped (groups_text table (take 192 (drop off input))) s"
    if "off + 192 \<le> length input" "wrapped_ok s" for off s
    by (rule four_blocks_emit [where k = 48]) (use that narrow in auto)
  obtain n where n: "3 dvd n" "n \<le> length input" "length input < n + 48"
    and loops: "scan_while (length input) 192 192 ?wide 0 s
        \<bind> (\<lambda>(off, s). scan_while (length input) 48 48 ?narrow off s) = ?g n \<bind> (\<lambda>s. Some (n, s))"
    using wrapped.emit_two_loops [where body = ?wide and body' = ?narrow and xs = input and table = table
        and s = s and st = 192 and st' = 48 and width = 192 and width' = 48] wide narrow s
    by auto
  define c where "c = (length input - n) div 3 * 3"
  have c: "3 dvd c" "n + c \<le> length input"
    using n div_times_less_eq_dividend [of "length input - n" 3] by (auto simp: c_def)
  have tail: "?tail (n, s) = emit_wrapped (groups_text table (take c (drop n input))) s \<bind> (\<lambda>s. Some (n + c, s))"
    if "wrapped_ok s" for s
    unfolding prod.case Let_def [of "length input - n"] Let_def [of "_ div 3 * 3"]
    unfolding avx512_wrapped_rest [OF that n(2,3), of table] c_def ..
  have "avx512_encode_wrapped_with_table input s table = (?g n \<bind> (\<lambda>s. Some (n, s))) \<bind> ?tail"
    unfolding avx512_encode_wrapped_with_table_def shuffle loops [symmetric]
    by (simp add: bind_assoc split_def Let_def)
  also have "\<dots> = ?g (n + c) \<bind> (\<lambda>s. Some (n + c, s))"
    by (rule wrapped.emit_step [OF refl tail s n(1,2)])
  finally show ?thesis using n c by (intro exI [of _ "n + c"]) (simp add: dvd_add)
qed

lemma avx512_encode_wrapped_kernel:
  assumes "cpu Avx2" "cpu Ssse3" "wrapped_ok s"
  shows "\<exists>n. 3 dvd n \<and> n \<le> length input \<and> avx512_encode_wrapped cpu u input s
    = emit_wrapped (groups_text (alphabet_of u) (take n input)) s \<bind> (\<lambda>s. Some (n, s))"
  using assms avx512_encode_wrapped_emits [OF assms(3), of input "alphabet_of u"]
    avx2_encode_wrapped_kernel [where cpu = cpu, OF assms(2,3), of input u]
  by (simp add: avx512_encode_wrapped_def slice_simps)

lemma avx512_encode_wrapped_custom_kernel:
  assumes "cpu Avx2" "cpu Ssse3" and t: "take 62 table = take 62 STANDARD_ALPHABET" "length table = 64"
    and "wrapped_ok s"
  shows "\<exists>n. 3 dvd n \<and> n \<le> length input
    \<and> avx512_encode_wrapped_custom cpu input s (custom_from_table table)
      = emit_wrapped (groups_text table (take n input)) s \<bind> (\<lambda>s. Some (n, s))"
proof -
  have "custom_table (custom_from_table table) = table" by (simp add: custom_from_table_def)
  then show ?thesis
    using assms avx512_encode_wrapped_emits [OF assms(5), of input table]
      avx2_encode_wrapped_custom_kernel [where cpu = cpu, OF assms(2) t assms(5), of input]
    by (simp add: avx512_encode_wrapped_custom_def slice_simps)
qed

text \<open>The transposition on NEON: two zips of bytes and two of pairs interleave four vectors.\<close>

lemma chunks_pairs: "chunks 2 [] = []" "chunks 2 (a # b # r) = [a, b] # chunks 2 r"
  by (simp_all add: chunks.simps)

lemma vzip_interleave4:
  assumes "length x = 8" "length y = 8" "length z = 8" "length w = 8"
  shows "neon_write_wrapped_32 (x, y, z, w) s = avx2_write_wrapped_32 (interleave4 (x, y, z, w)) s"
  using assms unfolding length_eq_8
  by (auto simp: neon_write_wrapped_32_def avx2_write_wrapped_32_def vzip1_u8_def vzip2_u8_def
      vzip1_u16_def vzip2_u16_def chunks_pairs Let_def)

lemma vzip_interleave4_q:
  assumes "length x = 16" "length y = 16" "length z = 16" "length w = 16"
  shows "neon_write_wrapped_64 (x, y, z, w) s = avx512_write_wrapped_64 (interleave4 (x, y, z, w)) s"
  using assms unfolding list16
  by (auto simp: neon_write_wrapped_64_def avx512_write_wrapped_64_def vzip1_u8_def vzip2_u8_def
      vzip1_u16_def vzip2_u16_def chunks_pairs Let_def)

lemma neon_values:
  assumes "off + 3 * k \<le> length input" "3 dvd 3 * k"
  defines "v \<equiv> take (3 * k) (drop off input)"
  shows "k = 16 \<Longrightarrow> neon_encode_48_value input off table = Some (neon_text table (deinterleave3 v))"
    and "k = 8 \<Longrightarrow> neon_encode_24_value input off table = Some (neon_text table (deinterleave3 v))"
    and "interleave4 (neon_text table (deinterleave3 v)) = groups_text table v"
    and "case neon_text table (deinterleave3 v) of (x, y, z, w) \<Rightarrow>
      length x = k \<and> length y = k \<and> length z = k \<and> length w = k"
proof -
  have s: "slice input off (3 * k) = Some v" and l: "length v = 3 * k" using assms by (simp_all add: slice_simps)
  show "k = 16 \<Longrightarrow> neon_encode_48_value input off table = Some (neon_text table (deinterleave3 v))"
    using neon_value_text [OF s, of table] by (simp add: neon_encode_48_value_def)
  show "k = 8 \<Longrightarrow> neon_encode_24_value input off table = Some (neon_text table (deinterleave3 v))"
    using neon_value_text [OF s, of table] by (simp add: neon_encode_24_value_def)
  show "interleave4 (neon_text table (deinterleave3 v)) = groups_text table v"
    using l by (intro neon_text_groups) simp
  obtain x y z where d: "deinterleave3 v = (x, y, z)" by (cases "deinterleave3 v")
  show "case neon_text table (deinterleave3 v) of (x, y, z, w) \<Rightarrow>
      length x = k \<and> length y = k \<and> length z = k \<and> length w = k"
    using neon_text_and [OF d l]
    by (simp add: d neon_text_def vqtbl4_def vshr_n_u8_def vsli_n_u8_def Let_def)
qed

lemma neon_write_groups:
  "wrapped_ok s \<Longrightarrow> off + 48 \<le> length input \<Longrightarrow>
    neon_encode_48_value input off table \<bind> (\<lambda>v. neon_write_wrapped_64 v s)
      = emit_wrapped (groups_text table (take 48 (drop off input))) s"
  "wrapped_ok s \<Longrightarrow> off + 24 \<le> length input \<Longrightarrow>
    neon_encode_24_value input off table \<bind> (\<lambda>v. neon_write_wrapped_32 v s)
      = emit_wrapped (groups_text table (take 24 (drop off input))) s"
  using neon_values [of off 16 input table] neon_values [of off 8 input table]
    write_groups_48 [of s off input table] write_groups_24 [of s off input table]
  by (auto simp: vzip_interleave4 vzip_interleave4_q)

lemma neon_encode_wrapped_emits:
  assumes s: "wrapped_ok s"
  shows "\<exists>n. 3 dvd n \<and> n \<le> length input \<and> neon_encode_wrapped_with_table input s table
    = emit_wrapped (groups_text table (take n input)) s \<bind> (\<lambda>s. Some (n, s))"
proof -
  let ?g = "\<lambda>n. emit_wrapped (groups_text table (take n input)) s"
  let ?wide = "\<lambda>source. foldM (\<lambda>offset out. do {
             encoded \<leftarrow> neon_encode_48_value input (source + offset) table;
             neon_write_wrapped_64 encoded out }) [0, 48, 96, 144]"
  let ?narrow = "\<lambda>source out. do {
           encoded \<leftarrow> neon_encode_48_value input source table;
           neon_write_wrapped_64 encoded out }"
  let ?tail = "\<lambda>(source, out). if source + 24 \<le> length input then do {
          encoded \<leftarrow> neon_encode_24_value input source table;
          out \<leftarrow> neon_write_wrapped_32 encoded out;
          Some (source + 24, out) }
        else Some (source, out)"
  have wide: "?wide off s = emit_wrapped (groups_text table (take 192 (drop off input))) s"
    if "off + 192 \<le> length input" "wrapped_ok s" for off s
    by (rule four_blocks_emit [where k = 48]) (use that neon_write_groups(1) in auto)
  obtain n where n: "3 dvd n" "n \<le> length input"
    and loops: "scan_while (length input) 192 192 ?wide 0 s
        \<bind> (\<lambda>(off, s). scan_while (length input) 48 48 ?narrow off s) = ?g n \<bind> (\<lambda>s. Some (n, s))"
    using wrapped.emit_two_loops [where body = ?wide and body' = ?narrow and xs = input and table = table
        and s = s and st = 192 and st' = 48 and width = 192 and width' = 48] wide neon_write_groups(1) s
    by auto
  define c where "c = (if n + 24 \<le> length input then 24 else 0 :: nat)"
  have tail: "?tail (n, s) = emit_wrapped (groups_text table (take c (drop n input))) s \<bind> (\<lambda>s. Some (n + c, s))"
    if "wrapped_ok s" for s
    using neon_write_groups(2) [OF that, of n input table]
    by (auto simp: c_def simp flip: bind_assoc)
  have "neon_encode_wrapped_with_table input s table = (?g n \<bind> (\<lambda>s. Some (n, s))) \<bind> ?tail"
    unfolding neon_encode_wrapped_with_table_def loops [symmetric] by (simp add: bind_assoc split_def)
  also have "\<dots> = ?g (n + c) \<bind> (\<lambda>s. Some (n + c, s))"
    by (rule wrapped.emit_step [OF refl tail s n])
  finally show ?thesis using n by (intro exI [of _ "n + c"]) (simp add: dvd_add c_def)
qed

interpretation avx2_wrapped: wrapped_kernel "avx2_encode_wrapped (\<lambda>_. True) u" "alphabet_of u" for u
  by unfold_locales (simp_all add: avx2_encode_wrapped_kernel)

interpretation avx512_wrapped: wrapped_kernel "avx512_encode_wrapped (\<lambda>_. True) u" "alphabet_of u" for u
  by unfold_locales (simp_all add: avx512_encode_wrapped_kernel)

interpretation neon_wrapped: wrapped_kernel "neon_encode_wrapped u" "alphabet_of u" for u
  by unfold_locales (simp_all add: neon_encode_wrapped_def load_table_64_Some neon_encode_wrapped_emits)

section \<open>Every selected kernel keeps the contract\<close>

lemma wrapped_runtime_kernel:
  assumes "selected_backend machine = Some selection"
  shows "wrapped_kernel (\<lambda>input out. encode_wrapped_with_runtime_backend machine input out u) (alphabet_of u)"
proof
  fix s and input :: bytes
  assume s: "wrapped_ok s"
  note runs = selected_backend_runs [OF assms]
  have "\<exists>n. 3 dvd n \<and> n \<le> length input
    \<and> encode_wrapped_with_backend_inner machine input s (runtime_backend selection) u
      = emit_wrapped (groups_text (alphabet_of u) (take n input)) s \<bind> (\<lambda>s. Some (n, s))"
  proof (cases "is_x86 (arch_of machine)")
    case True
    then show ?thesis
      using runs avx512_encode_wrapped_kernel [where cpu = "cpu_of machine", OF _ _ s, of input u]
        avx2_encode_wrapped_kernel [where cpu = "cpu_of machine", OF _ s, of input u]
        ssse3_wrapped.run_emits [OF s, of input u] wrapped_takes_nothing [of input s "alphabet_of u"]
      by (cases "runtime_backend selection") (simp_all add: encode_wrapped_with_backend_inner_def)
  next
    case x86: False
    let ?neon = "arch_of machine = Arch_AArch64 \<and> runtime_backend selection = Base64_Neon"
    show ?thesis
    proof (cases ?neon)
      case True
      then show ?thesis
        using x86 runs neon_wrapped.run_emits [OF s, of input u] by (simp add: encode_wrapped_with_backend_inner_def)
    next
      case False
      show ?thesis
        unfolding encode_wrapped_with_backend_inner_def if_not_P [OF x86] if_not_P [OF False]
        by (rule wrapped_takes_nothing)
    qed
  qed
  then show "\<exists>n. 3 dvd n \<and> n \<le> length input \<and> encode_wrapped_with_runtime_backend machine input s u
      = emit_wrapped (groups_text (alphabet_of u) (take n input)) s \<bind> (\<lambda>s. Some (n, s))"
    using assms by (simp add: encode_wrapped_with_runtime_backend_def)
qed simp

lemma wrapped_custom_kernel:
  assumes "selected_backend machine = Some selection" "length table = 64"
  shows "wrapped_kernel
    (\<lambda>input out. encode_wrapped_custom_with_runtime_backend machine input out (custom_from_table table)) table"
proof
  fix s and input :: bytes
  assume s: "wrapped_ok s"
  let ?a = "custom_from_table table"
  note runs = selected_backend_runs [OF assms(1)]
  have [simp]: "custom_table ?a = table" by (simp add: custom_from_table_def)
  have "\<exists>n. 3 dvd n \<and> n \<le> length input
    \<and> encode_wrapped_custom_with_backend_inner machine input s (runtime_backend selection) ?a
      = emit_wrapped (groups_text table (take n input)) s \<bind> (\<lambda>s. Some (n, s))"
  proof (cases "has_standard_prefix ?a")
    case True
    then have t: "take 62 table = take 62 STANDARD_ALPHABET" by (simp add: custom_from_table_def)
    show ?thesis
    proof (cases "is_x86 (arch_of machine)")
      case x86: True
      show ?thesis
        using x86 True runs
          avx512_encode_wrapped_custom_kernel [where cpu = "cpu_of machine", OF _ _ t assms(2) s, of input]
          avx2_encode_wrapped_custom_kernel [where cpu = "cpu_of machine", OF _ t assms(2) s, of input]
          ssse3_encode_wrapped_custom_emits [OF t assms(2) s, of input] wrapped_takes_nothing [of input s table]
        by (cases "runtime_backend selection") (simp_all add: encode_wrapped_custom_with_backend_inner_def)
    next
      case x86: False
      let ?neon = "arch_of machine = Arch_AArch64 \<and> runtime_backend selection = Base64_Neon"
      show ?thesis
      proof (cases ?neon)
        case neon: True
        then show ?thesis
          using x86 True runs assms(2) neon_encode_wrapped_emits [OF s, of input table]
          by (simp add: encode_wrapped_custom_with_backend_inner_def neon_encode_wrapped_custom_def load_table_64_Some)
      next
        case neon: False
        show ?thesis
          using True wrapped_takes_nothing [of input s table]
          unfolding encode_wrapped_custom_with_backend_inner_def if_not_P [OF x86] if_not_P [OF neon] by simp
      qed
    qed
  next
    case False
    then show ?thesis using wrapped_takes_nothing [of input s table]
      by (simp add: encode_wrapped_custom_with_backend_inner_def)
  qed
  then show "\<exists>n. 3 dvd n \<and> n \<le> length input \<and> encode_wrapped_custom_with_runtime_backend machine input s ?a
      = emit_wrapped (groups_text table (take n input)) s \<bind> (\<lambda>s. Some (n, s))"
    using assms(1) by (simp add: encode_wrapped_custom_with_runtime_backend_def)
qed (rule assms(2))

section \<open>The entry points write the lines\<close>

lemma wrapped_new_emit:
  "wrapped_new output width \<bind> (\<lambda>s. emit_wrapped e s \<bind> (\<lambda>s. Some (wrapped_region s)))
    = (if 4 \<le> width \<and> 4 dvd width then store output 0 (wrap_lines width e) else None)"
proof (cases "4 \<le> width \<and> 4 dvd width")
  case True
  then show ?thesis
    by (cases "e = []")
      (auto simp: wrapped_new_def emit_wrapped_def dvd_eq_mod_eq_0 wrap_from_lines Let_def bind_assoc
        wrap_lines.simps [of width "[]"] store_def)
qed (auto simp: wrapped_new_def dvd_eq_mod_eq_0)

lemma wrapped_new_ok: "wrapped_new output width = Some s \<Longrightarrow> wrapped_ok s"
  by (auto simp: wrapped_new_def wrapped_ok_def guard_def split: if_splits)

lemma wrapped_entry:
  assumes "wrapped_kernel run table"
  shows "(do {
       s \<leftarrow> wrapped_new output width;
       (consumed, s) \<leftarrow> (if length input < 16 then Some (0, s) else run input s);
       guard (consumed \<le> length input);
       s \<leftarrow> encode_scalar_wrapped_with_alphabet (drop consumed input) table padded s;
       Some (wrapped_region s) })
    = (if 4 \<le> width \<and> 4 dvd width
       then store output 0 (wrap_lines width (encode_padded_spec table padded input)) else None)"
proof -
  have "(do {
       (consumed, s) \<leftarrow> (if length input < 16 then Some (0, s) else run input s);
       guard (consumed \<le> length input);
       encode_scalar_wrapped_with_alphabet (drop consumed input) table padded s })
    = emit_wrapped (encode_padded_spec table padded input) s" if "wrapped_ok s" for s
    using wrapped_kernel.run_then_scalar [OF assms that, of input padded]
      encode_scalar_wrapped_emit [OF wrapped_kernel.table_length [OF assms] that, of input padded]
    by simp
  from arg_cong [OF this, of _ "\<lambda>r. r \<bind> (\<lambda>s. Some (wrapped_region s))"]
  show ?thesis
    unfolding wrapped_new_emit [symmetric]
    by (auto simp: bind_assoc split_def dest: wrapped_new_ok intro!: Option.bind_cong)
qed

lemma encode_wrapped_to_ptr_cached_eq:
  assumes "selected_backend machine = Some selection"
  shows "encode_wrapped_to_ptr_cached machine input output u padded width
    = (if 4 \<le> width \<and> 4 dvd width
       then store output 0 (wrap_lines width (encode_padded_spec (alphabet_of u) padded input)) else None)"
  using wrapped_entry [OF wrapped_runtime_kernel [OF assms, of u]]
  unfolding encode_wrapped_to_ptr_cached_def encode_scalar_wrapped_def .

lemma encode_wrapped_to_ptr_custom_eq:
  assumes "selected_backend machine = Some selection" "length table = 64"
  shows "encode_wrapped_to_ptr_custom machine input output (custom_from_table table) padded width
    = (if 4 \<le> width \<and> 4 dvd width
       then store output 0 (wrap_lines width (encode_padded_spec table padded input)) else None)"
proof -
  have "custom_table (custom_from_table table) = table" by (simp add: custom_from_table_def)
  then show ?thesis
    using wrapped_entry [OF wrapped_custom_kernel [OF assms]]
    unfolding encode_wrapped_to_ptr_custom_def by simp
qed

section \<open>Properties\<close>

text \<open>
  C37: writing lines directly: for every width that is a positive multiple of four, padded or not,
  and whichever kernel runs, the region starts with the lines of the encoded text, each of that
  width but the last, joined by newlines, and what lies behind them is untouched.  The code tracks no
  capacity; it relies on its caller for the room, and \<open>None\<close> is exactly the case of a shorter region.
\<close>
theorem encode_wrapped_correct:
  assumes "selected_backend machine = Some selection" "4 \<le> width" "width mod 4 = 0"
  shows "encode_wrapped_to_ptr_cached machine input output urlsafe padded width =
    (let t = wrap_lines width (encode_padded_spec (alphabet_of urlsafe) padded input) in
     if length t \<le> length output then Some (t @ drop (length t) output) else None)"
  using assms by (simp add: encode_wrapped_to_ptr_cached_eq dvd_eq_mod_eq_0 store_def Let_def)

lemma encode_wrapped_correct_witness:
  "encode_wrapped_to_ptr_cached example_machine (map of_char ''hello'') (replicate 10 0) False True 4
    = Some (map of_char ''aGVs'' @ [10] @ map of_char ''bG8='' @ [0])"
proof -
  have "encode_spec STANDARD_ALPHABET (map of_char ''hello'') = map of_char ''aGVsbG8=''"
    by (simp add: encode_spec_def encode_unpadded_spec_def padding_for_def symbol_def STANDARD_ALPHABET_bytes)
  then have "wrap_lines 4 (encode_padded_spec (alphabet_of False) True (map of_char ''hello''))
      = map of_char ''aGVs'' @ [10] @ map of_char ''bG8=''"
    by (simp add: encode_padded_spec_def alphabet_of_cases wrap_lines.simps)
  then show ?thesis
    using encode_wrapped_correct [OF example_selected, of 4 "map of_char ''hello''" "replicate 10 0" False True]
    by simp
qed

end
