(* ===== verification/Base64_Prepared.thy ===== *)
theory Base64_Prepared
  imports Base64_Wrapped
begin

text \<open>
  The prepared encoder behind the Python functions, \<open>src/bindings/base64/encode.rs\<close>: alphabet,
  padding and line width chosen once; the announced output length; and two ways to write lines.
  Up to 4 MiB the text is encoded at the start of the region and then spread out in place, from
  its end; beyond that the encoders of \<open>Base64_Wrapped\<close> write the lines directly.  An input is its
  bytes.  The allocation of a result object by the interpreter is a parameter, \<open>allocate\<close>: a payload
  of the length asked for, with any contents, or an exception.  Whether the interpreter lock is
  released has no effect on the result and is left out.
\<close>

section \<open>Configuration\<close>

text \<open>The exceptions that these functions raise, and those that the interpreter raises itself.\<close>

datatype py_error =
    Py_Value_Error string
  | Py_Overflow_Error string
  | Py_Memory_Error string
  | Py_Output_Too_Small nat nat
  | Py_Raised string

datatype encode_alphabet =
    Alphabet_Standard
  | Alphabet_UrlSafe
  | Alphabet_Custom custom_encode_alphabet

definition encode_alphabet_new :: "(u8 \<times> u8) option \<Rightarrow> encode_alphabet" where
  "encode_alphabet_new altchars =
     (case altchars of
        None \<Rightarrow> Alphabet_Standard
      | Some altchars \<Rightarrow>
          if altchars = (ascii CHR ''-'', ascii CHR ''_'') then Alphabet_UrlSafe
          else Alphabet_Custom (custom_new (fst altchars) (snd altchars)))"

definition encode_alphabet_from_table :: "bytes \<Rightarrow> encode_alphabet" where
  "encode_alphabet_from_table table =
     (if table = STANDARD_ALPHABET then Alphabet_Standard
      else if take 62 table = take 62 STANDARD_ALPHABET
        \<and> drop 62 table = [ascii CHR ''-'', ascii CHR ''_''] then Alphabet_UrlSafe
      else Alphabet_Custom (custom_from_table table))"

definition encode_alphabet_is_urlsafe :: "encode_alphabet \<Rightarrow> bool" where
  "encode_alphabet_is_urlsafe alphabet = (case alphabet of Alphabet_UrlSafe \<Rightarrow> True | _ \<Rightarrow> False)"

datatype encode_padding = Encode_Padded | Encode_Unpadded

definition encode_padding_new :: "bool \<Rightarrow> encode_padding" where
  "encode_padding_new padded = (if padded then Encode_Padded else Encode_Unpadded)"

datatype line_wrapping = No_Wrapping | Columns nat

definition line_wrapping_new :: "nat option \<Rightarrow> line_wrapping" where
  "line_wrapping_new wrapcol = (case wrapcol of None \<Rightarrow> No_Wrapping | Some width \<Rightarrow> Columns width)"

record prepared_encoder =
  prepared_alphabet :: encode_alphabet
  prepared_padding :: encode_padding
  prepared_wrapping :: line_wrapping

definition prepared_with_alphabet :: "encode_alphabet \<Rightarrow> bool \<Rightarrow> nat option \<Rightarrow> prepared_encoder" where
  "prepared_with_alphabet alphabet padded wrapcol =
     \<lparr>prepared_alphabet = alphabet, prepared_padding = encode_padding_new padded,
      prepared_wrapping = line_wrapping_new wrapcol\<rparr>"

definition prepared_encoder_new :: "(u8 \<times> u8) option \<Rightarrow> bool \<Rightarrow> nat option \<Rightarrow> prepared_encoder" where
  "prepared_encoder_new altchars padded wrapcol =
     prepared_with_alphabet (encode_alphabet_new altchars) padded wrapcol"

text \<open>The argument is a signed 128-bit integer: a negative one and one beyond \<open>usize\<close> are refused.\<close>

definition normalize_wrapcol :: "int \<Rightarrow> py_error + nat option" where
  "normalize_wrapcol wrapcol =
     (if wrapcol < 0 then Inl (Py_Value_Error ''Cannot convert negative int'')
      else if int USIZE_MAX < wrapcol then Inl (Py_Overflow_Error ''Python int too large for C size_t'')
      else let wrapcol = nat wrapcol in
        if wrapcol = 0 then Inr None
        else Inr (Some (max (wrapcol div 4) 1 * 4)))"

section \<open>Lengths\<close>

definition DIRECT_WRAPPED_INPUT_THRESHOLD :: nat where
  "DIRECT_WRAPPED_INPUT_THRESHOLD = 4 * 1024 * 1024"

definition unpadded_encoded_len :: "nat \<Rightarrow> nat option" where
  "unpadded_encoded_len input_len =
     do {
       n \<leftarrow> encoded_len input_len;
       Some (n - of_bool (input_len mod 3 \<noteq> 0) * (3 - input_len mod 3))
     }"

definition prepared_data_len :: "prepared_encoder \<Rightarrow> nat \<Rightarrow> nat option" where
  "prepared_data_len encoder input_len =
     (case prepared_padding encoder of
        Encode_Padded \<Rightarrow> encoded_len input_len
      | Encode_Unpadded \<Rightarrow> unpadded_encoded_len input_len)"

text \<open>Division by a width of zero panics, and the sum must not overflow.\<close>

definition prepared_output_len :: "prepared_encoder \<Rightarrow> nat \<Rightarrow> nat option" where
  "prepared_output_len encoder input_len =
     do {
       data_len \<leftarrow> prepared_data_len encoder input_len;
       (case prepared_wrapping encoder of
          No_Wrapping \<Rightarrow> Some data_len
        | Columns width \<Rightarrow>
            if data_len = 0 then Some data_len
            else do {
              guard (width \<noteq> 0);
              guard (data_len + (data_len - 1) div width \<le> USIZE_MAX);
              Some (data_len + (data_len - 1) div width) })
     }"

definition prepared_direct_wrap_width :: "prepared_encoder \<Rightarrow> nat \<Rightarrow> nat option option" where
  "prepared_direct_wrap_width encoder input_len =
     (if input_len \<le> DIRECT_WRAPPED_INPUT_THRESHOLD then Some None
      else case prepared_wrapping encoder of
          No_Wrapping \<Rightarrow> Some None
        | Columns width \<Rightarrow> do {
            data_len \<leftarrow> prepared_data_len encoder input_len;
            Some (if width < data_len then Some width else None) })"

section \<open>Encoding\<close>

definition prepared_encode_ptr ::
  "machine \<Rightarrow> nat \<Rightarrow> bool \<Rightarrow> bytes \<Rightarrow> bytes \<Rightarrow> encode_alphabet \<Rightarrow> bytes option" where
  "prepared_encode_ptr machine address cached input output alphabet =
     (case alphabet of
        Alphabet_Custom custom \<Rightarrow>
          encode_to_ptr_with_custom_alphabet machine address custom cached input output
      | _ \<Rightarrow>
          if cached
          then encode_to_ptr_cached machine address (encode_alphabet_is_urlsafe alphabet) input output
          else encode_to_ptr machine address (encode_alphabet_is_urlsafe alphabet) input output)"

text \<open>The buffer of the last group is a local variable, at the address \<open>stack\<close>.\<close>

definition encode_unwrapped_ptr ::
  "machine \<Rightarrow> nat \<Rightarrow> nat \<Rightarrow> bool \<Rightarrow> bytes \<Rightarrow> bytes \<Rightarrow> encode_alphabet \<Rightarrow> encode_padding \<Rightarrow> bytes option" where
  "encode_unwrapped_ptr machine address stack cached input output alphabet padding =
     (if padding = Encode_Padded then prepared_encode_ptr machine address cached input output alphabet
      else
        let complete_input_len = length input div 3 * 3;
            complete_output_len = complete_input_len div 3 * 4 in
        do {
          output \<leftarrow> prepared_encode_ptr machine address cached (take complete_input_len input) output alphabet;
          (if complete_input_len \<noteq> length input then do {
             let tail = drop complete_input_len input;
             encoded_tail \<leftarrow> prepared_encode_ptr machine stack cached tail (replicate 4 0) alphabet;
             tail_len \<leftarrow> unpadded_encoded_len (length tail);
             copied \<leftarrow> slice encoded_tail 0 tail_len;
             store output complete_output_len copied }
           else Some output) })"

text \<open>
  The in-place expansion, from the last line to the first.  \<open>copy_to\<close> allows the two ranges to
  overlap.  The final \<open>debug_assert\<close> is the guard of the last step.
\<close>

function wrap_encoded_loop :: "nat \<Rightarrow> nat \<Rightarrow> nat \<Rightarrow> bytes \<Rightarrow> bytes option" where
  "wrap_encoded_loop width source destination output =
     (if source = 0 then do { guard (destination = 0); Some output }
      else if width = 0 then None
      else
        let remainder = source mod width;
            line_len = (if remainder = 0 then width else remainder) in
        do {
          guard (line_len \<le> source \<and> line_len \<le> destination);
          line \<leftarrow> slice output (source - line_len) line_len;
          output \<leftarrow> store output (destination - line_len) line;
          (if source - line_len \<noteq> 0 then do {
             guard (1 \<le> destination - line_len);
             output \<leftarrow> store output (destination - line_len - 1) [10];
             wrap_encoded_loop width (source - line_len) (destination - line_len - 1) output }
           else wrap_encoded_loop width (source - line_len) (destination - line_len) output) })"
  by pat_completeness auto
termination
  by (relation "measure (\<lambda>(width, source, destination, output). source)") auto

declare wrap_encoded_loop.simps [simp del]

definition wrap_encoded_ptr :: "bytes \<Rightarrow> nat \<Rightarrow> nat \<Rightarrow> bytes option" where
  "wrap_encoded_ptr output data_len width =
     (if data_len \<le> width then Some output
      else do {
        guard (width \<noteq> 0);
        wrap_encoded_loop width data_len (data_len + (data_len - 1) div width) output })"

definition prepared_encode_to_ptr ::
  "machine \<Rightarrow> nat \<Rightarrow> nat \<Rightarrow> prepared_encoder \<Rightarrow> bytes \<Rightarrow> bytes \<Rightarrow> bytes option" where
  "prepared_encode_to_ptr machine address stack encoder input output =
     (case prepared_wrapping encoder of
        No_Wrapping \<Rightarrow>
          encode_unwrapped_ptr machine address stack False input output (prepared_alphabet encoder)
            (prepared_padding encoder)
      | Columns width \<Rightarrow> do {
          output \<leftarrow> encode_unwrapped_ptr machine address stack True input output
            (prepared_alphabet encoder) (prepared_padding encoder);
          data_len \<leftarrow> prepared_data_len encoder (length input);
          wrap_encoded_ptr output data_len width })"

definition prepared_encode_direct_to_ptr ::
  "machine \<Rightarrow> prepared_encoder \<Rightarrow> bytes \<Rightarrow> bytes \<Rightarrow> nat \<Rightarrow> bytes option" where
  "prepared_encode_direct_to_ptr machine encoder input output width =
     (case prepared_alphabet encoder of
        Alphabet_Custom alphabet \<Rightarrow>
          encode_wrapped_to_ptr_custom machine input output alphabet
            (prepared_padding encoder = Encode_Padded) width
      | alphabet \<Rightarrow>
          encode_wrapped_to_ptr_cached machine input output (encode_alphabet_is_urlsafe alphabet)
            (prepared_padding encoder = Encode_Padded) width)"

text \<open>The choice between the two, as in every entry point.\<close>

definition prepared_run ::
  "machine \<Rightarrow> nat \<Rightarrow> nat \<Rightarrow> prepared_encoder \<Rightarrow> bytes \<Rightarrow> bytes \<Rightarrow> bytes option" where
  "prepared_run machine address stack encoder input output =
     do {
       direct \<leftarrow> prepared_direct_wrap_width encoder (length input);
       (case direct of
          Some width \<Rightarrow> prepared_encode_direct_to_ptr machine encoder input output width
        | None \<Rightarrow> prepared_encode_to_ptr machine address stack encoder input output)
     }"

text \<open>
  \<open>pybytes_with_len\<close> of \<open>staging.rs\<close>: a length beyond \<open>Py_ssize_t\<close> is refused; the interpreter may fail
  to allocate; otherwise \<open>init\<close> fills the payload.
\<close>

definition pybytes_with_len ::
  "(nat \<Rightarrow> py_error + bytes) \<Rightarrow> nat \<Rightarrow> (bytes \<Rightarrow> bytes option) \<Rightarrow> (py_error + bytes) option" where
  "pybytes_with_len allocate len init =
     (if ISIZE_MAX < len then Some (Inl (Py_Memory_Error ''Base64 output is too large''))
      else case allocate len of
          Inl e \<Rightarrow> Some (Inl e)
        | Inr buffer \<Rightarrow> do { buffer \<leftarrow> init buffer; Some (Inr buffer) })"

definition encode_with_prepared ::
  "machine \<Rightarrow> nat \<Rightarrow> nat \<Rightarrow> (nat \<Rightarrow> py_error + bytes) \<Rightarrow> bytes \<Rightarrow> prepared_encoder \<Rightarrow> (py_error + bytes) option" where
  "encode_with_prepared machine address stack allocate input encoder =
     do {
       output_len \<leftarrow> prepared_output_len encoder (length input);
       pybytes_with_len allocate output_len (prepared_run machine address stack encoder input)
     }"

definition encode_slice_to_ptr ::
  "machine \<Rightarrow> nat \<Rightarrow> nat \<Rightarrow> bytes \<Rightarrow> bytes \<Rightarrow> prepared_encoder \<Rightarrow> ((py_error + nat) \<times> bytes) option" where
  "encode_slice_to_ptr machine address stack input output encoder =
     do {
       required \<leftarrow> prepared_output_len encoder (length input);
       (if length output < required then Some (Inl (Py_Output_Too_Small required (length output)), output)
        else do {
          output \<leftarrow> prepared_run machine address stack encoder input output;
          Some (Inr required, output) })
     }"

section \<open>The text of a prepared encoder\<close>

definition encode_alphabet_table :: "encode_alphabet \<Rightarrow> bytes" where
  "encode_alphabet_table alphabet =
     (case alphabet of
        Alphabet_Standard \<Rightarrow> STANDARD_ALPHABET
      | Alphabet_UrlSafe \<Rightarrow> URLSAFE_ALPHABET
      | Alphabet_Custom custom \<Rightarrow> custom_table custom)"

definition prepared_text :: "prepared_encoder \<Rightarrow> bytes \<Rightarrow> bytes" where
  "prepared_text encoder input =
     (let t = encode_padded_spec (encode_alphabet_table (prepared_alphabet encoder))
        (prepared_padding encoder = Encode_Padded) input in
      case prepared_wrapping encoder of No_Wrapping \<Rightarrow> t | Columns width \<Rightarrow> wrap_lines width t)"

definition prepared_ok :: "prepared_encoder \<Rightarrow> bool" where
  "prepared_ok encoder \<longleftrightarrow>
     (case prepared_alphabet encoder of
        Alphabet_Custom custom \<Rightarrow> length (custom_table custom) = 64 \<and> custom = custom_from_table (custom_table custom)
      | _ \<Rightarrow> True)
     \<and> (case prepared_wrapping encoder of
          No_Wrapping \<Rightarrow> True
        | Columns width \<Rightarrow> 4 \<le> width \<and> 4 dvd width)"

lemma length_encode_padded:
  "length (encode_padded_spec table padded input) = (length input + 2) div 3 * 4
     - (if padded then 0 else of_bool (length input mod 3 \<noteq> 0) * (3 - length input mod 3))"
  by (simp add: encode_padded_spec_def length_encode_spec length_unpadded)

lemma prepared_data_len_eq:
  "prepared_data_len encoder (length input) =
    (if (length input + 2) div 3 * 4 \<le> USIZE_MAX
     then Some (length (encode_padded_spec table (prepared_padding encoder = Encode_Padded) input)) else None)"
  by (cases "prepared_padding encoder")
    (simp_all add: prepared_data_len_def unpadded_encoded_len_def encoded_len_def b64encoded_len_eq
      length_encode_padded)

lemma length_wrap_lines:
  assumes "0 < width"
  shows "length (wrap_lines width t) = length t + (length t - 1) div width"
  using assms
proof (induction width t rule: wrap_lines.induct)
  case (1 width t)
  show ?case
  proof (cases "length t \<le> width")
    case True
    then show ?thesis using 1(2) by (cases "length t") (simp_all add: wrap_lines.simps)
  next
    case False
    then obtain r where r: "length t = width + Suc r" by (metis less_imp_Suc_add not_le add_Suc_right)
    have "(width + r) div width = Suc (r div width)"
      using 1(2) div_add_self1 [of width r] by simp
    then show ?thesis using False 1 r by (simp add: wrap_lines.simps [of width t])
  qed
qed

text \<open>The text of an input that fits the address space, with its newlines, has a length in \<open>usize\<close>.\<close>

lemma wrapped_length_fits:
  assumes "n \<le> ISIZE_MAX" "d \<le> (n + 2) div 3 * 4" "4 \<le> width"
  shows "d + (d - 1) div width \<le> USIZE_MAX"
proof -
  have "(d - 1) div width \<le> d div 4" using assms(3) by (meson diff_le_self div_le_mono div_le_mono2 le_trans zero_less_numeral)
  moreover have "d \<le> (ISIZE_MAX + 2) div 3 * 4"
    using assms(1,2) by (meson add_le_mono1 div_le_mono le_trans mult_le_mono1)
  ultimately show ?thesis by (simp add: ISIZE_MAX_def USIZE_MAX_def)
qed

lemma prepared_output_len_eq:
  assumes "prepared_ok encoder" "length input \<le> ISIZE_MAX"
  shows "prepared_output_len encoder (length input) = Some (length (prepared_text encoder input))"
proof -
  let ?t = "encode_padded_spec (encode_alphabet_table (prepared_alphabet encoder))
    (prepared_padding encoder = Encode_Padded) input"
  have fits: "(length input + 2) div 3 * 4 \<le> USIZE_MAX" using assms(2) by (simp add: ISIZE_MAX_def USIZE_MAX_def)
  have "length ?t \<le> (length input + 2) div 3 * 4"
    by (simp add: length_encode_padded)
  then have "length ?t + (length ?t - 1) div width \<le> USIZE_MAX" if "4 \<le> width" for width
    using wrapped_length_fits [OF assms(2) _ that] by blast
  moreover have "wrap_lines width [] = []" for width by (simp add: wrap_lines.simps)
  ultimately show ?thesis
    using assms(1) prepared_data_len_eq [of encoder input "encode_alphabet_table (prepared_alphabet encoder)"] fits
    by (auto simp: prepared_output_len_def prepared_text_def prepared_ok_def length_wrap_lines Let_def
        split: line_wrapping.splits)
qed

section \<open>The in-place expansion\<close>

lemma wrap_column_lines:
  assumes "0 < width" "length x = Suc k * width"
  shows "wrap_column width 0 x = width"
  using assms(2)
proof (induction k arbitrary: x)
  case 0
  then show ?case using wrap_fits [of 0 x width] by simp
next
  case (Suc k)
  have x: "x = take (Suc k * width) x @ drop (Suc k * width) x" by simp
  have d: "length (drop (Suc k * width) x) = width" using Suc.prems by simp
  then have "drop (Suc k * width) x \<noteq> []" using assms(1) by auto
  then have "wrap_column width width (drop (Suc k * width) x) = width"
    using wrap_new_line [of "drop (Suc k * width) x" width] wrap_fits [of 0 "drop (Suc k * width) x" width]
      assms(1) d by simp
  moreover have "wrap_column width 0 (take (Suc k * width) x) = width"
    using Suc.prems by (intro Suc.IH) simp
  ultimately show ?case by (subst x) (simp only: wrap_from_append)
qed

lemma wrap_lines_last:
  assumes "0 < width" "length x = Suc k * width" "y \<noteq> []" "length y \<le> width"
  shows "wrap_lines width (x @ y) = wrap_lines width x @ 10 # y"
  using assms wrap_new_line [of y width] wrap_fits [of 0 y width]
  by (simp add: wrap_column_lines wrap_from_append flip: wrap_from_lines)

text \<open>The characters before \<open>source\<close> are still in place; the lines behind it are done.\<close>

lemma store_in: "d + length ys \<le> length xs \<Longrightarrow> store xs d ys = Some (take d xs @ ys @ drop (d + length ys) xs)"
  by (simp add: store_def)

lemma wrap_encoded_loop_lines:
  assumes "0 < width" "d = s + (s - 1) div width" "d \<le> length out"
  shows "wrap_encoded_loop width s d out = Some (wrap_lines width (take s out) @ drop d out)"
  using assms(2,3)
proof (induction s arbitrary: d out rule: less_induct)
  case (less s)
  show ?case
  proof (cases "s = 0")
    case True
    then show ?thesis using less.prems by (simp add: wrap_lines.simps wrap_encoded_loop.simps)
  next
    case False
    define l where "l = (if s mod width = 0 then width else s mod width)"
    obtain k where s: "s = k * width + l" "0 < l" "l \<le> width"
    proof (cases "s mod width = 0")
      case True
      then have "s = (s div width - 1) * width + width"
        using False by (metis Suc_diff_1 add.commute dvd_div_eq_0_iff dvd_mult_div_cancel mod_0_imp_dvd
            mult.commute mult_Suc not_gr_zero)
      then show ?thesis using that [of "s div width - 1"] True assms(1) by (simp add: l_def)
    next
      case ne: False
      then show ?thesis
        using that [of "s div width"] assms(1) mod_less_divisor [OF assms(1), of s]
        by (simp add: l_def less_imp_le)
    qed
    have "(s - 1) div width = k"
    proof -
      have "s - 1 = (l - 1) + k * width" using s by simp
      moreover have "l - 1 < width" using s by simp
      ultimately show ?thesis using assms(1) by simp
    qed
    then have d: "d = k * width + l + k" using less.prems(1) s(1) by simp
    let ?line = "take l (drop (k * width) out)"
    have line: "slice out (s - l) l = Some ?line" "length ?line = l"
      using s d less.prems(2) by (simp_all add: slice_simps)
    note step = wrap_encoded_loop.simps [of width s d out]
    show ?thesis
    proof (cases k)
      case 0
      then have "store out (d - l) ?line = Some out"
        using s d less.prems(2) by (simp add: store_def)
      moreover have "wrap_lines width (take s out) = take s out"
        using 0 s by (simp add: wrap_lines.simps)
      ultimately show ?thesis
        using 0 s d line False assms(1) step unfolding Let_def l_def [symmetric]
        by (simp add: wrap_encoded_loop.simps [of width 0])
    next
      case (Suc j)
      define out2 where "out2 = take (d - l - 1) out @ 10 # ?line @ drop d out"
      have dl: "d - l = k * width + k" "d - l - 1 = k * width + j" using d Suc by simp_all
      have dle: "k * width + k + l = d" using d by simp
      have two: "store out (d - l) ?line \<bind> (\<lambda>out. store out (d - l - 1) [10]) = Some out2"
        using line(2) less.prems(2) s(2) Suc unfolding out2_def dl
        by (auto simp: store_def guard_def min_def d ac_simps drop_Cons' take_add [symmetric])
      have len2: "length out2 = length out"
        using line(2) less.prems(2) d Suc by (simp add: out2_def dl)
      have IH: "wrap_encoded_loop width (s - l) (d - l - 1) out2
          = Some (wrap_lines width (take (s - l) out2) @ drop (d - l - 1) out2)"
      proof (rule less.IH)
        have "(k * width - 1) div width = j"
        proof -
          have "k * width - 1 = (width - 1) + j * width" using Suc assms(1) by simp
          then show ?thesis using assms(1) div_mult_self1 [of width "width - 1" j] by simp
        qed
        then show "d - l - 1 = s - l + (s - l - 1) div width" using s dl by simp
        show "d - l - 1 \<le> length out2" using len2 less.prems(2) by simp
      qed (use s in simp)
      have t2: "take (s - l) out2 = take (k * width) out" "drop (d - l - 1) out2 = 10 # ?line @ drop d out"
      proof -
        have sl: "s - l = k * width" using s by simp
        have "k * width + j \<le> length out" using less.prems(2) d Suc by simp
        then show "take (s - l) out2 = take (k * width) out" "drop (d - l - 1) out2 = 10 # ?line @ drop d out"
          unfolding sl out2_def dl(2) by simp_all
      qed
      have "wrap_lines width (take s out) = wrap_lines width (take (k * width) out) @ 10 # ?line"
      proof -
        have "?line \<noteq> []" using line(2) s(2) by auto
        then show ?thesis
          using wrap_lines_last [OF assms(1), of "take (k * width) out" j ?line] s d less.prems(2) Suc line(2)
          by (simp add: take_add)
      qed
      then have "wrap_encoded_loop width (s - l) (d - l - 1) out2 = Some (wrap_lines width (take s out) @ drop d out)"
        using IH t2 by simp
      moreover have "wrap_encoded_loop width s d out = (store out (d - l) ?line
          \<bind> (\<lambda>out. store out (d - l - 1) [10])) \<bind> wrap_encoded_loop width (s - l) (d - l - 1)"
        using False assms(1) s d Suc line step unfolding Let_def l_def [symmetric] by (simp add: bind_assoc)
      ultimately show ?thesis by (simp only: two bind.bind_lunit)
    qed
  qed
qed

lemma wrap_encoded_ptr_lines:
  assumes "0 < width" "length (wrap_lines width t) \<le> length out" "take (length t) out = t"
  shows "wrap_encoded_ptr out (length t) width
    = Some (wrap_lines width t @ drop (length (wrap_lines width t)) out)"
proof (cases "length t \<le> width")
  case True
  then have "wrap_lines width t = t" by (simp add: wrap_lines.simps)
  then show ?thesis using True append_take_drop_id [of "length t" out] assms(3) by (simp add: wrap_encoded_ptr_def)
next
  case False
  then show ?thesis
    using wrap_encoded_loop_lines [OF assms(1) refl, of "length t" out] assms
    by (simp add: wrap_encoded_ptr_def length_wrap_lines)
qed

section \<open>Both ways write the text\<close>

lemma prepared_table:
  assumes ok: "prepared_ok encoder" and table: "encode_alphabet_table (prepared_alphabet encoder) = table"
  shows "length table = 64"
  using ok table
  by (auto simp: prepared_ok_def encode_alphabet_table_def split: encode_alphabet.splits)

lemma prepared_encode_ptr_eq:
  assumes selected: "selected_backend machine = Some selection"
    and ok: "prepared_ok encoder" and table: "encode_alphabet_table (prepared_alphabet encoder) = table"
  shows "prepared_encode_ptr machine address cached input output (prepared_alphabet encoder)
    = store output 0 (encode_spec table input)"
proof (cases "prepared_alphabet encoder")
  case (Alphabet_Custom custom)
  then have c: "custom = custom_from_table table"
    using ok table by (auto simp: prepared_ok_def encode_alphabet_table_def)
  show ?thesis
    unfolding prepared_encode_ptr_def Alphabet_Custom encode_alphabet.case c
    by (rule encode_to_ptr_with_custom_alphabet_eq [OF selected prepared_table [OF ok table]])
qed (use encode_to_ptr_eq [OF selected] table in
    \<open>auto simp: prepared_encode_ptr_def encode_alphabet_table_def encode_alphabet_is_urlsafe_def alphabet_of_cases\<close>)

lemma encode_unwrapped_ptr_eq:
  assumes selected: "selected_backend machine = Some selection"
    and ok: "prepared_ok encoder" and table: "encode_alphabet_table (prepared_alphabet encoder) = table"
  shows "encode_unwrapped_ptr machine address stack cached input output (prepared_alphabet encoder)
      (prepared_padding encoder)
    = store output 0 (encode_padded_spec table (prepared_padding encoder = Encode_Padded) input)"
proof (cases "prepared_padding encoder")
  case Encode_Padded
  then show ?thesis by (simp add: encode_unwrapped_ptr_def prepared_encode_ptr_eq [OF selected ok table] encode_padded_spec_def)
next
  case Encode_Unpadded
  define c where "c = length input div 3 * 3"
  have c: "c \<le> length input" "length input < c + 3" "3 dvd c" by (auto simp: c_def)
  have complete: "encode_spec table (take c input) = groups_text table (take c input)"
    using c by (intro encode_spec_complete) simp
  have len: "length (groups_text table (take c input)) = c div 3 * 4"
    using c by (simp add: length_groups_text)
  have split: "encode_padded_spec table False input
      = groups_text table (take c input) @ encode_padded_spec table False (drop c input)"
    by (rule encode_padded_split [OF c(3,1)])
  show ?thesis
  proof (cases "c = length input")
    case True
    then show ?thesis
      using Encode_Unpadded complete split
      by (simp add: encode_unwrapped_ptr_def prepared_encode_ptr_eq [OF selected ok table] Let_def flip: c_def)
  next
    case False
    let ?tail = "drop c input"
    have t: "length ?tail < 3" "?tail \<noteq> []" using c False by simp_all
    have e4: "length (encode_spec table ?tail) = 4"
      using t by (cases ?tail) (auto simp: length_encode_spec)
    have n: "unpadded_encoded_len (length ?tail) = Some (length (encode_unpadded_spec table ?tail))"
      using t(1) by (simp add: unpadded_encoded_len_def encoded_len_def b64encoded_len_eq USIZE_MAX_def
          length_unpadded)
    have s: "slice (encode_spec table ?tail) 0 (length (encode_unpadded_spec table ?tail))
        = Some (encode_unpadded_spec table ?tail)"
      by (simp add: slice_simps encode_spec_def)
    have "encode_unwrapped_ptr machine address stack cached input output (prepared_alphabet encoder)
        (prepared_padding encoder)
      = store output 0 (groups_text table (take c input))
          \<bind> (\<lambda>m. store m (c div 3 * 4) (encode_unpadded_spec table ?tail))"
      using False Encode_Unpadded e4 n s
      by (simp add: encode_unwrapped_ptr_def prepared_encode_ptr_eq [OF selected ok table] complete store_all Let_def flip: c_def)
    also have "\<dots> = store output 0 (encode_padded_spec table False input)"
      unfolding store_at_end [OF len] split by (simp add: encode_padded_spec_def)
    finally show ?thesis using Encode_Unpadded by simp
  qed
qed

lemma prepared_run_text:
  assumes selected: "selected_backend machine = Some selection"
    and ok: "prepared_ok encoder" and table: "encode_alphabet_table (prepared_alphabet encoder) = table"
    and "(length input + 2) div 3 * 4 \<le> USIZE_MAX" "length (prepared_text encoder input) \<le> length output"
  shows "prepared_run machine address stack encoder input output
    = Some (prepared_text encoder input @ drop (length (prepared_text encoder input)) output)"
proof -
  let ?p = "prepared_padding encoder = Encode_Padded"
  define t where "t = encode_padded_spec table ?p input"
  have data: "prepared_data_len encoder (length input) = Some (length t)"
    using assms(4) prepared_data_len_eq [of encoder input table] by (simp add: t_def)
  show ?thesis
  proof (cases "prepared_wrapping encoder")
    case No_Wrapping
    then have "prepared_text encoder input = t" by (simp add: prepared_text_def table t_def)
    then show ?thesis
      using No_Wrapping assms(5) encode_unwrapped_ptr_eq [OF selected ok table, of address stack False input "output"]
      by (simp add: prepared_run_def prepared_direct_wrap_width_def prepared_encode_to_ptr_def store_def t_def)
  next
    case (Columns width)
    then have w: "4 \<le> width" "4 dvd width" using ok by (simp_all add: prepared_ok_def)
    have lines_text: "prepared_text encoder input = wrap_lines width t"
      using Columns by (simp add: prepared_text_def table t_def)
    have lines: "length (wrap_lines width t) \<le> length output" using assms(5) lines_text by simp
    have direct: "prepared_encode_direct_to_ptr machine encoder input output width
        = Some (wrap_lines width t @ drop (length (wrap_lines width t)) output)"
    proof (cases "prepared_alphabet encoder")
      case (Alphabet_Custom custom)
      then have "custom = custom_from_table table"
        using ok table by (auto simp: prepared_ok_def encode_alphabet_table_def)
      then show ?thesis
        using encode_wrapped_to_ptr_custom_eq [OF selected prepared_table [OF ok table], of input "output" ?p width] w lines
        by (simp add: prepared_encode_direct_to_ptr_def Alphabet_Custom t_def store_def)
    qed (use encode_wrapped_to_ptr_cached_eq [OF selected] w lines table in
        \<open>auto simp: prepared_encode_direct_to_ptr_def encode_alphabet_table_def encode_alphabet_is_urlsafe_def
          alphabet_of_cases t_def store_def\<close>)
    have "length t \<le> length (wrap_lines width t)" using w by (simp add: length_wrap_lines)
    with lines have t: "length t \<le> length output" by simp
    have drops: "drop (length (wrap_lines width t)) (t @ drop (length t) output)
        = drop (length (wrap_lines width t)) output"
      using \<open>length t \<le> length (wrap_lines width t)\<close> by simp
    have "encode_unwrapped_ptr machine address stack True input output (prepared_alphabet encoder)
        (prepared_padding encoder) = Some (t @ drop (length t) output)"
      using encode_unwrapped_ptr_eq [OF selected ok table, of address stack True input "output"] t by (simp add: t_def [symmetric] store_def)
    then have "prepared_encode_to_ptr machine address stack encoder input output
        = Some (wrap_lines width t @ drop (length (wrap_lines width t)) output)"
      using wrap_encoded_ptr_lines [of width t "t @ drop (length t) output"] Columns data w lines t drops
      by (simp add: prepared_encode_to_ptr_def)
    then show ?thesis
      using direct Columns data lines_text by (simp add: prepared_run_def prepared_direct_wrap_width_def)
  qed
qed

text \<open>The documented behaviour of \<open>PyBytes_FromStringAndSize\<close>: a payload has the length asked for.\<close>

definition allocates :: "(nat \<Rightarrow> py_error + bytes) \<Rightarrow> bool" where
  "allocates allocate \<longleftrightarrow> (\<forall>n buffer. allocate n = Inr buffer \<longrightarrow> length buffer = n)"

lemma encode_with_prepared_text:
  assumes "selected_backend machine = Some selection" "prepared_ok encoder" "length input \<le> ISIZE_MAX"
    and "allocates allocate"
  shows "encode_with_prepared machine address stack allocate input encoder =
    (let t = prepared_text encoder input in
     if ISIZE_MAX < length t then Some (Inl (Py_Memory_Error ''Base64 output is too large''))
     else case allocate (length t) of Inl e \<Rightarrow> Some (Inl e) | Inr _ \<Rightarrow> Some (Inr t))"
proof -
  have "(length input + 2) div 3 * 4 \<le> USIZE_MAX" using assms(3) by (simp add: ISIZE_MAX_def USIZE_MAX_def)
  then have "prepared_run machine address stack encoder input buffer = Some (prepared_text encoder input)"
    if "allocate (length (prepared_text encoder input)) = Inr buffer" for buffer
    using prepared_run_text [OF assms(1,2) refl, of input buffer] that assms(4) by (auto simp: allocates_def)
  then show ?thesis
    by (simp add: encode_with_prepared_def pybytes_with_len_def prepared_output_len_eq [OF assms(2,3)] Let_def
        split: sum.splits)
qed

lemma encode_slice_to_ptr_text:
  assumes "selected_backend machine = Some selection" "prepared_ok encoder" "length input \<le> ISIZE_MAX"
  shows "encode_slice_to_ptr machine address stack input output encoder =
    (let t = prepared_text encoder input in
     if length output < length t then Some (Inl (Py_Output_Too_Small (length t) (length output)), output)
     else Some (Inr (length t), t @ drop (length t) output))"
proof -
  have "(length input + 2) div 3 * 4 \<le> USIZE_MAX" using assms(3) by (simp add: ISIZE_MAX_def USIZE_MAX_def)
  then show ?thesis
    using prepared_run_text [OF assms(1,2) refl, of input "output"]
    by (simp add: encode_slice_to_ptr_def prepared_output_len_eq [OF assms(2,3)] Let_def)
qed

text \<open>What the constructors build is well formed, and the alphabet has the bytes asked for.\<close>

lemma custom_new_table:
  "custom_new a b = custom_from_table (take 62 STANDARD_ALPHABET @ [a, b])"
  by (simp add: custom_new_def STANDARD_ALPHABET_bytes)

lemma normalize_wrapcol_width:
  "normalize_wrapcol w = Inr (Some width) \<Longrightarrow> 4 \<le> width \<and> 4 dvd width"
  by (auto simp: normalize_wrapcol_def Let_def max_def split: if_splits)

lemma prepared_encoder_new_ok:
  assumes "normalize_wrapcol w = Inr wrapcol"
  shows "prepared_ok (prepared_encoder_new altchars padded wrapcol)"
  using assms normalize_wrapcol_width [of w]
  by (auto simp: prepared_ok_def prepared_encoder_new_def prepared_with_alphabet_def encode_alphabet_new_def
      line_wrapping_new_def custom_new_table custom_from_table_def split: option.splits)

lemma prepared_encoder_new_table:
  "encode_alphabet_table (prepared_alphabet (prepared_encoder_new altchars padded wrapcol))
    = (case altchars of None \<Rightarrow> STANDARD_ALPHABET | Some (a, b) \<Rightarrow> take 62 STANDARD_ALPHABET @ [a, b])"
  by (auto simp: prepared_encoder_new_def prepared_with_alphabet_def encode_alphabet_new_def encode_alphabet_table_def
      custom_new_table custom_from_table_def URLSAFE_ALPHABET_bytes STANDARD_ALPHABET_bytes
      split: option.splits)

text \<open>A full alphabet is recognised, or is used as it is.\<close>

lemma from_table_ok:
  assumes "length table = 64"
  shows "encode_alphabet_table (encode_alphabet_from_table table) = table"
    and "prepared_alphabet encoder = encode_alphabet_from_table table \<Longrightarrow>
      prepared_wrapping encoder = No_Wrapping \<Longrightarrow> prepared_ok encoder"
proof -
  have u: "URLSAFE_ALPHABET = take 62 STANDARD_ALPHABET @ [ascii CHR ''-'', ascii CHR ''_'']"
    by (simp add: URLSAFE_ALPHABET_bytes STANDARD_ALPHABET_bytes)
  have "URLSAFE_ALPHABET = table"
    if "take 62 table = take 62 STANDARD_ALPHABET" "drop 62 table = [ascii CHR ''-'', ascii CHR ''_'']"
    unfolding u that [symmetric] by simp
  then show "encode_alphabet_table (encode_alphabet_from_table table) = table"
    by (simp add: encode_alphabet_from_table_def encode_alphabet_table_def custom_from_table_def)
  show "prepared_alphabet encoder = encode_alphabet_from_table table \<Longrightarrow>
      prepared_wrapping encoder = No_Wrapping \<Longrightarrow> prepared_ok encoder"
    using assms by (auto simp: prepared_ok_def encode_alphabet_from_table_def custom_from_table_def)
qed

section \<open>Properties\<close>

text \<open>
  C38: the prepared encoder: for any two alternative symbols, padding and line width that the argument
  check accepts, the text over that alphabet is one line, or lines of \<open>max(w / 4, 1) * 4\<close> characters
  joined by newlines; whether the lines are written directly or spread out in place makes no
  difference.  The call that allocates refuses a text beyond \<open>Py_ssize_t\<close>, passes on the exception of
  a failed allocation of exactly the text's length, and otherwise returns the text; the call with a
  caller's region refuses a region of fewer bytes untouched, writes the text, and leaves what lies
  behind it alone.
\<close>
theorem prepared_encoder_correct:
  assumes "selected_backend machine = Some selection" "normalize_wrapcol w = Inr wrapcol"
    and "length input \<le> ISIZE_MAX" "\<And>n buffer. allocate n = Inr buffer \<Longrightarrow> length buffer = n"
  shows "let table = (case altchars of None \<Rightarrow> STANDARD_ALPHABET | Some (a, b) \<Rightarrow> take 62 STANDARD_ALPHABET @ [a, b]);
      line = encode_padded_spec table padded input;
      t = (if w = 0 then line else wrap_lines (max (nat w div 4) 1 * 4) line);
      encoder = prepared_encoder_new altchars padded wrapcol in
    encode_with_prepared machine address stack allocate input encoder =
      (if ISIZE_MAX < length t then Some (Inl (Py_Memory_Error ''Base64 output is too large''))
       else case allocate (length t) of Inl e \<Rightarrow> Some (Inl e) | Inr _ \<Rightarrow> Some (Inr t))
    \<and> encode_slice_to_ptr machine address stack input output encoder =
      (if length output < length t then Some (Inl (Py_Output_Too_Small (length t) (length output)), output)
       else Some (Inr (length t), t @ drop (length t) output))"
proof -
  let ?table = "case altchars of None \<Rightarrow> STANDARD_ALPHABET | Some (a, b) \<Rightarrow> take 62 STANDARD_ALPHABET @ [a, b]"
  let ?line = "encode_padded_spec ?table padded input"
  have "prepared_text (prepared_encoder_new altchars padded wrapcol) input
      = (if w = 0 then ?line else wrap_lines (max (nat w div 4) 1 * 4) ?line)"
    using assms(2) unfolding prepared_text_def prepared_encoder_new_table
    by (auto simp: prepared_encoder_new_def prepared_with_alphabet_def line_wrapping_new_def encode_padding_new_def
        normalize_wrapcol_def Let_def split: if_splits)
  moreover have "allocates allocate" using assms(4) by (simp add: allocates_def)
  note encode_with_prepared_text [OF assms(1) prepared_encoder_new_ok [OF assms(2)] assms(3) this,
      of address stack altchars padded]
    and encode_slice_to_ptr_text [OF assms(1) prepared_encoder_new_ok [OF assms(2)] assms(3),
      of address stack "output" altchars padded]
  ultimately show ?thesis by (simp only: Let_def simp_thms)
qed

lemma prepared_encoder_correct_witness:
  "encode_with_prepared example_machine 4096 64 (\<lambda>n. if n < 100 then Inr (replicate n 7) else Inl (Py_Raised ''MemoryError''))
     (map of_char ''hello'') (prepared_encoder_new (Some (46, 47)) False (Some 4))
   = Some (Inr (map of_char ''aGVs'' @ [10] @ map of_char ''bG8''))"
proof -
  have "encode_padded_spec (take 62 STANDARD_ALPHABET @ [46, 47]) False (map of_char ''hello'') = map of_char ''aGVsbG8''"
    by (simp add: encode_padded_spec_def encode_unpadded_spec_def symbol_def STANDARD_ALPHABET_bytes)
  moreover have "wrap_lines 4 (map of_char ''aGVsbG8'') = map of_char ''aGVs'' @ [10] @ map of_char ''bG8''"
    by (simp add: wrap_lines.simps)
  moreover have "normalize_wrapcol 7 = Inr (Some 4)" by (simp add: normalize_wrapcol_def USIZE_MAX_def)
  moreover have "length (map of_char ''hello'' :: bytes) \<le> ISIZE_MAX" by (simp add: ISIZE_MAX_def)
  moreover have "length buffer = n"
    if "(if n < 100 then Inr (replicate n 7) else Inl (Py_Raised ''MemoryError'')) = Inr buffer" for n and buffer :: bytes
    using that by (auto split: if_splits)
  ultimately show ?thesis
    using prepared_encoder_correct [OF example_selected, of 7 "Some 4" "map of_char ''hello''"
        "\<lambda>n. if n < 100 then Inr (replicate n 7) else Inl (Py_Raised ''MemoryError'')" "Some (46, 47)" False
        4096 64 "[]", unfolded Let_def]
    by (simp add: ISIZE_MAX_def)
qed

end
