(* ===== verification/Base64_Decode_Scalar.thy ===== *)
theory Base64_Decode_Scalar
  imports Base64_Alphabet
begin

text \<open>
  The scalar decoding steps of \<open>src/base64/decode/api.rs\<close>, loops that a failing step leaves
  early, and what a partly decoded region holds: the relation \<open>decoded\<close>, which the loops of every
  decoder keep.

  A fallible operation on the destination returns \<open>Inl (error, memory)\<close> or \<open>Inr\<close> of its result,
  both with what the memory holds then; the outer option is \<open>None\<close> where the code panics or leaves
  a region.
\<close>

section \<open>Fallible operations\<close>

text \<open>The operator \<open>?\<close>.\<close>

definition and_then :: "('e + 'a) option \<Rightarrow> ('a \<Rightarrow> ('e + 'b) option) \<Rightarrow> ('e + 'b) option" where
  "and_then m f = do { r \<leftarrow> m; (case r of Inl e \<Rightarrow> Some (Inl e) | Inr v \<Rightarrow> f v) }"

lemma and_then_simps [simp]:
  "and_then None f = None"
  "and_then (Some (Inl e)) f = Some (Inl e)"
  "and_then (Some (Inr v)) f = f v"
  by (simp_all add: and_then_def)

text \<open>
  \<open>while off + width <= len { body; off += stride }\<close> where the body may return: the result is what
  it returned, or the offset and the state at the end.
\<close>

function try_while ::
  "nat \<Rightarrow> nat \<Rightarrow> nat \<Rightarrow> (nat \<Rightarrow> 's \<Rightarrow> ('e + 's) option) \<Rightarrow> nat \<Rightarrow> 's \<Rightarrow> ('e + nat \<times> 's) option" where
  "try_while len width stride body off s =
     (if off + width \<le> len \<and> 0 < stride
      then and_then (body off s) (try_while len width stride body (off + stride))
      else Some (Inr (off, s)))"
  by pat_completeness auto
termination
  by (relation "measure (\<lambda>(len, width, stride, body, off, s). Suc len - off)") auto

declare try_while.simps [simp del]

text \<open>Total correctness: an invariant of the loop, and what holds where the body returns.\<close>

lemma try_while_total:
  assumes "0 < stride" and "I off s"
    and step: "\<And>off s. I off s \<Longrightarrow> off + width \<le> len \<Longrightarrow>
      \<exists>r. body off s = Some r \<and> (case r of Inl e \<Rightarrow> Q e | Inr s' \<Rightarrow> I (off + stride) s')"
  shows "\<exists>r. try_while len width stride body off s = Some r
    \<and> (case r of Inl e \<Rightarrow> Q e | Inr (off', s') \<Rightarrow> I off' s' \<and> len < off' + width)"
  using assms(2)
proof (induction "Suc len - off" arbitrary: off s rule: less_induct)
  case less
  show ?case
  proof (cases "off + width \<le> len")
    case True
    obtain r where r: "body off s = Some r" "case r of Inl e \<Rightarrow> Q e | Inr s' \<Rightarrow> I (off + stride) s'"
      using step [OF less.prems True] by blast
    have unfold: "try_while len width stride body off s
        = and_then (Some r) (try_while len width stride body (off + stride))"
      using True \<open>0 < stride\<close> r(1) by (subst try_while.simps) simp
    show ?thesis
    proof (cases r)
      case (Inr s')
      then have "I (off + stride) s'" using r(2) by simp
      moreover have "Suc len - (off + stride) < Suc len - off" using True \<open>0 < stride\<close> by arith
      ultimately show ?thesis unfolding unfold Inr and_then_simps by (intro less.hyps)
    qed (use r(2) unfold in simp)
  next
    case False
    then show ?thesis using less.prems by (subst try_while.simps) simp
  qed
qed

section \<open>The scalar steps\<close>

definition decode_value :: "u8 \<Rightarrow> bytes \<Rightarrow> u8 option" where
  "decode_value byte table =
     (let value = table ! unat byte in if value \<noteq> INVALID_VALUE then Some value else None)"

text \<open>\<open>decode_value(input[i], table).ok_or(InvalidInput)\<close>\<close>

definition value_or_invalid ::
  "bytes \<Rightarrow> nat \<Rightarrow> bytes \<Rightarrow> bytes \<Rightarrow> (base64_error \<times> bytes + u8) option" where
  "value_or_invalid input i table output =
     do {
       byte \<leftarrow> get input i;
       Some (case decode_value byte table of
         None \<Rightarrow> Inl (InvalidInput, output)
       | Some value \<Rightarrow> Inr value)
     }"

definition decode_quad_ptr ::
  "bytes \<Rightarrow> bytes \<Rightarrow> nat \<Rightarrow> nat \<Rightarrow> bytes \<Rightarrow> (base64_error \<times> bytes + bytes) option" where
  "decode_quad_ptr input output destination padding table =
     and_then (value_or_invalid input 0 table output) (\<lambda>first.
     and_then (value_or_invalid input 1 table output) (\<lambda>second.
     and_then (if padding = 2 then Some (Inr 0) else value_or_invalid input 2 table output) (\<lambda>third.
     and_then (if padding = 0 then value_or_invalid input 3 table output else Some (Inr 0)) (\<lambda>fourth.
       do {
         output \<leftarrow> store output destination [push_bit 2 first OR drop_bit 4 second];
         output \<leftarrow> (if padding < 2
           then store output (destination + 1) [push_bit 4 second OR drop_bit 2 third] else Some output);
         output \<leftarrow> (if padding = 0
           then store output (destination + 2) [push_bit 6 third OR fourth] else Some output);
         Some (Inr output) }))))"

definition decode_quad_validated_ptr :: "bytes \<Rightarrow> bytes \<Rightarrow> nat \<Rightarrow> bytes \<Rightarrow> bytes option" where
  "decode_quad_validated_ptr input output destination table =
     do {
       first \<leftarrow> map_option (\<lambda>b. table ! unat b) (get input 0);
       second \<leftarrow> map_option (\<lambda>b. table ! unat b) (get input 1);
       third \<leftarrow> map_option (\<lambda>b. table ! unat b) (get input 2);
       fourth \<leftarrow> map_option (\<lambda>b. table ! unat b) (get input 3);
       output \<leftarrow> store output destination [push_bit 2 first OR drop_bit 4 second];
       output \<leftarrow> store output (destination + 1) [push_bit 4 second OR drop_bit 2 third];
       store output (destination + 2) [push_bit 6 third OR fourth]
     }"

definition decode_unpadded_tail_ptr ::
  "bytes \<Rightarrow> bytes \<Rightarrow> nat \<Rightarrow> bytes \<Rightarrow> (base64_error \<times> bytes + bytes) option" where
  "decode_unpadded_tail_ptr input output destination table =
     do {
       guard (length input = 2 \<or> length input = 3);
       and_then (value_or_invalid input 0 table output) (\<lambda>first.
       and_then (value_or_invalid input 1 table output) (\<lambda>second.
       and_then (if length input = 3 then value_or_invalid input 2 table output else Some (Inr 0)) (\<lambda>third.
         do {
           output \<leftarrow> store output destination [push_bit 2 first OR drop_bit 4 second];
           output \<leftarrow> (if length input = 3
             then store output (destination + 1) [push_bit 4 second OR drop_bit 2 third] else Some output);
           Some (Inr output) })))
     }"

definition decode_unpadded_tail_validated_ptr :: "bytes \<Rightarrow> bytes \<Rightarrow> nat \<Rightarrow> bytes \<Rightarrow> bytes option" where
  "decode_unpadded_tail_validated_ptr input output destination table =
     do {
       guard (length input = 2 \<or> length input = 3);
       first \<leftarrow> map_option (\<lambda>b. table ! unat b) (get input 0);
       second \<leftarrow> map_option (\<lambda>b. table ! unat b) (get input 1);
       output \<leftarrow> store output destination [push_bit 2 first OR drop_bit 4 second];
       (if length input = 3 then do {
          third \<leftarrow> map_option (\<lambda>b. table ! unat b) (get input 2);
          store output (destination + 1) [push_bit 4 second OR drop_bit 2 third] }
        else Some output)
     }"

text \<open>The eight values, and the six bytes of two groups.\<close>

definition eight_values :: "bytes \<Rightarrow> bytes \<Rightarrow> bytes option" where
  "eight_values input table =
     traverse (\<lambda>i. map_option (\<lambda>b. table ! unat b) (get input i)) [0, 1, 2, 3, 4, 5, 6, 7]"

definition decode_eight_ptr ::
  "bytes \<Rightarrow> bytes \<Rightarrow> nat \<Rightarrow> bytes \<Rightarrow> (base64_error \<times> bytes + bytes) option" where
  "decode_eight_ptr input output destination table =
     do {
       values \<leftarrow> eight_values input table;
       (case values of
          [first, second, third, fourth, fifth, sixth, seventh, eighth] \<Rightarrow>
            if first OR second OR third OR fourth OR fifth OR sixth OR seventh OR eighth = INVALID_VALUE
            then Some (Inl (InvalidInput, output))
            else do {
              output \<leftarrow> store output destination
                [push_bit 2 first OR drop_bit 4 second, push_bit 4 second OR drop_bit 2 third,
                 push_bit 6 third OR fourth, push_bit 2 fifth OR drop_bit 4 sixth,
                 push_bit 4 sixth OR drop_bit 2 seventh, push_bit 6 seventh OR eighth];
              Some (Inr output) }
        | _ \<Rightarrow> None)
     }"

definition decode_eight_validated_ptr :: "bytes \<Rightarrow> bytes \<Rightarrow> nat \<Rightarrow> bytes \<Rightarrow> bytes option" where
  "decode_eight_validated_ptr input output destination table =
     do {
       values \<leftarrow> eight_values input table;
       (case values of
          [first, second, third, fourth, fifth, sixth, seventh, eighth] \<Rightarrow>
            store output destination
              [push_bit 2 first OR drop_bit 4 second, push_bit 4 second OR drop_bit 2 third,
               push_bit 6 third OR fourth, push_bit 2 fifth OR drop_bit 4 sixth,
               push_bit 4 sixth OR drop_bit 2 seventh, push_bit 6 seventh OR eighth]
        | _ \<Rightarrow> None)
     }"

section \<open>Symbols and their values\<close>

definition all_symbols :: "decode_alphabet \<Rightarrow> bytes \<Rightarrow> bool" where
  "all_symbols a text = list_all (\<lambda>b. symbol_value a b \<noteq> None) text"

definition symbol_values :: "decode_alphabet \<Rightarrow> bytes \<Rightarrow> bytes" where
  "symbol_values a text = map (\<lambda>b. table_of a ! unat b) text"

definition decoded_bytes :: "decode_alphabet \<Rightarrow> bytes \<Rightarrow> bytes" where
  "decoded_bytes a text = octets (symbol_values a text)"

lemma all_symbols_simps [simp]:
  "all_symbols a []"
  "all_symbols a (b # text) \<longleftrightarrow> symbol_value a b \<noteq> None \<and> all_symbols a text"
  "all_symbols a (text @ text') \<longleftrightarrow> all_symbols a text \<and> all_symbols a text'"
  by (simp_all add: all_symbols_def)

lemma symbol_values_append [simp]: "symbol_values a (x @ y) = symbol_values a x @ symbol_values a y"
  by (simp add: symbol_values_def)

lemma length_symbol_values [simp]: "length (symbol_values a x) = length x"
  by (simp add: symbol_values_def)

lemma decoded_bytes_Nil [simp]: "decoded_bytes a [] = []"
  by (simp add: decoded_bytes_def symbol_values_def)

lemma decoded_bytes_append:
  "4 dvd length x \<Longrightarrow> decoded_bytes a (x @ y) = decoded_bytes a x @ decoded_bytes a y"
  by (simp add: decoded_bytes_def octets_append)

lemma length_decoded_bytes: "length (decoded_bytes a x) = length x * 3 div 4"
  by (simp add: decoded_bytes_def length_octets)

lemma traverse_symbol_value:
  "traverse (symbol_value a) xs = (if all_symbols a xs then Some (symbol_values a xs) else None)"
  by (induction xs) (auto simp: symbol_values_def table_value)

lemma decode_unpadded_spec_eq:
  "decode_unpadded_spec a text =
     (if length text mod 4 \<noteq> 1 \<and> all_symbols a text then Some (decoded_bytes a text) else None)"
  by (simp add: decode_unpadded_spec_def traverse_symbol_value decoded_bytes_def)

lemma invalid_iff_no_symbol: "table_of a ! unat b = INVALID_VALUE \<longleftrightarrow> symbol_value a b = None"
  using symbol_value_less [of a b]
  by (auto simp: table_value INVALID_VALUE_def split: option.splits)

lemma decode_value_eq: "decode_value b (table_of a) = symbol_value a b"
  by (cases "symbol_value a b")
    (use invalid_iff_no_symbol [of a b] in \<open>simp_all add: decode_value_def table_value Let_def\<close>)

section \<open>What the steps write\<close>

lemma value_or_invalid_eq:
  "i < length input \<Longrightarrow> value_or_invalid input i (table_of a) output =
     Some (case symbol_value a (input ! i) of None \<Rightarrow> Inl (InvalidInput, output) | Some v \<Rightarrow> Inr v)"
  by (simp add: value_or_invalid_def get_Some decode_value_eq)

lemma store_Cons: "store m d [b] \<bind> (\<lambda>m. store m (Suc d) ys) = store m d (b # ys)"
  using store_store [of "[b]" 1 m d ys] by simp

lemma store_Cons_bind:
  "store m d [b] \<bind> (\<lambda>m. store m (Suc d) ys \<bind> f) = store m d (b # ys) \<bind> f"
  by (simp add: store_Cons flip: bind_assoc)

lemmas store_bytes_Suc = store_Cons store_Cons_bind

text \<open>A group of four: all its symbols, and its three bytes.\<close>

lemma decode_quad_eq:
  assumes "length quad = 4"
  shows "decode_quad_ptr quad output d 0 (table_of a) =
    (if all_symbols a quad
     then store output d (decoded_bytes a quad) \<bind> (\<lambda>m. Some (Inr m))
     else Some (Inl (InvalidInput, output)))"
proof -
  obtain p q r s where quad: "quad = [p, q, r, s]"
    using assms unfolding length_eq_4 by blast
  show ?thesis
    unfolding quad decode_quad_ptr_def
    by (auto simp: value_or_invalid_eq decoded_bytes_def symbol_values_def table_value store_bytes_Suc
        split: option.splits)
qed

lemma decode_quad_padding_eq:
  assumes "length quad = 4" "padding = 1 \<or> padding = 2"
  shows "decode_quad_ptr quad output d padding (table_of a) =
    (if all_symbols a (take (4 - padding) quad)
     then store output d (decoded_bytes a (take (4 - padding) quad)) \<bind> (\<lambda>m. Some (Inr m))
     else Some (Inl (InvalidInput, output)))"
proof -
  obtain p q r s where quad: "quad = [p, q, r, s]"
    using assms(1) unfolding length_eq_4 by blast
  from assms(2) show ?thesis
    unfolding quad decode_quad_ptr_def
    by (elim disjE) (auto simp: value_or_invalid_eq decoded_bytes_def symbol_values_def table_value
        store_bytes_Suc numeral_3_eq_3 numeral_2_eq_2 simp flip: bind_assoc split: option.splits)
qed

lemma decode_quad_validated_eq:
  assumes "length quad = 4"
  shows "decode_quad_validated_ptr quad output d (table_of a) = store output d (decoded_bytes a quad)"
proof -
  obtain p q r s where quad: "quad = [p, q, r, s]"
    using assms unfolding length_eq_4 by blast
  show ?thesis
    unfolding quad decode_quad_validated_ptr_def
    by (simp add: get_Some decoded_bytes_def symbol_values_def store_bytes_Suc)
qed

lemma tail_cases:
  assumes "length tail = 2 \<or> length tail = 3"
  obtains (two) p q where "tail = [p, q]" | (three) p q r where "tail = [p, q, r]"
  using assms unfolding length_eq_2 length_eq_3 by blast

lemma decode_unpadded_tail_eq:
  assumes "length tail = 2 \<or> length tail = 3"
  shows "decode_unpadded_tail_ptr tail output d (table_of a) =
    (if all_symbols a tail
     then store output d (decoded_bytes a tail) \<bind> (\<lambda>m. Some (Inr m))
     else Some (Inl (InvalidInput, output)))"
  using assms
  by (cases tail rule: tail_cases)
    (auto simp: decode_unpadded_tail_ptr_def value_or_invalid_eq decoded_bytes_def symbol_values_def
      table_value store_bytes_Suc simp flip: bind_assoc split: option.splits)

lemma decode_unpadded_tail_validated_eq:
  assumes "length tail = 2 \<or> length tail = 3"
  shows "decode_unpadded_tail_validated_ptr tail output d (table_of a) = store output d (decoded_bytes a tail)"
  using assms
  by (cases tail rule: tail_cases)
    (simp_all add: decode_unpadded_tail_validated_ptr_def get_Some decoded_bytes_def symbol_values_def
      store_bytes_Suc)

lemma list8: "length v = 8 \<longleftrightarrow> (\<exists>x0 x1 x2 x3 x4 x5 x6 x7. v = [x0, x1, x2, x3, x4, x5, x6, x7])"
  by (auto simp: numeral_eq_Suc length_Suc_conv)

lemma eight_values_eq: "length block = 8 \<Longrightarrow> eight_values block (table_of a) = Some (symbol_values a block)"
  by (auto simp: list8 eight_values_def get_Some symbol_values_def)

text \<open>An invalid value has all bits set, and so has every disjunction it is part of.\<close>

lemma fold_or_sextets:
  "w < 64 \<Longrightarrow> list_all (\<lambda>v. v < 64) vs \<Longrightarrow> fold (OR) vs w < (64 :: u8)"
proof (induction vs arbitrary: w)
  case (Cons v vs)
  have "v OR w < 64"
    using Cons.prems unfolding sextet_iff_bits by (simp add: bit_simps sextet_iff_bits)
  with Cons show ?case by simp
qed simp

lemma fold_or_invalid: "w = - 1 \<or> - 1 \<in> set vs \<Longrightarrow> fold (OR) vs w = (- 1 :: u8)"
proof (induction vs arbitrary: w)
  case (Cons v vs)
  have "v OR w = - 1 \<or> - 1 \<in> set vs" using Cons.prems by (elim disjE) auto
  from Cons.IH [OF this] show ?case by simp
qed simp

lemma symbol_values_less: "all_symbols a block \<Longrightarrow> list_all (\<lambda>v. v < 64) (symbol_values a block)"
  by (induction block) (auto simp: symbol_values_def table_value dest: symbol_value_less)

lemma values_or_invalid:
  "fold (OR) (symbol_values a block) 0 = INVALID_VALUE \<longleftrightarrow> \<not> all_symbols a block"
proof (cases "all_symbols a block")
  case True
  then have "list_all (\<lambda>v. v < 64) (symbol_values a block)" by (rule symbol_values_less)
  then have "fold (OR) (symbol_values a block) 0 < 64" by (intro fold_or_sextets) simp_all
  with True show ?thesis by (auto simp: INVALID_VALUE_def)
next
  case False
  then obtain b where "b \<in> set block" "symbol_value a b = None"
    by (auto simp: all_symbols_def list_all_iff)
  then have "- 1 \<in> set (symbol_values a block)"
    using invalid_iff_no_symbol [of a b] by (force simp: symbol_values_def INVALID_VALUE_def)
  with False show ?thesis by (simp add: fold_or_invalid INVALID_VALUE_def)
qed

lemma decode_eight_eq:
  assumes "length block = 8"
  shows "decode_eight_ptr block output d (table_of a) =
    (if all_symbols a block
     then store output d (decoded_bytes a block) \<bind> (\<lambda>m. Some (Inr m))
     else Some (Inl (InvalidInput, output)))"
proof -
  have "length (symbol_values a block) = 8" using assms by simp
  then obtain p q r s t u v w where vs: "symbol_values a block = [p, q, r, s, t, u, v, w]"
    unfolding list8 by blast
  have "p OR q OR r OR s OR t OR u OR v OR w = fold (OR) (symbol_values a block) 0"
    by (simp add: vs ac_simps)
  then show ?thesis
    using values_or_invalid [of a block]
    by (simp add: decode_eight_ptr_def eight_values_eq [OF assms] vs decoded_bytes_def)
qed

lemma decode_eight_validated_eq:
  assumes "length block = 8"
  shows "decode_eight_validated_ptr block output d (table_of a) = store output d (decoded_bytes a block)"
proof -
  have "length (symbol_values a block) = 8" using assms by simp
  then obtain p q r s t u v w where vs: "symbol_values a block = [p, q, r, s, t, u, v, w]"
    unfolding list8 by blast
  then show ?thesis
    by (simp add: decode_eight_validated_ptr_def eight_values_eq [OF assms] decoded_bytes_def)
qed

section \<open>A partly decoded region\<close>

text \<open>
  After \<open>n\<close> characters of \<open>input\<close> the memory begins with their bytes, and up to \<open>slack\<close> bytes
  behind them may have been overwritten; everything later is as it was.
\<close>

definition decoded :: "decode_alphabet \<Rightarrow> nat \<Rightarrow> bytes \<Rightarrow> nat \<Rightarrow> bytes \<Rightarrow> bytes \<Rightarrow> bool" where
  "decoded a slack input n mem mem' \<longleftrightarrow>
     4 dvd n \<and> n \<le> length input \<and> all_symbols a (take n input) \<and> length mem' = length mem
     \<and> take (n div 4 * 3) mem' = decoded_bytes a (take n input)
     \<and> drop (n div 4 * 3 + slack) mem' = drop (n div 4 * 3 + slack) mem"

lemma decoded_start: "decoded a slack input 0 mem mem"
  by (simp add: decoded_def)

lemma decodedD:
  assumes "decoded a slack input n mem mem'"
  shows "4 dvd n" "n \<le> length input" "all_symbols a (take n input)" "length mem' = length mem"
    "take (n div 4 * 3) mem' = decoded_bytes a (take n input)"
    "drop (n div 4 * 3 + slack) mem' = drop (n div 4 * 3 + slack) mem"
  using assms by (simp_all add: decoded_def)

lemma drop_drop_eq: "drop n xs = drop n ys \<Longrightarrow> n \<le> m \<Longrightarrow> drop m xs = drop m ys"
  by (metis drop_drop le_add_diff_inverse2)

text \<open>The next groups, with what a wide store leaves behind them.\<close>

lemma decoded_step:
  assumes "decoded a slack input n mem mem'" "4 dvd k" "n + k \<le> length input"
    and "all_symbols a (take k (drop n input))" "length junk \<le> slack"
    and "length input div 4 * 3 + slack \<le> length mem"
  shows "\<exists>mem''. store mem' (n div 4 * 3) (decoded_bytes a (take k (drop n input)) @ junk) = Some mem''
    \<and> decoded a slack input (n + k) mem mem''"
proof -
  note d = decodedD [OF assms(1)]
  let ?d = "n div 4 * 3" and ?new = "decoded_bytes a (take k (drop n input))"
  have len: "length ?new = k div 4 * 3" using assms(2,3) by (auto simp: length_decoded_bytes elim!: dvdE)
  have nk: "(n + k) div 4 * 3 = ?d + k div 4 * 3" using d(1) assms(2) by (auto elim!: dvdE)
  have "(n + k) div 4 * 3 \<le> length input div 4 * 3" using assms(3) by (simp add: div_le_mono)
  then have fit: "?d + length (?new @ junk) \<le> length mem'" using assms(5,6) d(4) nk len by simp
  define mem'' where "mem'' = take ?d mem' @ (?new @ junk) @ drop (?d + length (?new @ junk)) mem'"
  have s: "store mem' ?d (?new @ junk) = Some mem''" using fit by (simp add: store_def mem''_def)
  have "length (decoded_bytes a (take n input)) = ?d"
    using d(1,2) by (auto simp: length_decoded_bytes elim!: dvdE)
  then have "take ((n + k) div 4 * 3) mem'' = decoded_bytes a (take n input) @ ?new"
    using fit d(5) unfolding mem''_def nk by (simp add: len)
  also have "\<dots> = decoded_bytes a (take (n + k) input)"
    using d(1,2) by (simp add: take_add decoded_bytes_append)
  finally have 1: "take ((n + k) div 4 * 3) mem'' = decoded_bytes a (take (n + k) input)" .
  have "drop (?d + k div 4 * 3 + slack) mem'' = drop (?d + k div 4 * 3 + slack) mem'"
    using fit assms(5) store_frame(2) [OF s] by (auto simp: len intro: drop_drop_eq)
  also have "\<dots> = drop (?d + k div 4 * 3 + slack) mem"
    using d(6) by (rule drop_drop_eq) simp
  finally have 2: "drop ((n + k) div 4 * 3 + slack) mem'' = drop ((n + k) div 4 * 3 + slack) mem"
    unfolding nk .
  have "decoded a slack input (n + k) mem mem''"
    using 1 2 d assms(2,3,4) length_store [OF s] by (simp add: decoded_def take_add dvd_add)
  with s show ?thesis by blast
qed

lemma decoded_exact_step:
  assumes "decoded a slack input n mem mem'" "4 dvd k" "n + k \<le> length input"
    and "all_symbols a (take k (drop n input))" "length input div 4 * 3 + slack \<le> length mem"
  shows "\<exists>mem''. store mem' (n div 4 * 3) (decoded_bytes a (take k (drop n input))) = Some mem''
    \<and> decoded a slack input (n + k) mem mem''"
  using decoded_step [OF assms(1-4), of "[]"] assms(5) by simp

lemma decoded_weaken:
  assumes "decoded a slack input n mem mem'" "slack \<le> slack'"
  shows "decoded a slack' input n mem mem'"
  using assms drop_drop_eq [of "n div 4 * 3 + slack" mem' mem] by (simp add: decoded_def)

lemma decoded_prefix:
  assumes "decoded a slack (take m input) n mem mem'"
  shows "decoded a slack input n mem mem'"
  using assms by (auto simp: decoded_def min_def split: if_splits)

end
