(* ===== verification/Decode_Vectors.thy ===== *)
theory Decode_Vectors
  imports Byte_Vectors Base64_Alphabet
begin

text \<open>
  The multiply-add, mask and test instructions of the vector decoders, and the packing of four
  six-bit values into three bytes that the x86 kernels do with two multiply-adds.
\<close>

section \<open>Instructions\<close>

text \<open>\<open>pmaddubsw\<close>: unsigned bytes times signed bytes, added in pairs with signed saturation.\<close>

definition saturate16 :: "int \<Rightarrow> u16" where
  "saturate16 x = word_of_int (max (- 32768) (min 32767 x))"

fun maddubs_epi16 :: "bytes \<Rightarrow> bytes \<Rightarrow> bytes" where
  "maddubs_epi16 (a # b # v) (x # y # w) =
     to_le (saturate16 (uint a * sint x + uint b * sint y)) @ maddubs_epi16 v w"
| "maddubs_epi16 _ _ = []"

text \<open>\<open>pmaddwd\<close>: signed 16-bit products, added in pairs.\<close>

fun madd_pairs :: "u16 list \<Rightarrow> u16 list \<Rightarrow> u32 list" where
  "madd_pairs (a # b # v) (x # y # w) = word_of_int (sint a * sint x + sint b * sint y) # madd_pairs v w"
| "madd_pairs _ _ = []"

definition madd_epi16 :: "bytes \<Rightarrow> bytes \<Rightarrow> bytes" where
  "madd_epi16 v w = unlanes (madd_pairs (lanes v) (lanes w))"

text \<open>The top bits of the bytes of a register as a number; \<open>ptest\<close>.\<close>

definition movemask_epi8 :: "bytes \<Rightarrow> u32" where
  "movemask_epi8 v = horner_sum of_bool 2 (map (\<lambda>b. bit b 7) v)"

definition movepi8_mask :: "bytes \<Rightarrow> u64" where
  "movepi8_mask v = horner_sum of_bool 2 (map (\<lambda>b. bit b 7) v)"

definition testz_si :: "bytes \<Rightarrow> bytes \<Rightarrow> bool" where
  "testz_si v w = list_all (\<lambda>b. b = 0) (and_si v w)"

section \<open>Tests of a register of errors\<close>

definition clean :: "bytes \<Rightarrow> bool" where
  "clean v = list_all (\<lambda>b. b = 0) v"

lemma clean_replicate [simp]: "clean (replicate n 0)"
  by (simp add: clean_def list_all_iff)

lemma clean_append [simp]: "clean (v @ w) \<longleftrightarrow> clean v \<and> clean w"
  by (simp add: clean_def)

lemma or_zero_iff: "x OR y = 0 \<longleftrightarrow> x = 0 \<and> y = 0" for x y :: "'a::len word"
  by (auto simp: bit_eq_iff bit_simps)

lemma clean_or: "length v = length w \<Longrightarrow> clean (or_si v w) \<longleftrightarrow> clean v \<and> clean w"
  by (induction v w rule: list_induct2) (auto simp: clean_def or_si_def or_zero_iff)

lemma clean_map: "clean (map f v) \<longleftrightarrow> list_all (\<lambda>b. f b = 0) v"
  by (simp add: clean_def list_all_iff)

lemma testz_self: "testz_si v v \<longleftrightarrow> clean v"
  by (induction v) (auto simp: testz_si_def clean_def and_si_def)

lemma movemask_full:
  assumes "length v = 16"
  shows "movemask_epi8 (cmpeq_epi8 v (replicate 16 0)) = 0xffff \<longleftrightarrow> clean v"
proof -
  have bits: "bit (movemask_epi8 w) n \<longleftrightarrow> n < length w \<and> bit (w ! n) 7" if "length w = 16" for w n
    using that by (auto simp: movemask_epi8_def bit_horner_sum_bit_word_iff nth_append)
  have "(0xffff :: u32) = mask 16" by (simp add: mask_eq_exp_minus_1)
  have full: "movemask_epi8 w = 0xffff \<longleftrightarrow> (\<forall>n<16. bit (w ! n) 7)" if w: "length w = 16" for w
  proof
    assume *: "movemask_epi8 w = 0xffff"
    show "\<forall>n<16. bit (w ! n) 7"
    proof (intro allI impI)
      fix n :: nat assume "n < 16"
      then have "bit (movemask_epi8 w) n"
        unfolding * \<open>(0xffff :: u32) = mask 16\<close> by (simp add: bit_mask_iff)
      then show "bit (w ! n) 7" using bits [OF w] by simp
    qed
  next
    assume "\<forall>n<16. bit (w ! n) 7"
    then show "movemask_epi8 w = 0xffff"
      unfolding \<open>(0xffff :: u32) = mask 16\<close> by (intro bit_word_eqI) (auto simp: bits [OF w] bit_mask_iff w)
  qed
  have "length (cmpeq_epi8 v (replicate 16 0)) = 16" using assms by (simp add: cmpeq_epi8_def)
  moreover have "cmpeq_epi8 v (replicate 16 0) ! n = (if v ! n = 0 then - 1 else 0)" if "n < 16" for n
    using that assms by (simp add: cmpeq_epi8_def)
  ultimately show ?thesis using assms by (auto simp: full clean_def list_all_length)
qed

lemma bit_movepi8_mask: "length v = 64 \<Longrightarrow> bit (movepi8_mask v) n \<longleftrightarrow> n < 64 \<and> bit (v ! n) 7"
  by (auto simp: movepi8_mask_def bit_horner_sum_bit_word_iff nth_append)

section \<open>Packing\<close>

text \<open>Three bytes in reverse order and a zero for each group of four values.\<close>

fun spread_octets :: "bytes \<Rightarrow> bytes" where
  "spread_octets (p # q # r # s # vs) =
     [push_bit 6 r OR s, push_bit 4 q OR drop_bit 2 r, push_bit 2 p OR drop_bit 4 q, 0] @ spread_octets vs"
| "spread_octets _ = []"

lemma sextet_bit_less: "v < 64 \<Longrightarrow> bit v n \<Longrightarrow> n < 6" for v :: u8
  using byte_high_bits [of n v]
  by (cases "8 \<le> n") (auto simp: sextet_iff_bits not_le numeral_eq_Suc less_Suc_eq)

lemma packed_word:
  fixes p q r s :: u8
  assumes "p < 64" "q < 64" "r < 64" "s < 64"
  shows "(word_of_int ((uint p * 64 + uint q) * 4096 + (uint r * 64 + uint s)) :: u32)
    = push_bit 18 (ucast p) OR (push_bit 12 (ucast q) OR (push_bit 6 (ucast r) OR ucast s))"
proof -
  note b = sextet_bit_less [OF assms(1)] sextet_bit_less [OF assms(2)] sextet_bit_less [OF assms(3)]
    sextet_bit_less [OF assms(4)]
  let ?p = "ucast p :: u32" and ?q = "ucast q :: u32" and ?r = "ucast r :: u32" and ?s = "ucast s :: u32"
  have w: "word_of_int ((uint p * 64 + uint q) * 4096 + (uint r * 64 + uint s))
      = push_bit 18 ?p + (push_bit 12 ?q + (push_bit 6 ?r + ?s))"
    by (simp add: push_bit_eq_mult algebra_simps)
  have "push_bit 6 ?r + ?s = push_bit 6 ?r OR ?s"
    using b by (intro disjunctive_add) (force simp: bit_simps)
  moreover have "push_bit 12 ?q + (push_bit 6 ?r OR ?s) = push_bit 12 ?q OR (push_bit 6 ?r OR ?s)"
    using b by (intro disjunctive_add) (force simp: bit_simps)
  moreover have "push_bit 18 ?p + (push_bit 12 ?q OR (push_bit 6 ?r OR ?s))
      = push_bit 18 ?p OR (push_bit 12 ?q OR (push_bit 6 ?r OR ?s))"
    using b by (intro disjunctive_add) (force simp: bit_simps)
  ultimately show ?thesis unfolding w by simp
qed

lemma packed_quad:
  assumes "p < 64" "q < 64" "r < 64" "s < 64"
  shows "madd_epi16 (maddubs_epi16 [p, q, r, s] [0x40, 1, 0x40, 1]) [0, 0x10, 1, 0] = spread_octets [p, q, r, s]"
proof -
  have u: "uint v < 64" if "v < 64" for v :: u8 using that by (simp add: word_less_def)
  have "sint (saturate16 x) = x" if "0 \<le> x" "x < 4096" for x
    using that by (simp add: saturate16_def max_def min_def sint_sbintrunc' signed_take_bit_int_eq_self)
  then have s: "sint (saturate16 (uint v * 64 + uint w)) = uint v * 64 + uint w" if "v < 64" "w < 64"
    for v w :: u8
    using u [OF that(1)] u [OF that(2)] by simp
  have two: "(lanes (to_le x @ to_le y) :: u16 list) = [x, y]" for x y :: u16
    using lanes16_unlanes [of "[x, y]"] by (simp add: unlanes_def)
  have const: "(lanes [0, 0x10, 1, 0] :: u16 list) = [0x1000, 1]"
    using lanes_append [where 'a = 16, of "[0, 0x10]" "[1, 0]"] by (simp add: lanes16_pair)
  have "madd_epi16 (maddubs_epi16 [p, q, r, s] [0x40, 1, 0x40, 1]) [0, 0x10, 1, 0]
      = to_le (word_of_int ((uint p * 64 + uint q) * 4096 + (uint r * 64 + uint s)) :: u32)"
    using s [OF assms(1,2)] s [OF assms(3,4)]
    by (simp add: madd_epi16_def two const unlanes_def)
  also have "\<dots> = spread_octets [p, q, r, s]"
    using sextet_bit_less [OF assms(1)] sextet_bit_less [OF assms(2)] sextet_bit_less [OF assms(3)]
      sextet_bit_less [OF assms(4)]
    unfolding packed_word [OF assms] to_le32 spread_octets.simps append_Cons append_Nil
    by (simp add: byte_eq_bits bit_simps byte_high_bits) force
  finally show ?thesis .
qed

text \<open>The multiply-adds work group by group.\<close>

lemma maddubs_append [part_simps]:
  "even (length v) \<Longrightarrow> length w = length v \<Longrightarrow>
   maddubs_epi16 (v @ v') (w @ w') = maddubs_epi16 v w @ maddubs_epi16 v' w'"
  by (induction v w rule: maddubs_epi16.induct) auto

lemma length_maddubs: "even (length v) \<Longrightarrow> length w = length v \<Longrightarrow> length (maddubs_epi16 v w) = length v"
  by (induction v w rule: maddubs_epi16.induct) (auto simp: to_le16)

lemma madd_pairs_append:
  "even (length v) \<Longrightarrow> length w = length v \<Longrightarrow> madd_pairs (v @ v') (w @ w') = madd_pairs v w @ madd_pairs v' w'"
  by (induction v w rule: madd_pairs.induct) auto

lemma length_madd_pairs: "length w = length v \<Longrightarrow> length (madd_pairs v w) = length v div 2"
  by (induction v w rule: madd_pairs.induct) auto

lemma madd_append [part_simps]:
  assumes "4 dvd length v" "length w = length v"
  shows "madd_epi16 (v @ v') (w @ w') = madd_epi16 v w @ madd_epi16 v' w'"
proof -
  have "even (length v div 2)" "even (length v)" using assms(1) by (auto elim!: dvdE)
  then show ?thesis
    using assms by (simp add: madd_epi16_def lanes_append madd_pairs_append length_lanes16 unlanes_append)
qed

lemma length_madd: "4 dvd length v \<Longrightarrow> length w = length v \<Longrightarrow> length (madd_epi16 v w) = length v"
  by (auto simp: madd_epi16_def length_unlanes length_madd_pairs length_lanes16 elim!: dvdE)

text \<open>Both multiply-adds on a register of \<open>k\<close> groups.\<close>

definition packed :: "nat \<Rightarrow> bytes \<Rightarrow> bytes" where
  "packed k v = madd_epi16 (maddubs_epi16 v (set1 k (0x01400140 :: u32))) (set1 k (0x00011000 :: u32))"

lemma packed_append:
  assumes "length v = 4 * k"
  shows "packed (k + j) (v @ w) = packed k v @ packed j w"
proof -
  have s: "set1 (k + j) c = set1 k c @ set1 j c" for c :: u32
    by (induction k) (simp_all add: part_simps)
  show ?thesis
    using assms by (simp add: packed_def s part_simps length_maddubs lane_simps)
qed

lemma length_packed: "length v = 4 * k \<Longrightarrow> length (packed k v) = 4 * k"
  by (simp add: packed_def length_madd length_maddubs lane_simps)

lemma packed_groups:
  "length v = 4 * k \<Longrightarrow> list_all (\<lambda>b. b < 64) v \<Longrightarrow> packed k v = spread_octets v"
proof (induction v arbitrary: k rule: spread_octets.induct)
  case (1 p q r s vs)
  then obtain j where k: "k = 1 + j" "length vs = 4 * j" by (cases k) auto
  have "set1 1 (0x01400140 :: u32) = [0x40, 1, 0x40, 1]" "set1 1 (0x00011000 :: u32) = [0, 0x10, 1, 0]"
    by code_simp+
  then have "packed 1 [p, q, r, s] = spread_octets [p, q, r, s]"
    using packed_quad [of p q r s] 1(3) by (simp only: packed_def) simp
  then show ?case
    using packed_append [of "[p, q, r, s]" 1 j vs] 1 k by (simp add: k)
qed (auto simp: packed_def part_simps madd_epi16_def, presburger+)

end
