(* ===== verification/Decode_Kernels.thy ===== *)
theory Decode_Kernels
  imports Base64_Decode_Scalar Decode_Vectors
begin

text \<open>
  What the vector decoders share: the contracts of a decoding, a validating and a prefix-decoding
  kernel as locales, the look-ups of one block as a locale, and the loops over blocks that load,
  check and store.
\<close>

section \<open>The contract of a decoding kernel\<close>

text \<open>
  A kernel, which may rely on its input being symbols when it does not check, decodes a prefix of
  complete groups and reports both positions; or it finds a character
  outside the alphabet.  In the second case it has decoded some valid prefix and left the rest
  alone, if its policy is to write validated blocks only; otherwise it may have written anything
  within the space of the decoded input.
\<close>

definition decode_outcome ::
  "decode_alphabet \<Rightarrow> nat \<Rightarrow> bool \<Rightarrow> bytes \<Rightarrow> bytes
    \<Rightarrow> base64_error \<times> bytes + nat \<times> nat \<times> bytes \<Rightarrow> bool" where
  "decode_outcome a slack validated_blocks input mem r =
     (case r of
        Inr (n, d, mem') \<Rightarrow> d = n div 4 * 3 \<and> decoded a slack input n mem mem'
      | Inl (e, mem') \<Rightarrow> e = InvalidInput \<and> \<not> all_symbols a input \<and> length mem' = length mem
          \<and> drop (length input div 4 * 3 + slack) mem' = drop (length input div 4 * 3 + slack) mem
          \<and> (validated_blocks \<longrightarrow> (\<exists>n. decoded a slack input n mem mem')))"

locale decode_kernel =
  fixes kernel :: "bytes \<Rightarrow> bytes \<Rightarrow> (base64_error \<times> bytes + nat \<times> nat \<times> bytes) option"
    and a :: decode_alphabet and slack :: nat and validated_blocks :: bool and check :: bool
  assumes kernel_outcome: "check \<or> all_symbols a input \<Longrightarrow> length input div 4 * 3 + slack \<le> length mem \<Longrightarrow>
    \<exists>r. kernel input mem = Some r \<and> decode_outcome a slack validated_blocks input mem r"
begin

lemma kernel_decodes:
  assumes "length input div 4 * 3 + slack \<le> length mem" "all_symbols a input"
  shows "\<exists>n mem'. kernel input mem = Some (Inr (n, n div 4 * 3, mem')) \<and> decoded a slack input n mem mem'"
proof -
  obtain r where r: "kernel input mem = Some r" "decode_outcome a slack validated_blocks input mem r"
    using kernel_outcome [OF disjI2 [OF assms(2)] assms(1)] by blast
  then show ?thesis using assms(2) by (cases r) (auto simp: decode_outcome_def)
qed

end

text \<open>A kernel that only answers whether a prefix has symbols only.\<close>

definition validated :: "decode_alphabet \<Rightarrow> bytes \<Rightarrow> base64_error + nat \<Rightarrow> bool" where
  "validated a input r \<longleftrightarrow>
     (case r of
        Inr n \<Rightarrow> n \<le> length input \<and> all_symbols a (take n input)
      | Inl e \<Rightarrow> e = InvalidInput \<and> \<not> all_symbols a input)"

locale validate_kernel =
  fixes validate :: "bytes \<Rightarrow> (base64_error + nat) option" and a :: decode_alphabet
  assumes validate_outcome: "\<exists>r. validate input = Some r \<and> validated a input r"

text \<open>A kernel that stops at the first block with another character.\<close>

definition prefix_decoded :: "decode_alphabet \<Rightarrow> bytes \<Rightarrow> bytes \<Rightarrow> (nat \<times> nat \<times> bytes) option \<Rightarrow> bool" where
  "prefix_decoded a input mem r \<longleftrightarrow> (\<exists>n m. r = Some (n, n div 4 * 3, m) \<and> decoded a 0 input n mem m)"

locale prefix_kernel =
  fixes kernel :: "bytes \<Rightarrow> bytes \<Rightarrow> (nat \<times> nat \<times> bytes) option" and a :: decode_alphabet
  assumes prefix_outcome: "length input div 4 * 3 \<le> length mem \<Longrightarrow>
    prefix_decoded a input mem (kernel input mem)"

lemma decode_outcome_error:
  assumes "decoded a slack input n mem mem'" "\<not> all_symbols a (take k (drop m input))"
  shows "decode_outcome a slack v input mem (Inl (InvalidInput, mem'))"
proof -
  have "all_symbols a input \<Longrightarrow> all_symbols a (take k (drop m input))"
    by (auto simp: all_symbols_def list_all_iff dest: in_set_takeD in_set_dropD)
  moreover have "n div 4 * 3 \<le> length input div 4 * 3" using decodedD(2) [OF assms(1)] by (simp add: div_le_mono)
  then have "drop (length input div 4 * 3 + slack) mem' = drop (length input div 4 * 3 + slack) mem"
    using decodedD(6) [OF assms(1)] by (rule_tac drop_drop_eq [rotated]) simp_all
  ultimately show ?thesis
    using assms decodedD(4) [OF assms(1)] by (auto simp: decode_outcome_def)
qed

text \<open>Stores that overlap: the second replaces the tail of the first.\<close>

lemma store_overlap:
  assumes "k \<le> length x" "length x \<le> k + length y"
  shows "store m d x \<bind> (\<lambda>m. store m (d + k) y) = store m d (take k x @ y)"
proof (cases "d + k + length y \<le> length m")
  case True
  then have "store m d x = Some (take d m @ x @ drop (d + length x) m)" using assms by (simp add: store_def)
  moreover have "drop (d + k + length y) (take d m @ x @ drop (d + length x) m) = drop (d + k + length y) m"
    using True assms by (simp add: ac_simps)
  ultimately show ?thesis using True assms by (simp add: store_def add.assoc)
next
  case False
  then show ?thesis using assms by (auto simp: store_def split: bind_splits)
qed

section \<open>Blocks of characters\<close>

text \<open>
  The look-ups of a vector decoder on one block of \<open>width\<close> characters: a register of errors, clean
  exactly on symbols when the decoder checks its input, and the values of the symbols.
\<close>

locale indices_block =
  fixes indices :: "bytes \<Rightarrow> nat \<Rightarrow> (bytes \<times> bytes) option"
    and width :: nat and a :: decode_alphabet and check :: bool
  assumes indices_spec: "off + width \<le> length input \<Longrightarrow>
    \<exists>ix er. indices input off = Some (ix, er) \<and> length er = width
      \<and> (check \<longrightarrow> (clean er \<longleftrightarrow> all_symbols a (take width (drop off input))))
      \<and> (\<not> check \<longrightarrow> clean er)
      \<and> (all_symbols a (take width (drop off input)) \<longrightarrow> ix = symbol_values a (take width (drop off input)))"
begin

text \<open>A decoder that does not check relies on its caller.\<close>

lemma indices_accepted:
  assumes "off + width \<le> length input" "check \<or> all_symbols a input"
  obtains ix er where "indices input off = Some (ix, er)" "length er = width"
    "check \<and> \<not> clean er \<longleftrightarrow> \<not> all_symbols a (take width (drop off input))"
    "all_symbols a (take width (drop off input)) \<Longrightarrow> ix = symbol_values a (take width (drop off input))"
proof -
  obtain ix er where *: "indices input off = Some (ix, er)" "length er = width"
    "check \<longrightarrow> (clean er \<longleftrightarrow> all_symbols a (take width (drop off input)))"
    "\<not> check \<longrightarrow> clean er"
    "all_symbols a (take width (drop off input)) \<longrightarrow> ix = symbol_values a (take width (drop off input))"
    using indices_spec [OF assms(1)] by blast
  have "all_symbols a input \<Longrightarrow> all_symbols a (take width (drop off input))"
    by (auto simp: all_symbols_def list_all_iff dest: in_set_takeD in_set_dropD)
  with * assms(2) show thesis by (intro that [of ix er]) auto
qed

lemma four_accepted:
  assumes "off + 4 * width \<le> length input" "check \<or> all_symbols a input"
  obtains i1 e1 i2 e2 i3 e3 i4 e4 where
    "indices input off = Some (i1, e1)" "indices input (off + width) = Some (i2, e2)"
    "indices input (off + 2 * width) = Some (i3, e3)" "indices input (off + 3 * width) = Some (i4, e4)"
    "length e1 = width" "length e2 = width" "length e3 = width" "length e4 = width"
    "check \<and> \<not> (clean e1 \<and> clean e2 \<and> clean e3 \<and> clean e4)
      \<longleftrightarrow> \<not> all_symbols a (take (4 * width) (drop off input))"
    "all_symbols a (take (4 * width) (drop off input)) \<Longrightarrow>
      symbol_values a (take (4 * width) (drop off input)) = i1 @ i2 @ i3 @ i4
      \<and> list_all (\<lambda>i. length i = width \<and> list_all (\<lambda>v. v < 64) i) [i1, i2, i3, i4]"
proof -
  let ?b = "\<lambda>k. take width (drop (off + k * width) input)"
  obtain i1 e1 where 1: "indices input off = Some (i1, e1)" "length e1 = width"
    "check \<and> \<not> clean e1 \<longleftrightarrow> \<not> all_symbols a (?b 0)" "all_symbols a (?b 0) \<Longrightarrow> i1 = symbol_values a (?b 0)"
    using indices_accepted [of off input] assms by auto
  obtain i2 e2 where 2: "indices input (off + width) = Some (i2, e2)" "length e2 = width"
    "check \<and> \<not> clean e2 \<longleftrightarrow> \<not> all_symbols a (?b 1)" "all_symbols a (?b 1) \<Longrightarrow> i2 = symbol_values a (?b 1)"
    using indices_accepted [of "off + width" input] assms by auto
  obtain i3 e3 where 3: "indices input (off + 2 * width) = Some (i3, e3)" "length e3 = width"
    "check \<and> \<not> clean e3 \<longleftrightarrow> \<not> all_symbols a (?b 2)" "all_symbols a (?b 2) \<Longrightarrow> i3 = symbol_values a (?b 2)"
    using indices_accepted [of "off + 2 * width" input] assms by auto
  obtain i4 e4 where 4: "indices input (off + 3 * width) = Some (i4, e4)" "length e4 = width"
    "check \<and> \<not> clean e4 \<longleftrightarrow> \<not> all_symbols a (?b 3)" "all_symbols a (?b 3) \<Longrightarrow> i4 = symbol_values a (?b 3)"
    using indices_accepted [of "off + 3 * width" input] assms by auto
  have four: "take (4 * width) (drop off input) = ?b 0 @ ?b 1 @ ?b 2 @ ?b 3"
  proof -
    have "4 * width = width + (width + (width + width))" by simp
    then show ?thesis by (simp only: take_add) (simp add: algebra_simps numeral_eq_Suc)
  qed
  show thesis
    by (rule that [OF 1(1) 2(1) 3(1) 4(1) 1(2) 2(2) 3(2) 4(2)])
      (use 1(3,4) 2(3,4) 3(3,4) 4(3,4) assms(1) in \<open>auto simp: four symbol_values_less\<close>)
qed

end

text \<open>Look-ups that work byte by byte.\<close>

lemma indices_block_pointwise:
  assumes "\<And>off input. off + width \<le> length input \<Longrightarrow>
      indices input off = Some (map ix (take width (drop off input)), map er (take width (drop off input)))"
    and "\<And>b. check \<Longrightarrow> er b = 0 \<longleftrightarrow> symbol_value a b \<noteq> None" "\<And>b. \<not> check \<Longrightarrow> er b = 0"
    and "\<And>b. symbol_value a b \<noteq> None \<Longrightarrow> ix b = table_of a ! unat b"
  shows "indices_block indices width a check"
proof
  fix off and input :: bytes
  assume fit: "off + width \<le> length input"
  let ?v = "take width (drop off input)"
  have "check \<longrightarrow> (clean (map er ?v) \<longleftrightarrow> all_symbols a ?v)"
    using assms(2) by (simp add: clean_map all_symbols_def)
  moreover have "\<not> check \<longrightarrow> clean (map er ?v)"
    using assms(3) by (simp add: clean_map list_all_iff)
  moreover have "all_symbols a ?v \<longrightarrow> map ix ?v = symbol_values a ?v"
    using assms(4) by (auto simp: all_symbols_def list_all_iff symbol_values_def)
  ultimately show "\<exists>ix er. indices input off = Some (ix, er) \<and> length er = width
      \<and> (check \<longrightarrow> (clean er \<longleftrightarrow> all_symbols a ?v)) \<and> (\<not> check \<longrightarrow> clean er)
      \<and> (all_symbols a ?v \<longrightarrow> ix = symbol_values a ?v)"
    using fit by (simp add: assms(1))
qed

section \<open>Stores of packed values\<close>

text \<open>
  A store that packs \<open>width\<close> values and writes their bytes, followed by at most \<open>junk\<close> others.
\<close>

definition packs_values :: "(bytes \<Rightarrow> nat \<Rightarrow> bytes \<Rightarrow> bytes option) \<Rightarrow> nat \<Rightarrow> nat \<Rightarrow> bool" where
  "packs_values put width junk \<longleftrightarrow>
     (\<forall>ix. length ix = width \<longrightarrow> list_all (\<lambda>v. v < 64) ix \<longrightarrow>
       (\<exists>rest. length rest \<le> junk \<and> (\<forall>m d. put m d ix = store m d (octets ix @ rest))))"

lemma packs_valuesD:
  assumes "packs_values put width junk" "length ix = width" "list_all (\<lambda>v. v < 64) ix"
  obtains rest where "length rest \<le> junk" "\<And>m d. put m d ix = store m d (octets ix @ rest)"
  using assms unfolding packs_values_def by blast

lemma packs_values_mono: "packs_values put width junk \<Longrightarrow> junk \<le> junk' \<Longrightarrow> packs_values put width junk'"
  unfolding packs_values_def
proof (intro allI impI)
  fix ix :: bytes
  assume *: "\<forall>ix. length ix = width \<longrightarrow> list_all (\<lambda>v. v < 64) ix \<longrightarrow>
      (\<exists>rest. length rest \<le> junk \<and> (\<forall>m d. put m d ix = store m d (octets ix @ rest)))"
    and "junk \<le> junk'" "length ix = width" "list_all (\<lambda>v. v < 64) ix"
  then obtain rest where "length rest \<le> junk" "\<forall>m d. put m d ix = store m d (octets ix @ rest)"
    by blast
  with \<open>junk \<le> junk'\<close>
  show "\<exists>rest. length rest \<le> junk' \<and> (\<forall>m d. put m d ix = store m d (octets ix @ rest))"
    by (intro exI [of _ rest]) simp
qed

lemma four_stores:
  assumes puts: "packs_values p1 width k" "packs_values p2 width k" "packs_values p3 width k"
      "packs_values p4 width junk"
    and "4 dvd width" "k = width div 4 * 3"
    and ix: "list_all (\<lambda>i. length i = width \<and> list_all (\<lambda>v. v < 64) i) [i1, i2, i3, i4]"
  obtains rest where "length rest \<le> junk"
    "\<And>m d. p1 m d i1 \<bind> (\<lambda>m. p2 m (d + k) i2 \<bind> (\<lambda>m. p3 m (d + 2 * k) i3 \<bind> (\<lambda>m. p4 m (d + 3 * k) i4)))
      = store m d (octets (i1 @ i2 @ i3 @ i4) @ rest)"
proof -
  obtain r1 where 1: "length r1 \<le> k" "\<And>m d. p1 m d i1 = store m d (octets i1 @ r1)"
    using packs_valuesD [OF puts(1), of i1] ix by auto
  obtain r2 where 2: "length r2 \<le> k" "\<And>m d. p2 m d i2 = store m d (octets i2 @ r2)"
    using packs_valuesD [OF puts(2), of i2] ix by auto
  obtain r3 where 3: "length r3 \<le> k" "\<And>m d. p3 m d i3 = store m d (octets i3 @ r3)"
    using packs_valuesD [OF puts(3), of i3] ix by auto
  obtain r4 where 4: "length r4 \<le> junk" "\<And>m d. p4 m d i4 = store m d (octets i4 @ r4)"
    using packs_valuesD [OF puts(4), of i4] ix by auto
  have len: "length (octets i) = k" if "length i = width" for i
    using that assms(5,6) by (auto simp: length_octets elim!: dvdE)
  have len4: "length (octets i1) = k" "length (octets i2) = k" "length (octets i3) = k"
    "length (octets i4) = k" using ix by (auto intro: len)
  have "store m d (octets i1 @ r1) \<bind> (\<lambda>m. store m (d + k) (octets i2 @ r2) \<bind>
      (\<lambda>m. store m (d + 2 * k) (octets i3 @ r3) \<bind> (\<lambda>m. store m (d + 3 * k) (octets i4 @ r4))))
    = store m d ((octets i1 @ octets i2 @ octets i3 @ octets i4) @ r4)" for m d
  proof -
    have "store m d (octets i1 @ r1) \<bind> (\<lambda>m. store m (d + k) (octets i2 @ r2))
        = store m d (octets i1 @ octets i2 @ r2)" for m d
      using len4 1 by (subst store_overlap) auto
    moreover have "store m d (octets i1 @ octets i2 @ r2) \<bind> (\<lambda>m. store m (d + 2 * k) (octets i3 @ r3))
        = store m d (octets i1 @ octets i2 @ octets i3 @ r3)" for m d
      using len4 2 by (subst store_overlap) auto
    moreover have "store m d (octets i1 @ octets i2 @ octets i3 @ r3) \<bind> (\<lambda>m. store m (d + 3 * k) (octets i4 @ r4))
        = store m d (octets i1 @ octets i2 @ octets i3 @ octets i4 @ r4)" for m d
      using len4 3 by (subst store_overlap) auto
    ultimately show ?thesis by (simp flip: bind_assoc)
  qed
  moreover have "octets (i1 @ i2 @ i3 @ i4) = octets i1 @ octets i2 @ octets i3 @ octets i4"
    using ix assms(5) by (simp add: octets_append)
  ultimately show thesis using 4(1) by (intro that [of r4]) (simp_all add: 1 2 3 4)
qed

section \<open>Loops over blocks\<close>

lemma not_all_symbols_block: "\<not> all_symbols a (take k (drop off input)) \<Longrightarrow> \<not> all_symbols a input"
  by (auto simp: all_symbols_def list_all_iff dest: in_set_takeD in_set_dropD)

text \<open>
  A step of a decoding loop: on symbols it writes their bytes, on another character it leaves the
  loop and changes nothing.
\<close>

definition group_step ::
  "decode_alphabet \<Rightarrow> nat \<Rightarrow> bytes \<Rightarrow> nat \<Rightarrow> (nat \<Rightarrow> nat \<Rightarrow> bytes \<Rightarrow> 'e)
    \<Rightarrow> (nat \<Rightarrow> nat \<times> bytes \<Rightarrow> ('e + nat \<times> bytes) option) \<Rightarrow> bool" where
  "group_step a slack input width stop body \<longleftrightarrow>
     (\<forall>off d m. off + width \<le> length input \<longrightarrow>
       (if all_symbols a (take width (drop off input))
        then \<exists>rest. length rest \<le> slack \<and> body off (d, m) =
          store m d (decoded_bytes a (take width (drop off input)) @ rest)
            \<bind> (\<lambda>m. Some (Inr (d + width div 4 * 3, m)))
        else body off (d, m) = Some (Inl (stop off d m))))"

lemma group_step_decoded:
  assumes "group_step a slack input width stop body" "4 dvd width" "off + width \<le> length input"
    and "decoded a slack input off mem m" "length input div 4 * 3 + slack \<le> length mem"
  shows "\<exists>r. body off (off div 4 * 3, m) = Some r \<and>
    (case r of
       Inl e \<Rightarrow> e = stop off (off div 4 * 3) m \<and> \<not> all_symbols a (take width (drop off input))
     | Inr (d, m) \<Rightarrow> d = (off + width) div 4 * 3 \<and> decoded a slack input (off + width) mem m)"
proof (cases "all_symbols a (take width (drop off input))")
  case True
  then obtain rest where rest: "length rest \<le> slack" "body off (off div 4 * 3, m) =
      store m (off div 4 * 3) (decoded_bytes a (take width (drop off input)) @ rest)
        \<bind> (\<lambda>m. Some (Inr (off div 4 * 3 + width div 4 * 3, m)))"
    using assms(1,3) unfolding group_step_def by meson
  moreover have "off div 4 * 3 + width div 4 * 3 = (off + width) div 4 * 3"
    using assms(2) decodedD(1) [OF assms(4)] by (auto elim!: dvdE)
  ultimately show ?thesis
    using decoded_step [OF assms(4,2,3) True rest(1) assms(5)] by auto
next
  case False
  then show ?thesis using assms(1,3) unfolding group_step_def by simp
qed

lemma group_step_loop:
  assumes "group_step a slack input width stop body" "4 dvd width" "0 < width"
    and "decoded a slack input off mem m" "length input div 4 * 3 + slack \<le> length mem"
  shows "\<exists>r. try_while (length input) width width body off (off div 4 * 3, m) = Some r \<and>
    (case r of
       Inl e \<Rightarrow> \<exists>n m. e = stop n (n div 4 * 3) m \<and> decoded a slack input n mem m \<and> \<not> all_symbols a input
     | Inr (n, d, m) \<Rightarrow> d = n div 4 * 3 \<and> decoded a slack input n mem m \<and> length input < n + width)"
proof -
  let ?I = "\<lambda>off s. fst s = off div 4 * 3 \<and> decoded a slack input off mem (snd s)"
  let ?Q = "\<lambda>e. \<exists>n m. e = stop n (n div 4 * 3) m \<and> decoded a slack input n mem m \<and> \<not> all_symbols a input"
  have step: "\<exists>r. body off s = Some r \<and> (case r of Inl e \<Rightarrow> ?Q e | Inr s' \<Rightarrow> ?I (off + width) s')"
    if "?I off s" "off + width \<le> length input" for off s
  proof -
    note I = that(1) and fit = that(2)
    have s: "s = (off div 4 * 3, snd s)" using I by (cases s) simp
    obtain r where r: "body off s = Some r" "case r of
         Inl e \<Rightarrow> e = stop off (off div 4 * 3) (snd s) \<and> \<not> all_symbols a (take width (drop off input))
       | Inr (d, m) \<Rightarrow> d = (off + width) div 4 * 3 \<and> decoded a slack input (off + width) mem m"
      using group_step_decoded [OF assms(1,2) fit _ assms(5), of "snd s"] I s by metis
    show ?thesis
    proof (cases r)
      case (Inl e)
      with r have e: "e = stop off (off div 4 * 3) (snd s)" "\<not> all_symbols a (take width (drop off input))"
        by simp_all
      have "?Q e"
        using e(1) I not_all_symbols_block [OF e(2)]
        by (intro exI [of _ off] exI [of _ "snd s"]) simp
      with r Inl show ?thesis by simp
    qed (use r I in auto)
  qed
  have "\<exists>r. try_while (length input) width width body off (off div 4 * 3, m) = Some r \<and>
      (case r of Inl e \<Rightarrow> ?Q e | Inr (off', s') \<Rightarrow> ?I off' s' \<and> length input < off' + width)"
    by (rule try_while_total [where I = ?I, OF assms(3)]) (use assms(4) in \<open>auto intro: step\<close>)
  then obtain r where "try_while (length input) width width body off (off div 4 * 3, m) = Some r"
    "case r of Inl e \<Rightarrow> ?Q e | Inr (off', s') \<Rightarrow> ?I off' s' \<and> length input < off' + width"
    by blast
  then show ?thesis by (intro exI [of _ r]) (auto split: sum.splits)
qed

lemma all_symbols_whole: "all_symbols a (take n input) \<Longrightarrow> all_symbols a (drop n input) \<Longrightarrow> all_symbols a input"
  using all_symbols_simps(3) [of a "take n input" "drop n input"] by simp

text \<open>A validating step and loop.\<close>

lemma validate_loop:
  assumes step: "\<And>off. off + width \<le> length input \<Longrightarrow> body off () =
      Some (if all_symbols a (take width (drop off input)) then Inr () else Inl InvalidInput)"
    and "0 < width" "off \<le> length input" "all_symbols a (take off input)"
    and rest: "\<And>n. n \<le> length input \<Longrightarrow> length input < n + width \<Longrightarrow> all_symbols a (take n input) \<Longrightarrow>
      \<exists>r. rest (n, ()) = Some r \<and> validated a input r"
  shows "\<exists>r. and_then (try_while (length input) width width body off ()) rest = Some r \<and> validated a input r"
proof -
  let ?I = "\<lambda>off s. off \<le> length input \<and> all_symbols a (take off input)"
  let ?Q = "\<lambda>e. e = InvalidInput \<and> \<not> all_symbols a input"
  have total: "\<exists>r. body off s = Some r \<and> (case r of Inl e \<Rightarrow> ?Q e | Inr s' \<Rightarrow> ?I (off + width) s')"
    if "?I off s" "off + width \<le> length input" for off s
  proof -
    note fit = that(2)
    have "\<not> all_symbols a input" if "\<not> all_symbols a (take width (drop off input))"
      using that by (rule not_all_symbols_block)
    then show ?thesis using \<open>?I off s\<close> fit step [OF fit] by (auto simp: take_add)
  qed
  have "\<exists>r. try_while (length input) width width body off () = Some r \<and>
      (case r of Inl e \<Rightarrow> ?Q e | Inr (off', s') \<Rightarrow> ?I off' s' \<and> length input < off' + width)"
    by (rule try_while_total [where I = ?I, OF assms(2)]) (use assms(3,4) in \<open>auto intro: total\<close>)
  then obtain r where "try_while (length input) width width body off () = Some r"
    "case r of Inl e \<Rightarrow> ?Q e | Inr (off', s') \<Rightarrow> ?I off' s' \<and> length input < off' + width"
    by blast
  then show ?thesis by (cases r) (auto intro: rest, simp add: validated_def)
qed

text \<open>Phases of a decoder: each goes on where the one before it stopped.\<close>

definition reached ::
  "decode_alphabet \<Rightarrow> nat \<Rightarrow> bytes \<Rightarrow> bytes \<Rightarrow> (nat \<Rightarrow> nat \<Rightarrow> bytes \<Rightarrow> 'e) \<Rightarrow> 'e + nat \<times> nat \<times> bytes \<Rightarrow> bool" where
  "reached a slack input mem stop r \<longleftrightarrow>
     (case r of
        Inl e \<Rightarrow> \<exists>n m. e = stop n (n div 4 * 3) m \<and> decoded a slack input n mem m \<and> \<not> all_symbols a input
      | Inr (n, d, m) \<Rightarrow> d = n div 4 * 3 \<and> decoded a slack input n mem m)"

lemma reached_loop:
  assumes "group_step a slack input width stop body" "4 dvd width" "0 < width"
    and "decoded a slack input off mem m" "length input div 4 * 3 + slack \<le> length mem"
  shows "\<exists>r. try_while (length input) width width body off (off div 4 * 3, m) = Some r
    \<and> reached a slack input mem stop r"
proof -
  obtain r where "try_while (length input) width width body off (off div 4 * 3, m) = Some r"
    "case r of
       Inl e \<Rightarrow> \<exists>n m. e = stop n (n div 4 * 3) m \<and> decoded a slack input n mem m \<and> \<not> all_symbols a input
     | Inr (n, d, m) \<Rightarrow> d = n div 4 * 3 \<and> decoded a slack input n mem m \<and> length input < n + width"
    using group_step_loop [OF assms] by blast
  then show ?thesis by (intro exI [of _ r]) (auto simp: reached_def split: sum.splits)
qed

lemma reached_and_then:
  assumes "\<exists>r. phase = Some r \<and> reached a slack input mem stop r"
    and "\<And>n m. decoded a slack input n mem m \<Longrightarrow>
      \<exists>r. rest (n, n div 4 * 3, m) = Some r \<and> reached a slack input mem stop r"
  shows "\<exists>r. and_then phase rest = Some r \<and> reached a slack input mem stop r"
proof -
  obtain r where r: "phase = Some r" "reached a slack input mem stop r" using assms(1) by blast
  show ?thesis
  proof (cases r)
    case (Inl e)
    with r show ?thesis by (auto simp: reached_def)
  next
    case (Inr x)
    with r show ?thesis using assms(2) by (cases x) (auto simp: reached_def)
  qed
qed

lemma reached_loop_then:
  assumes "group_step a slack input width stop body" "4 dvd width" "0 < width"
    and "decoded a slack input off mem m" "length input div 4 * 3 + slack \<le> length mem"
    and "\<And>n m. decoded a slack input n mem m \<Longrightarrow> length input < n + width \<Longrightarrow>
      \<exists>r. rest (n, n div 4 * 3, m) = Some r \<and> reached a slack input mem stop r"
  shows "\<exists>r. and_then (try_while (length input) width width body off (off div 4 * 3, m)) rest = Some r
    \<and> reached a slack input mem stop r"
proof -
  obtain r where r: "try_while (length input) width width body off (off div 4 * 3, m) = Some r"
    "case r of
       Inl e \<Rightarrow> \<exists>n m. e = stop n (n div 4 * 3) m \<and> decoded a slack input n mem m \<and> \<not> all_symbols a input
     | Inr (n, d, m) \<Rightarrow> d = n div 4 * 3 \<and> decoded a slack input n mem m \<and> length input < n + width"
    using group_step_loop [OF assms(1-5)] by blast
  show ?thesis
  proof (cases r)
    case (Inl e)
    with r show ?thesis by (auto simp: reached_def)
  next
    case (Inr x)
    with r show ?thesis using assms(6) by (cases x) auto
  qed
qed

lemma reached_done:
  "decoded a slack input n mem m \<Longrightarrow>
   \<exists>r. Some (Inr (n, n div 4 * 3, m)) = Some r \<and> reached a slack input mem stop r"
  by (simp add: reached_def)

text \<open>A loop of a prefix decoder that breaks goes on after the loop, at the position it reached.\<close>

definition after_break ::
  "((nat \<times> 's) + nat \<times> 's) option \<Rightarrow> (nat \<Rightarrow> 's \<Rightarrow> 'b option) \<Rightarrow> 'b option" where
  "after_break m f = do { r \<leftarrow> m; (case r of Inl (off, s) \<Rightarrow> f off s | Inr (off, s) \<Rightarrow> f off s) }"

lemma prefix_decoded_Some:
  "decoded a 0 input n mem m \<Longrightarrow> d = n div 4 * 3 \<Longrightarrow> prefix_decoded a input mem (Some (n, d, m))"
  by (auto simp: prefix_decoded_def)

lemma reached_after_break:
  assumes "\<exists>r. phase = Some r \<and> reached a 0 input mem (\<lambda>n d m. (n, d, m)) r"
    and "\<And>n m. decoded a 0 input n mem m \<Longrightarrow> prefix_decoded a input mem (rest n (n div 4 * 3, m))"
  shows "prefix_decoded a input mem (after_break phase rest)"
proof -
  obtain r where r: "phase = Some r" "reached a 0 input mem (\<lambda>n d m. (n, d, m)) r" using assms(1) by blast
  then show ?thesis using assms(2) by (cases r) (auto simp: reached_def after_break_def)
qed

lemma reached_outcome:
  assumes "reached a slack input mem (\<lambda>n d m. (InvalidInput, m)) r"
  shows "decode_outcome a slack v input mem r"
proof (cases r)
  case (Inl e)
  then obtain n m where "e = (InvalidInput, m)" "decoded a slack input n mem m" "\<not> all_symbols a input"
    using assms by (auto simp: reached_def)
  then show ?thesis
    using decode_outcome_error [of a slack input n mem m "length input" 0] Inl by simp
qed (use assms in \<open>auto simp: reached_def decode_outcome_def\<close>)

context indices_block
begin

text \<open>A step that decodes one block, with its test, its store and its way of stopping as parameters.\<close>

lemma single_step:
  assumes rej: "\<And>e. length e = width \<Longrightarrow> rejects e \<longleftrightarrow> check \<and> \<not> clean e"
    and put: "packs_values (\<lambda>m d ix. put m d (pack ix)) width slack"
    and ok: "check \<or> all_symbols a input"
  shows "group_step a slack input width stop (\<lambda>source (destination, output). do {
         (ix, errors) \<leftarrow> indices input source;
         (if rejects errors then Some (Inl (stop source destination output))
          else do {
            output \<leftarrow> put output destination (pack ix);
            Some (Inr (destination + width div 4 * 3, output)) }) })"
    (is "group_step _ _ _ _ _ ?body")
  unfolding group_step_def
proof (intro allI impI)
  fix off d m assume fit: "off + width \<le> length input"
  let ?b = "take width (drop off input)"
  obtain ix er where ix: "indices input off = Some (ix, er)" "length er = width"
    "check \<and> \<not> clean er \<longleftrightarrow> \<not> all_symbols a ?b" "all_symbols a ?b \<Longrightarrow> ix = symbol_values a ?b"
    using indices_accepted [OF fit ok] by blast
  show "if all_symbols a ?b
    then \<exists>rest. length rest \<le> slack \<and> ?body off (d, m) = store m d (decoded_bytes a ?b @ rest)
      \<bind> (\<lambda>m. Some (Inr (d + width div 4 * 3, m)))
    else ?body off (d, m) = Some (Inl (stop off d m))"
  proof (cases "all_symbols a ?b")
    case True
    obtain rest where "length rest \<le> slack" "\<And>m d. put m d (pack ix) = store m d (octets ix @ rest)"
      using packs_valuesD [OF put, of ix] ix(4) [OF True] symbol_values_less [OF True] fit by auto
    then show ?thesis using True ix(3) by (auto simp: ix rej decoded_bytes_def)
  qed (use ix(3) in \<open>simp add: ix(1,2) rej\<close>)
qed

text \<open>The same block outside a loop.\<close>

lemma block_cases:
  assumes rej: "\<And>e. length e = width \<Longrightarrow> rejects e \<longleftrightarrow> check \<and> \<not> clean e"
    and put: "packs_values (\<lambda>m d ix. put m d (pack ix)) width slack"
    and ok: "check \<or> all_symbols a input" and "4 dvd width" "n + width \<le> length input"
    and "decoded a slack input n mem m" "length input div 4 * 3 + slack \<le> length mem"
  obtains (symbols) ix er m' where "indices input n = Some (ix, er)" "\<not> rejects er"
      "put m (n div 4 * 3) (pack ix) = Some m'" "decoded a slack input (n + width) mem m'"
      "n div 4 * 3 + width div 4 * 3 = (n + width) div 4 * 3"
    | (others) ix er where "indices input n = Some (ix, er)" "rejects er" "\<not> all_symbols a input"
proof -
  let ?b = "take width (drop n input)"
  obtain ix er where ix: "indices input n = Some (ix, er)" "length er = width"
    "check \<and> \<not> clean er \<longleftrightarrow> \<not> all_symbols a ?b" "all_symbols a ?b \<Longrightarrow> ix = symbol_values a ?b"
    using indices_accepted [OF assms(5) ok] by blast
  show thesis
  proof (cases "all_symbols a ?b")
    case True
    obtain rest where rest: "length rest \<le> slack" "\<And>m d. put m d (pack ix) = store m d (octets ix @ rest)"
      using packs_valuesD [OF put, of ix] ix(4) [OF True] symbol_values_less [OF True] assms(5) by auto
    have "octets ix = decoded_bytes a ?b" using ix(4) [OF True] by (simp add: decoded_bytes_def)
    then obtain m' where "put m (n div 4 * 3) (pack ix) = Some m'" "decoded a slack input (n + width) mem m'"
      using decoded_step [OF assms(6,4,5) True rest(1) assms(7)] rest(2) by auto
    moreover have "n div 4 * 3 + width div 4 * 3 = (n + width) div 4 * 3"
      using assms(4) decodedD(1) [OF assms(6)] by (auto elim!: dvdE)
    ultimately show thesis using symbols [OF ix(1)] ix(2,3) rej True by simp
  next
    case False
    then show thesis using others [OF ix(1)] ix(2,3) rej not_all_symbols_block [OF False] by simp
  qed
qed

end

end
