(* ===== verification/Base64_Decode_Sse.thy ===== *)
theory Base64_Decode_Sse
  imports Decode_Kernels
begin

text \<open>
  The tables of the vector decoders (\<open>src/base64/decode/tables.rs\<close>), the decoders and store
  policies that the x86 kernels are generic in (\<open>x86_contracts.rs\<close>, the 16-byte part), and the
  SSSE3 and SSE4.1 kernels (\<open>ssse3.rs\<close>, \<open>sse41.rs\<close>), which are two instances of one macro
  (\<open>sse_kernels.rs\<close>).
\<close>

section \<open>Tables\<close>

definition STANDARD_OFFSETS :: bytes where
  "STANDARD_OFFSETS = [0, 16, 19, 4, 191, 191, 185, 185, 0, 0, 0, 0, 0, 0, 0, 0]"

definition URLSAFE_OFFSETS :: bytes where
  "URLSAFE_OFFSETS = [0, 0, 17, 4, 191, 191, 185, 185, 0, 0, 0, 0, 0, 0, 0, 0]"

definition MIXED_SHIFTS :: bytes where
  "MIXED_SHIFTS = [0, 0, 0, 0, 0, 0, 0, 0, 0, 0, 0, 0, 0, 8, 0, 11]"

definition MIXED_HASH_OFFSETS :: bytes where
  "MIXED_HASH_OFFSETS = [224, 185, 19, 4, 191, 191, 185, 185, 0, 0, 17, 0, 191, 16, 185, 191]"

definition STANDARD_HIGH_CLASSES :: bytes where
  "STANDARD_HIGH_CLASSES = [0x20, 0x20, 0x01, 0x02, 0x04, 0x08, 0x04, 0x08,
     0x20, 0x20, 0x20, 0x20, 0x20, 0x20, 0x20, 0x20]"

definition STANDARD_LOW_CLASSES :: bytes where
  "STANDARD_LOW_CLASSES = [0x25, 0x21, 0x21, 0x21, 0x21, 0x21, 0x21, 0x21,
     0x21, 0x21, 0x23, 0x2a, 0x2b, 0x2b, 0x2b, 0x2a]"

definition URLSAFE_HIGH_CLASSES :: bytes where
  "URLSAFE_HIGH_CLASSES = [0x20, 0x20, 0x01, 0x02, 0x04, 0x08, 0x04, 0x10,
     0x20, 0x20, 0x20, 0x20, 0x20, 0x20, 0x20, 0x20]"

definition URLSAFE_LOW_CLASSES :: bytes where
  "URLSAFE_LOW_CLASSES = [0x25, 0x21, 0x21, 0x21, 0x21, 0x21, 0x21, 0x21,
     0x21, 0x21, 0x23, 0x3b, 0x3b, 0x3a, 0x3b, 0x33]"

definition MIXED_LOW_CLASSES :: bytes where
  "MIXED_LOW_CLASSES = [0x25, 0x21, 0x21, 0x21, 0x21, 0x21, 0x21, 0x21,
     0x21, 0x21, 0x23, 0x3a, 0x3b, 0x3a, 0x3b, 0x32]"

definition COMPLEMENTED_LOW_CLASSES :: "bytes list" where
  "COMPLEMENTED_LOW_CLASSES =
     map (map NOT) [STANDARD_LOW_CLASSES, URLSAFE_LOW_CLASSES, MIXED_LOW_CLASSES]"

definition STANDARD_LOW_CLASSES_COMPLEMENT :: bytes where
  "STANDARD_LOW_CLASSES_COMPLEMENT = COMPLEMENTED_LOW_CLASSES ! 0"

definition URLSAFE_LOW_CLASSES_COMPLEMENT :: bytes where
  "URLSAFE_LOW_CLASSES_COMPLEMENT = COMPLEMENTED_LOW_CLASSES ! 1"

definition MIXED_LOW_CLASSES_COMPLEMENT :: bytes where
  "MIXED_LOW_CLASSES_COMPLEMENT = COMPLEMENTED_LOW_CLASSES ! 2"

definition PACK_SHUFFLE :: bytes where
  "PACK_SHUFFLE = [2, 1, 0, 6, 5, 4, 10, 9, 8, 14, 13, 12, 0xff, 0xff, 0xff, 0xff]"

section \<open>Sixteen characters\<close>

definition ssse3_high_nibbles :: "bytes \<Rightarrow> bytes" where
  "ssse3_high_nibbles value = and_si (srli_epi16 4 value) (set1 16 (0x0f :: u8))"

definition ssse3_classify_ascii :: "bytes \<Rightarrow> bytes \<Rightarrow> bytes \<Rightarrow> bytes \<times> bytes" where
  "ssse3_classify_ascii value high_classes low_classes =
     (let high_nibbles = ssse3_high_nibbles value;
          low_nibbles = and_si value (set1 16 (0x0f :: u8));
          high_matches = shuffle_epi8 high_classes high_nibbles;
          low_matches = shuffle_epi8 low_classes low_nibbles
      in (high_nibbles, and_si high_matches low_matches))"

definition ssse3_translate_standard :: "bytes \<Rightarrow> bytes \<Rightarrow> bytes" where
  "ssse3_translate_standard value high_nibbles =
     (let slash = cmpeq_epi8 value (set1 16 (ascii CHR ''/''));
          offset_indices = add_epi8 high_nibbles slash
      in add_epi8 value (shuffle_epi8 STANDARD_OFFSETS offset_indices))"

definition decode_indices_16_standard :: "bytes \<Rightarrow> nat \<Rightarrow> (bytes \<times> bytes) option" where
  "decode_indices_16_standard input source =
     do {
       value \<leftarrow> slice input source 16;
       let (high_nibbles, errors) =
         ssse3_classify_ascii value STANDARD_HIGH_CLASSES STANDARD_LOW_CLASSES;
       Some (ssse3_translate_standard value high_nibbles, errors)
     }"

definition decode_indices_16_standard_validated :: "bytes \<Rightarrow> nat \<Rightarrow> (bytes \<times> bytes) option" where
  "decode_indices_16_standard_validated input source =
     do {
       value \<leftarrow> slice input source 16;
       let high_nibbles = ssse3_high_nibbles value;
       Some (ssse3_translate_standard value high_nibbles, replicate 16 0)
     }"

definition decode_indices_16_urlsafe :: "bytes \<Rightarrow> nat \<Rightarrow> (bytes \<times> bytes) option" where
  "decode_indices_16_urlsafe input source =
     do {
       value \<leftarrow> slice input source 16;
       let (high_nibbles, errors) =
         ssse3_classify_ascii value URLSAFE_HIGH_CLASSES URLSAFE_LOW_CLASSES;
       let indices = add_epi8 value (shuffle_epi8 URLSAFE_OFFSETS high_nibbles);
       let underscore = cmpeq_epi8 value (set1 16 (ascii CHR ''_''));
       let correction = and_si underscore (set1 16 (33 :: u8));
       Some (add_epi8 indices correction, errors)
     }"

definition decode_indices_16_mixed :: "bytes \<Rightarrow> nat \<Rightarrow> (bytes \<times> bytes) option" where
  "decode_indices_16_mixed input source =
     do {
       value \<leftarrow> slice input source 16;
       let (high_nibbles, errors) =
         ssse3_classify_ascii value URLSAFE_HIGH_CLASSES MIXED_LOW_CLASSES;
       let slash = cmpeq_epi8 value (set1 16 (ascii CHR ''/''));
       let offset_indices = add_epi8 high_nibbles slash;
       let indices = add_epi8 value (shuffle_epi8 STANDARD_OFFSETS offset_indices);
       let dash = cmpeq_epi8 value (set1 16 (ascii CHR ''-''));
       let underscore = cmpeq_epi8 value (set1 16 (ascii CHR ''_''));
       let corrections = or_si (and_si dash (set1 16 (- 2 :: u8))) (and_si underscore (set1 16 (33 :: u8)));
       Some (add_epi8 indices corrections, errors)
     }"

definition ssse3_has_errors :: "bytes \<Rightarrow> bool" where
  "ssse3_has_errors errors = (movemask_epi8 (cmpeq_epi8 errors (replicate 16 0)) \<noteq> 0xffff)"

definition sse41_has_errors :: "bytes \<Rightarrow> bool" where
  "sse41_has_errors errors = (\<not> testz_si errors errors)"

definition pack_16_indices :: "bytes \<Rightarrow> bytes" where
  "pack_16_indices indices =
     (let merged = maddubs_epi16 indices (set1 4 (0x01400140 :: u32));
          packed = madd_epi16 merged (set1 4 (0x00011000 :: u32))
      in shuffle_epi8 packed PACK_SHUFFLE)"

text \<open>Eight bytes, then four; or the whole register.\<close>

definition store_12_exact :: "bytes \<Rightarrow> nat \<Rightarrow> bytes \<Rightarrow> bytes option" where
  "store_12_exact output destination value =
     do {
       output \<leftarrow> store output destination (take 8 value);
       store output (destination + 8) (take 4 (drop 8 value))
     }"

definition store_12_padded :: "bytes \<Rightarrow> nat \<Rightarrow> bytes \<Rightarrow> bytes option" where
  "store_12_padded output destination value = store output destination value"

section \<open>Decoders and store policies\<close>

datatype decoder = StandardDecoder | ValidatedStandardDecoder | UrlSafeDecoder | MixedDecoder

datatype store_policy = ExactStore | PaddedStore

fun check_input :: "decoder \<Rightarrow> bool" where
  "check_input ValidatedStandardDecoder = False"
| "check_input _ = True"

definition rejects_input :: "decoder \<Rightarrow> bool \<Rightarrow> bool" where
  "rejects_input A has_errors = (check_input A \<and> has_errors)"

fun decoder_table :: "decoder \<Rightarrow> bytes" where
  "decoder_table StandardDecoder = STANDARD_DECODE"
| "decoder_table ValidatedStandardDecoder = STANDARD_DECODE"
| "decoder_table UrlSafeDecoder = URLSAFE_DECODE"
| "decoder_table MixedDecoder = MIXED_DECODE"

fun decode_indices_16 :: "decoder \<Rightarrow> bytes \<Rightarrow> nat \<Rightarrow> (bytes \<times> bytes) option" where
  "decode_indices_16 StandardDecoder = decode_indices_16_standard"
| "decode_indices_16 ValidatedStandardDecoder = decode_indices_16_standard_validated"
| "decode_indices_16 UrlSafeDecoder = decode_indices_16_urlsafe"
| "decode_indices_16 MixedDecoder = decode_indices_16_mixed"

fun store_12 :: "store_policy \<Rightarrow> bytes \<Rightarrow> nat \<Rightarrow> bytes \<Rightarrow> bytes option" where
  "store_12 ExactStore = store_12_exact"
| "store_12 PaddedStore = store_12_padded"

section \<open>The kernels\<close>

text \<open>The three functions of the macro \<open>decode_kernels\<close>, which is given the test of the errors.\<close>

definition sse_decode ::
  "(bytes \<Rightarrow> bool) \<Rightarrow> decoder \<Rightarrow> store_policy \<Rightarrow> bytes \<Rightarrow> bytes
    \<Rightarrow> (base64_error \<times> bytes + nat \<times> nat \<times> bytes) option" where
  "sse_decode has_errors A S input output =
     and_then (try_while (length input) 64 64 (\<lambda>source (destination, output). do {
         (first, first_errors) \<leftarrow> decode_indices_16 A input source;
         (second, second_errors) \<leftarrow> decode_indices_16 A input (source + 16);
         (third, third_errors) \<leftarrow> decode_indices_16 A input (source + 32);
         (fourth, fourth_errors) \<leftarrow> decode_indices_16 A input (source + 48);
         let errors = or_si (or_si first_errors second_errors) (or_si third_errors fourth_errors);
         (if rejects_input A (has_errors errors) then Some (Inl (InvalidInput, output))
          else do {
            output \<leftarrow> store_12_padded output destination (pack_16_indices first);
            output \<leftarrow> store_12_padded output (destination + 12) (pack_16_indices second);
            output \<leftarrow> store_12_padded output (destination + 24) (pack_16_indices third);
            output \<leftarrow> store_12 S output (destination + 36) (pack_16_indices fourth);
            Some (Inr (destination + 48, output)) }) }) 0 (0, output)) (\<lambda>(source, state).
     and_then (try_while (length input) 16 16 (\<lambda>source (destination, output). do {
         (indices, errors) \<leftarrow> decode_indices_16 A input source;
         (if rejects_input A (has_errors errors) then Some (Inl (InvalidInput, output))
          else do {
            output \<leftarrow> store_12 S output destination (pack_16_indices indices);
            Some (Inr (destination + 12, output)) }) }) source state) (\<lambda>(source, destination, output).
     Some (Inr (source, destination, output))))"

definition sse_validate :: "(bytes \<Rightarrow> bool) \<Rightarrow> decoder \<Rightarrow> bytes \<Rightarrow> (base64_error + nat) option" where
  "sse_validate has_errors A input =
     and_then (try_while (length input) 64 64 (\<lambda>source _. do {
         (_, first) \<leftarrow> decode_indices_16 A input source;
         (_, second) \<leftarrow> decode_indices_16 A input (source + 16);
         (_, third) \<leftarrow> decode_indices_16 A input (source + 32);
         (_, fourth) \<leftarrow> decode_indices_16 A input (source + 48);
         let errors = or_si (or_si first second) (or_si third fourth);
         (if has_errors errors then Some (Inl InvalidInput) else Some (Inr ())) }) 0 ()) (\<lambda>(source, _).
     and_then (try_while (length input) 16 16 (\<lambda>source _. do {
         (_, errors) \<leftarrow> decode_indices_16 A input source;
         (if has_errors errors then Some (Inl InvalidInput) else Some (Inr ())) }) source ()) (\<lambda>(source, _).
     Some (Inr source)))"

definition sse_decode_prefix ::
  "(bytes \<Rightarrow> bool) \<Rightarrow> decoder \<Rightarrow> bytes \<Rightarrow> bytes \<Rightarrow> (nat \<times> nat \<times> bytes) option" where
  "sse_decode_prefix has_errors A input output =
     after_break (try_while (length input) 64 64 (\<lambda>source (destination, output). do {
         (first, first_errors) \<leftarrow> decode_indices_16 A input source;
         (second, second_errors) \<leftarrow> decode_indices_16 A input (source + 16);
         (third, third_errors) \<leftarrow> decode_indices_16 A input (source + 32);
         (fourth, fourth_errors) \<leftarrow> decode_indices_16 A input (source + 48);
         let errors = or_si (or_si first_errors second_errors) (or_si third_errors fourth_errors);
         (if has_errors errors then Some (Inl (source, destination, output))
          else do {
            output \<leftarrow> store_12_padded output destination (pack_16_indices first);
            output \<leftarrow> store_12_padded output (destination + 12) (pack_16_indices second);
            output \<leftarrow> store_12_padded output (destination + 24) (pack_16_indices third);
            output \<leftarrow> store_12_exact output (destination + 36) (pack_16_indices fourth);
            Some (Inr (destination + 48, output)) }) }) 0 (0, output)) (\<lambda>source state.
     after_break (try_while (length input) 16 16 (\<lambda>source (destination, output). do {
         (indices, errors) \<leftarrow> decode_indices_16 A input source;
         (if has_errors errors then Some (Inl (source, destination, output))
          else do {
            output \<leftarrow> store_12_exact output destination (pack_16_indices indices);
            Some (Inr (destination + 12, output)) }) }) source state) (\<lambda>source (destination, output).
     Some (source, destination, output)))"

definition ssse3_decode ::
  "decoder \<Rightarrow> store_policy \<Rightarrow> bytes \<Rightarrow> bytes \<Rightarrow> (base64_error \<times> bytes + nat \<times> nat \<times> bytes) option" where
  "ssse3_decode = sse_decode ssse3_has_errors"

definition ssse3_validate :: "decoder \<Rightarrow> bytes \<Rightarrow> (base64_error + nat) option" where
  "ssse3_validate = sse_validate ssse3_has_errors"

definition ssse3_decode_prefix :: "decoder \<Rightarrow> bytes \<Rightarrow> bytes \<Rightarrow> (nat \<times> nat \<times> bytes) option" where
  "ssse3_decode_prefix = sse_decode_prefix ssse3_has_errors"

definition sse41_decode ::
  "decoder \<Rightarrow> store_policy \<Rightarrow> bytes \<Rightarrow> bytes \<Rightarrow> (base64_error \<times> bytes + nat \<times> nat \<times> bytes) option" where
  "sse41_decode = sse_decode sse41_has_errors"

definition sse41_validate :: "decoder \<Rightarrow> bytes \<Rightarrow> (base64_error + nat) option" where
  "sse41_validate = sse_validate sse41_has_errors"

definition sse41_decode_prefix :: "decoder \<Rightarrow> bytes \<Rightarrow> bytes \<Rightarrow> (nat \<times> nat \<times> bytes) option" where
  "sse41_decode_prefix = sse_decode_prefix sse41_has_errors"

section \<open>One character\<close>

definition hi :: "u8 \<Rightarrow> u8" where
  "hi b = drop_bit 4 b"

definition look :: "bytes \<Rightarrow> u8 \<Rightarrow> u8" where
  "look t i = (if bit i 7 then 0 else t ! unat (i AND 15))"

definition masked_byte :: "bool \<Rightarrow> u8 \<Rightarrow> u8" where
  "masked_byte c v = (if c then v else 0)"

fun index_16 :: "decoder \<Rightarrow> u8 \<Rightarrow> u8" where
  "index_16 UrlSafeDecoder b = b + look URLSAFE_OFFSETS (hi b) + masked_byte (b = 95) 33"
| "index_16 MixedDecoder b =
     b + look STANDARD_OFFSETS (hi b + masked_byte (b = 47) (- 1)) + (masked_byte (b = 45) (- 2) OR masked_byte (b = 95) 33)"
| "index_16 _ b = b + look STANDARD_OFFSETS (hi b + masked_byte (b = 47) (- 1))"

fun error_16 :: "decoder \<Rightarrow> u8 \<Rightarrow> u8" where
  "error_16 StandardDecoder b = look STANDARD_HIGH_CLASSES (hi b) AND look STANDARD_LOW_CLASSES (b AND 15)"
| "error_16 UrlSafeDecoder b = look URLSAFE_HIGH_CLASSES (hi b) AND look URLSAFE_LOW_CLASSES (b AND 15)"
| "error_16 MixedDecoder b = look URLSAFE_HIGH_CLASSES (hi b) AND look MIXED_LOW_CLASSES (b AND 15)"
| "error_16 ValidatedStandardDecoder b = 0"

fun decoder_alphabet :: "decoder \<Rightarrow> decode_alphabet" where
  "decoder_alphabet UrlSafeDecoder = UrlSafe"
| "decoder_alphabet MixedDecoder = Mixed"
| "decoder_alphabet _ = Standard"

lemma decoder_table_of: "decoder_table A = table_of (decoder_alphabet A)"
  by (cases A) simp_all

text \<open>Every byte: the classes share a bit exactly off the alphabet, and the offset leads to the value.\<close>

lemma characters_16:
  "entries_from (\<lambda>b v. (error_16 StandardDecoder b = 0 \<longleftrightarrow> v \<noteq> 255) \<and> (v = 255 \<or> index_16 StandardDecoder b = v))
     0 STANDARD_DECODE"
  "entries_from (\<lambda>b v. (error_16 UrlSafeDecoder b = 0 \<longleftrightarrow> v \<noteq> 255) \<and> (v = 255 \<or> index_16 UrlSafeDecoder b = v))
     0 URLSAFE_DECODE"
  "entries_from (\<lambda>b v. (error_16 MixedDecoder b = 0 \<longleftrightarrow> v \<noteq> 255) \<and> (v = 255 \<or> index_16 MixedDecoder b = v))
     0 MIXED_DECODE"
  by code_simp+

lemma character_16:
  "check_input A \<Longrightarrow> error_16 A b = 0 \<longleftrightarrow> symbol_value (decoder_alphabet A) b \<noteq> None"
  "symbol_value (decoder_alphabet A) b \<noteq> None \<Longrightarrow> index_16 A b = table_of (decoder_alphabet A) ! unat b"
  using characters_16 [THEN entries_of_table, of b] invalid_iff_no_symbol [of "decoder_alphabet A" b]
  by (cases A; auto simp: STANDARD_DECODE_def URLSAFE_DECODE_def MIXED_DECODE_def INVALID_VALUE_def)+

section \<open>Sixteen characters at once\<close>

text \<open>The instructions byte by byte.\<close>

lemma high_nibbles_pairs:
  "even (length v) \<Longrightarrow> and_si (srli_epi16 4 v) (replicate (length v) 15) = map hi v"
proof (induction v rule: induct_list012)
  case (3 x y zs)
  have "srli_epi16 4 (x # y # zs) = srli_epi16 4 [x, y] @ srli_epi16 4 zs"
    using srli_epi16_append [of "[x, y]" 4 zs] by simp
  moreover have "and_si (srli_epi16 4 [x, y]) [15, 15] = [hi x, hi y]"
    by (simp add: srli_epi16_def lanewise1_def lanes16_pair unlanes_def to_le16 and_si_def hi_def
        byte_eq_bits bit_simps byte_high_bits)
  moreover have "length (srli_epi16 4 [x, y]) = 2" by (simp add: lane_simps)
  then have "and_si (srli_epi16 4 [x, y] @ srli_epi16 4 zs) ([15, 15] @ replicate (length zs) 15)
      = and_si (srli_epi16 4 [x, y]) [15, 15] @ and_si (srli_epi16 4 zs) (replicate (length zs) 15)"
    by (intro and_si_append) simp
  ultimately show ?case using 3 by simp
qed (simp_all add: and_si_def)

lemma high_nibbles_16: "length v = 16 \<Longrightarrow> ssse3_high_nibbles v = map hi v"
  using high_nibbles_pairs [of v] by (simp add: ssse3_high_nibbles_def set1_byte)

lemma shuffle_look: "length t = 16 \<Longrightarrow> length i = 16 \<Longrightarrow> shuffle_epi8 t i = map (look t) i"
  by (simp add: shuffle_epi8_half look_def)

lemma length_tables [simp]:
  "length STANDARD_OFFSETS = 16" "length URLSAFE_OFFSETS = 16"
  "length STANDARD_HIGH_CLASSES = 16" "length STANDARD_LOW_CLASSES = 16"
  "length URLSAFE_HIGH_CLASSES = 16" "length URLSAFE_LOW_CLASSES = 16"
  "length MIXED_LOW_CLASSES = 16" "length PACK_SHUFFLE = 16"
  by (simp_all add: STANDARD_OFFSETS_def URLSAFE_OFFSETS_def STANDARD_HIGH_CLASSES_def
      STANDARD_LOW_CLASSES_def URLSAFE_HIGH_CLASSES_def URLSAFE_LOW_CLASSES_def MIXED_LOW_CLASSES_def
      PACK_SHUFFLE_def)

lemmas bytewise_simps = and_si_def or_si_def add_epi8_def cmpeq_epi8_def set1_byte

lemma indices_16_eq:
  assumes "off + 16 \<le> length input"
  defines "v \<equiv> take 16 (drop off input)"
  shows "decode_indices_16 A input off = Some (map (index_16 A) v, map (error_16 A) v)"
proof -
  have v: "slice input off 16 = Some v" "length v = 16" using assms by (simp_all add: slice_simps)
  have low: "length (add_epi8 (map hi v) (cmpeq_epi8 v (replicate 16 47))) = 16"
    using v(2) by (simp add: bytewise_simps)
  show ?thesis
    by (cases A; simp add: decode_indices_16_standard_def decode_indices_16_standard_validated_def
        decode_indices_16_urlsafe_def decode_indices_16_mixed_def ssse3_classify_ascii_def
        ssse3_translate_standard_def v high_nibbles_16 shuffle_look low set1_byte Let_def; intro conjI nth_equalityI;
        simp add: v bytewise_simps masked_byte_def)
qed

interpretation indices_16: indices_block "decode_indices_16 A" 16 "decoder_alphabet A" "check_input A" for A
proof (rule indices_block_pointwise [OF indices_16_eq])
  show "error_16 A b = 0" if "\<not> check_input A" for b using that by (cases A) simp_all
qed (simp_all add: character_16)

section \<open>Packing sixteen values\<close>

lemma shuffle_spread:
  assumes "length ix = 16"
  shows "shuffle_epi8 (spread_octets ix) PACK_SHUFFLE = octets ix @ replicate 4 0"
proof -
  have nat16: "unat ((- 1 :: u8) AND 15) = 15" by code_simp
  show ?thesis
    using assms unfolding list16 PACK_SHUFFLE_def
    by (elim exE) (simp add: shuffle_epi8_half replicate_fill bit_simps)
qed

lemma pack_16:
  assumes "length ix = 16" "list_all (\<lambda>v. v < 64) ix"
  shows "pack_16_indices ix = octets ix @ replicate 4 0"
proof -
  have "madd_epi16 (maddubs_epi16 ix (set1 4 (0x01400140 :: u32))) (set1 4 (0x00011000 :: u32)) = spread_octets ix"
    using packed_groups [of ix 4] assms by (simp add: packed_def)
  then show ?thesis by (simp add: pack_16_indices_def shuffle_spread assms(1))
qed

lemma length_octets_16: "length ix = 16 \<Longrightarrow> length (octets ix) = 12"
  by (simp add: length_octets)

text \<open>What each policy leaves behind the twelve bytes.\<close>

fun slack_of :: "store_policy \<Rightarrow> nat" where
  "slack_of ExactStore = 0"
| "slack_of PaddedStore = 4"

lemma store_12_exact_eq: "length value = 16 \<Longrightarrow> store_12_exact m d value = store m d (take 12 value)"
  using store_store [of "take 8 value" 8 m d "take 4 (drop 8 value)"] take_add [of 8 4 "value"]
  by (simp add: store_12_exact_def)

lemma packs_12:
  "packs_values (\<lambda>m d ix. store_12 S m d (pack_16_indices ix)) 16 (slack_of S)"
  unfolding packs_values_def
  by (cases S) (auto simp: store_12_exact_eq store_12_padded_def pack_16 length_octets_16
      intro: exI [of _ "replicate 4 0"])

lemma packs_12_padded: "packs_values (\<lambda>m d ix. store_12_padded m d (pack_16_indices ix)) 16 4"
  using packs_12 [of PaddedStore] by simp

lemma packs_12_exact: "packs_values (\<lambda>m d ix. store_12_exact m d (pack_16_indices ix)) 16 0"
  using packs_12 [of ExactStore] by simp

section \<open>The kernels keep their contracts\<close>

text \<open>
  Both loops of a decoding kernel, with its test of the errors, its way of stopping and its last
  store as parameters.
\<close>

lemma times_16: "4 * 16 = (64 :: nat)" "2 * 16 = (32 :: nat)" "3 * 16 = (48 :: nat)"
  by simp_all

lemma group_64:
  assumes rej: "\<And>e. length e = 16 \<Longrightarrow> rejects e \<longleftrightarrow> check_input A \<and> \<not> clean e"
    and put: "packs_values (\<lambda>m d ix. put m d (pack_16_indices ix)) 16 slack"
    and ok: "check_input A \<or> all_symbols (decoder_alphabet A) input"
  shows "group_step (decoder_alphabet A) slack input 64 stop (\<lambda>source (destination, output). do {
         (first, first_errors) \<leftarrow> decode_indices_16 A input source;
         (second, second_errors) \<leftarrow> decode_indices_16 A input (source + 16);
         (third, third_errors) \<leftarrow> decode_indices_16 A input (source + 32);
         (fourth, fourth_errors) \<leftarrow> decode_indices_16 A input (source + 48);
         let errors = or_si (or_si first_errors second_errors) (or_si third_errors fourth_errors);
         (if rejects errors then Some (Inl (stop source destination output))
          else do {
            output \<leftarrow> store_12_padded output destination (pack_16_indices first);
            output \<leftarrow> store_12_padded output (destination + 12) (pack_16_indices second);
            output \<leftarrow> store_12_padded output (destination + 24) (pack_16_indices third);
            output \<leftarrow> put output (destination + 36) (pack_16_indices fourth);
            Some (Inr (destination + 48, output)) }) })"
    (is "group_step _ _ _ _ _ ?body")
  unfolding group_step_def
proof (intro allI impI)
  fix off d m assume fit: "off + 64 \<le> length input"
  let ?a = "decoder_alphabet A"
  let ?b = "take 64 (drop off input)"
  obtain i1 e1 i2 e2 i3 e3 i4 e4 where
    ix: "decode_indices_16 A input off = Some (i1, e1)" "decode_indices_16 A input (off + 16) = Some (i2, e2)"
      "decode_indices_16 A input (off + 32) = Some (i3, e3)" "decode_indices_16 A input (off + 48) = Some (i4, e4)"
    and len: "length e1 = 16" "length e2 = 16" "length e3 = 16" "length e4 = 16"
    and chk: "check_input A \<and> \<not> (clean e1 \<and> clean e2 \<and> clean e3 \<and> clean e4) \<longleftrightarrow> \<not> all_symbols ?a ?b"
    and ok: "all_symbols ?a ?b \<Longrightarrow> symbol_values ?a ?b = i1 @ i2 @ i3 @ i4
      \<and> list_all (\<lambda>i. length i = 16 \<and> list_all (\<lambda>v. v < 64) i) [i1, i2, i3, i4]"
    using indices_16.four_accepted [of off input A, unfolded times_16] fit ok by blast
  have rejects: "rejects (or_si (or_si e1 e2) (or_si e3 e4)) \<longleftrightarrow> \<not> all_symbols ?a ?b"
    using chk by (simp add: rej len clean_or length_or_si)
  show "if all_symbols ?a ?b
    then \<exists>rest. length rest \<le> slack \<and> ?body off (d, m) = store m d (decoded_bytes ?a ?b @ rest)
      \<bind> (\<lambda>m. Some (Inr (d + 64 div 4 * 3, m)))
    else ?body off (d, m) = Some (Inl (stop off d m))"
  proof (cases "all_symbols ?a ?b")
    case True
    note p = packs_values_mono [OF packs_12_padded, of 12, simplified]
    obtain rest where rest: "length rest \<le> slack"
      "\<And>m d. store_12_padded m d (pack_16_indices i1) \<bind> (\<lambda>m. store_12_padded m (d + 12) (pack_16_indices i2)
        \<bind> (\<lambda>m. store_12_padded m (d + 2 * 12) (pack_16_indices i3) \<bind> (\<lambda>m. put m (d + 3 * 12) (pack_16_indices i4))))
      = store m d (octets (i1 @ i2 @ i3 @ i4) @ rest)"
      using four_stores [OF p p p put, of i1 i2 i3 i4] ok [OF True] by auto
    have "decoded_bytes ?a ?b = octets (i1 @ i2 @ i3 @ i4)"
      using ok [OF True] by (simp add: decoded_bytes_def)
    then have "?body off (d, m) = store m d (decoded_bytes ?a ?b @ rest) \<bind> (\<lambda>m. Some (Inr (d + 64 div 4 * 3, m)))"
      using True rejects by (simp add: ix Let_def flip: rest(2))
    with True rest(1) show ?thesis by auto
  qed (simp add: ix rejects)
qed

lemma quarters_16: "16 div 4 * 3 = (12 :: nat)"
  by simp

lemma group_16:
  assumes rej: "\<And>e. length e = 16 \<Longrightarrow> rejects e \<longleftrightarrow> check_input A \<and> \<not> clean e"
    and put: "packs_values (\<lambda>m d ix. put m d (pack_16_indices ix)) 16 slack"
    and ok: "check_input A \<or> all_symbols (decoder_alphabet A) input"
  shows "group_step (decoder_alphabet A) slack input 16 stop (\<lambda>source (destination, output). do {
         (indices, errors) \<leftarrow> decode_indices_16 A input source;
         (if rejects errors then Some (Inl (stop source destination output))
          else do {
            output \<leftarrow> put output destination (pack_16_indices indices);
            Some (Inr (destination + 12, output)) }) })"
  by (rule indices_16.single_step [where rejects = rejects and pack = pack_16_indices, OF rej put ok, unfolded quarters_16])

lemma sse_decode_outcome:
  assumes has: "\<And>e. length e = 16 \<Longrightarrow> has_errors e \<longleftrightarrow> \<not> clean e"
    and ok: "check_input A \<or> all_symbols (decoder_alphabet A) input"
    and fit: "length input div 4 * 3 + slack_of S \<le> length mem"
  shows "\<exists>r. sse_decode has_errors A S input mem = Some r
    \<and> decode_outcome (decoder_alphabet A) (slack_of S) v input mem r"
proof -
  have rej: "rejects_input A (has_errors e) \<longleftrightarrow> check_input A \<and> \<not> clean e" if "length e = 16" for e
    using has [OF that] by (simp add: rejects_input_def)
  note loops = reached_loop [OF group_64 [OF rej packs_12 ok] _ _ _ fit]
    reached_loop [OF group_16 [OF rej packs_12 ok] _ _ _ fit]
  have "\<exists>r. sse_decode has_errors A S input mem = Some r
    \<and> reached (decoder_alphabet A) (slack_of S) input mem (\<lambda>n d m. (InvalidInput, m)) r"
    unfolding sse_decode_def
  proof (rule reached_and_then, goal_cases)
    case 1
    show ?case using loops(1) [of 0 mem] by (simp add: decoded_start)
  next
    case (2 n m)
    then show ?case
      unfolding prod.case by (intro reached_and_then) (use loops(2) [of n m] in \<open>simp_all add: reached_def\<close>)
  qed
  then show ?thesis using reached_outcome by blast
qed

text \<open>The validating kernel, with a decoder that checks.\<close>

lemma has_errors_iff: "length e = 16 \<Longrightarrow> ssse3_has_errors e \<longleftrightarrow> \<not> clean e"
  "length e = 16 \<Longrightarrow> sse41_has_errors e \<longleftrightarrow> \<not> clean e"
  by (simp_all add: ssse3_has_errors_def sse41_has_errors_def movemask_full testz_self)

lemma sse_validate_outcome:
  assumes has: "\<And>e. length e = 16 \<Longrightarrow> has_errors e \<longleftrightarrow> \<not> clean e" and "check_input A"
  shows "\<exists>r. sse_validate has_errors A input = Some r \<and> validated (decoder_alphabet A) input r"
proof -
  let ?a = "decoder_alphabet A"
  have 64: "(do {
         (_, first) \<leftarrow> decode_indices_16 A input off;
         (_, second) \<leftarrow> decode_indices_16 A input (off + 16);
         (_, third) \<leftarrow> decode_indices_16 A input (off + 32);
         (_, fourth) \<leftarrow> decode_indices_16 A input (off + 48);
         let errors = or_si (or_si first second) (or_si third fourth);
         (if has_errors errors then Some (Inl InvalidInput) else Some (Inr ())) })
    = Some (if all_symbols ?a (take 64 (drop off input)) then Inr () else Inl InvalidInput)"
    if fit: "off + 64 \<le> length input" for off
  proof -
    obtain i1 e1 i2 e2 i3 e3 i4 e4 where
      ix: "decode_indices_16 A input off = Some (i1, e1)" "decode_indices_16 A input (off + 16) = Some (i2, e2)"
        "decode_indices_16 A input (off + 32) = Some (i3, e3)" "decode_indices_16 A input (off + 48) = Some (i4, e4)"
      and len: "length e1 = 16" "length e2 = 16" "length e3 = 16" "length e4 = 16"
      and chk: "check_input A \<and> \<not> (clean e1 \<and> clean e2 \<and> clean e3 \<and> clean e4)
        \<longleftrightarrow> \<not> all_symbols ?a (take 64 (drop off input))"
      and "all_symbols ?a (take 64 (drop off input)) \<Longrightarrow> symbol_values ?a (take 64 (drop off input)) = i1 @ i2 @ i3 @ i4
        \<and> list_all (\<lambda>i. length i = 16 \<and> list_all (\<lambda>v. v < 64) i) [i1, i2, i3, i4]"
      using indices_16.four_accepted [of off input A, unfolded times_16, OF fit disjI1 [OF assms(2)]] by blast
    have "has_errors (or_si (or_si e1 e2) (or_si e3 e4)) \<longleftrightarrow> \<not> all_symbols ?a (take 64 (drop off input))"
      using chk assms(2) by (simp add: has len clean_or length_or_si)
    then show ?thesis by (simp add: ix)
  qed
  have 16: "(do {
         (_, errors) \<leftarrow> decode_indices_16 A input off;
         (if has_errors errors then Some (Inl InvalidInput) else Some (Inr ())) })
    = Some (if all_symbols ?a (take 16 (drop off input)) then Inr () else Inl InvalidInput)"
    if fit: "off + 16 \<le> length input" for off
  proof -
    obtain ix er where "decode_indices_16 A input off = Some (ix, er)" "length er = 16"
      "check_input A \<and> \<not> clean er \<longleftrightarrow> \<not> all_symbols ?a (take 16 (drop off input))"
      using indices_16.indices_accepted [of off input A, OF fit disjI1 [OF assms(2)]] by blast
    then show ?thesis using assms(2) by (simp add: has)
  qed
  show ?thesis
    unfolding sse_validate_def
  proof (rule validate_loop, goal_cases)
    case (1 off)
    then show ?case using 64 by simp
  next
    case (5 n)
    then show ?case
      unfolding prod.case by (intro validate_loop) (use 16 in \<open>simp_all add: validated_def\<close>)
  qed simp_all
qed

text \<open>The prefix decoder.\<close>

lemma sse_decode_prefix_decoded:
  assumes has: "\<And>e. length e = 16 \<Longrightarrow> has_errors e \<longleftrightarrow> \<not> clean e" and "check_input A"
    and fit: "length input div 4 * 3 \<le> length mem"
  shows "prefix_decoded (decoder_alphabet A) input mem (sse_decode_prefix has_errors A input mem)"
proof -
  have rej: "has_errors e \<longleftrightarrow> check_input A \<and> \<not> clean e" if "length e = 16" for e
    using has [OF that] assms(2) by simp
  have fit: "length input div 4 * 3 + 0 \<le> length mem" using fit by simp
  note ok = disjI1 [OF assms(2)]
  note loops = reached_loop [OF group_64 [OF rej packs_12_exact ok] _ _ _ fit, where stop = "\<lambda>n d m. (n, d, m)"]
    reached_loop [OF group_16 [OF rej packs_12_exact ok] _ _ _ fit, where stop = "\<lambda>n d m. (n, d, m)"]
  show ?thesis
    unfolding sse_decode_prefix_def
  proof (rule reached_after_break, goal_cases)
    case 1
    show ?case using loops(1) [of 0 mem] by (simp add: decoded_start)
  next
    case (2 n m)
    then show ?case
      by (intro reached_after_break) (use loops(2) [of n m] in \<open>simp_all add: prefix_decoded_Some\<close>)
  qed
qed

section \<open>The SSSE3 and SSE4.1 kernels\<close>

interpretation ssse3: decode_kernel "ssse3_decode A S" "decoder_alphabet A" "slack_of S" v "check_input A"
  for A S v
  by unfold_locales (simp add: ssse3_decode_def sse_decode_outcome has_errors_iff)

interpretation sse41: decode_kernel "sse41_decode A S" "decoder_alphabet A" "slack_of S" v "check_input A"
  for A S v
  by unfold_locales (simp add: sse41_decode_def sse_decode_outcome has_errors_iff)

text \<open>The decoders that the public functions select by the alphabet.\<close>

fun decoder_of :: "decode_alphabet \<Rightarrow> decoder" where
  "decoder_of Standard = StandardDecoder"
| "decoder_of UrlSafe = UrlSafeDecoder"
| "decoder_of Mixed = MixedDecoder"

lemma decoder_of_simps [simp]: "decoder_alphabet (decoder_of a) = a" "check_input (decoder_of a)"
  by (cases a; simp)+

interpretation ssse3: validate_kernel "ssse3_validate (decoder_of a)" a for a
  using sse_validate_outcome [of ssse3_has_errors "decoder_of a"]
  by unfold_locales (simp add: ssse3_validate_def has_errors_iff)

interpretation sse41: validate_kernel "sse41_validate (decoder_of a)" a for a
  using sse_validate_outcome [of sse41_has_errors "decoder_of a"]
  by unfold_locales (simp add: sse41_validate_def has_errors_iff)

interpretation ssse3: prefix_kernel "ssse3_decode_prefix (decoder_of a)" a for a
  using sse_decode_prefix_decoded [of ssse3_has_errors "decoder_of a"]
  by unfold_locales (simp add: ssse3_decode_prefix_def has_errors_iff)

interpretation sse41: prefix_kernel "sse41_decode_prefix (decoder_of a)" a for a
  using sse_decode_prefix_decoded [of sse41_has_errors "decoder_of a"]
  by unfold_locales (simp add: sse41_decode_prefix_def has_errors_iff)

end
