(* ===== verification/Base64_Decode_Avx2.thy ===== *)
theory Base64_Decode_Avx2
  imports Base64_Decode_Sse
begin

text \<open>
  The AVX2 decoding kernel, \<open>src/base64/decode/avx2.rs\<close>, with the 32-byte part of
  \<open>x86_contracts.rs\<close>: groups of four registers, single registers, and one 16-byte block.  The
  address of the output selects the width of the stores inside a group.
\<close>

section \<open>Thirty-two characters\<close>

definition avx2_high_nibbles :: "bytes \<Rightarrow> bytes" where
  "avx2_high_nibbles value = and_si (srli_epi16 4 value) (set1 32 (0x0f :: u8))"

definition avx2_classify_ascii :: "bytes \<Rightarrow> bytes \<Rightarrow> bytes \<Rightarrow> bytes \<times> bytes" where
  "avx2_classify_ascii value high_classes low_classes =
     (let high_nibbles = avx2_high_nibbles value;
          high_matches = shuffle_epi8 (broadcastsi128 high_classes) high_nibbles;
          low_mismatches = shuffle_epi8 (broadcastsi128 low_classes) value
      in (high_nibbles, andnot_si low_mismatches high_matches))"

definition avx2_translate_standard :: "bytes \<Rightarrow> bytes \<Rightarrow> bytes" where
  "avx2_translate_standard value high_nibbles =
     (let slash = cmpeq_epi8 value (set1 32 (ascii CHR ''/''));
          offset_indices = add_epi8 high_nibbles slash;
          offsets = broadcastsi128 STANDARD_OFFSETS
      in add_epi8 value (shuffle_epi8 offsets offset_indices))"

definition avx2_translate_mixed :: "bytes \<Rightarrow> bytes \<Rightarrow> bytes" where
  "avx2_translate_mixed value high_nibbles =
     (let shifts = broadcastsi128 MIXED_SHIFTS;
          offsets = broadcastsi128 MIXED_HASH_OFFSETS;
          offset_indices = add_epi8 high_nibbles (shuffle_epi8 shifts value)
      in add_epi8 value (shuffle_epi8 offsets offset_indices))"

definition decode_indices_32_standard :: "bytes \<Rightarrow> nat \<Rightarrow> (bytes \<times> bytes) option" where
  "decode_indices_32_standard input source =
     do {
       value \<leftarrow> slice input source 32;
       let (high_nibbles, errors) =
         avx2_classify_ascii value STANDARD_HIGH_CLASSES STANDARD_LOW_CLASSES_COMPLEMENT;
       Some (avx2_translate_standard value high_nibbles, errors)
     }"

definition decode_indices_32_standard_validated :: "bytes \<Rightarrow> nat \<Rightarrow> (bytes \<times> bytes) option" where
  "decode_indices_32_standard_validated input source =
     do {
       value \<leftarrow> slice input source 32;
       let high_nibbles = avx2_high_nibbles value;
       Some (avx2_translate_standard value high_nibbles, replicate 32 0)
     }"

definition decode_indices_32_urlsafe :: "bytes \<Rightarrow> nat \<Rightarrow> (bytes \<times> bytes) option" where
  "decode_indices_32_urlsafe input source =
     do {
       value \<leftarrow> slice input source 32;
       let (high_nibbles, errors) =
         avx2_classify_ascii value URLSAFE_HIGH_CLASSES URLSAFE_LOW_CLASSES_COMPLEMENT;
       Some (avx2_translate_mixed value high_nibbles, errors)
     }"

definition decode_indices_32_mixed :: "bytes \<Rightarrow> nat \<Rightarrow> (bytes \<times> bytes) option" where
  "decode_indices_32_mixed input source =
     do {
       value \<leftarrow> slice input source 32;
       let (high_nibbles, errors) =
         avx2_classify_ascii value URLSAFE_HIGH_CLASSES MIXED_LOW_CLASSES_COMPLEMENT;
       Some (avx2_translate_mixed value high_nibbles, errors)
     }"

fun decode_indices_32 :: "decoder \<Rightarrow> bytes \<Rightarrow> nat \<Rightarrow> (bytes \<times> bytes) option" where
  "decode_indices_32 StandardDecoder = decode_indices_32_standard"
| "decode_indices_32 ValidatedStandardDecoder = decode_indices_32_standard_validated"
| "decode_indices_32 UrlSafeDecoder = decode_indices_32_urlsafe"
| "decode_indices_32 MixedDecoder = decode_indices_32_mixed"

definition pack_32 :: "bytes \<Rightarrow> bytes" where
  "pack_32 indices =
     (let merged = maddubs_epi16 indices (set1 8 (0x01400140 :: u32));
          packed = madd_epi16 merged (set1 8 (0x00011000 :: u32));
          shuffle = broadcastsi128 PACK_SHUFFLE
      in shuffle_epi8 packed shuffle)"

section \<open>Stores\<close>

text \<open>The lower half is a register of sixteen bytes; the upper half goes in eight and four.\<close>

definition store_24_exact :: "bytes \<Rightarrow> nat \<Rightarrow> bytes \<Rightarrow> bytes option" where
  "store_24_exact output destination value =
     (let lower = take 16 value; upper = drop 16 value in
      do {
        output \<leftarrow> store output destination lower;
        output \<leftarrow> store output (destination + 12) (take 8 upper);
        let remaining = take 4 (drop 8 upper);
        store output (destination + 20) remaining })"

definition store_24_padded :: "bytes \<Rightarrow> nat \<Rightarrow> bytes \<Rightarrow> bytes option" where
  "store_24_padded output destination value =
     do {
       output \<leftarrow> store output destination (take 16 value);
       store output (destination + 12) (drop 16 value)
     }"

definition store_24_padded_wide :: "bytes \<Rightarrow> nat \<Rightarrow> bytes \<Rightarrow> bytes option" where
  "store_24_padded_wide output destination value =
     (let packed = permutevar8x32_epi32 value (set_lanes ([0, 1, 2, 4, 5, 6, 0, 1] :: u32 list))
      in store output destination packed)"

fun store_24 :: "store_policy \<Rightarrow> bytes \<Rightarrow> nat \<Rightarrow> bytes \<Rightarrow> bytes option" where
  "store_24 ExactStore = store_24_exact"
| "store_24 PaddedStore = store_24_padded"

section \<open>The kernel\<close>

text \<open>The first three stores of a group, which both loops choose by the address.\<close>

definition avx2_store_three ::
  "bool \<Rightarrow> bytes \<Rightarrow> nat \<Rightarrow> bytes \<Rightarrow> bytes \<Rightarrow> bytes \<Rightarrow> bytes option" where
  "avx2_store_three use_wide_overlapping_stores output destination first second third =
     (if use_wide_overlapping_stores then do {
        output \<leftarrow> store_24_padded_wide output destination (pack_32 first);
        output \<leftarrow> store_24_padded_wide output (destination + 24) (pack_32 second);
        store_24_padded_wide output (destination + 48) (pack_32 third) }
      else do {
        output \<leftarrow> store_24_padded output destination (pack_32 first);
        output \<leftarrow> store_24_padded output (destination + 24) (pack_32 second);
        store_24_padded output (destination + 48) (pack_32 third) })"

definition avx2_decode ::
  "nat \<Rightarrow> decoder \<Rightarrow> store_policy \<Rightarrow> bytes \<Rightarrow> bytes
    \<Rightarrow> (base64_error \<times> bytes + nat \<times> nat \<times> bytes) option" where
  "avx2_decode address A S input output =
     (let use_wide_overlapping_stores = (address AND 63 = 32) in
     and_then (try_while (length input) 128 128 (\<lambda>source (destination, output). do {
         (first, first_error) \<leftarrow> decode_indices_32 A input source;
         (second, second_error) \<leftarrow> decode_indices_32 A input (source + 32);
         let errors = or_si first_error second_error;
         (third, third_error) \<leftarrow> decode_indices_32 A input (source + 64);
         let errors = or_si errors third_error;
         (fourth, fourth_error) \<leftarrow> decode_indices_32 A input (source + 96);
         let errors = or_si errors fourth_error;
         (if rejects_input A (\<not> testz_si errors errors) then Some (Inl (InvalidInput, output))
          else do {
            output \<leftarrow> avx2_store_three use_wide_overlapping_stores output destination first second third;
            output \<leftarrow> store_24 S output (destination + 72) (pack_32 fourth);
            Some (Inr (destination + 96, output)) }) }) 0 (0, output)) (\<lambda>(source, state).
     and_then (try_while (length input) 32 32 (\<lambda>source (destination, output). do {
         (indices, errors) \<leftarrow> decode_indices_32 A input source;
         (if rejects_input A (\<not> testz_si errors errors) then Some (Inl (InvalidInput, output))
          else do {
            output \<leftarrow> store_24 S output destination (pack_32 indices);
            Some (Inr (destination + 24, output)) }) }) source state) (\<lambda>(source, destination, output).
     (if source + 16 \<le> length input then do {
        (indices, errors) \<leftarrow> decode_indices_16 A input source;
        (if rejects_input A (ssse3_has_errors errors) then Some (Inl (InvalidInput, output))
         else do {
           output \<leftarrow> store_12 S output destination (pack_16_indices indices);
           Some (Inr (source + 16, destination + 12, output)) }) }
      else Some (Inr (source, destination, output))))))"

definition avx2_validate :: "decoder \<Rightarrow> bytes \<Rightarrow> (base64_error + nat) option" where
  "avx2_validate A input =
     and_then (try_while (length input) 128 128 (\<lambda>source _. do {
         (_, first) \<leftarrow> decode_indices_32 A input source;
         (_, second) \<leftarrow> decode_indices_32 A input (source + 32);
         (_, third) \<leftarrow> decode_indices_32 A input (source + 64);
         (_, fourth) \<leftarrow> decode_indices_32 A input (source + 96);
         let errors = or_si (or_si first second) (or_si third fourth);
         (if \<not> testz_si errors errors then Some (Inl InvalidInput) else Some (Inr ())) }) 0 ()) (\<lambda>(source, _).
     and_then (try_while (length input) 32 32 (\<lambda>source _. do {
         (_, errors) \<leftarrow> decode_indices_32 A input source;
         (if \<not> testz_si errors errors then Some (Inl InvalidInput) else Some (Inr ())) }) source ()) (\<lambda>(source, _).
     (if source + 16 \<le> length input then do {
        (_, errors) \<leftarrow> decode_indices_16 A input source;
        (if ssse3_has_errors errors then Some (Inl InvalidInput) else Some (Inr (source + 16))) }
      else Some (Inr source))))"

definition avx2_decode_prefix :: "nat \<Rightarrow> decoder \<Rightarrow> bytes \<Rightarrow> bytes \<Rightarrow> (nat \<times> nat \<times> bytes) option" where
  "avx2_decode_prefix address A input output =
     (let use_wide_overlapping_stores = (address AND 63 = 32) in
     after_break (try_while (length input) 128 128 (\<lambda>source (destination, output). do {
         (first, first_error) \<leftarrow> decode_indices_32 A input source;
         (second, second_error) \<leftarrow> decode_indices_32 A input (source + 32);
         let errors = or_si first_error second_error;
         (third, third_error) \<leftarrow> decode_indices_32 A input (source + 64);
         let errors = or_si errors third_error;
         (fourth, fourth_error) \<leftarrow> decode_indices_32 A input (source + 96);
         let errors = or_si errors fourth_error;
         (if \<not> testz_si errors errors then Some (Inl (source, destination, output))
          else do {
            output \<leftarrow> avx2_store_three use_wide_overlapping_stores output destination first second third;
            output \<leftarrow> store_24_exact output (destination + 72) (pack_32 fourth);
            Some (Inr (destination + 96, output)) }) }) 0 (0, output)) (\<lambda>source state.
     after_break (try_while (length input) 32 32 (\<lambda>source (destination, output). do {
         (indices, errors) \<leftarrow> decode_indices_32 A input source;
         (if \<not> testz_si errors errors then Some (Inl (source, destination, output))
          else do {
            output \<leftarrow> store_24_exact output destination (pack_32 indices);
            Some (Inr (destination + 24, output)) }) }) source state) (\<lambda>source (destination, output).
     (if source + 16 \<le> length input then do {
        (indices, errors) \<leftarrow> decode_indices_16 A input source;
        (if \<not> ssse3_has_errors errors then do {
           output \<leftarrow> store_12_exact output destination (pack_16_indices indices);
           Some (source + 16, destination + 12, output) }
         else Some (source, destination, output)) }
      else Some (source, destination, output)))))"

section \<open>One character\<close>

fun index_32 :: "decoder \<Rightarrow> u8 \<Rightarrow> u8" where
  "index_32 UrlSafeDecoder b = b + look MIXED_HASH_OFFSETS (hi b + look MIXED_SHIFTS b)"
| "index_32 MixedDecoder b = b + look MIXED_HASH_OFFSETS (hi b + look MIXED_SHIFTS b)"
| "index_32 _ b = b + look STANDARD_OFFSETS (hi b + masked_byte (b = 47) (- 1))"

fun error_32 :: "decoder \<Rightarrow> u8 \<Rightarrow> u8" where
  "error_32 StandardDecoder b = NOT (look STANDARD_LOW_CLASSES_COMPLEMENT b) AND look STANDARD_HIGH_CLASSES (hi b)"
| "error_32 UrlSafeDecoder b = NOT (look URLSAFE_LOW_CLASSES_COMPLEMENT b) AND look URLSAFE_HIGH_CLASSES (hi b)"
| "error_32 MixedDecoder b = NOT (look MIXED_LOW_CLASSES_COMPLEMENT b) AND look URLSAFE_HIGH_CLASSES (hi b)"
| "error_32 ValidatedStandardDecoder b = 0"

lemma characters_32:
  "entries_from (\<lambda>b v. v = 255 \<or> index_32 UrlSafeDecoder b = v) 0 URLSAFE_DECODE"
  "entries_from (\<lambda>b v. v = 255 \<or> index_32 MixedDecoder b = v) 0 MIXED_DECODE"
  by code_simp+

text \<open>
  With the complemented table a byte below 128 has the error of the sixteen-byte decoder, and any
  other byte has that of its high classes alone.
\<close>

lemma high_bytes:
  "entries_from (\<lambda>b _. bit b 7 \<longrightarrow> look STANDARD_HIGH_CLASSES (hi b) \<noteq> 0 \<and> error_16 StandardDecoder b \<noteq> 0)
     0 STANDARD_DECODE"
  "entries_from (\<lambda>b _. bit b 7 \<longrightarrow> look URLSAFE_HIGH_CLASSES (hi b) \<noteq> 0 \<and> error_16 UrlSafeDecoder b \<noteq> 0
     \<and> error_16 MixedDecoder b \<noteq> 0) 0 URLSAFE_DECODE"
  by code_simp+

lemma nibble_index [simp]: "unat (b AND 15) < 16" "unat ((b AND 15) AND 15) < 16" for b :: u8
proof -
  have "b AND 15 < 16" for b :: u8 by (simp add: nibble_iff_bits bit_simps)
  then show "unat (b AND 15) < 16" "unat ((b AND 15) AND 15) < 16" by (simp_all add: word_less_nat_alt)
qed

lemma look_complement:
  "length t = 16 \<Longrightarrow> NOT (look (map NOT t) b) = (if bit b 7 then - 1 else look t (b AND 15))"
  by (simp add: look_def bit_simps)

lemma error_complement:
  assumes "length t = 16" "bit b 7 \<Longrightarrow> h \<noteq> 0 \<and> h AND look t (b AND 15) \<noteq> 0"
  shows "NOT (look (map NOT t) b) AND h = 0 \<longleftrightarrow> h AND look t (b AND 15) = 0"
  using assms by (cases "bit b 7") (simp_all add: look_complement and.commute)

lemma complements:
  "STANDARD_LOW_CLASSES_COMPLEMENT = map NOT STANDARD_LOW_CLASSES"
  "URLSAFE_LOW_CLASSES_COMPLEMENT = map NOT URLSAFE_LOW_CLASSES"
  "MIXED_LOW_CLASSES_COMPLEMENT = map NOT MIXED_LOW_CLASSES"
  by (simp_all only: STANDARD_LOW_CLASSES_COMPLEMENT_def URLSAFE_LOW_CLASSES_COMPLEMENT_def list.map
      MIXED_LOW_CLASSES_COMPLEMENT_def COMPLEMENTED_LOW_CLASSES_def nth_Cons_0 nth_Cons_numeral One_nat_def nth_Cons_Suc, simp_all)

lemma error_32_iff: "error_32 A b = 0 \<longleftrightarrow> error_16 A b = 0"
proof -
  note h = high_bytes [THEN entries_of_table, of b, unfolded STANDARD_DECODE_def URLSAFE_DECODE_def
      length_decode_table error_16.simps, OF refl]
  show ?thesis
    by (cases A; simp only: error_32.simps error_16.simps complements; (rule error_complement)?)
      (use h in \<open>blast intro: length_tables\<close>)+
qed

lemma INVALID_VALUE_byte: "INVALID_VALUE = 255"
  by code_simp

lemma character_32:
  "check_input A \<Longrightarrow> error_32 A b = 0 \<longleftrightarrow> symbol_value (decoder_alphabet A) b \<noteq> None"
  "symbol_value (decoder_alphabet A) b \<noteq> None \<Longrightarrow> index_32 A b = table_of (decoder_alphabet A) ! unat b"
proof -
  show "check_input A \<Longrightarrow> error_32 A b = 0 \<longleftrightarrow> symbol_value (decoder_alphabet A) b \<noteq> None"
    by (simp only: error_32_iff character_16(1) simp_thms)
next
  assume s: "symbol_value (decoder_alphabet A) b \<noteq> None"
  note t = characters_32 [THEN entries_of_table, of b, unfolded URLSAFE_DECODE_def MIXED_DECODE_def
      length_decode_table, OF refl, folded URLSAFE_DECODE_def MIXED_DECODE_def]
  have "table_of (decoder_alphabet A) ! unat b \<noteq> 255"
    using s invalid_iff_no_symbol [of "decoder_alphabet A" b] unfolding INVALID_VALUE_byte by simp
  then show "index_32 A b = table_of (decoder_alphabet A) ! unat b"
  proof (cases A)
    case StandardDecoder
    then show ?thesis using character_16(2) [OF s] by (simp only: index_32.simps index_16.simps)
  next
    case ValidatedStandardDecoder
    then show ?thesis using character_16(2) [OF s] by (simp only: index_32.simps index_16.simps)
  qed (use t in \<open>simp_all only: table_of.simps decoder_alphabet.simps simp_thms\<close>)
qed

section \<open>Thirty-two characters at once\<close>

lemma high_nibbles_32: "length v = 32 \<Longrightarrow> avx2_high_nibbles v = map hi v"
  using high_nibbles_pairs [of v] by (simp add: avx2_high_nibbles_def set1_byte)

lemma shuffle_broadcast:
  assumes "length t = 16" "length i = 32"
  shows "shuffle_epi8 (broadcastsi128 t) i = map (look t) i"
proof -
  have "shuffle_epi8 (t @ t) (take 16 i @ drop 16 i) = shuffle_epi8 t (take 16 i) @ shuffle_epi8 t (drop 16 i)"
    by (rule shuffle_epi8_append) (use assms in simp_all)
  also have "\<dots> = map (look t) (take 16 i @ drop 16 i)"
    using assms by (simp add: shuffle_look flip: map_append)
  finally show ?thesis by (simp add: broadcastsi128_def)
qed

lemma length_tables_32 [simp]:
  "length MIXED_SHIFTS = 16" "length MIXED_HASH_OFFSETS = 16"
  "length STANDARD_LOW_CLASSES_COMPLEMENT = 16" "length URLSAFE_LOW_CLASSES_COMPLEMENT = 16"
  "length MIXED_LOW_CLASSES_COMPLEMENT = 16"
  by (simp_all add: MIXED_SHIFTS_def MIXED_HASH_OFFSETS_def complements)

lemma indices_32_eq:
  assumes "off + 32 \<le> length input"
  defines "v \<equiv> take 32 (drop off input)"
  shows "decode_indices_32 A input off = Some (map (index_32 A) v, map (error_32 A) v)"
proof -
  have v: "slice input off 32 = Some v" "length v = 32" using assms by (simp_all add: slice_simps)
  have low: "length (add_epi8 (map hi v) (cmpeq_epi8 v (replicate 32 47))) = 32"
    "length (add_epi8 (map hi v) (map g v)) = 32" for g
    using v(2) by (simp_all add: bytewise_simps)
  show ?thesis
    by (cases A; simp add: decode_indices_32_standard_def decode_indices_32_standard_validated_def
        decode_indices_32_urlsafe_def decode_indices_32_mixed_def avx2_classify_ascii_def
        avx2_translate_standard_def avx2_translate_mixed_def v high_nibbles_32 shuffle_broadcast low set1_byte
        Let_def; intro conjI nth_equalityI; simp add: v bytewise_simps andnot_si_def masked_byte_def)
qed

interpretation indices_32: indices_block "decode_indices_32 A" 32 "decoder_alphabet A" "check_input A" for A
proof (rule indices_block_pointwise [OF indices_32_eq])
  show "error_32 A b = 0" if "\<not> check_input A" for b using that by (cases A) simp_all
qed (simp_all only: character_32 simp_thms)

section \<open>Packing thirty-two values\<close>

lemma spread_append: "4 dvd length v \<Longrightarrow> spread_octets (v @ w) = spread_octets v @ spread_octets w"
  by (induction v rule: spread_octets.induct) (auto simp: dvd_Suc_group dest: dvd_imp_le)

lemma length_spread: "length (spread_octets v) = length v div 4 * 4"
  by (induction v rule: spread_octets.induct) (auto, presburger)

lemma pack_32:
  assumes "length ix = 32" "list_all (\<lambda>v. v < 64) ix"
  shows "pack_32 ix = octets (take 16 ix) @ replicate 4 0 @ octets (drop 16 ix) @ replicate 4 0"
proof -
  let ?l = "take 16 ix" and ?h = "drop 16 ix"
  have "madd_epi16 (maddubs_epi16 ix (set1 8 (0x01400140 :: u32))) (set1 8 (0x00011000 :: u32)) = spread_octets ix"
    using packed_groups [of ix 8] assms by (simp add: packed_def)
  also have "\<dots> = spread_octets ?l @ spread_octets ?h"
    using spread_append [of ?l ?h] assms(1) by simp
  finally show ?thesis
    using assms(1) by (simp add: pack_32_def broadcastsi128_def shuffle_epi8_append length_spread shuffle_spread)
qed

lemma octets_halves: "length ix = 32 \<Longrightarrow> octets ix = octets (take 16 ix) @ octets (drop 16 ix)"
  using octets_append [of "take 16 ix" "drop 16 ix"] by simp

lemma store_24_parts:
  assumes "length x = 12" "length y = 12"
  shows "store_24_padded m d (x @ replicate 4 0 @ y @ replicate 4 0) = store m d (x @ y @ replicate 4 0)"
    and "store_24_exact m d (x @ replicate 4 0 @ y @ replicate 4 0) = store m d (x @ y)"
proof -
  have "store m d (x @ replicate 4 0) \<bind> (\<lambda>m. store m (d + 12) (y @ replicate 4 0)) = store m d (x @ y @ replicate 4 0)"
    using assms by (subst store_overlap) simp_all
  then show "store_24_padded m d (x @ replicate 4 0 @ y @ replicate 4 0) = store m d (x @ y @ replicate 4 0)"
    using assms by (simp add: store_24_padded_def)
  have "store m d (x @ replicate 4 0) \<bind> (\<lambda>m. store m (d + 12) (take 8 y)) = store m d (x @ take 8 y)"
    using assms by (subst store_overlap) simp_all
  moreover have "store m d (x @ take 8 y) \<bind> (\<lambda>m. store m (d + 20) (drop 8 y)) = store m d (x @ y)"
    using assms by (subst store_store) simp_all
  ultimately show "store_24_exact m d (x @ replicate 4 0 @ y @ replicate 4 0) = store m d (x @ y)"
    using assms by (simp add: store_24_exact_def Let_def flip: bind_assoc)
qed

text \<open>The permutation drops the gap between the halves, and repeats the first eight bytes.\<close>

lemma permute_words:
  assumes "length v = 32"
  shows "permutevar8x32_epi32 v (set_lanes idx) = concat (map (\<lambda>i :: u32. take 4 (drop (4 * unat (i AND 7)) v)) idx)"
proof -
  have below: "unat (i AND 7) < 8" for i :: u32
  proof -
    have "i AND 7 = take_bit 3 i" by (simp add: take_bit_eq_mask mask_eq_exp_minus_1)
    then show ?thesis using take_bit_nat_less_exp [of 3 "unat i"] by (simp add: unsigned_take_bit_eq)
  qed
  have "to_le ((lanes v :: u32 list) ! unat (i AND 7)) = take 4 (drop (4 * unat (i AND 7)) v)" for i :: u32
    using below [of i] assms by (simp add: nth_lanes to_le_le_word mult.commute)
  then show ?thesis
    by (simp add: permutevar8x32_epi32_def lanes_set_lanes unlanes_def comp_def)
qed

lemma three_words:
  assumes "length x = 12"
  shows "take 4 x @ take 4 (drop 4 x) @ take 4 (drop 8 x) = x" "take 4 x @ take 4 (drop 4 x) = take 8 x"
  using assms take_add [of 4 4 x] append_take_drop_id [of 8 x] by simp_all

lemma store_24_wide:
  assumes "length x = 12" "length y = 12"
  shows "store_24_padded_wide m d (x @ replicate 4 0 @ y @ replicate 4 0) = store m d (x @ y @ take 8 x)"
proof -
  have "permutevar8x32_epi32 (x @ replicate 4 0 @ y @ replicate 4 0) (set_lanes ([0, 1, 2, 4, 5, 6, 0, 1] :: u32 list))
      = (take 4 x @ take 4 (drop 4 x) @ take 4 (drop 8 x)) @ (take 4 y @ take 4 (drop 4 y) @ take 4 (drop 8 y))
        @ (take 4 x @ take 4 (drop 4 x))"
    using assms by (subst permute_words) simp_all
  also have "\<dots> = x @ y @ take 8 x"
    by (simp only: three_words assms)
  finally show ?thesis by (simp add: store_24_padded_wide_def)
qed

lemma length_octets_halves:
  "length ix = 32 \<Longrightarrow> length (octets (take 16 ix)) = 12" "length ix = 32 \<Longrightarrow> length (octets (drop 16 ix)) = 12"
  by (simp_all add: length_octets)

lemmas pack_32_simps = pack_32 octets_halves length_octets_halves

lemma packs_24: "packs_values (\<lambda>m d ix. store_24 S m d (pack_32 ix)) 32 (slack_of S)"
  unfolding packs_values_def
  by (cases S) (auto simp: pack_32_simps store_24_parts intro: exI [of _ "replicate 4 0"])

lemma packs_24_padded: "packs_values (\<lambda>m d ix. store_24_padded m d (pack_32 ix)) 32 24"
  using packs_values_mono [OF packs_24 [of PaddedStore], of 24] by simp

lemma packs_24_exact: "packs_values (\<lambda>m d ix. store_24_exact m d (pack_32 ix)) 32 0"
  using packs_24 [of ExactStore] by simp

lemma packs_24_wide: "packs_values (\<lambda>m d ix. store_24_padded_wide m d (pack_32 ix)) 32 24"
  unfolding packs_values_def
proof (intro allI impI)
  fix ix :: bytes
  assume "length ix = 32" "list_all (\<lambda>v. v < 64) ix"
  then show "\<exists>rest. length rest \<le> 24 \<and> (\<forall>m d. store_24_padded_wide m d (pack_32 ix) = store m d (octets ix @ rest))"
    by (intro exI [of _ "take 8 (octets ix)"]) (simp add: pack_32_simps store_24_wide)
qed

section \<open>The kernel keeps its contracts\<close>

lemma times_32: "4 * 32 = (128 :: nat)" "2 * 32 = (64 :: nat)" "3 * 32 = (96 :: nat)"
  by simp_all

lemma group_128:
  assumes rej: "\<And>e. length e = 32 \<Longrightarrow> rejects e \<longleftrightarrow> check_input A \<and> \<not> clean e"
    and put: "packs_values (\<lambda>m d ix. put m d (pack_32 ix)) 32 slack"
    and ok: "check_input A \<or> all_symbols (decoder_alphabet A) input"
  shows "group_step (decoder_alphabet A) slack input 128 stop (\<lambda>source (destination, output). do {
         (first, first_error) \<leftarrow> decode_indices_32 A input source;
         (second, second_error) \<leftarrow> decode_indices_32 A input (source + 32);
         let errors = or_si first_error second_error;
         (third, third_error) \<leftarrow> decode_indices_32 A input (source + 64);
         let errors = or_si errors third_error;
         (fourth, fourth_error) \<leftarrow> decode_indices_32 A input (source + 96);
         let errors = or_si errors fourth_error;
         (if rejects errors then Some (Inl (stop source destination output))
          else do {
            output \<leftarrow> avx2_store_three wide output destination first second third;
            output \<leftarrow> put output (destination + 72) (pack_32 fourth);
            Some (Inr (destination + 96, output)) }) })"
    (is "group_step _ _ _ _ _ ?body")
  unfolding group_step_def
proof (intro allI impI)
  fix off d m assume fit: "off + 128 \<le> length input"
  let ?a = "decoder_alphabet A"
  let ?b = "take 128 (drop off input)"
  obtain i1 e1 i2 e2 i3 e3 i4 e4 where
    ix: "decode_indices_32 A input off = Some (i1, e1)" "decode_indices_32 A input (off + 32) = Some (i2, e2)"
      "decode_indices_32 A input (off + 64) = Some (i3, e3)" "decode_indices_32 A input (off + 96) = Some (i4, e4)"
    and len: "length e1 = 32" "length e2 = 32" "length e3 = 32" "length e4 = 32"
    and chk: "check_input A \<and> \<not> (clean e1 \<and> clean e2 \<and> clean e3 \<and> clean e4) \<longleftrightarrow> \<not> all_symbols ?a ?b"
    and ok: "all_symbols ?a ?b \<Longrightarrow> symbol_values ?a ?b = i1 @ i2 @ i3 @ i4
      \<and> list_all (\<lambda>i. length i = 32 \<and> list_all (\<lambda>v. v < 64) i) [i1, i2, i3, i4]"
    using indices_32.four_accepted [of off input A, unfolded times_32, OF fit ok] by blast
  have rejects: "rejects (or_si (or_si (or_si e1 e2) e3) e4) \<longleftrightarrow> \<not> all_symbols ?a ?b"
    using chk by (simp add: rej len clean_or length_or_si)
  show "if all_symbols ?a ?b
    then \<exists>rest. length rest \<le> slack \<and> ?body off (d, m) = store m d (decoded_bytes ?a ?b @ rest)
      \<bind> (\<lambda>m. Some (Inr (d + 128 div 4 * 3, m)))
    else ?body off (d, m) = Some (Inl (stop off d m))"
  proof (cases "all_symbols ?a ?b")
    case True
    let ?p = "\<lambda>m d ix. if wide then store_24_padded_wide m d (pack_32 ix) else store_24_padded m d (pack_32 ix)"
    have p: "packs_values ?p 32 24"
      by (cases wide) (simp_all add: packs_24_wide packs_24_padded)
    obtain rest where rest: "length rest \<le> slack"
      "\<And>m d. ?p m d i1 \<bind> (\<lambda>m. ?p m (d + 24) i2 \<bind> (\<lambda>m. ?p m (d + 2 * 24) i3
        \<bind> (\<lambda>m. put m (d + 3 * 24) (pack_32 i4)))) = store m d (octets (i1 @ i2 @ i3 @ i4) @ rest)"
      using four_stores [OF p p p put, of i1 i2 i3 i4] ok [OF True] by auto
    have three: "avx2_store_three wide m d i1 i2 i3 \<bind> f
        = ?p m d i1 \<bind> (\<lambda>m. ?p m (d + 24) i2 \<bind> (\<lambda>m. ?p m (d + 2 * 24) i3 \<bind> f))" for m d and f :: "bytes \<Rightarrow> bytes option"
      by (cases wide) (simp_all add: avx2_store_three_def)
    have "decoded_bytes ?a ?b = octets (i1 @ i2 @ i3 @ i4)"
      using ok [OF True] by (simp add: decoded_bytes_def)
    then have st: "avx2_store_three wide m d i1 i2 i3 \<bind> (\<lambda>m. put m (d + 72) (pack_32 i4))
        = store m d (decoded_bytes ?a ?b @ rest)"
      using rest(2) [of m d] by (simp only: three) simp
    have "?body off (d, m) = store m d (decoded_bytes ?a ?b @ rest) \<bind> (\<lambda>m. Some (Inr (d + 128 div 4 * 3, m)))"
      using True rejects by (simp add: ix Let_def flip: st)
    with True rest(1) show ?thesis by auto
  qed (simp add: ix rejects)
qed

lemma quarters_32: "32 div 4 * 3 = (24 :: nat)"
  by simp

lemma group_32:
  assumes rej: "\<And>e. length e = 32 \<Longrightarrow> rejects e \<longleftrightarrow> check_input A \<and> \<not> clean e"
    and put: "packs_values (\<lambda>m d ix. put m d (pack_32 ix)) 32 slack"
    and ok: "check_input A \<or> all_symbols (decoder_alphabet A) input"
  shows "group_step (decoder_alphabet A) slack input 32 stop (\<lambda>source (destination, output). do {
         (indices, errors) \<leftarrow> decode_indices_32 A input source;
         (if rejects errors then Some (Inl (stop source destination output))
          else do {
            output \<leftarrow> put output destination (pack_32 indices);
            Some (Inr (destination + 24, output)) }) })"
  by (rule indices_32.single_step [where rejects = rejects and pack = pack_32, OF rej put ok, unfolded quarters_32])

lemma avx2_decode_outcome:
  assumes ok: "check_input A \<or> all_symbols (decoder_alphabet A) input"
    and fit: "length input div 4 * 3 + slack_of S \<le> length mem"
  shows "\<exists>r. avx2_decode address A S input mem = Some r
    \<and> decode_outcome (decoder_alphabet A) (slack_of S) v input mem r"
proof -
  let ?stop = "\<lambda>n d m. (InvalidInput, m) :: base64_error \<times> bytes"
  have rej: "rejects_input A (\<not> testz_si e e) \<longleftrightarrow> check_input A \<and> \<not> clean e" if "length e = 32" for e
    by (simp add: rejects_input_def testz_self)
  have rej16: "rejects_input A (ssse3_has_errors e) \<longleftrightarrow> check_input A \<and> \<not> clean e" if "length e = 16" for e
    using has_errors_iff [OF that] by (simp add: rejects_input_def)
  note loops = reached_loop [OF group_128 [OF rej packs_24 ok] _ _ _ fit, where stop = ?stop]
    reached_loop [OF group_32 [OF rej packs_24 ok] _ _ _ fit, where stop = ?stop]
  have "\<exists>r. avx2_decode address A S input mem = Some r
    \<and> reached (decoder_alphabet A) (slack_of S) input mem ?stop r"
    unfolding avx2_decode_def Let_def
  proof (rule reached_and_then, goal_cases)
    case 1
    show ?case using loops(1) [of 0 mem] by (simp add: decoded_start Let_def)
  next
    case (2 n m)
    then show ?case
      unfolding prod.case
    proof (intro reached_and_then, goal_cases)
      case 1
      then show ?case using loops(2) [of n m] by simp
    next
      case (2 n' m')
      show ?case
      proof (cases "n' + 16 \<le> length input")
        case True
        show ?thesis
          by (rule indices_16.block_cases [where n = n' and m = m' and put = "store_12 S" and pack = pack_16_indices
                and rejects = "\<lambda>e. rejects_input A (ssse3_has_errors e)", OF rej16 packs_12 ok _ True 2(2) fit])
            (use True decodedD(1-2) [OF 2(2)] 2(2) in \<open>auto simp: reached_def\<close>)
      qed (use 2 in \<open>simp add: reached_def\<close>)
    qed
  qed
  then show ?thesis using reached_outcome by blast
qed

lemma avx2_validate_outcome:
  assumes "check_input A"
  shows "\<exists>r. avx2_validate A input = Some r \<and> validated (decoder_alphabet A) input r"
proof -
  let ?a = "decoder_alphabet A"
  have 128: "(do {
         (_, first) \<leftarrow> decode_indices_32 A input off;
         (_, second) \<leftarrow> decode_indices_32 A input (off + 32);
         (_, third) \<leftarrow> decode_indices_32 A input (off + 64);
         (_, fourth) \<leftarrow> decode_indices_32 A input (off + 96);
         let errors = or_si (or_si first second) (or_si third fourth);
         (if \<not> testz_si errors errors then Some (Inl InvalidInput) else Some (Inr ())) })
    = Some (if all_symbols ?a (take 128 (drop off input)) then Inr () else Inl InvalidInput)"
    if fit: "off + 128 \<le> length input" for off
  proof -
    obtain i1 e1 i2 e2 i3 e3 i4 e4 where
      ix: "decode_indices_32 A input off = Some (i1, e1)" "decode_indices_32 A input (off + 32) = Some (i2, e2)"
        "decode_indices_32 A input (off + 64) = Some (i3, e3)" "decode_indices_32 A input (off + 96) = Some (i4, e4)"
      and len: "length e1 = 32" "length e2 = 32" "length e3 = 32" "length e4 = 32"
      and chk: "check_input A \<and> \<not> (clean e1 \<and> clean e2 \<and> clean e3 \<and> clean e4)
        \<longleftrightarrow> \<not> all_symbols ?a (take 128 (drop off input))"
      and "all_symbols ?a (take 128 (drop off input)) \<Longrightarrow> symbol_values ?a (take 128 (drop off input)) = i1 @ i2 @ i3 @ i4
        \<and> list_all (\<lambda>i. length i = 32 \<and> list_all (\<lambda>v. v < 64) i) [i1, i2, i3, i4]"
      using indices_32.four_accepted [of off input A, unfolded times_32, OF fit disjI1 [OF assms]] by blast
    have "\<not> clean (or_si (or_si e1 e2) (or_si e3 e4)) \<longleftrightarrow> \<not> all_symbols ?a (take 128 (drop off input))"
      using chk assms by (simp add: len clean_or length_or_si)
    then show ?thesis by (simp add: ix testz_self)
  qed
  have 32: "(do {
         (_, errors) \<leftarrow> decode_indices_32 A input off;
         (if \<not> testz_si errors errors then Some (Inl InvalidInput) else Some (Inr ())) })
    = Some (if all_symbols ?a (take 32 (drop off input)) then Inr () else Inl InvalidInput)"
    if fit: "off + 32 \<le> length input" for off
  proof -
    obtain ix er where "decode_indices_32 A input off = Some (ix, er)" "length er = 32"
      "check_input A \<and> \<not> clean er \<longleftrightarrow> \<not> all_symbols ?a (take 32 (drop off input))"
      using indices_32.indices_accepted [of off input A, OF fit disjI1 [OF assms]] by blast
    then show ?thesis using assms by (simp add: testz_self)
  qed
  have 16: "\<exists>r. (do {
         (_, errors) \<leftarrow> decode_indices_16 A input n;
         (if ssse3_has_errors errors then Some (Inl InvalidInput) else Some (Inr (n + 16))) }) = Some r
      \<and> validated ?a input r"
    if fit: "n + 16 \<le> length input" and n: "all_symbols ?a (take n input)" for n
  proof -
    obtain ix er where "decode_indices_16 A input n = Some (ix, er)" "length er = 16"
      "check_input A \<and> \<not> clean er \<longleftrightarrow> \<not> all_symbols ?a (take 16 (drop n input))"
      using indices_16.indices_accepted [of n input A, OF fit disjI1 [OF assms]] by blast
    then show ?thesis
      using assms n fit not_all_symbols_block [of ?a 16 n input] by (simp add: has_errors_iff validated_def take_add)
  qed
  show ?thesis
    unfolding avx2_validate_def
  proof (rule validate_loop, goal_cases)
    case (1 off)
    then show ?case using 128 by simp
  next
    case (5 n)
    show ?case
      unfolding prod.case
      by (intro validate_loop) (use 5 16 32 in \<open>simp_all add: validated_def\<close>)
  qed simp_all
qed

lemma avx2_decode_prefix_decoded:
  assumes "check_input A" and fit: "length input div 4 * 3 \<le> length mem"
  shows "prefix_decoded (decoder_alphabet A) input mem (avx2_decode_prefix address A input mem)"
proof -
  let ?stop = "\<lambda>n d m. (n, d, m) :: nat \<times> nat \<times> bytes"
  have rej: "\<not> testz_si e e \<longleftrightarrow> check_input A \<and> \<not> clean e" if "length e = 32" for e
    by (simp add: assms testz_self)
  have rej16: "ssse3_has_errors e \<longleftrightarrow> check_input A \<and> \<not> clean e" if "length e = 16" for e
    using has_errors_iff [OF that] by (simp add: assms)
  have fit: "length input div 4 * 3 + 0 \<le> length mem" using fit by simp
  note ok = disjI1 [OF assms(1)]
  note loops = reached_loop [OF group_128 [OF rej packs_24_exact ok] _ _ _ fit, where stop = ?stop]
    reached_loop [OF group_32 [OF rej packs_24_exact ok] _ _ _ fit, where stop = ?stop]
  show ?thesis
    unfolding avx2_decode_prefix_def Let_def
  proof (rule reached_after_break, goal_cases)
    case 1
    show ?case using loops(1) [of 0 mem] by (simp add: decoded_start Let_def)
  next
    case (2 n m)
    show ?case
    proof (rule reached_after_break, goal_cases)
      case 1
      then show ?case using 2 loops(2) [of n m] by simp
    next
      case (2 n' m')
      show ?case
      proof (cases "n' + 16 \<le> length input")
        case True
        show ?thesis
          by (rule indices_16.block_cases [where n = n' and m = m' and put = store_12_exact and pack = pack_16_indices
                and rejects = ssse3_has_errors, OF rej16 packs_12_exact ok _ True 2 fit])
            (use True 2 in \<open>auto intro: prefix_decoded_Some\<close>)
      qed (use 2 in \<open>simp add: prefix_decoded_Some\<close>)
    qed
  qed
qed

interpretation avx2: decode_kernel "avx2_decode address A S" "decoder_alphabet A" "slack_of S" v "check_input A"
  for address A S v
  by unfold_locales (simp add: avx2_decode_outcome)

interpretation avx2: validate_kernel "avx2_validate (decoder_of a)" a for a
  using avx2_validate_outcome [of "decoder_of a"] by unfold_locales simp

interpretation avx2: prefix_kernel "avx2_decode_prefix address (decoder_of a)" a for address a
  using avx2_decode_prefix_decoded [of "decoder_of a"] by unfold_locales simp

end
