(* ===== verification/Base64_Decode_Avx512.thy ===== *)
theory Base64_Decode_Avx512
  imports Base64_Decode_Avx2 Cpu_Backend
begin

text \<open>
  The AVX-512 VBMI decoding kernel, \<open>src/base64/decode/avx512.rs\<close>: one look-up in both halves of
  the decode table classifies and translates 64 characters, two multiply-adds and a permutation
  pack them.  Masked loads and stores take the last complete groups.  Inputs under 64 bytes go to
  the AVX2 kernel.
\<close>

section \<open>Sixty-four characters\<close>

definition OUTPUT_MASK_48 :: u64 where
  "OUTPUT_MASK_48 = push_bit 48 1 - 1"

definition active_lane_mask :: "nat \<Rightarrow> u64 option" where
  "active_lane_mask active_lanes =
     do {
       guard (active_lanes \<noteq> 0 \<and> active_lanes \<le> 64);
       Some (drop_bit (64 - active_lanes) (- 1))
     }"

definition DECODE_SHUFFLE :: bytes where
  "DECODE_SHUFFLE = fold (\<lambda>lane shuffle. fold (\<lambda>group shuffle.
       let source = lane * 16 + group * 4; destination = lane * 12 + group * 3 in
       ((shuffle[destination := of_nat (source + 2)])
          [destination + 1 := of_nat (source + 1)])
          [destination + 2 := of_nat source]) [0..<4] shuffle) [0..<4] (replicate 64 0)"

text \<open>\<open>u64::trailing_zeros\<close>, which is 64 for zero.\<close>

definition trailing_zeros :: "u64 \<Rightarrow> nat" where
  "trailing_zeros m = length (takeWhile (\<lambda>i. \<not> bit m i) [0..<64])"

definition avx512_pack :: "bytes \<Rightarrow> bytes \<Rightarrow> bytes" where
  "avx512_pack indices decode_shuffle =
     (let merged = maddubs_epi16 indices (set1 16 (0x01400140 :: u32));
          packed = madd_epi16 merged (set1 16 (0x00011000 :: u32))
      in permutexvar_epi8 decode_shuffle packed)"

definition avx512_decode_64 ::
  "bytes \<Rightarrow> nat \<Rightarrow> bytes \<Rightarrow> bytes \<Rightarrow> bytes \<Rightarrow> bool \<Rightarrow> (bytes \<times> u64) option" where
  "avx512_decode_64 input source lower_table upper_table decode_shuffle check =
     do {
       ascii \<leftarrow> slice input source 64;
       let indices = permutex2var_epi8 lower_table ascii upper_table;
       let invalid = (if check then movepi8_mask (or_si indices ascii) else 0);
       Some (avx512_pack indices decode_shuffle, invalid)
     }"

definition avx512_classify_64 :: "bytes \<Rightarrow> nat \<Rightarrow> bytes \<Rightarrow> bytes \<Rightarrow> (bytes \<times> u64) option" where
  "avx512_classify_64 input source lower_table upper_table =
     do {
       ascii \<leftarrow> slice input source 64;
       let indices = permutex2var_epi8 lower_table ascii upper_table;
       let invalid = movepi8_mask (or_si indices ascii);
       Some (indices, invalid)
     }"

definition avx512_classify_masked :: "bytes \<Rightarrow> nat \<Rightarrow> u64 \<Rightarrow> bytes \<Rightarrow> bytes \<Rightarrow> (bytes \<times> u64) option" where
  "avx512_classify_masked input source input_mask lower_table upper_table =
     do {
       ascii \<leftarrow> maskz_loadu_epi8 input_mask input source;
       let indices = permutex2var_epi8 lower_table ascii upper_table;
       let invalid = movepi8_mask (or_si indices ascii) AND input_mask;
       Some (indices, invalid)
     }"

definition avx512_decode_tail ::
  "decoder \<Rightarrow> bytes \<Rightarrow> nat \<Rightarrow> nat \<Rightarrow> bytes \<Rightarrow> bytes \<Rightarrow> bytes \<Rightarrow> (bytes \<times> u64) option" where
  "avx512_decode_tail A input source input_len lower_table upper_table decode_shuffle =
     do {
       input_mask \<leftarrow> active_lane_mask input_len;
       (indices, invalid) \<leftarrow> avx512_classify_masked input source input_mask lower_table upper_table;
       let invalid = (if check_input A then invalid else 0);
       Some (avx512_pack indices decode_shuffle, invalid)
     }"

section \<open>The kernel\<close>

text \<open>The masked store of the last groups: a shift by 64 or more would panic.\<close>

definition avx512_store_tail :: "bytes \<Rightarrow> nat \<Rightarrow> nat \<Rightarrow> bytes \<Rightarrow> bytes option" where
  "avx512_store_tail output destination complete_output packed_bytes =
     do {
       guard (complete_output < 64);
       let output_mask = push_bit complete_output 1 - 1;
       mask_storeu_epi8 output destination output_mask packed_bytes
     }"

definition avx512_decode ::
  "(cpu_feature \<Rightarrow> bool) \<Rightarrow> nat \<Rightarrow> decoder \<Rightarrow> store_policy \<Rightarrow> bytes \<Rightarrow> bytes
    \<Rightarrow> (base64_error \<times> bytes + nat \<times> nat \<times> bytes) option" where
  "avx512_decode cpu address A S input output =
     (if length input < 64 then target_feature cpu [Avx2] (avx2_decode address A S input output)
      else do {
        lower_table \<leftarrow> slice (decoder_table A) 0 64;
        upper_table \<leftarrow> slice (decoder_table A) 64 64;
        let decode_shuffle = DECODE_SHUFFLE;
        and_then (try_while (length input) 128 128 (\<lambda>source (destination, output). do {
            (first, first_invalid) \<leftarrow>
              avx512_decode_64 input source lower_table upper_table decode_shuffle (check_input A);
            (second, second_invalid) \<leftarrow>
              avx512_decode_64 input (source + 64) lower_table upper_table decode_shuffle (check_input A);
            (if first_invalid OR second_invalid \<noteq> 0 then Some (Inl (InvalidInput, output))
             else do {
               output \<leftarrow> mask_storeu_epi8 output destination OUTPUT_MASK_48 first;
               output \<leftarrow> mask_storeu_epi8 output (destination + 48) OUTPUT_MASK_48 second;
               Some (Inr (destination + 96, output)) }) }) 0 (0, output)) (\<lambda>(source, state).
        and_then (try_while (length input) 64 64 (\<lambda>source (destination, output). do {
            (decoded, invalid) \<leftarrow>
              avx512_decode_64 input source lower_table upper_table decode_shuffle (check_input A);
            (if invalid \<noteq> 0 then Some (Inl (InvalidInput, output))
             else do {
               output \<leftarrow> mask_storeu_epi8 output destination OUTPUT_MASK_48 decoded;
               Some (Inr (destination + 48, output)) }) }) source state) (\<lambda>(source, destination, output).
        let complete_input = (length input - source) div 4 * 4 in
        (if complete_input \<noteq> 0 then do {
           (decoded, invalid) \<leftarrow>
             avx512_decode_tail A input source complete_input lower_table upper_table decode_shuffle;
           (if invalid \<noteq> 0 then Some (Inl (InvalidInput, output))
            else do {
              let complete_output = complete_input div 4 * 3;
              output \<leftarrow> avx512_store_tail output destination complete_output decoded;
              Some (Inr (source + complete_input, destination + complete_output, output)) }) }
         else Some (Inr (source, destination, output))))) })"

definition avx512_validate :: "(cpu_feature \<Rightarrow> bool) \<Rightarrow> decoder \<Rightarrow> bytes \<Rightarrow> (base64_error + nat) option" where
  "avx512_validate cpu A input =
     (if length input < 64 then target_feature cpu [Avx2] (avx2_validate A input)
      else do {
        lower_table \<leftarrow> slice (decoder_table A) 0 64;
        upper_table \<leftarrow> slice (decoder_table A) 64 64;
        and_then (try_while (length input) 64 64 (\<lambda>source _. do {
            (_, invalid) \<leftarrow> avx512_classify_64 input source lower_table upper_table;
            (if invalid \<noteq> 0 then Some (Inl InvalidInput) else Some (Inr ())) }) 0 ()) (\<lambda>(source, _).
        let remaining = length input - source in
        (if remaining \<noteq> 0 then do {
           guard (remaining < 64);
           let input_mask = push_bit remaining 1 - 1;
           (_, invalid) \<leftarrow> avx512_classify_masked input source input_mask lower_table upper_table;
           (if invalid \<noteq> 0 then Some (Inl InvalidInput) else Some (Inr (source + remaining))) }
         else Some (Inr source))) })"

definition avx512_decode_prefix ::
  "(cpu_feature \<Rightarrow> bool) \<Rightarrow> nat \<Rightarrow> decoder \<Rightarrow> bytes \<Rightarrow> bytes \<Rightarrow> (nat \<times> nat \<times> bytes) option" where
  "avx512_decode_prefix cpu address A input output =
     (if length input < 64 then target_feature cpu [Avx2] (avx2_decode_prefix address A input output)
      else do {
        lower_table \<leftarrow> slice (decoder_table A) 0 64;
        upper_table \<leftarrow> slice (decoder_table A) 64 64;
        let decode_shuffle = DECODE_SHUFFLE;
        after_break (try_while (length input) 128 128 (\<lambda>source (destination, output). do {
            (first, first_invalid) \<leftarrow>
              avx512_decode_64 input source lower_table upper_table decode_shuffle (check_input A);
            (second, second_invalid) \<leftarrow>
              avx512_decode_64 input (source + 64) lower_table upper_table decode_shuffle (check_input A);
            (if first_invalid OR second_invalid \<noteq> 0 then Some (Inl (source, destination, output))
             else do {
               output \<leftarrow> mask_storeu_epi8 output destination OUTPUT_MASK_48 first;
               output \<leftarrow> mask_storeu_epi8 output (destination + 48) OUTPUT_MASK_48 second;
               Some (Inr (destination + 96, output)) }) }) 0 (0, output)) (\<lambda>source state.
        after_break (try_while (length input) 64 64 (\<lambda>source (destination, output). do {
            (decoded, invalid) \<leftarrow>
              avx512_decode_64 input source lower_table upper_table decode_shuffle (check_input A);
            (if invalid \<noteq> 0 then Some (Inl (source, destination, output))
             else do {
               output \<leftarrow> mask_storeu_epi8 output destination OUTPUT_MASK_48 decoded;
               Some (Inr (destination + 48, output)) }) }) source state) (\<lambda>source (destination, output).
        let complete_input = min (length input - source) 64 div 4 * 4 in
        (if complete_input \<noteq> 0 then do {
           (decoded, invalid) \<leftarrow>
             avx512_decode_tail A input source complete_input lower_table upper_table decode_shuffle;
           let valid_input = (if invalid = 0 then complete_input
             else min (trailing_zeros invalid div 4 * 4) complete_input);
           (if valid_input \<noteq> 0 then do {
              let valid_output = valid_input div 4 * 3;
              output \<leftarrow> avx512_store_tail output destination valid_output decoded;
              Some (source + valid_input, destination + valid_output, output) }
            else Some (source, destination, output)) }
         else Some (source, destination, output)))) })"

section \<open>Look-ups in both halves of the table\<close>

definition lookup_128 :: "decode_alphabet \<Rightarrow> u8 \<Rightarrow> u8" where
  "lookup_128 a b = table_of a ! unat (b AND 127)"

lemma low_seven: "unat (b AND 127) < 128" for b :: u8
proof -
  have "b AND 127 = take_bit 7 b" by (simp add: take_bit_eq_mask mask_eq_exp_minus_1)
  then show ?thesis using take_bit_nat_less_exp [of 7 "unat b"] by (simp add: unsigned_take_bit_eq)
qed

lemma permutex2_lookup:
  "permutex2var_epi8 (take 64 (table_of a)) v (take 64 (drop 64 (table_of a))) = map (lookup_128 a) v"
proof -
  have "take 64 (table_of a) @ take 64 (drop 64 (table_of a)) = take 128 (table_of a)"
    using take_add [of 64 64 "table_of a"] by simp
  then show ?thesis by (simp add: permutex2var_epi8_def lookup_128_def low_seven)
qed

lemma high_bit_invalid:
  "entries_from (\<lambda>b v. bit b 7 \<longrightarrow> v = 255) 0 STANDARD_DECODE"
  "entries_from (\<lambda>b v. bit b 7 \<longrightarrow> v = 255) 0 URLSAFE_DECODE"
  "entries_from (\<lambda>b v. bit b 7 \<longrightarrow> v = 255) 0 MIXED_DECODE"
  by code_simp+

lemma high_bit_no_symbol:
  assumes "bit b 7"
  shows "symbol_value a b = None"
proof -
  note t = high_bit_invalid(1) [THEN entries_of_table, of b] high_bit_invalid(2) [THEN entries_of_table, of b]
    high_bit_invalid(3) [THEN entries_of_table, of b]
  have "table_of a ! unat b = 255"
    using t length_table_of [of a] assms by (cases a) (simp_all only: table_of.simps simp_thms)
  then show ?thesis using invalid_iff_no_symbol [of a b] unfolding INVALID_VALUE_byte by simp
qed

lemma lookup_low: "\<not> bit b 7 \<Longrightarrow> lookup_128 a b = table_of a ! unat b"
proof -
  assume "\<not> bit b 7"
  then have "b AND 127 = b" by (simp add: byte_eq_bits bit_simps)
  then show ?thesis by (simp add: lookup_128_def)
qed

lemma lookup_symbol: "symbol_value a b \<noteq> None \<Longrightarrow> lookup_128 a b = table_of a ! unat b"
  using high_bit_no_symbol [of b a] lookup_low [of b a] by (cases "bit b 7") simp_all

lemma lookup_top_bit: "bit (lookup_128 a b OR b) 7 \<longleftrightarrow> symbol_value a b = None"
proof (cases "bit b 7")
  case True
  then show ?thesis using high_bit_no_symbol [of b a] by (simp add: bit_simps)
next
  case False
  have "bit (table_of a ! unat b) 7 \<longleftrightarrow> symbol_value a b = None"
    using symbol_value_less [of a b]
    by (auto simp: table_value INVALID_VALUE_def sextet_iff_bits split: option.splits)
  with False show ?thesis by (simp add: lookup_low bit_simps)
qed

lemma length_map_or: "length (or_si (map f v) v) = length v"
  by (simp add: or_si_def)

lemma bit_invalid_mask:
  assumes "length v = 64"
  shows "bit (movepi8_mask (or_si (map (lookup_128 a) v) v)) i \<longleftrightarrow> i < 64 \<and> symbol_value a (v ! i) = None"
  using assms by (auto simp: bit_movepi8_mask length_map_or or_si_def lookup_top_bit)

lemma zero_iff_bits: "m = 0 \<longleftrightarrow> (\<forall>i < 64. \<not> bit m i)" for m :: u64
proof
  assume "\<forall>i < 64. \<not> bit m i"
  then show "m = 0" by (intro bit_word_eqI) simp
qed simp

lemma invalid_mask_zero:
  assumes "length v = 64"
  shows "movepi8_mask (or_si (map (lookup_128 a) v) v) = 0 \<longleftrightarrow> all_symbols a v"
  unfolding zero_iff_bits using assms by (auto simp: bit_invalid_mask all_symbols_def list_all_length)

lemma map_lookup: "all_symbols a v \<Longrightarrow> map (lookup_128 a) v = symbol_values a v"
  by (auto simp: all_symbols_def list_all_iff symbol_values_def lookup_symbol)

section \<open>Packing\<close>

text \<open>The first three of four bytes, in reverse.\<close>

fun compress :: "bytes \<Rightarrow> bytes" where
  "compress (x # y # z # w # v) = [z, y, x] @ compress v"
| "compress _ = []"

lemma compress_spread: "4 dvd length vs \<Longrightarrow> compress (spread_octets vs) = octets vs"
  by (induction vs rule: spread_octets.induct) (auto simp: dvd_Suc_group dest: dvd_imp_le)

lemma compress_nth:
  "4 * k \<le> length v \<Longrightarrow>
   compress (take (4 * k) v) = concat (map (\<lambda>g. [v ! (4 * g + 2), v ! (4 * g + 1), v ! (4 * g)]) [0..<k])"
proof (induction v arbitrary: k rule: compress.induct)
  case (1 x y z w v)
  show ?case
  proof (cases k)
    case (Suc j)
    have u: "[0..<Suc j] = 0 # map Suc [0..<j]" by (simp add: map_Suc_upt upt_conv_Cons del: upt_Suc)
    have "4 * Suc j = Suc (Suc (Suc (Suc (4 * j))))" by simp
    then have t: "take (4 * Suc j) (x # y # z # w # v) = x # y # z # w # take (4 * j) v"
      by (simp only: take_Suc_Cons)
    have "4 * j \<le> length v" using 1(2) Suc by simp
    from 1(1) [OF this] show ?thesis unfolding Suc t compress.simps u by (simp add: comp_def)
  qed simp
qed (rename_tac k, case_tac k; simp)+

lemma DECODE_SHUFFLE_indices:
  "map (\<lambda>i. unat (i AND 63)) DECODE_SHUFFLE
     = concat (map (\<lambda>g. [4 * g + 2, 4 * g + 1, 4 * g]) [0..<16]) @ replicate 16 0"
  by code_simp

lemma permute_compress:
  assumes "length v = 64" "k \<le> 16"
  shows "take (3 * k) (permutexvar_epi8 DECODE_SHUFFLE v) = compress (take (4 * k) v)"
proof -
  let ?g = "\<lambda>g. [v ! (4 * g + 2), v ! (4 * g + 1), v ! (4 * g)]"
  have "permutexvar_epi8 DECODE_SHUFFLE v = map ((!) v) (map (\<lambda>i. unat (i AND 63)) DECODE_SHUFFLE)"
    by (simp add: permutexvar_epi8_def)
  also have "\<dots> = concat (map ?g [0..<16]) @ replicate 16 (v ! 0)"
    by (simp only: DECODE_SHUFFLE_indices map_append map_concat map_map comp_def list.map map_replicate)
  also have "[0..<16] = [0..<k] @ [k..<16]" using assms(2) by (metis le0 upt_add_eq_append le_add_diff_inverse)
  finally have "permutexvar_epi8 DECODE_SHUFFLE v
      = concat (map ?g [0..<k]) @ concat (map ?g [k..<16]) @ replicate 16 (v ! 0)" by simp
  moreover have "length (concat (map ?g [0..<k])) = 3 * k"
    using length_concat_const [of "[0..<k]" ?g 3] by simp
  ultimately show ?thesis using assms by (simp add: compress_nth)
qed

lemma avx512_pack_prefix:
  assumes "length ix = 64" "n = 4 * k" "k \<le> 16" "list_all (\<lambda>v. v < 64) (take n ix)"
  shows "take (n div 4 * 3) (avx512_pack ix DECODE_SHUFFLE) = octets (take n ix)"
proof -
  have p: "avx512_pack ix DECODE_SHUFFLE = permutexvar_epi8 DECODE_SHUFFLE (packed 16 ix)"
    by (simp add: avx512_pack_def packed_def)
  have "packed 16 ix = packed k (take n ix) @ packed (16 - k) (drop n ix)"
    using packed_append [of "take n ix" k "16 - k" "drop n ix"] assms(1-3) by simp
  moreover have "packed k (take n ix) = spread_octets (take n ix)"
    using assms by (intro packed_groups) simp_all
  ultimately have "take n (packed 16 ix) = spread_octets (take n ix)"
    using assms(1-3) by (simp add: length_spread)
  then show ?thesis
    using permute_compress [of "packed 16 ix" k] assms
    by (simp add: p length_packed compress_spread mult.commute)
qed

text \<open>The masks.\<close>

lemma bit_active_lanes: "n \<le> 64 \<Longrightarrow> bit (drop_bit (64 - n) (- 1) :: u64) i \<longleftrightarrow> i < n"
  by (auto simp: bit_simps)

lemma length_avx512_pack: "length (avx512_pack ix DECODE_SHUFFLE) = 64"
proof -
  have "length DECODE_SHUFFLE = 64" by code_simp
  then show ?thesis by (simp add: avx512_pack_def permutexvar_epi8_def)
qed

lemma bit_OUTPUT_MASK_48: "bit OUTPUT_MASK_48 i \<longleftrightarrow> i < 48"
proof -
  have "bit (2 ^ 48 - 1 :: u64) i \<longleftrightarrow> i < 48" by (rule bit_low_mask) simp
  then show ?thesis unfolding OUTPUT_MASK_48_def push_bit_eq_mult mult_1_left .
qed

lemma store_48:
  assumes "length ix = 64" "list_all (\<lambda>v. v < 64) ix"
  shows "mask_storeu_epi8 m d OUTPUT_MASK_48 (avx512_pack ix DECODE_SHUFFLE) = store m d (octets ix)"
proof -
  have whole: "take 64 ix = ix" using assms(1) by simp
  have "take (64 div 4 * 3) (avx512_pack ix DECODE_SHUFFLE) = octets (take 64 ix)"
    by (rule avx512_pack_prefix [where k = 16]) (use assms whole in simp_all)
  moreover have "mask_storeu_epi8 m d OUTPUT_MASK_48 (avx512_pack ix DECODE_SHUFFLE)
      = (if 48 = (0 :: nat) then Some m else store m d (take 48 (avx512_pack ix DECODE_SHUFFLE)))"
    by (rule mask_storeu_prefix) (simp_all add: bit_OUTPUT_MASK_48 length_avx512_pack)
  ultimately show ?thesis by (simp add: whole)
qed

lemma store_tail:
  assumes "length ix = 64" "4 dvd n" "0 < n" "n \<le> 64" "list_all (\<lambda>v. v < 64) (take n ix)"
  shows "avx512_store_tail m d (n div 4 * 3) (avx512_pack ix DECODE_SHUFFLE) = store m d (octets (take n ix))"
proof -
  obtain k where k: "n = 4 * k" "k \<le> 16" "0 < k" using assms(2-4) by (auto elim!: dvdE)
  then have "n div 4 * 3 < 64" "0 < n div 4 * 3" by auto
  then show ?thesis
    using mask_storeu_prefix [of "2 ^ (n div 4 * 3) - 1" "n div 4 * 3" "avx512_pack ix DECODE_SHUFFLE" m d]
      avx512_pack_prefix [OF assms(1) k(1,2) assms(5)]
    by (simp add: avx512_store_tail_def bit_low_mask length_avx512_pack)
qed

section \<open>The kernel keeps its contracts\<close>

text \<open>A complete register.\<close>

lemma decode_64_cases:
  assumes "off + 64 \<le> length input" "check \<or> all_symbols a input"
  obtains v inv where
    "avx512_decode_64 input off (take 64 (table_of a)) (take 64 (drop 64 (table_of a))) DECODE_SHUFFLE check
      = Some (v, inv)"
    "inv = 0 \<longleftrightarrow> all_symbols a (take 64 (drop off input))"
    "\<And>m d. all_symbols a (take 64 (drop off input)) \<Longrightarrow> mask_storeu_epi8 m d OUTPUT_MASK_48 v
      = store m d (decoded_bytes a (take 64 (drop off input)))"
proof -
  let ?b = "take 64 (drop off input)"
  have len: "length ?b = 64" using assms(1) by simp
  let ?inv = "if check then movepi8_mask (or_si (map (lookup_128 a) ?b) ?b) else 0"
  have "?inv = 0 \<longleftrightarrow> all_symbols a ?b"
    using assms(2) invalid_mask_zero [OF len, of a] not_all_symbols_block [of a 64 off input] by auto
  moreover have "mask_storeu_epi8 m d OUTPUT_MASK_48 (avx512_pack (map (lookup_128 a) ?b) DECODE_SHUFFLE)
      = store m d (decoded_bytes a ?b)" if "all_symbols a ?b" for m d
    using store_48 [of "map (lookup_128 a) ?b" m d] map_lookup [OF that] symbol_values_less [OF that] len
    by (simp add: decoded_bytes_def)
  moreover have "avx512_decode_64 input off (take 64 (table_of a)) (take 64 (drop 64 (table_of a)))
      DECODE_SHUFFLE check = Some (avx512_pack (map (lookup_128 a) ?b) DECODE_SHUFFLE, ?inv)"
    using assms(1) by (simp add: avx512_decode_64_def slice_simps permutex2_lookup)
  ultimately show thesis using that by blast
qed

lemma avx512_group_64:
  assumes ok: "check \<or> all_symbols a input"
  shows "group_step a slack input 64 stop (\<lambda>source (destination, output). do {
            (decoded, invalid) \<leftarrow> avx512_decode_64 input source (take 64 (table_of a))
              (take 64 (drop 64 (table_of a))) DECODE_SHUFFLE check;
            (if invalid \<noteq> 0 then Some (Inl (stop source destination output))
             else do {
               output \<leftarrow> mask_storeu_epi8 output destination OUTPUT_MASK_48 decoded;
               Some (Inr (destination + 48, output)) }) })"
    (is "group_step _ _ _ _ _ ?body")
  unfolding group_step_def
proof (intro allI impI)
  fix off d m assume fit: "off + 64 \<le> length input"
  show "if all_symbols a (take 64 (drop off input))
    then \<exists>rest. length rest \<le> slack \<and> ?body off (d, m)
      = store m d (decoded_bytes a (take 64 (drop off input)) @ rest) \<bind> (\<lambda>m. Some (Inr (d + 64 div 4 * 3, m)))
    else ?body off (d, m) = Some (Inl (stop off d m))"
    by (rule decode_64_cases [OF fit ok]) (auto intro: exI [of _ "[]"])
qed

lemma avx512_group_128:
  assumes ok: "check \<or> all_symbols a input"
  shows "group_step a slack input 128 stop (\<lambda>source (destination, output). do {
            (first, first_invalid) \<leftarrow> avx512_decode_64 input source (take 64 (table_of a))
              (take 64 (drop 64 (table_of a))) DECODE_SHUFFLE check;
            (second, second_invalid) \<leftarrow> avx512_decode_64 input (source + 64) (take 64 (table_of a))
              (take 64 (drop 64 (table_of a))) DECODE_SHUFFLE check;
            (if first_invalid OR second_invalid \<noteq> 0 then Some (Inl (stop source destination output))
             else do {
               output \<leftarrow> mask_storeu_epi8 output destination OUTPUT_MASK_48 first;
               output \<leftarrow> mask_storeu_epi8 output (destination + 48) OUTPUT_MASK_48 second;
               Some (Inr (destination + 96, output)) }) })"
    (is "group_step _ _ _ _ _ ?body")
  unfolding group_step_def
proof (intro allI impI)
  fix off d m assume fit: "off + 128 \<le> length input"
  let ?x = "take 64 (drop off input)" and ?y = "take 64 (drop (off + 64) input)"
  have b: "take 128 (drop off input) = ?x @ ?y"
    using take_add [of 64 64 "drop off input"] by (simp add: add.commute)
  have fits: "off + 64 \<le> length input" "off + 64 + 64 \<le> length input" using fit by simp_all
  have "decoded_bytes a (?x @ ?y) = decoded_bytes a ?x @ decoded_bytes a ?y"
    using fits by (intro decoded_bytes_append) simp
  moreover have "length (decoded_bytes a ?x) = 48" using fits by (simp add: length_decoded_bytes)
  ultimately have st: "store m d (decoded_bytes a ?x) \<bind> (\<lambda>m. store m (d + 48) (decoded_bytes a ?y))
      = store m d (decoded_bytes a (?x @ ?y))"
    using store_store [of "decoded_bytes a ?x" 48 m d "decoded_bytes a ?y"] by simp
  show "if all_symbols a (take 128 (drop off input))
    then \<exists>rest. length rest \<le> slack \<and> ?body off (d, m)
      = store m d (decoded_bytes a (take 128 (drop off input)) @ rest) \<bind> (\<lambda>m. Some (Inr (d + 128 div 4 * 3, m)))
    else ?body off (d, m) = Some (Inl (stop off d m))"
    unfolding b
    by (rule decode_64_cases [OF fits(1) ok]; rule decode_64_cases [OF fits(2) ok])
      (auto simp: or_zero_iff simp flip: st intro!: exI [of _ "[]"])
qed

text \<open>The last groups, with a mask.\<close>

lemma bit_active_mask: "n \<le> 64 \<Longrightarrow> bit (drop_bit (64 - n) (- 1) :: u64) i \<longleftrightarrow> i < n"
  by (rule bit_active_lanes)

lemma classify_masked_cases:
  assumes "\<And>i. i < 64 \<Longrightarrow> bit m i \<longleftrightarrow> i < n" "n \<le> 64" "off + n \<le> length input"
  obtains ix inv where
    "avx512_classify_masked input off m (take 64 (table_of a)) (take 64 (drop 64 (table_of a))) = Some (ix, inv)"
    "length ix = 64" "inv = 0 \<longleftrightarrow> all_symbols a (take n (drop off input))"
    "\<And>k. k \<le> n \<Longrightarrow> all_symbols a (take k (drop off input)) \<Longrightarrow> take k ix = symbol_values a (take k (drop off input))"
    "\<And>i. i < n \<Longrightarrow> \<not> bit inv i \<Longrightarrow> symbol_value a (input ! (off + i)) \<noteq> None"
proof -
  let ?b = "take n (drop off input)"
  let ?v = "?b @ replicate (64 - n) 0"
  let ?ix = "map (lookup_128 a) ?v"
  let ?inv = "movepi8_mask (or_si ?ix ?v) AND m"
  have len: "length ?v = 64" using assms(2,3) by simp
  have bits: "bit ?inv i \<longleftrightarrow> i < n \<and> symbol_value a (input ! (off + i)) = None" for i
  proof -
    have "bit ?inv i \<longleftrightarrow> (i < 64 \<and> symbol_value a (?v ! i) = None) \<and> bit m i"
      by (simp only: bit_and_iff bit_invalid_mask [OF len])
    then show ?thesis using assms by (auto simp: nth_append)
  qed
  have zero: "?inv = 0 \<longleftrightarrow> all_symbols a ?b"
    unfolding zero_iff_bits bits using assms(2,3) by (auto simp: all_symbols_def list_all_length)
  have vals: "take k ?ix = symbol_values a (take k (drop off input))"
    if "k \<le> n" "all_symbols a (take k (drop off input))" for k
    using map_lookup [OF that(2)] that(1) assms(3) by (simp add: take_map min_absorb1)
  have eq: "avx512_classify_masked input off m (take 64 (table_of a)) (take 64 (drop 64 (table_of a)))
      = Some (?ix, ?inv)"
    using maskz_loadu_prefix [OF assms] by (simp only: avx512_classify_masked_def permutex2_lookup Let_def) simp
  have l: "length ?ix = 64" using len by simp
  show thesis by (rule that [OF eq l zero vals]) (simp_all only: bits simp_thms)
qed

lemma trailing_zeros_clear:
  assumes "j < trailing_zeros m"
  shows "\<not> bit m j"
proof -
  let ?t = "takeWhile (\<lambda>i. \<not> bit m i) [0..<64]"
  have "?t ! j \<in> set ?t" using assms by (simp add: trailing_zeros_def)
  moreover have "?t ! j = [0..<64] ! j" using assms by (intro takeWhile_nth) (simp add: trailing_zeros_def)
  moreover have "j < 64"
    using assms length_takeWhile_le [of "\<lambda>i. \<not> bit m i" "[0..<64]"] by (simp add: trailing_zeros_def)
  ultimately show ?thesis by (auto dest: set_takeWhileD)
qed

lemma decode_tail_cases:
  assumes "4 dvd n" "0 < n" "n \<le> 64" "off + n \<le> length input"
  obtains v inv where
    "avx512_decode_tail A input off n (take 64 (decoder_table A)) (take 64 (drop 64 (decoder_table A)))
      DECODE_SHUFFLE = Some (v, inv)"
    "check_input A \<Longrightarrow> inv = 0 \<longleftrightarrow> all_symbols (decoder_alphabet A) (take n (drop off input))"
    "\<not> check_input A \<Longrightarrow> inv = 0"
    "\<And>k m d. 4 dvd k \<Longrightarrow> 0 < k \<Longrightarrow> k \<le> n \<Longrightarrow> all_symbols (decoder_alphabet A) (take k (drop off input)) \<Longrightarrow>
      avx512_store_tail m d (k div 4 * 3) v = store m d (decoded_bytes (decoder_alphabet A) (take k (drop off input)))"
    "\<And>i. check_input A \<Longrightarrow> i < n \<Longrightarrow> \<not> bit inv i \<Longrightarrow> symbol_value (decoder_alphabet A) (input ! (off + i)) \<noteq> None"
proof -
  let ?a = "decoder_alphabet A" and ?m = "drop_bit (64 - n) (- 1) :: u64"
  obtain ix inv where c:
    "avx512_classify_masked input off ?m (take 64 (table_of ?a)) (take 64 (drop 64 (table_of ?a))) = Some (ix, inv)"
    "length ix = 64" "inv = 0 \<longleftrightarrow> all_symbols ?a (take n (drop off input))"
    "\<And>k. k \<le> n \<Longrightarrow> all_symbols ?a (take k (drop off input)) \<Longrightarrow> take k ix = symbol_values ?a (take k (drop off input))"
    "\<And>i. i < n \<Longrightarrow> \<not> bit inv i \<Longrightarrow> symbol_value ?a (input ! (off + i)) \<noteq> None"
    by (rule classify_masked_cases [OF bit_active_lanes, OF assms(3,3,4)]) blast
  have st: "avx512_store_tail m d (k div 4 * 3) (avx512_pack ix DECODE_SHUFFLE)
      = store m d (decoded_bytes ?a (take k (drop off input)))"
    if "4 dvd k" "0 < k" "k \<le> n" "all_symbols ?a (take k (drop off input))" for k m d
    using store_tail [OF c(2) that(1,2), of m d] c(4) [OF that(3,4)] symbol_values_less [OF that(4)] that(3) assms(3)
    by (simp add: decoded_bytes_def)
  show thesis
    by (rule that [of "avx512_pack ix DECODE_SHUFFLE" "if check_input A then inv else 0"])
      (use c(1,3,5) assms(2,3) st in \<open>simp_all add: avx512_decode_tail_def active_lane_mask_def decoder_table_of\<close>)
qed

lemma table_halves:
  "slice (decoder_table A) 0 64 = Some (take 64 (decoder_table A))"
  "slice (decoder_table A) 64 64 = Some (take 64 (drop 64 (decoder_table A)))"
  by (simp_all add: decoder_table_of slice_simps)

lemma avx512_decode_outcome:
  assumes "cpu Avx2" and ok: "check_input A \<or> all_symbols (decoder_alphabet A) input"
    and fit: "length input div 4 * 3 + slack_of S \<le> length mem"
  shows "\<exists>r. avx512_decode cpu address A S input mem = Some r
    \<and> decode_outcome (decoder_alphabet A) (slack_of S) v input mem r"
proof (cases "length input < 64")
  case True
  then show ?thesis using assms(1) avx2_decode_outcome [OF ok fit] by (simp add: avx512_decode_def)
next
  case False
  let ?stop = "\<lambda>n d m. (InvalidInput, m) :: base64_error \<times> bytes" and ?a = "decoder_alphabet A"
  note loops = reached_loop [OF avx512_group_128 [OF ok] _ _ _ fit, where stop = ?stop]
  let ?r = "\<lambda>r. reached ?a (slack_of S) input mem ?stop r"
  have tail: "\<exists>r. (let complete_input = (length input - n) div 4 * 4 in
        (if complete_input \<noteq> 0 then do {
           (decoded, invalid) \<leftarrow> avx512_decode_tail A input n complete_input (take 64 (decoder_table A))
             (take 64 (drop 64 (decoder_table A))) DECODE_SHUFFLE;
           (if invalid \<noteq> 0 then Some (Inl (InvalidInput, m))
            else do {
              let complete_output = complete_input div 4 * 3;
              output \<leftarrow> avx512_store_tail m (n div 4 * 3) complete_output decoded;
              Some (Inr (n + complete_input, n div 4 * 3 + complete_output, output)) }) }
         else Some (Inr (n, n div 4 * 3, m)))) = Some r \<and> ?r r"
    if d: "decoded ?a (slack_of S) input n mem m" and "length input < n + 64" for n m
  proof -
    let ?k = "(length input - n) div 4 * 4"
    show ?thesis
    proof (cases "?k = 0")
      case True
      with d show ?thesis by (simp add: reached_def)
    next
      case False
      have k: "4 dvd ?k" "0 < ?k" "?k \<le> 64" "n + ?k \<le> length input"
        using False that decodedD(2) [OF d] by auto
      obtain v inv where t:
        "avx512_decode_tail A input n ?k (take 64 (decoder_table A)) (take 64 (drop 64 (decoder_table A)))
          DECODE_SHUFFLE = Some (v, inv)"
        "check_input A \<Longrightarrow> inv = 0 \<longleftrightarrow> all_symbols ?a (take ?k (drop n input))"
        "\<not> check_input A \<Longrightarrow> inv = 0"
        "\<And>k m d. 4 dvd k \<Longrightarrow> 0 < k \<Longrightarrow> k \<le> ?k \<Longrightarrow> all_symbols ?a (take k (drop n input)) \<Longrightarrow>
          avx512_store_tail m d (k div 4 * 3) v = store m d (decoded_bytes ?a (take k (drop n input)))"
        by (rule decode_tail_cases [OF k, of A]) blast
      have inv: "inv = 0 \<longleftrightarrow> all_symbols ?a (take ?k (drop n input))"
        using t(2,3) ok not_all_symbols_block [of ?a ?k n input] by blast
      show ?thesis
      proof (cases "all_symbols ?a (take ?k (drop n input))")
        case True
        obtain m' where m': "store m (n div 4 * 3) (decoded_bytes ?a (take ?k (drop n input))) = Some m'"
          "decoded ?a (slack_of S) input (n + ?k) mem m'"
          using decoded_exact_step [OF d k(1,4) True fit] by blast
        have "n div 4 * 3 + ?k div 4 * 3 = (n + ?k) div 4 * 3"
          using decodedD(1) [OF d] by (auto elim!: dvdE)
        then show ?thesis
          using False True t(1) t(4) [OF k(1,2) order.refl True] m' inv by (simp add: Let_def reached_def)
      next
        case no: False
        have "\<not> all_symbols ?a input" using no by (rule not_all_symbols_block)
        then show ?thesis using False no inv t(1) d by (auto simp: Let_def reached_def)
      qed
    qed
  qed
  have "\<exists>r. avx512_decode cpu address A S input mem = Some r \<and> ?r r"
    using False
  proof (simp only: avx512_decode_def if_False table_halves bind.bind_lunit, unfold Let_def, intro reached_and_then, goal_cases)
    case 1
    show ?case using loops(1) [of 0 mem] by (simp add: decoded_start decoder_table_of)
  next
    case (2 n m)
    show ?case
      unfolding prod.case decoder_table_of
    proof (rule reached_loop_then [OF avx512_group_64 [OF ok] _ _ _ fit], goal_cases)
      case (4 n' m')
      then show ?case unfolding prod.case by (rule tail [unfolded Let_def decoder_table_of])
    qed (use 2 in simp_all)
  qed
  then show ?thesis using reached_outcome by blast
qed

lemma avx512_validate_outcome:
  assumes "cpu Avx2" "check_input A"
  shows "\<exists>r. avx512_validate cpu A input = Some r \<and> validated (decoder_alphabet A) input r"
proof (cases "length input < 64")
  case True
  then show ?thesis using assms avx2_validate_outcome by (simp add: avx512_validate_def)
next
  case False
  let ?a = "decoder_alphabet A"
  let ?l = "take 64 (table_of ?a)" and ?u = "take 64 (drop 64 (table_of ?a))"
  have 64: "(do {
         (_, invalid) \<leftarrow> avx512_classify_64 input off ?l ?u;
         (if invalid \<noteq> 0 then Some (Inl InvalidInput) else Some (Inr ())) })
    = Some (if all_symbols ?a (take 64 (drop off input)) then Inr () else Inl InvalidInput)"
    if "off + 64 \<le> length input" for off
    using that invalid_mask_zero [of "take 64 (drop off input)" ?a]
    by (simp add: avx512_classify_64_def slice_simps permutex2_lookup)
  have rest: "\<exists>r. (let remaining = length input - n in
        (if remaining \<noteq> 0 then do {
           guard (remaining < 64);
           let input_mask = push_bit remaining 1 - 1;
           (_, invalid) \<leftarrow> avx512_classify_masked input n input_mask ?l ?u;
           (if invalid \<noteq> 0 then Some (Inl InvalidInput) else Some (Inr (n + remaining))) }
         else Some (Inr n))) = Some r \<and> validated ?a input r"
    if n: "n \<le> length input" "length input < n + 64" "all_symbols ?a (take n input)" for n
  proof (cases "length input - n = 0")
    case False
    let ?k = "length input - n"
    have k: "?k \<le> 64" "n + ?k \<le> length input" "?k < 64" using n by simp_all
    obtain ix inv where c: "avx512_classify_masked input n (2 ^ ?k - 1) ?l ?u = Some (ix, inv)"
      "inv = 0 \<longleftrightarrow> all_symbols ?a (take ?k (drop n input))"
      by (rule classify_masked_cases [OF bit_low_mask, OF k(1) k(1,2)]) blast
    have whole: "all_symbols ?a (drop n input) \<longleftrightarrow> all_symbols ?a input"
      using n(3) all_symbols_whole [of ?a n input] not_all_symbols_block [of ?a ?k n input] by auto
    have "(let remaining = ?k in
        (if remaining \<noteq> 0 then do {
           guard (remaining < 64);
           let input_mask = push_bit remaining 1 - 1;
           (_, invalid) \<leftarrow> avx512_classify_masked input n input_mask ?l ?u;
           (if invalid \<noteq> 0 then Some (Inl InvalidInput) else Some (Inr (n + remaining))) }
         else Some (Inr n))) = Some (if all_symbols ?a input then Inr (n + ?k) else Inl InvalidInput)"
      using False k(3) c by (simp add: Let_def push_bit_eq_mult whole)
    then show ?thesis using n(1) by (simp add: validated_def)
  qed (use n in \<open>simp add: validated_def\<close>)
  have "\<exists>r. avx512_validate cpu A input = Some r \<and> validated ?a input r"
    using False
  proof (simp only: avx512_validate_def if_False table_halves bind.bind_lunit, unfold decoder_table_of,
      intro validate_loop, goal_cases)
    case (1 off)
    then show ?case using 64 by simp
  next
    case (5 n)
    then show ?case using rest by simp
  qed simp_all
  then show ?thesis .
qed

text \<open>
  The prefix decoder: the loop stops at a register with another character, and the masked step
  takes the complete groups before the first of them.
\<close>

lemma avx512_decode_prefix_decoded:
  assumes "cpu Avx2" "check_input A" and fit: "length input div 4 * 3 \<le> length mem"
  shows "prefix_decoded (decoder_alphabet A) input mem (avx512_decode_prefix cpu address A input mem)"
proof (cases "length input < 64")
  case True
  then show ?thesis
    using assms(1) avx2_decode_prefix_decoded [OF assms(2,3)] by (simp add: avx512_decode_prefix_def)
next
  case False
  let ?stop = "\<lambda>n d m. (n, d, m) :: nat \<times> nat \<times> bytes" and ?a = "decoder_alphabet A"
  have fit0: "length input div 4 * 3 + 0 \<le> length mem" using fit by simp
  have ok: "check_input A \<or> all_symbols ?a input" using assms(2) by simp
  note loops = reached_loop [OF avx512_group_128 [OF ok] _ _ _ fit0, where stop = ?stop]
    reached_loop [OF avx512_group_64 [OF ok] _ _ _ fit0, where stop = ?stop]
  have tail: "prefix_decoded ?a input mem (let complete_input = min (length input - n) 64 div 4 * 4 in
        (if complete_input \<noteq> 0 then do {
           (decoded, invalid) \<leftarrow> avx512_decode_tail A input n complete_input (take 64 (decoder_table A))
             (take 64 (drop 64 (decoder_table A))) DECODE_SHUFFLE;
           let valid_input = (if invalid = 0 then complete_input
             else min (trailing_zeros invalid div 4 * 4) complete_input);
           (if valid_input \<noteq> 0 then do {
              let valid_output = valid_input div 4 * 3;
              output \<leftarrow> avx512_store_tail m (n div 4 * 3) valid_output decoded;
              Some (n + valid_input, n div 4 * 3 + valid_output, output) }
            else Some (n, n div 4 * 3, m)) }
         else Some (n, n div 4 * 3, m)))"
    if d: "decoded ?a 0 input n mem m" for n m
  proof -
    let ?k = "min (length input - n) 64 div 4 * 4"
    show ?thesis
    proof (cases "?k = 0")
      case True
      with d show ?thesis by (simp add: Let_def prefix_decoded_Some)
    next
      case False
      have k: "4 dvd ?k" "0 < ?k" "?k \<le> 64" "n + ?k \<le> length input"
        using False decodedD(2) [OF d] by auto
      obtain v inv where t:
        "avx512_decode_tail A input n ?k (take 64 (decoder_table A)) (take 64 (drop 64 (decoder_table A)))
          DECODE_SHUFFLE = Some (v, inv)"
        "check_input A \<Longrightarrow> inv = 0 \<longleftrightarrow> all_symbols ?a (take ?k (drop n input))"
        "\<And>k m d. 4 dvd k \<Longrightarrow> 0 < k \<Longrightarrow> k \<le> ?k \<Longrightarrow> all_symbols ?a (take k (drop n input)) \<Longrightarrow>
          avx512_store_tail m d (k div 4 * 3) v = store m d (decoded_bytes ?a (take k (drop n input)))"
        "\<And>i. check_input A \<Longrightarrow> i < ?k \<Longrightarrow> \<not> bit inv i \<Longrightarrow> symbol_value ?a (input ! (n + i)) \<noteq> None"
        by (rule decode_tail_cases [OF k, of A]) blast
      define j where "j = (if inv = 0 then ?k else min (trailing_zeros inv div 4 * 4) ?k)"
      have j: "4 dvd j" "j \<le> ?k" by (auto simp: j_def min_def)
      have symbols: "all_symbols ?a (take j (drop n input))"
      proof (cases "inv = 0")
        case True
        then show ?thesis using t(2) [OF assms(2)] by (simp add: j_def)
      next
        case False
        have "symbol_value ?a (input ! (n + i)) \<noteq> None" if "i < j" for i
        proof (rule t(4) [OF assms(2)])
          show "i < ?k" using that j(2) by simp
          have "i < trailing_zeros inv div 4 * 4" using that False by (simp add: j_def)
          then have "i < trailing_zeros inv"
            using div_times_less_eq_dividend [of "trailing_zeros inv" 4] by linarith
          then show "\<not> bit inv i" by (rule trailing_zeros_clear)
        qed
        then show ?thesis using j(2) k(4) by (simp add: all_symbols_def list_all_length)
      qed
      show ?thesis
      proof (cases "j = 0")
        case True
        then show ?thesis using False t(1) d by (simp add: Let_def prefix_decoded_Some flip: j_def)
      next
        case nz: False
        have "n + j \<le> length input" using j(2) k(4) by simp
        then obtain m' where m': "store m (n div 4 * 3) (decoded_bytes ?a (take j (drop n input))) = Some m'"
          "decoded ?a 0 input (n + j) mem m'"
          using decoded_exact_step [OF d j(1) _ symbols fit0] by blast
        have "n div 4 * 3 + j div 4 * 3 = (n + j) div 4 * 3"
          using decodedD(1) [OF d] j(1) by (auto elim!: dvdE)
        then show ?thesis
          using False nz t(1) t(3) [OF j(1) _ j(2) symbols] m'
          by (simp add: Let_def prefix_decoded_Some flip: j_def)
      qed
    qed
  qed
  show ?thesis
    using False
  proof (simp only: avx512_decode_prefix_def if_False table_halves bind.bind_lunit, unfold Let_def, intro reached_after_break, goal_cases)
    case 1
    show ?case using loops(1) [of 0 mem] by (simp add: decoded_start decoder_table_of)
  next
    case (2 n m)
    then show ?case using loops(2) [of n m] by (simp add: decoder_table_of)
  next
    case (3 n m n' m')
    then show ?case unfolding prod.case by (intro tail [unfolded Let_def])
  qed
qed

interpretation avx512: decode_kernel "avx512_decode (\<lambda>_. True) address A S" "decoder_alphabet A" "slack_of S" v
    "check_input A"
  for address A S v
  by unfold_locales (simp add: avx512_decode_outcome)

interpretation avx512: validate_kernel "avx512_validate (\<lambda>_. True) (decoder_of a)" a for a
  using avx512_validate_outcome [of "\<lambda>_. True" "decoder_of a"] by unfold_locales simp

interpretation avx512: prefix_kernel "avx512_decode_prefix (\<lambda>_. True) address (decoder_of a)" a for address a
  using avx512_decode_prefix_decoded [of "\<lambda>_. True" "decoder_of a"] by unfold_locales simp

end
