(* ===== verification/Base64_Decode_Neon.thy ===== *)
theory Base64_Decode_Neon
  imports Base64_Decode_Sse Base64_Encode_Neon
begin

text \<open>
  The AArch64 NEON decoding kernel, \<open>src/base64/decode/aarch64.rs\<close>.  The plain decoder writes
  chunks of up to 4096 characters before it looks at their errors, so on an error it may have
  written anything within the decoded space; the decoder of validated blocks checks every 64
  characters before it writes them.
\<close>

section \<open>Instructions\<close>

fun deinterleave4 :: "bytes \<Rightarrow> bytes \<times> bytes \<times> bytes \<times> bytes" where
  "deinterleave4 (a # b # c # d # rest) =
     (case deinterleave4 rest of (x, y, z, w) \<Rightarrow> (a # x, b # y, c # z, d # w))"
| "deinterleave4 _ = ([], [], [], [])"

fun interleave3 :: "bytes \<times> bytes \<times> bytes \<Rightarrow> bytes" where
  "interleave3 (a # x, b # y, c # z) = a # b # c # interleave3 (x, y, z)"
| "interleave3 _ = []"

definition vld4 :: "bytes \<Rightarrow> nat \<Rightarrow> (bytes \<times> bytes \<times> bytes \<times> bytes) option" where
  "vld4 input offset = map_option deinterleave4 (slice input offset 64)"

definition vst3 :: "bytes \<Rightarrow> nat \<Rightarrow> bytes \<times> bytes \<times> bytes \<Rightarrow> bytes option" where
  "vst3 output offset v = store output offset (interleave3 v)"

definition vshl_n_u8 :: "nat \<Rightarrow> bytes \<Rightarrow> bytes" where
  "vshl_n_u8 n = map (push_bit n)"

text \<open>A look-up in one register: an index outside gives zero.\<close>

definition vqtbl1 :: "bytes \<Rightarrow> bytes \<Rightarrow> bytes" where
  "vqtbl1 table = map (\<lambda>i. if i < 16 then table ! unat i else 0)"

text \<open>Bitwise select, and the greatest byte.\<close>

definition vbsl :: "bytes \<Rightarrow> bytes \<Rightarrow> bytes \<Rightarrow> bytes" where
  "vbsl m v w = map2 (OR) (map2 (AND) m v) (map2 (\<lambda>c b. NOT c AND b) m w)"

definition vmaxv :: "bytes \<Rightarrow> u8" where
  "vmaxv v = fold max v 0"

section \<open>Tables and look-ups\<close>

definition MIXED_OFFSETS :: bytes where
  "MIXED_OFFSETS = [0, 16, 19, 4, 191, 191, 185, 185, 17, 224, 0, 0, 0, 0, 0, 0]"

definition DECODE_ERROR_CHECK_INTERVAL :: nat where
  "DECODE_ERROR_CHECK_INTERVAL = 4 * 1024"

record decode_tables =
  table_high_classes :: bytes
  table_low_classes :: bytes
  table_offsets :: bytes

definition neon_decode_tables :: "bool \<Rightarrow> bool \<Rightarrow> decode_tables" where
  "neon_decode_tables urlsafe mixed =
     (let (high_classes, low_classes, offsets) =
        (if mixed then (URLSAFE_HIGH_CLASSES, MIXED_LOW_CLASSES, MIXED_OFFSETS)
         else if urlsafe then (URLSAFE_HIGH_CLASSES, URLSAFE_LOW_CLASSES, URLSAFE_OFFSETS)
         else (STANDARD_HIGH_CLASSES, STANDARD_LOW_CLASSES, STANDARD_OFFSETS))
      in \<lparr>table_high_classes = high_classes, table_low_classes = low_classes, table_offsets = offsets\<rparr>)"

definition neon_translate_standard :: "bytes \<Rightarrow> bytes \<Rightarrow> bytes \<Rightarrow> bytes" where
  "neon_translate_standard value high_nibbles offsets =
     (let slash = cmpeq_epi8 value (replicate 16 (ascii CHR ''/''));
          offset_indices = add_epi8 high_nibbles slash
      in add_epi8 value (vqtbl1 offsets offset_indices))"

definition neon_standard_indices :: "bytes \<Rightarrow> bytes \<Rightarrow> bytes" where
  "neon_standard_indices value offsets =
     (let high_nibbles = vshr_n_u8 4 value in neon_translate_standard value high_nibbles offsets)"

definition neon_translate_urlsafe :: "bytes \<Rightarrow> bytes \<Rightarrow> bytes \<Rightarrow> bytes" where
  "neon_translate_urlsafe value high_nibbles offsets =
     (let indices = add_epi8 value (vqtbl1 offsets high_nibbles);
          underscore = cmpeq_epi8 value (replicate 16 (ascii CHR ''_''))
      in add_epi8 indices (and_si underscore (replicate 16 33)))"

definition neon_translate_mixed :: "bytes \<Rightarrow> bytes \<Rightarrow> bytes \<Rightarrow> bytes" where
  "neon_translate_mixed value high_nibbles offsets =
     (let slash = cmpeq_epi8 value (replicate 16 (ascii CHR ''/''));
          dash = cmpeq_epi8 value (replicate 16 (ascii CHR ''-''));
          underscore = cmpeq_epi8 value (replicate 16 (ascii CHR ''_''));
          offset_indices = add_epi8 high_nibbles slash;
          offset_indices = vbsl dash (replicate 16 8) offset_indices;
          offset_indices = vbsl underscore (replicate 16 9) offset_indices
      in add_epi8 value (vqtbl1 offsets offset_indices))"

definition neon_decode_indices :: "bool \<Rightarrow> bool \<Rightarrow> bytes \<Rightarrow> decode_tables \<Rightarrow> bytes \<times> bytes" where
  "neon_decode_indices urlsafe mixed value tables =
     (let high_nibbles = vshr_n_u8 4 value;
          low_nibbles = and_si value (replicate 16 0x0f);
          errors = and_si (vqtbl1 (table_high_classes tables) high_nibbles)
            (vqtbl1 (table_low_classes tables) low_nibbles);
          translate = (if mixed then neon_translate_mixed
            else if urlsafe then neon_translate_urlsafe else neon_translate_standard)
      in (translate value high_nibbles (table_offsets tables), errors))"

definition neon_pack_indices :: "bytes \<Rightarrow> bytes \<Rightarrow> bytes \<Rightarrow> bytes \<Rightarrow> bytes \<times> bytes \<times> bytes" where
  "neon_pack_indices first second third fourth =
     (or_si (vshl_n_u8 2 first) (vshr_n_u8 4 second),
      or_si (vshl_n_u8 4 second) (vshr_n_u8 2 third),
      or_si (vshl_n_u8 6 third) fourth)"

definition neon_decode_64 ::
  "bool \<Rightarrow> bool \<Rightarrow> bytes \<Rightarrow> nat \<Rightarrow> decode_tables \<Rightarrow> ((bytes \<times> bytes \<times> bytes) \<times> bytes) option" where
  "neon_decode_64 urlsafe mixed input source tables =
     do {
       (input0, input1, input2, input3) \<leftarrow> vld4 input source;
       let (first, first_errors) = neon_decode_indices urlsafe mixed input0 tables;
       let (second, second_errors) = neon_decode_indices urlsafe mixed input1 tables;
       let (third, third_errors) = neon_decode_indices urlsafe mixed input2 tables;
       let (fourth, fourth_errors) = neon_decode_indices urlsafe mixed input3 tables;
       let errors = or_si (or_si first_errors second_errors) (or_si third_errors fourth_errors);
       Some (neon_pack_indices first second third fourth, errors)
     }"

definition neon_store_indices_16 :: "bytes \<Rightarrow> bytes \<Rightarrow> nat \<Rightarrow> bytes option" where
  "neon_store_indices_16 indices output destination =
     foldM (\<lambda>group output. do {
       let source = group * 4;
       first \<leftarrow> get indices source;
       second \<leftarrow> get indices (source + 1);
       third \<leftarrow> get indices (source + 2);
       fourth \<leftarrow> get indices (source + 3);
       output \<leftarrow> store output (destination + group * 3) [push_bit 2 first OR drop_bit 4 second];
       output \<leftarrow> store output (destination + group * 3 + 1) [push_bit 4 second OR drop_bit 2 third];
       store output (destination + group * 3 + 2) [push_bit 6 third OR fourth] }) [0, 1, 2, 3] output"

section \<open>The kernels\<close>

text \<open>
  A loop whose body returns the offset it reached.  A body that made no progress would repeat for
  ever, which is \<open>None\<close>.
\<close>

function try_chunks ::
  "nat \<Rightarrow> nat \<Rightarrow> (nat \<Rightarrow> 's \<Rightarrow> ('e + nat \<times> 's) option) \<Rightarrow> nat \<Rightarrow> 's \<Rightarrow> ('e + nat \<times> 's) option" where
  "try_chunks len width body off s =
     (if off + width \<le> len
      then and_then (body off s) (\<lambda>(off', s'). if off < off' then try_chunks len width body off' s' else None)
      else Some (Inr (off, s)))"
  by pat_completeness auto
termination
  by (relation "measure (\<lambda>(len, width, body, off, s). Suc len - off)") auto

declare try_chunks.simps [simp del]

definition neon_decode_16 ::
  "bool \<Rightarrow> bool \<Rightarrow> bytes \<Rightarrow> nat \<Rightarrow> bytes \<Rightarrow> nat \<Rightarrow> decode_tables \<Rightarrow> (base64_error \<times> bytes + bytes) option" where
  "neon_decode_16 urlsafe mixed input source output destination tables =
     do {
       block \<leftarrow> slice input source 16;
       let (indices, errors) = neon_decode_indices urlsafe mixed block tables;
       (if vmaxv errors \<noteq> 0 then Some (Inl (InvalidInput, output))
        else do {
          output \<leftarrow> neon_store_indices_16 indices output destination;
          Some (Inr output) })
     }"

definition neon_decode_tail ::
  "bool \<Rightarrow> bool \<Rightarrow> bytes \<Rightarrow> bytes \<Rightarrow> decode_tables \<Rightarrow> nat \<Rightarrow> nat
    \<Rightarrow> (base64_error \<times> bytes + nat \<times> nat \<times> bytes) option" where
  "neon_decode_tail urlsafe mixed input output tables source destination =
     try_while (length input) 16 16 (\<lambda>source (destination, output).
       and_then (neon_decode_16 urlsafe mixed input source output destination tables) (\<lambda>output.
         Some (Inr (destination + 12, output)))) source (destination, output)"

definition neon_decode ::
  "bool \<Rightarrow> bool \<Rightarrow> bytes \<Rightarrow> bytes \<Rightarrow> (base64_error \<times> bytes + nat \<times> nat \<times> bytes) option" where
  "neon_decode urlsafe mixed input output =
     (let tables = neon_decode_tables urlsafe mixed in
      and_then (try_chunks (length input) 64 (\<lambda>source (destination, output). do {
          let bulk_remaining = (length input - source) div 64 * 64;
          let chunk_end = source + min bulk_remaining DECODE_ERROR_CHECK_INTERVAL;
          (source, destination, output, errors) \<leftarrow>
            scan_while chunk_end 1 64 (\<lambda>source (destination, output, errors). do {
              (decoded, block_errors) \<leftarrow> neon_decode_64 urlsafe mixed input source tables;
              let errors = or_si errors block_errors;
              output \<leftarrow> vst3 output destination decoded;
              Some (destination + 48, output, errors) }) source (destination, output, replicate 16 0);
          (if vmaxv errors \<noteq> 0 then Some (Inl (InvalidInput, output))
           else Some (Inr (source, destination, output))) }) 0 (0, output)) (\<lambda>(source, destination, output).
      neon_decode_tail urlsafe mixed input output tables source destination))"

definition neon_decode_validated_blocks ::
  "bool \<Rightarrow> bool \<Rightarrow> bytes \<Rightarrow> bytes \<Rightarrow> (base64_error \<times> bytes + nat \<times> nat \<times> bytes) option" where
  "neon_decode_validated_blocks urlsafe mixed input output =
     (let tables = neon_decode_tables urlsafe mixed in
      and_then (try_while (length input) 64 64 (\<lambda>source (destination, output). do {
          (decoded, errors) \<leftarrow> neon_decode_64 urlsafe mixed input source tables;
          (if vmaxv errors \<noteq> 0 then Some (Inl (InvalidInput, output))
           else do {
             output \<leftarrow> vst3 output destination decoded;
             Some (Inr (destination + 48, output)) }) }) 0 (0, output)) (\<lambda>(source, destination, output).
      neon_decode_tail urlsafe mixed input output tables source destination))"

definition neon_validate :: "bool \<Rightarrow> bool \<Rightarrow> bytes \<Rightarrow> (base64_error + nat) option" where
  "neon_validate urlsafe mixed input =
     (let tables = neon_decode_tables urlsafe mixed in
      and_then (try_chunks (length input) 16 (\<lambda>source _. do {
          let chunk_end = min (source + DECODE_ERROR_CHECK_INTERVAL) (length input div 16 * 16);
          (source, errors) \<leftarrow> scan_while chunk_end 1 16 (\<lambda>source errors. do {
              block \<leftarrow> slice input source 16;
              Some (or_si errors (snd (neon_decode_indices urlsafe mixed block tables))) })
            source (replicate 16 0);
          (if vmaxv errors \<noteq> 0 then Some (Inl InvalidInput) else Some (Inr (source, ()))) }) 0 ()) (\<lambda>(source, _).
      Some (Inr source)))"

definition neon_decode_standard_validated :: "bytes \<Rightarrow> bytes \<Rightarrow> (nat \<times> nat \<times> bytes) option" where
  "neon_decode_standard_validated input output =
     (let offsets = STANDARD_OFFSETS in do {
      (source, state) \<leftarrow> scan_while (length input) 64 64 (\<lambda>source (destination, output). do {
          (input0, input1, input2, input3) \<leftarrow> vld4 input source;
          let first = neon_standard_indices input0 offsets;
          let second = neon_standard_indices input1 offsets;
          let third = neon_standard_indices input2 offsets;
          let fourth = neon_standard_indices input3 offsets;
          output \<leftarrow> vst3 output destination (neon_pack_indices first second third fourth);
          Some (destination + 48, output) }) 0 (0, output);
      (source, destination, output) \<leftarrow> scan_while (length input) 16 16 (\<lambda>source (destination, output). do {
          block \<leftarrow> slice input source 16;
          output \<leftarrow> neon_store_indices_16 (neon_standard_indices block offsets) output destination;
          Some (destination + 12, output) }) source state;
      Some (source, destination, output) })"

section \<open>One character\<close>

definition nlook :: "bytes \<Rightarrow> u8 \<Rightarrow> u8" where
  "nlook t i = (if i < 16 then t ! unat i else 0)"

fun neon_index :: "decode_alphabet \<Rightarrow> u8 \<Rightarrow> u8" where
  "neon_index Standard b = b + nlook STANDARD_OFFSETS (hi b + masked_byte (b = 47) (- 1))"
| "neon_index UrlSafe b = b + nlook URLSAFE_OFFSETS (hi b) + masked_byte (b = 95) 33"
| "neon_index Mixed b =
     b + nlook MIXED_OFFSETS (if b = 95 then 9 else if b = 45 then 8 else hi b + masked_byte (b = 47) (- 1))"

fun neon_error :: "decode_alphabet \<Rightarrow> u8 \<Rightarrow> u8" where
  "neon_error Standard b = nlook STANDARD_HIGH_CLASSES (hi b) AND nlook STANDARD_LOW_CLASSES (b AND 15)"
| "neon_error UrlSafe b = nlook URLSAFE_HIGH_CLASSES (hi b) AND nlook URLSAFE_LOW_CLASSES (b AND 15)"
| "neon_error Mixed b = nlook URLSAFE_HIGH_CLASSES (hi b) AND nlook MIXED_LOW_CLASSES (b AND 15)"

definition neon_alphabet :: "bool \<Rightarrow> bool \<Rightarrow> decode_alphabet" where
  "neon_alphabet urlsafe mixed = (if mixed then Mixed else if urlsafe then UrlSafe else Standard)"

lemma neon_characters:
  "entries_from (\<lambda>b v. (neon_error Standard b = 0 \<longleftrightarrow> v \<noteq> 255) \<and> (v = 255 \<or> neon_index Standard b = v))
     0 STANDARD_DECODE"
  "entries_from (\<lambda>b v. (neon_error UrlSafe b = 0 \<longleftrightarrow> v \<noteq> 255) \<and> (v = 255 \<or> neon_index UrlSafe b = v))
     0 URLSAFE_DECODE"
  "entries_from (\<lambda>b v. (neon_error Mixed b = 0 \<longleftrightarrow> v \<noteq> 255) \<and> (v = 255 \<or> neon_index Mixed b = v))
     0 MIXED_DECODE"
  by code_simp+

lemma neon_character:
  "neon_error a b = 0 \<longleftrightarrow> symbol_value a b \<noteq> None"
  "symbol_value a b \<noteq> None \<Longrightarrow> neon_index a b = table_of a ! unat b"
  using neon_characters [THEN entries_of_table, of b] invalid_iff_no_symbol [of a b]
  by (cases a; auto simp: STANDARD_DECODE_def URLSAFE_DECODE_def MIXED_DECODE_def INVALID_VALUE_def)+

section \<open>Sixteen characters\<close>

lemma vqtbl1_map: "vqtbl1 t v = map (nlook t) v"
  by (simp add: vqtbl1_def nlook_def)

lemma vbsl_mask: "length c = length v \<Longrightarrow> vbsl (map (\<lambda>x. if p x then - 1 else 0) c) (replicate (length v) y) v
    = map2 (\<lambda>x b. if p x then y else b) c v"
  by (induction c v rule: list_induct2) (simp_all add: vbsl_def)

lemma cmpeq_const: "length v = n \<Longrightarrow> cmpeq_epi8 v (replicate n x) = map (\<lambda>b. if b = x then - 1 else 0) v"
  by (induction v arbitrary: n) (auto simp: cmpeq_epi8_def)

lemma neon_decode_indices_eq:
  fixes urlsafe mixed :: bool
  assumes "length v = 16"
  defines "a \<equiv> neon_alphabet urlsafe mixed"
  shows "neon_decode_indices urlsafe mixed v (neon_decode_tables urlsafe mixed) = (map (neon_index a) v, map (neon_error a) v)"
proof -
  have hi: "vshr_n_u8 4 v = map hi v" by (simp add: vshr_n_u8_def hi_def)
  have low: "and_si v (replicate 16 15) = map (\<lambda>b. b AND 15) v"
    using assms(1) by (auto simp: and_si_def intro!: nth_equalityI)
  have slash: "add_epi8 (map hi v) (cmpeq_epi8 v (replicate 16 47)) = map (\<lambda>b. hi b + masked_byte (b = 47) (- 1)) v"
    using assms(1) by (auto simp: add_epi8_def cmpeq_const masked_byte_def intro!: nth_equalityI)
  have under: "and_si (cmpeq_epi8 v (replicate 16 95)) (replicate 16 33) = map (\<lambda>b. masked_byte (b = 95) 33) v"
    using assms(1) by (auto simp: and_si_def cmpeq_const masked_byte_def intro!: nth_equalityI)
  have sel: "vbsl (cmpeq_epi8 v (replicate 16 x)) (replicate 16 y) (map f v) = map (\<lambda>b. if b = x then y else f b) v"
    for x y f
    using vbsl_mask [of v "map f v" "\<lambda>b. b = x" y] assms(1)
    by (auto simp: cmpeq_const intro!: nth_equalityI)
  have add: "add_epi8 (map f v) (map g v) = map (\<lambda>b. f b + g b) v" for f g
    by (auto simp: add_epi8_def intro!: nth_equalityI)
  have and_map: "and_si (map f v) (map g v) = map (\<lambda>b. f b AND g b) v" for f g
    by (auto simp: and_si_def intro!: nth_equalityI)
  note addv = add [of "\<lambda>b. b", simplified]
  show ?thesis
    by (simp add: neon_decode_indices_def neon_decode_tables_def a_def neon_alphabet_def Let_def hi low
        vqtbl1_map and_map neon_translate_standard_def neon_translate_urlsafe_def neon_translate_mixed_def
        slash under sel addv add comp_def)
qed

lemma vmaxv_clean: "vmaxv v = 0 \<longleftrightarrow> clean v"
proof -
  have "fold max v x = 0 \<longleftrightarrow> x = 0 \<and> clean v" for x :: u8
  proof (induction v arbitrary: x)
    case (Cons b v)
    have "max b x = 0 \<longleftrightarrow> b = 0 \<and> x = 0" by (auto simp: max_def split: if_splits)
    with Cons show ?case by (auto simp: clean_def)
  qed (simp add: clean_def)
  then show ?thesis by (simp add: vmaxv_def)
qed

section \<open>Sixty-four characters\<close>

lemma dvd4_group: "4 dvd length (p # q # r # s # vs) \<longleftrightarrow> 4 dvd length vs" for vs :: "'a list"
proof -
  have "length (p # q # r # s # vs) = length vs + 4" by simp
  then show ?thesis by (simp only: dvd_add_triv_right_iff)
qed

lemma dvd4_short: "\<not> 4 dvd Suc 0" "\<not> 4 dvd Suc (Suc 0)" "\<not> 4 dvd Suc (Suc (Suc 0))"
  by presburger+

lemma deinterleave4_facts:
  assumes "4 dvd length v" "deinterleave4 v = (w, x, y, z)"
  shows "length w = length v div 4 \<and> length x = length v div 4 \<and> length y = length v div 4 \<and> length z = length v div 4
    \<and> interleave3 (neon_pack_indices (map f w) (map f x) (map f y) (map f z)) = octets (map f v)
    \<and> (list_all g w \<and> list_all g x \<and> list_all g y \<and> list_all g z \<longleftrightarrow> list_all g v)"
  using assms
proof (induction v arbitrary: w x y z rule: deinterleave4.induct)
  case (1 a b c d rest)
  obtain w' x' y' z' where r: "deinterleave4 rest = (w', x', y', z')" by (cases "deinterleave4 rest")
  have "4 dvd length rest" using 1(2) by (simp only: dvd4_group)
  from 1(1) [OF this r] show ?case
    using 1(3) r by (auto simp: neon_pack_indices_def or_si_def vshl_n_u8_def vshr_n_u8_def)
qed (auto simp: dvd4_short neon_pack_indices_def or_si_def vshl_n_u8_def vshr_n_u8_def)

lemma neon_decode_64_block:
  assumes "off + 64 \<le> length input"
  defines "b \<equiv> take 64 (drop off input)"
  obtains v e where
    "neon_decode_64 urlsafe mixed input off (neon_decode_tables urlsafe mixed) = Some (v, e)" "length e = 16"
    "clean e \<longleftrightarrow> all_symbols (neon_alphabet urlsafe mixed) b" "length (interleave3 v) = 48"
    "all_symbols (neon_alphabet urlsafe mixed) b \<Longrightarrow> interleave3 v = decoded_bytes (neon_alphabet urlsafe mixed) b"
proof -
  let ?a = "neon_alphabet urlsafe mixed"
  have b: "slice input off 64 = Some b" "length b = 64" using assms by (simp_all add: slice_simps)
  obtain w x y z where d: "deinterleave4 b = (w, x, y, z)" by (cases "deinterleave4 b")
  note facts = deinterleave4_facts [OF _ d, of "neon_index ?a" "\<lambda>b. neon_error ?a b = 0", unfolded b(2), simplified]
  let ?e = "\<lambda>v. map (neon_error ?a) v"
  let ?ix = "\<lambda>v. map (neon_index ?a) v"
  let ?p = "neon_pack_indices (?ix w) (?ix x) (?ix y) (?ix z)"
  have "neon_decode_64 urlsafe mixed input off (neon_decode_tables urlsafe mixed)
      = Some (?p, or_si (or_si (?e w) (?e x)) (or_si (?e y) (?e z)))"
    using facts by (simp add: neon_decode_64_def vld4_def b d neon_decode_indices_eq)
  moreover have "length (or_si (or_si (?e w) (?e x)) (or_si (?e y) (?e z))) = 16"
    using facts by (simp add: length_or_si)
  moreover have "clean (or_si (or_si (?e w) (?e x)) (or_si (?e y) (?e z))) \<longleftrightarrow> all_symbols ?a b"
    using facts by (simp add: clean_or length_or_si clean_map all_symbols_def neon_character(1))
  moreover have "length (interleave3 ?p) = 48"
    using facts b(2) by (simp add: length_octets)
  moreover have "interleave3 ?p = decoded_bytes ?a b" if "all_symbols ?a b"
  proof -
    have "?ix b = symbol_values ?a b"
      using that by (auto simp: all_symbols_def list_all_iff symbol_values_def neon_character(2))
    then show ?thesis using facts by (simp add: decoded_bytes_def)
  qed
  ultimately show thesis by (rule that)
qed

section \<open>The store of sixteen values\<close>

lemma three_stores:
  "store m d [x] \<bind> (\<lambda>m. store m (Suc d) [y] \<bind> (\<lambda>m. store m (Suc (Suc d)) [z])) = store m d [x, y, z]"
  using store_store [of "[x]" 1 m d "[y]"] store_store [of "[x, y]" 2 m d "[z]"]
  by (simp flip: bind_assoc)

lemma three_stores_bind:
  "store m d [x] \<bind> (\<lambda>m. store m (Suc d) [y] \<bind> (\<lambda>m. store m (Suc (Suc d)) [z] \<bind> f))
    = store m d [x, y, z] \<bind> f"
  unfolding three_stores [symmetric] by (simp add: bind_assoc)

lemma neon_store_indices_16_eq:
  assumes "length ix = 16"
  shows "neon_store_indices_16 ix m d = store m d (octets ix)"
proof -
  let ?g = "\<lambda>k. octets (take 4 (drop (4 * k) ix))"
  obtain x0 x1 x2 x3 x4 x5 x6 x7 x8 x9 x10 x11 x12 x13 x14 x15 where
    ix: "ix = [x0, x1, x2, x3, x4, x5, x6, x7, x8, x9, x10, x11, x12, x13, x14, x15]"
    using assms unfolding list16 by blast
  have unroll: "foldM f (g # gs) = (\<lambda>s. f g s \<bind> foldM f gs)"
    for f :: "nat \<Rightarrow> bytes \<Rightarrow> bytes option" and g gs
    by (rule ext) simp
  let ?o = "\<lambda>a b c e. [push_bit 2 a OR drop_bit 4 b, push_bit 4 b OR drop_bit 2 c, push_bit 6 c OR e]"
  have "neon_store_indices_16 ix m d =
      store m d (?o x0 x1 x2 x3) \<bind> (\<lambda>m. store m (d + 3) (?o x4 x5 x6 x7) \<bind>
      (\<lambda>m. store m (d + 6) (?o x8 x9 x10 x11) \<bind> (\<lambda>m. store m (d + 9) (?o x12 x13 x14 x15))))"
    unfolding ix neon_store_indices_16_def
    by (simp add: unroll get_Some three_stores three_stores_bind Let_def add.assoc)
  also have "\<dots> = store m d (?o x0 x1 x2 x3 @ ?o x4 x5 x6 x7 @ ?o x8 x9 x10 x11 @ ?o x12 x13 x14 x15)"
    using store_store [of "?o x0 x1 x2 x3" 3 m d "?o x4 x5 x6 x7"]
      store_store [of "?o x0 x1 x2 x3 @ ?o x4 x5 x6 x7" 6 m d "?o x8 x9 x10 x11"]
      store_store [of "?o x0 x1 x2 x3 @ ?o x4 x5 x6 x7 @ ?o x8 x9 x10 x11" 9 m d "?o x12 x13 x14 x15"]
    by (simp flip: bind_assoc)
  finally show ?thesis by (simp add: ix)
qed

lemma packs_neon_16: "packs_values (\<lambda>m d ix. neon_store_indices_16 ix m d) 16 0"
  by (simp add: packs_values_def neon_store_indices_16_eq)

section \<open>Loops over chunks\<close>

lemma try_chunks_total:
  assumes "I off s"
    and step: "\<And>off s. I off s \<Longrightarrow> off + width \<le> len \<Longrightarrow>
      \<exists>r. body off s = Some r \<and> (case r of Inl e \<Rightarrow> Q e | Inr (off', s') \<Rightarrow> off < off' \<and> I off' s')"
  shows "\<exists>r. try_chunks len width body off s = Some r
    \<and> (case r of Inl e \<Rightarrow> Q e | Inr (off', s') \<Rightarrow> I off' s' \<and> len < off' + width)"
  using assms(1)
proof (induction "Suc len - off" arbitrary: off s rule: less_induct)
  case less
  show ?case
  proof (cases "off + width \<le> len")
    case True
    obtain r where r: "body off s = Some r"
        "case r of Inl e \<Rightarrow> Q e | Inr (off', s') \<Rightarrow> off < off' \<and> I off' s'"
      using step [OF less.prems True] by blast
    have unfold: "try_chunks len width body off s = and_then (Some r)
        (\<lambda>(off', s'). if off < off' then try_chunks len width body off' s' else None)"
      using True r(1) by (subst try_chunks.simps) simp
    show ?thesis
    proof (cases r)
      case (Inr p)
      obtain off' s' where p: "p = (off', s')" by (cases p)
      then have "off < off'" "I off' s'" using r(2) Inr by simp_all
      then show ?thesis using less.hyps [of off' s'] True unfold Inr p by simp
    qed (use r(2) unfold in simp)
  next
    case False
    then show ?thesis using less.prems by (subst try_chunks.simps) simp
  qed
qed

text \<open>An aligned scan up to the end of a chunk: its test looks only at the offset.\<close>

lemma chunk_total:
  assumes "0 < w" "w dvd chunk_end" "w dvd off" "I off s"
    and step: "\<And>off s. I off s \<Longrightarrow> w dvd off \<Longrightarrow> off + w \<le> chunk_end \<Longrightarrow>
      \<exists>s'. body off s = Some s' \<and> I (off + w) s'"
  obtains off' s' where "scan_while chunk_end 1 w body off s = Some (off', s')" "I off' s'"
    "w dvd off'" "chunk_end \<le> off'"
proof -
  have fits: "off + w \<le> chunk_end" if "off + 1 \<le> chunk_end" "w dvd off" for off
    using dvd_imp_le [OF dvd_diff_nat [OF assms(2) that(2)]] that(1) by simp
  have "\<exists>off' s'. scan_while chunk_end 1 w body off s = Some (off', s')
      \<and> (w dvd off' \<and> I off' s') \<and> chunk_end < off' + 1"
    by (rule scan_while_total [OF assms(1)]) (use assms(3,4) step fits in auto)
  then show thesis using that by auto
qed

section \<open>The kernels keep their contracts\<close>

lemma neon_index_block: "indices_block (\<lambda>input off. do {
      block \<leftarrow> slice input off 16;
      Some (neon_decode_indices urlsafe mixed block (neon_decode_tables urlsafe mixed)) })
    16 (neon_alphabet urlsafe mixed) True"
proof (rule indices_block_pointwise)
  fix off and input :: bytes
  assume "off + 16 \<le> length input"
  then show "slice input off 16 \<bind> (\<lambda>block.
      Some (neon_decode_indices urlsafe mixed block (neon_decode_tables urlsafe mixed)))
    = Some (map (neon_index (neon_alphabet urlsafe mixed)) (take 16 (drop off input)),
        map (neon_error (neon_alphabet urlsafe mixed)) (take 16 (drop off input)))"
    by (simp add: slice_simps neon_decode_indices_eq)
qed (simp_all add: neon_character)

interpretation neon_16: indices_block "\<lambda>input off. do {
      block \<leftarrow> slice input off 16;
      Some (neon_decode_indices urlsafe mixed block (neon_decode_tables urlsafe mixed)) }"
    16 "neon_alphabet urlsafe mixed" True for urlsafe mixed
  by (rule neon_index_block)

lemma neon_group_16:
  "group_step (neon_alphabet urlsafe mixed) 0 input 16 (\<lambda>n d m. (InvalidInput, m))
     (\<lambda>source (destination, output).
       and_then (neon_decode_16 urlsafe mixed input source output destination (neon_decode_tables urlsafe mixed))
         (\<lambda>output. Some (Inr (destination + 12, output))))"
proof -
  have "(\<lambda>source (destination, output).
       and_then (neon_decode_16 urlsafe mixed input source output destination (neon_decode_tables urlsafe mixed))
         (\<lambda>output. Some (Inr (destination + 12, output))))
    = (\<lambda>source (destination, output). do {
         (ix, errors) \<leftarrow> do {
            block \<leftarrow> slice input source 16;
            Some (neon_decode_indices urlsafe mixed block (neon_decode_tables urlsafe mixed)) };
         (if vmaxv errors \<noteq> 0 then Some (Inl (InvalidInput, output))
          else do {
            output \<leftarrow> neon_store_indices_16 (id ix) output destination;
            Some (Inr (destination + 16 div 4 * 3, output)) }) })"
    by (intro ext) (auto simp: neon_decode_16_def and_then_def split: prod.splits bind_splits)
  moreover have "vmaxv e \<noteq> 0 \<longleftrightarrow> True \<and> \<not> clean e" for e by (simp add: vmaxv_clean)
  ultimately show ?thesis
    using neon_16.single_step [where rejects = "\<lambda>e. vmaxv e \<noteq> 0" and pack = id
        and put = "\<lambda>m d ix. neon_store_indices_16 ix m d" and slack = 0 and urlsafe = urlsafe and mixed = mixed
        and input = input and stop = "\<lambda>n d m. (InvalidInput, m)"] packs_neon_16
    by simp
qed

lemma neon_decode_tail_outcome:
  assumes "decoded (neon_alphabet urlsafe mixed) 0 input n mem m" "length input div 4 * 3 \<le> length mem"
  shows "\<exists>r. neon_decode_tail urlsafe mixed input m (neon_decode_tables urlsafe mixed) n (n div 4 * 3) = Some r
    \<and> decode_outcome (neon_alphabet urlsafe mixed) 0 v input mem r"
  using reached_loop [OF neon_group_16 _ _ assms(1)] assms(2) reached_outcome
  unfolding neon_decode_tail_def by force

lemma neon_group_64:
  "group_step (neon_alphabet urlsafe mixed) 0 input 64 (\<lambda>n d m. (InvalidInput, m))
     (\<lambda>source (destination, output). do {
          (decoded, errors) \<leftarrow> neon_decode_64 urlsafe mixed input source (neon_decode_tables urlsafe mixed);
          (if vmaxv errors \<noteq> 0 then Some (Inl (InvalidInput, output))
           else do {
             output \<leftarrow> vst3 output destination decoded;
             Some (Inr (destination + 48, output)) }) })"
    (is "group_step ?a _ _ _ _ ?body")
  unfolding group_step_def
proof (intro allI impI)
  fix off d m assume fit: "off + 64 \<le> length input"
  obtain v e where
    "neon_decode_64 urlsafe mixed input off (neon_decode_tables urlsafe mixed) = Some (v, e)" "length e = 16"
    "clean e \<longleftrightarrow> all_symbols ?a (take 64 (drop off input))" "length (interleave3 v) = 48"
    "all_symbols ?a (take 64 (drop off input)) \<Longrightarrow> interleave3 v = decoded_bytes ?a (take 64 (drop off input))"
    using neon_decode_64_block [OF fit, of urlsafe mixed] by metis
  then show "if all_symbols ?a (take 64 (drop off input))
    then \<exists>rest. length rest \<le> 0 \<and> ?body off (d, m) = store m d (decoded_bytes ?a (take 64 (drop off input)) @ rest)
      \<bind> (\<lambda>m. Some (Inr (d + 64 div 4 * 3, m)))
    else ?body off (d, m) = Some (Inl (InvalidInput, m))"
    by (simp add: vmaxv_clean vst3_def)
qed

lemma neon_decode_validated_blocks_outcome:
  assumes "length input div 4 * 3 \<le> length mem"
  shows "\<exists>r. neon_decode_validated_blocks urlsafe mixed input mem = Some r
    \<and> decode_outcome (neon_alphabet urlsafe mixed) 0 True input mem r"
proof -
  have fit: "length input div 4 * 3 + 0 \<le> length mem" using assms by simp
  have "\<exists>r. neon_decode_validated_blocks urlsafe mixed input mem = Some r
    \<and> reached (neon_alphabet urlsafe mixed) 0 input mem (\<lambda>n d m. (InvalidInput, m)) r"
    unfolding neon_decode_validated_blocks_def Let_def
  proof (rule reached_and_then, goal_cases)
    case 1
    show ?case using reached_loop [OF neon_group_64 _ _ decoded_start fit] by simp
  next
    case (2 n m)
    show ?case using reached_loop [OF neon_group_16 _ _ 2 fit] by (simp add: neon_decode_tail_def)
  qed
  then show ?thesis using reached_outcome by blast
qed

text \<open>
  Within a chunk the errors are collected: while they are clean the prefix has been decoded, and in
  any case nothing was written beyond its space.
\<close>

definition chunk_invariant ::
  "decode_alphabet \<Rightarrow> bytes \<Rightarrow> bytes \<Rightarrow> nat \<Rightarrow> nat \<times> bytes \<times> bytes \<Rightarrow> bool" where
  "chunk_invariant a input mem = (\<lambda>off (d, m, errors).
     d = off div 4 * 3 \<and> off \<le> length input \<and> length errors = 16 \<and> length m = length mem
     \<and> drop d m = drop d mem \<and> (clean errors \<longleftrightarrow> all_symbols a (take off input))
     \<and> (clean errors \<longrightarrow> decoded a 0 input off mem m))"

lemma chunk_invariant_step:
  assumes inv: "chunk_invariant (neon_alphabet urlsafe mixed) input mem off s" and "64 dvd off"
    and fit: "off + 64 \<le> length input" and mem: "length input div 4 * 3 \<le> length mem"
  shows "\<exists>s'. (case s of (destination, output, errors) \<Rightarrow> do {
      (decoded, block_errors) \<leftarrow> neon_decode_64 urlsafe mixed input off (neon_decode_tables urlsafe mixed);
      let errors = or_si errors block_errors;
      output \<leftarrow> vst3 output destination decoded;
      Some (destination + 48, output, errors) }) = Some s'
    \<and> chunk_invariant (neon_alphabet urlsafe mixed) input mem (off + 64) s'"
proof -
  let ?a = "neon_alphabet urlsafe mixed"
  obtain d m er where s: "s = (d, m, er)" by (cases s)
  have i: "d = off div 4 * 3" "length er = 16" "length m = length mem" "drop d m = drop d mem"
    "clean er \<longleftrightarrow> all_symbols ?a (take off input)" "clean er \<Longrightarrow> decoded ?a 0 input off mem m"
    using inv unfolding s chunk_invariant_def prod.case by blast+
  obtain v e where v: "neon_decode_64 urlsafe mixed input off (neon_decode_tables urlsafe mixed) = Some (v, e)"
    "length e = 16" "clean e \<longleftrightarrow> all_symbols ?a (take 64 (drop off input))" "length (interleave3 v) = 48"
    "all_symbols ?a (take 64 (drop off input)) \<Longrightarrow> interleave3 v = decoded_bytes ?a (take 64 (drop off input))"
    using neon_decode_64_block [OF fit, of urlsafe mixed] by metis
  have d48: "(off + 64) div 4 * 3 = d + 48" using assms(2) i(1) by auto
  have "(off + 64) div 4 * 3 \<le> length mem" using fit mem by (meson div_le_mono le_trans mult_le_mono1)
  then obtain m' where m': "store m d (interleave3 v) = Some m'"
    using v(4) i(3) d48 by (simp add: slice_simps)
  have "drop (d + 48) m' = drop (d + 48) m" using store_frame(2) [OF m'] v(4) by simp
  also have "\<dots> = drop (d + 48) mem" using i(4) by (rule drop_drop_eq) simp
  finally have frame: "drop (d + 48) m' = drop (d + 48) mem" .
  have clean: "clean (or_si er e) \<longleftrightarrow> all_symbols ?a (take (off + 64) input)"
    using i(2,5) v(2,3) by (simp add: clean_or take_add)
  have "decoded ?a 0 input (off + 64) mem m'" if "clean (or_si er e)"
  proof -
    have "clean er" "all_symbols ?a (take 64 (drop off input))" using that i(2) v(2,3) by (simp_all add: clean_or)
    then show ?thesis
      using decoded_exact_step [OF i(6) _ fit] mem m' v(5) i(1) by auto
  qed
  then show ?thesis
    using m' clean frame d48 fit length_store [OF m'] i(2,3) v(1,2)
    by (simp add: s chunk_invariant_def vst3_def length_or_si)
qed

lemma neon_decode_outcome:
  assumes mem: "length input div 4 * 3 \<le> length mem"
  shows "\<exists>r. neon_decode urlsafe mixed input mem = Some r
    \<and> decode_outcome (neon_alphabet urlsafe mixed) 0 False input mem r"
proof -
  let ?a = "neon_alphabet urlsafe mixed"
  let ?Q = "\<lambda>e. decode_outcome ?a 0 False input mem (Inl e)"
  let ?I = "\<lambda>off s. fst s = off div 4 * 3 \<and> 64 dvd off \<and> decoded ?a 0 input off mem (snd s)"
  let ?block = "\<lambda>source (destination, output, errors). do {
      (decoded, block_errors) \<leftarrow> neon_decode_64 urlsafe mixed input source (neon_decode_tables urlsafe mixed);
      let errors = or_si errors block_errors;
      output \<leftarrow> vst3 output destination decoded;
      Some (destination + 48, output, errors) }"
  define body where "body = (\<lambda>source (destination, output). do {
      let bulk_remaining = (length input - source) div 64 * 64;
      let chunk_end = source + min bulk_remaining DECODE_ERROR_CHECK_INTERVAL;
      (source, destination, output, errors) \<leftarrow>
        scan_while chunk_end 1 64 ?block source (destination, output, replicate 16 0);
      (if vmaxv errors \<noteq> 0 then Some (Inl (InvalidInput, output))
       else Some (Inr (source, destination, output))) })"
  have step: "\<exists>r. body off s = Some r \<and> (case r of Inl e \<Rightarrow> ?Q e | Inr (off', s') \<Rightarrow> off < off' \<and> ?I off' s')"
    if I: "?I off s" and fit: "off + 64 \<le> length input" for off s
  proof -
    define chunk_end where "chunk_end = off + min ((length input - off) div 64 * 64) DECODE_ERROR_CHECK_INTERVAL"
    have "64 dvd min ((length input - off) div 64 * 64) DECODE_ERROR_CHECK_INTERVAL"
      by (simp add: min_def DECODE_ERROR_CHECK_INTERVAL_def)
    then have ce: "64 dvd chunk_end" "chunk_end \<le> length input" "off < chunk_end"
      using I fit by (auto simp: chunk_end_def min_def DECODE_ERROR_CHECK_INTERVAL_def)
    obtain d m where s: "s = (d, m)" by (cases s)
    note D = decodedD [of ?a 0 input off mem m]
    have start: "chunk_invariant ?a input mem off (d, m, replicate 16 0)"
      using I D by (simp add: s chunk_invariant_def)
    have next_block: "\<exists>s'. ?block off s = Some s' \<and> chunk_invariant ?a input mem (off + 64) s'"
      if "chunk_invariant ?a input mem off s" "64 dvd off" "off + 64 \<le> chunk_end" for off s
      by (rule chunk_invariant_step [OF that(1,2) _ mem]) (use that(3) ce(2) in simp)
    have pos: "(0 :: nat) < 64" and aligned: "64 dvd off" using I by simp_all
    obtain off' s' where chunk: "scan_while chunk_end 1 64 ?block off (d, m, replicate 16 0) = Some (off', s')"
      "chunk_invariant ?a input mem off' s'" "64 dvd off'" "chunk_end \<le> off'"
      by (rule chunk_total [where I = "chunk_invariant ?a input mem", OF pos ce(1) aligned start next_block])
    obtain d' m' er where s': "s' = (d', m', er)" by (cases s')
    note * = chunk [unfolded s']
    have run: "body off s = Some (if clean er then Inr (off', d', m') else Inl (InvalidInput, m'))"
      using * by (simp add: body_def s vmaxv_clean flip: chunk_end_def)
    have inv: "d' = off' div 4 * 3" "off' \<le> length input" "length m' = length mem" "drop d' m' = drop d' mem"
      "clean er \<longleftrightarrow> all_symbols ?a (take off' input)" "clean er \<Longrightarrow> decoded ?a 0 input off' mem m'"
      using *(2) unfolding chunk_invariant_def prod.case by blast+
    have "d' \<le> length input div 4 * 3" using inv(1,2) by (simp add: div_le_mono)
    then have "drop (length input div 4 * 3) m' = drop (length input div 4 * 3) mem"
      using drop_drop_eq [OF inv(4)] by simp
    moreover have "\<not> all_symbols ?a input" if "\<not> clean er"
      using that inv(5) not_all_symbols_block [of ?a off' 0 input] by simp
    moreover have "off < off'" using *(4) ce(3) by simp
    moreover note inv(1,3,6)
    ultimately show ?thesis
      using *(3) unfolding run by (simp add: decode_outcome_def)
  qed
  have "\<exists>r. try_chunks (length input) 64 body 0 (0, mem) = Some r
      \<and> (case r of Inl e \<Rightarrow> ?Q e | Inr (off', s') \<Rightarrow> ?I off' s' \<and> length input < off' + 64)"
    by (rule try_chunks_total [where I = ?I, OF _ step]) (simp_all add: decoded_start)
  then obtain r where r: "try_chunks (length input) 64 body 0 (0, mem) = Some r"
    "case r of Inl e \<Rightarrow> ?Q e | Inr (off', s') \<Rightarrow> ?I off' s' \<and> length input < off' + 64"
    by blast
  have unfold: "neon_decode urlsafe mixed input mem = and_then (Some r) (\<lambda>(source, destination, output).
      neon_decode_tail urlsafe mixed input output (neon_decode_tables urlsafe mixed) source destination)"
    unfolding r(1) [symmetric] neon_decode_def body_def Let_def by (rule refl)
  show ?thesis
  proof (cases r)
    case (Inr x)
    then obtain n m where "x = (n, n div 4 * 3, m)" "decoded ?a 0 input n mem m" using r(2) by (cases x) auto
    then show ?thesis using neon_decode_tail_outcome [OF _ mem] by (simp add: unfold Inr)
  qed (use r(2) unfold in simp)
qed

lemma neon_validate_outcome:
  "\<exists>r. neon_validate urlsafe mixed input = Some r \<and> validated (neon_alphabet urlsafe mixed) input r"
proof -
  let ?a = "neon_alphabet urlsafe mixed"
  let ?Q = "\<lambda>e. e = InvalidInput \<and> \<not> all_symbols ?a input"
  let ?I = "\<lambda>off (s :: unit). 16 dvd off \<and> off \<le> length input \<and> all_symbols ?a (take off input)"
  let ?J = "\<lambda>off errors. off \<le> length input \<and> length errors = 16
    \<and> (clean errors \<longleftrightarrow> all_symbols ?a (take off input))"
  let ?block = "\<lambda>source errors. do {
      block \<leftarrow> slice input source 16;
      Some (or_si errors (snd (neon_decode_indices urlsafe mixed block (neon_decode_tables urlsafe mixed)))) }"
  define body where "body = (\<lambda>source (_ :: unit). do {
      let chunk_end = min (source + DECODE_ERROR_CHECK_INTERVAL) (length input div 16 * 16);
      (source, errors) \<leftarrow> scan_while chunk_end 1 16 ?block source (replicate 16 0);
      (if vmaxv errors \<noteq> 0 then Some (Inl InvalidInput) else Some (Inr (source, ()))) })"
  have step: "\<exists>r. body off s = Some r \<and> (case r of Inl e \<Rightarrow> ?Q e | Inr (off', s') \<Rightarrow> off < off' \<and> ?I off' s')"
    if I: "?I off s" and fit: "off + 16 \<le> length input" for off s
  proof -
    define chunk_end where "chunk_end = min (off + DECODE_ERROR_CHECK_INTERVAL) (length input div 16 * 16)"
    have ce: "16 dvd chunk_end" "chunk_end \<le> length input" "off < chunk_end"
      using I fit by (auto simp: chunk_end_def min_def DECODE_ERROR_CHECK_INTERVAL_def elim!: dvdE)
    have start: "?J off (replicate 16 0)" using I by simp
    have next_block: "\<exists>s'. ?block off er = Some s' \<and> ?J (off + 16) s'"
      if "?J off er" "16 dvd off" "off + 16 \<le> chunk_end" for off er
    proof -
      have "slice input off 16 = Some (take 16 (drop off input))" "length (take 16 (drop off input)) = 16"
        using that(3) ce(2) by (simp_all add: slice_simps)
      then show ?thesis
        using that ce(2) by (simp add: neon_decode_indices_eq clean_or length_or_si clean_map take_add
            all_symbols_def neon_character(1))
    qed
    have pos: "(0 :: nat) < 16" and aligned: "16 dvd off" using I by simp_all
    obtain off' er where *: "scan_while chunk_end 1 16 ?block off (replicate 16 0) = Some (off', er)"
      "?J off' er" "16 dvd off'" "chunk_end \<le> off'"
      by (rule chunk_total [where I = ?J, OF pos ce(1) aligned start next_block])
    have run: "body off s = Some (if clean er then Inr (off', ()) else Inl InvalidInput)"
      using * by (simp add: body_def vmaxv_clean flip: chunk_end_def)
    have "\<not> all_symbols ?a input" if "\<not> clean er"
      using that *(2) not_all_symbols_block [of ?a off' 0 input] by simp
    then show ?thesis using *(2-4) ce(3) unfolding run by auto
  qed
  have "\<exists>r. try_chunks (length input) 16 body 0 () = Some r
      \<and> (case r of Inl e \<Rightarrow> ?Q e | Inr (off', s') \<Rightarrow> ?I off' s' \<and> length input < off' + 16)"
    by (rule try_chunks_total [where I = ?I, OF _ step]) simp_all
  then obtain r where r: "try_chunks (length input) 16 body 0 () = Some r"
    "case r of Inl e \<Rightarrow> ?Q e | Inr (off', s') \<Rightarrow> ?I off' s' \<and> length input < off' + 16"
    by blast
  have "neon_validate urlsafe mixed input = and_then (Some r) (\<lambda>(source, _). Some (Inr source))"
    unfolding r(1) [symmetric] neon_validate_def body_def Let_def by (rule refl)
  then show ?thesis using r(2) by (cases r) (auto simp: validated_def)
qed

interpretation neon: decode_kernel "neon_decode urlsafe mixed" "neon_alphabet urlsafe mixed" 0 False True
  for urlsafe mixed
  by unfold_locales (simp add: neon_decode_outcome)

interpretation neon_blocks: decode_kernel "neon_decode_validated_blocks urlsafe mixed"
    "neon_alphabet urlsafe mixed" 0 True True for urlsafe mixed
  by unfold_locales (simp add: neon_decode_validated_blocks_outcome)

interpretation neon: validate_kernel "neon_validate urlsafe mixed" "neon_alphabet urlsafe mixed"
  for urlsafe mixed
  by unfold_locales (rule neon_validate_outcome)

text \<open>The decoder that trusts its input.\<close>

lemma neon_standard_indices_eq:
  assumes "length v = 16"
  shows "neon_standard_indices v STANDARD_OFFSETS = map (neon_index Standard) v"
  using neon_decode_indices_eq [OF assms, of False False]
  by (simp add: neon_decode_indices_def neon_decode_tables_def neon_standard_indices_def neon_alphabet_def Let_def)

lemma neon_index_symbols:
  "all_symbols a v \<Longrightarrow> map (neon_index a) v = symbol_values a v"
  by (auto simp: all_symbols_def list_all_iff symbol_values_def neon_character(2))

lemma neon_standard_validated_decoded:
  assumes mem: "length input div 4 * 3 \<le> length mem" and ok: "all_symbols Standard input"
  shows "\<exists>n m. neon_decode_standard_validated input mem = Some (n, n div 4 * 3, m)
    \<and> decoded Standard 0 input n mem m"
proof -
  let ?I = "\<lambda>off s. fst s = off div 4 * 3 \<and> decoded Standard 0 input off mem (snd s)"
  have block: "all_symbols Standard (take k (drop off input))" for k off
    using ok not_all_symbols_block [of Standard k off input] by blast
  have mem0: "length input div 4 * 3 + 0 \<le> length mem" using mem by simp
  let ?wide = "\<lambda>source (destination, output). do {
      (input0, input1, input2, input3) \<leftarrow> vld4 input source;
      let first = neon_standard_indices input0 STANDARD_OFFSETS;
      let second = neon_standard_indices input1 STANDARD_OFFSETS;
      let third = neon_standard_indices input2 STANDARD_OFFSETS;
      let fourth = neon_standard_indices input3 STANDARD_OFFSETS;
      output \<leftarrow> vst3 output destination (neon_pack_indices first second third fourth);
      Some (destination + 48, output) }"
  let ?narrow = "\<lambda>source (destination, output). do {
      block \<leftarrow> slice input source 16;
      output \<leftarrow> neon_store_indices_16 (neon_standard_indices block STANDARD_OFFSETS) output destination;
      Some (destination + 12, output) }"
  have wide: "\<exists>s'. ?wide off s = Some s' \<and> ?I (off + 64) s'"
    if I: "?I off s" and fit: "off + 64 \<le> length input" for off s
  proof -
    obtain m where s: "s = (off div 4 * 3, m)" and D: "decoded Standard 0 input off mem m"
      using I by (cases s) simp
    let ?b = "take 64 (drop off input)"
    have b: "slice input off 64 = Some ?b" "length ?b = 64" using fit by (simp_all add: slice_simps)
    obtain w x y z where d: "deinterleave4 ?b = (w, x, y, z)" by (cases "deinterleave4 ?b")
    note facts = deinterleave4_facts [OF _ d, of "neon_index Standard" "\<lambda>_. True", unfolded b(2), simplified]
    obtain m' where "store m (off div 4 * 3) (decoded_bytes Standard ?b) = Some m'"
      "decoded Standard 0 input (off + 64) mem m'"
      using decoded_exact_step [OF D _ fit block mem0] by auto
    moreover have "off div 4 * 3 + 48 = (off + 64) div 4 * 3" using decodedD(1) [OF D] by auto
    ultimately show ?thesis
      using facts by (simp add: s vld4_def b d neon_standard_indices_eq vst3_def
          neon_index_symbols [OF block] decoded_bytes_def)
  qed
  have narrow: "\<exists>s'. ?narrow off s = Some s' \<and> ?I (off + 16) s'"
    if I: "?I off s" and fit: "off + 16 \<le> length input" for off s
  proof -
    obtain m where s: "s = (off div 4 * 3, m)" and D: "decoded Standard 0 input off mem m"
      using I by (cases s) simp
    let ?b = "take 16 (drop off input)"
    have b: "slice input off 16 = Some ?b" "length ?b = 16" using fit by (simp_all add: slice_simps)
    obtain m' where "store m (off div 4 * 3) (decoded_bytes Standard ?b) = Some m'"
      "decoded Standard 0 input (off + 16) mem m'"
      using decoded_exact_step [OF D _ fit block mem0] by auto
    moreover have "off div 4 * 3 + 12 = (off + 16) div 4 * 3" using decodedD(1) [OF D] by auto
    ultimately show ?thesis
      using b by (simp add: s neon_standard_indices_eq neon_store_indices_16_eq
          neon_index_symbols [OF block] decoded_bytes_def)
  qed
  have "\<exists>off s. scan_while (length input) 64 64 ?wide 0 (0, mem) = Some (off, s) \<and> ?I off s \<and> length input < off + 64"
    by (rule scan_while_total [where I = ?I, OF _ _ wide]) (simp_all add: decoded_start)
  then obtain off s where 1: "scan_while (length input) 64 64 ?wide 0 (0, mem) = Some (off, s)" "?I off s"
    by blast
  have "\<exists>off' s'. scan_while (length input) 16 16 ?narrow off s = Some (off', s') \<and> ?I off' s' \<and> length input < off' + 16"
    by (rule scan_while_total [where I = ?I, OF _ 1(2) narrow]) simp
  then obtain off' d' m' where 2: "scan_while (length input) 16 16 ?narrow off s = Some (off', d', m')"
    "?I off' (d', m')" by auto
  have "neon_decode_standard_validated input mem =
      scan_while (length input) 64 64 ?wide 0 (0, mem) \<bind> (\<lambda>(source, state).
        scan_while (length input) 16 16 ?narrow source state \<bind> (\<lambda>(source, destination, output).
          Some (source, destination, output)))"
    by (simp only: neon_decode_standard_validated_def Let_def)
  also have "\<dots> = Some (off', d', m')" by (simp only: 1(1) 2(1) Option.bind.simps prod.case)
  finally have "neon_decode_standard_validated input mem = Some (off', d', m')" .
  then show ?thesis using 2(2) by auto
qed

end
