(* ===== verification/Base64_Decode_Dispatch.thy ===== *)
theory Base64_Decode_Dispatch
  imports Base64_Backend Base64_Decode_Avx512 Base64_Decode_Neon
begin

text \<open>
  The decoding side of \<open>src/base64/runtime_dispatch.rs\<close>.  As for the encoders, a kernel is called
  through its \<open>target_feature\<close> guard, and the address of the destination is a parameter.
\<close>

section \<open>Decoding\<close>

datatype error_write_policy = Partial | ValidatedBlocksOnly

definition decode_x86_kernel ::
  "machine \<Rightarrow> nat \<Rightarrow> decoder \<Rightarrow> store_policy \<Rightarrow> base64_backend
    \<Rightarrow> (bytes \<Rightarrow> bytes \<Rightarrow> (base64_error \<times> bytes + nat \<times> nat \<times> bytes) option) option" where
  "decode_x86_kernel machine address A S backend =
     (case backend of
        Base64_Avx512Vbmi \<Rightarrow> Some (\<lambda>input output. target_feature (cpu_of machine) [Avx512Vbmi, Avx512Bw]
          (avx512_decode (cpu_of machine) address A S input output))
      | Base64_Avx2 \<Rightarrow> Some (\<lambda>input output. target_feature (cpu_of machine) [Avx2]
          (avx2_decode address A S input output))
      | Base64_Sse41 \<Rightarrow> Some (\<lambda>input output. target_feature (cpu_of machine) [Ssse3, Sse41]
          (sse41_decode A S input output))
      | Base64_Ssse3 \<Rightarrow> Some (\<lambda>input output. target_feature (cpu_of machine) [Ssse3]
          (ssse3_decode A S input output))
      | Base64_Scalar \<Rightarrow> None
      | Base64_Neon \<Rightarrow> None)"

definition decode_x86 ::
  "machine \<Rightarrow> nat \<Rightarrow> decoder \<Rightarrow> store_policy \<Rightarrow> base64_backend \<Rightarrow> bytes \<Rightarrow> bytes
    \<Rightarrow> (base64_error \<times> bytes + nat \<times> nat \<times> bytes) option" where
  "decode_x86 machine address A S backend input output =
     (case decode_x86_kernel machine address A S backend of
        None \<Rightarrow> Some (Inr (0, 0, output))
      | Some run \<Rightarrow> run input output)"

definition decode_x86_store ::
  "machine \<Rightarrow> nat \<Rightarrow> decoder \<Rightarrow> base64_backend \<Rightarrow> bool \<Rightarrow> bytes \<Rightarrow> bytes
    \<Rightarrow> (base64_error \<times> bytes + nat \<times> nat \<times> bytes) option" where
  "decode_x86_store machine address A backend output_has_store_slack input output =
     (if output_has_store_slack then decode_x86 machine address A PaddedStore backend input output
      else decode_x86 machine address A ExactStore backend input output)"

definition decode_x86_alphabet ::
  "machine \<Rightarrow> nat \<Rightarrow> base64_backend \<Rightarrow> decode_alphabet \<Rightarrow> bool \<Rightarrow> bytes \<Rightarrow> bytes
    \<Rightarrow> (base64_error \<times> bytes + nat \<times> nat \<times> bytes) option" where
  "decode_x86_alphabet machine address backend alphabet output_has_store_slack input output =
     (case alphabet of
        Standard \<Rightarrow>
          decode_x86_store machine address StandardDecoder backend output_has_store_slack input output
      | UrlSafe \<Rightarrow>
          decode_x86_store machine address UrlSafeDecoder backend output_has_store_slack input output
      | Mixed \<Rightarrow> decode_x86 machine address MixedDecoder ExactStore backend input output)"

definition decode_with_backend_ptr_mode ::
  "machine \<Rightarrow> nat \<Rightarrow> base64_backend \<Rightarrow> decode_alphabet \<Rightarrow> bool \<Rightarrow> error_write_policy \<Rightarrow> bytes \<Rightarrow> bytes
    \<Rightarrow> (base64_error \<times> bytes + nat \<times> nat \<times> bytes) option" where
  "decode_with_backend_ptr_mode machine address backend alphabet output_has_store_slack error_write_policy
     input output =
     (if is_x86 (arch_of machine) then
        let output_has_store_slack = (output_has_store_slack \<and> error_write_policy = Partial)
        in decode_x86_alphabet machine address backend alphabet output_has_store_slack input output
      else if arch_of machine = Arch_AArch64 \<and> backend = Base64_Neon then
        target_feature (cpu_of machine) [Neon]
          (if error_write_policy = ValidatedBlocksOnly then
             (case alphabet of
                Standard \<Rightarrow> neon_decode_validated_blocks False False input output
              | UrlSafe \<Rightarrow> neon_decode_validated_blocks True False input output
              | Mixed \<Rightarrow> neon_decode_validated_blocks False True input output)
           else
             (case alphabet of
                Standard \<Rightarrow> neon_decode False False input output
              | UrlSafe \<Rightarrow> neon_decode True False input output
              | Mixed \<Rightarrow> neon_decode False True input output))
      else Some (Inr (0, 0, output)))"

definition decode_with_runtime_backend ::
  "machine \<Rightarrow> nat \<Rightarrow> decode_alphabet \<Rightarrow> bool \<Rightarrow> error_write_policy \<Rightarrow> bytes \<Rightarrow> bytes
    \<Rightarrow> (base64_error \<times> bytes + nat \<times> nat \<times> bytes) option" where
  "decode_with_runtime_backend machine address alphabet output_has_store_slack error_write_policy input output =
     do {
       selection \<leftarrow> selected_backend machine;
       decode_with_backend_ptr_mode machine address (runtime_backend selection) alphabet
         output_has_store_slack error_write_policy input output
     }"

section \<open>Decoding of trusted text\<close>

text \<open>An error of the kernel is a failed \<open>expect\<close>.\<close>

definition decode_standard_validated_with_backend_inner ::
  "machine \<Rightarrow> nat \<Rightarrow> base64_backend \<Rightarrow> bytes \<Rightarrow> bytes \<Rightarrow> (nat \<times> nat \<times> bytes) option" where
  "decode_standard_validated_with_backend_inner machine address backend input output =
     (if is_x86 (arch_of machine) then
        do {
          r \<leftarrow> decode_x86 machine address ValidatedStandardDecoder ExactStore backend input output;
          (case r of Inl _ \<Rightarrow> None | Inr result \<Rightarrow> Some result) }
      else if arch_of machine = Arch_AArch64 \<and> backend = Base64_Neon then
        target_feature (cpu_of machine) [Neon] (neon_decode_standard_validated input output)
      else Some (0, 0, output))"

definition decode_standard_validated_with_runtime_backend ::
  "machine \<Rightarrow> nat \<Rightarrow> bytes \<Rightarrow> bytes \<Rightarrow> (nat \<times> nat \<times> bytes) option" where
  "decode_standard_validated_with_runtime_backend machine address input output =
     do {
       selection \<leftarrow> selected_backend machine;
       decode_standard_validated_with_backend_inner machine address (runtime_backend selection) input output
     }"

section \<open>Validation\<close>

definition validate_x86_kernel ::
  "machine \<Rightarrow> decoder \<Rightarrow> base64_backend \<Rightarrow> (bytes \<Rightarrow> (base64_error + nat) option) option" where
  "validate_x86_kernel machine A backend =
     (case backend of
        Base64_Avx512Vbmi \<Rightarrow> Some (\<lambda>input. target_feature (cpu_of machine) [Avx512Vbmi, Avx512Bw]
          (avx512_validate (cpu_of machine) A input))
      | Base64_Avx2 \<Rightarrow> Some (\<lambda>input. target_feature (cpu_of machine) [Avx2] (avx2_validate A input))
      | Base64_Sse41 \<Rightarrow> Some (\<lambda>input. target_feature (cpu_of machine) [Ssse3, Sse41] (sse41_validate A input))
      | Base64_Ssse3 \<Rightarrow> Some (\<lambda>input. target_feature (cpu_of machine) [Ssse3] (ssse3_validate A input))
      | Base64_Scalar \<Rightarrow> None
      | Base64_Neon \<Rightarrow> None)"

definition validate_x86 ::
  "machine \<Rightarrow> decoder \<Rightarrow> base64_backend \<Rightarrow> bytes \<Rightarrow> (base64_error + nat) option" where
  "validate_x86 machine A backend input =
     (case validate_x86_kernel machine A backend of
        None \<Rightarrow> Some (Inr 0)
      | Some run \<Rightarrow> run input)"

definition validate_with_backend_inner ::
  "machine \<Rightarrow> base64_backend \<Rightarrow> decode_alphabet \<Rightarrow> bytes \<Rightarrow> (base64_error + nat) option" where
  "validate_with_backend_inner machine backend alphabet input =
     (if is_x86 (arch_of machine) then
        (case alphabet of
           Standard \<Rightarrow> validate_x86 machine StandardDecoder backend input
         | UrlSafe \<Rightarrow> validate_x86 machine UrlSafeDecoder backend input
         | Mixed \<Rightarrow> validate_x86 machine MixedDecoder backend input)
      else if arch_of machine = Arch_AArch64 \<and> backend = Base64_Neon then
        target_feature (cpu_of machine) [Neon]
          (case alphabet of
             Standard \<Rightarrow> neon_validate False False input
           | UrlSafe \<Rightarrow> neon_validate True False input
           | Mixed \<Rightarrow> neon_validate False True input)
      else Some (Inr 0))"

definition validate_with_runtime_backend ::
  "machine \<Rightarrow> decode_alphabet \<Rightarrow> bytes \<Rightarrow> (base64_error + nat) option" where
  "validate_with_runtime_backend machine alphabet input =
     do {
       selection \<leftarrow> selected_backend machine;
       validate_with_backend_inner machine (runtime_backend selection) alphabet input
     }"

section \<open>Decoding of the valid prefix\<close>

text \<open>The inner option is the code's: \<open>None\<close> where no kernel applies.  The memory is returned in both cases.\<close>

definition decode_valid_prefix_x86_kernel ::
  "machine \<Rightarrow> nat \<Rightarrow> decoder \<Rightarrow> base64_backend \<Rightarrow> (bytes \<Rightarrow> bytes \<Rightarrow> (nat \<times> nat \<times> bytes) option) option" where
  "decode_valid_prefix_x86_kernel machine address A backend =
     (case backend of
        Base64_Avx512Vbmi \<Rightarrow> Some (\<lambda>input output. target_feature (cpu_of machine) [Avx512Vbmi, Avx512Bw]
          (avx512_decode_prefix (cpu_of machine) address A input output))
      | Base64_Avx2 \<Rightarrow> Some (\<lambda>input output. target_feature (cpu_of machine) [Avx2]
          (avx2_decode_prefix address A input output))
      | Base64_Sse41 \<Rightarrow> Some (\<lambda>input output. target_feature (cpu_of machine) [Ssse3, Sse41]
          (sse41_decode_prefix A input output))
      | Base64_Ssse3 \<Rightarrow> Some (\<lambda>input output. target_feature (cpu_of machine) [Ssse3]
          (ssse3_decode_prefix A input output))
      | Base64_Scalar \<Rightarrow> None
      | Base64_Neon \<Rightarrow> None)"

definition decode_valid_prefix_x86 ::
  "machine \<Rightarrow> nat \<Rightarrow> decoder \<Rightarrow> base64_backend \<Rightarrow> bytes \<Rightarrow> bytes
    \<Rightarrow> ((nat \<times> nat) option \<times> bytes) option" where
  "decode_valid_prefix_x86 machine address A backend input output =
     (case decode_valid_prefix_x86_kernel machine address A backend of
        None \<Rightarrow> Some (None, output)
      | Some run \<Rightarrow> do {
          (source, destination, output) \<leftarrow> run input output;
          Some (Some (source, destination), output) })"

definition decode_valid_prefix_x86_alphabet ::
  "machine \<Rightarrow> nat \<Rightarrow> base64_backend \<Rightarrow> decode_alphabet \<Rightarrow> bytes \<Rightarrow> bytes
    \<Rightarrow> ((nat \<times> nat) option \<times> bytes) option" where
  "decode_valid_prefix_x86_alphabet machine address backend alphabet input output =
     (case alphabet of
        Standard \<Rightarrow> decode_valid_prefix_x86 machine address StandardDecoder backend input output
      | UrlSafe \<Rightarrow> decode_valid_prefix_x86 machine address UrlSafeDecoder backend input output
      | Mixed \<Rightarrow> decode_valid_prefix_x86 machine address MixedDecoder backend input output)"

definition decode_valid_prefix_with_runtime_backend ::
  "machine \<Rightarrow> nat \<Rightarrow> decode_alphabet \<Rightarrow> bytes \<Rightarrow> bytes \<Rightarrow> ((nat \<times> nat) option \<times> bytes) option" where
  "decode_valid_prefix_with_runtime_backend machine address alphabet input output =
     (if is_x86 (arch_of machine) then
        do {
          selection \<leftarrow> selected_backend machine;
          decode_valid_prefix_x86_alphabet machine address (runtime_backend selection) alphabet input output }
      else Some (None, output))"

section \<open>Every selected kernel keeps its contract\<close>

lemma decodes_nothing: "decode_outcome a slack v input mem (Inr (0, 0, mem))"
  by (simp add: decode_outcome_def decoded_start)

lemma decode_x86_outcome:
  assumes "list_all (cpu_of machine) (required_features backend)"
    and "check_input A \<or> all_symbols (decoder_alphabet A) input"
    and "length input div 4 * 3 + slack_of S \<le> length mem"
  shows "\<exists>r. decode_x86 machine address A S backend input mem = Some r
    \<and> decode_outcome (decoder_alphabet A) (slack_of S) v input mem r"
proof -
  note defs = decode_x86_def decode_x86_kernel_def
  show ?thesis
  proof (cases backend)
    case Base64_Avx512Vbmi
    then have "decode_x86 machine address A S backend input mem = avx512_decode (cpu_of machine) address A S input mem"
      "cpu_of machine Avx2" using assms(1) by (simp_all add: defs)
    then show ?thesis using avx512_decode_outcome [OF _ assms(2,3)] by simp
  next
    case Base64_Avx2
    then have "decode_x86 machine address A S backend input mem = avx2_decode address A S input mem"
      using assms(1) by (simp add: defs)
    then show ?thesis using avx2.kernel_outcome [OF assms(2,3)] by simp
  next
    case Base64_Sse41
    then have "decode_x86 machine address A S backend input mem = sse41_decode A S input mem"
      using assms(1) by (simp add: defs)
    then show ?thesis using sse41.kernel_outcome [OF assms(2,3)] by simp
  next
    case Base64_Ssse3
    then have "decode_x86 machine address A S backend input mem = ssse3_decode A S input mem"
      using assms(1) by (simp add: defs)
    then show ?thesis using ssse3.kernel_outcome [OF assms(2,3)] by simp
  qed (simp_all add: defs decodes_nothing)
qed

text \<open>The slack that a decoder may use behind the decoded bytes.\<close>

definition slack_used :: "bool \<Rightarrow> error_write_policy \<Rightarrow> nat" where
  "slack_used output_has_store_slack policy = (if output_has_store_slack \<and> policy = Partial then 4 else 0)"

lemma decode_outcome_weaken:
  assumes "decode_outcome a slack v input mem r" "slack \<le> slack'"
  shows "decode_outcome a slack' v input mem r"
proof (cases r)
  case (Inl x)
  then obtain e m where r: "r = Inl (e, m)" by (cases x) simp
  have E: "e = InvalidInput" "\<not> all_symbols a input" "length m = length mem"
    "drop (length input div 4 * 3 + slack) m = drop (length input div 4 * 3 + slack) mem"
    "v \<longrightarrow> (\<exists>n. decoded a slack input n mem m)"
    using assms(1) unfolding r decode_outcome_def sum.case prod.case by blast+
  have "drop (length input div 4 * 3 + slack') m = drop (length input div 4 * 3 + slack') mem"
    using assms(2) by (intro drop_drop_eq [OF E(4)]) simp
  moreover have "v \<longrightarrow> (\<exists>n. decoded a slack' input n mem m)"
    using E(5) decoded_weaken [OF _ assms(2)] by blast
  ultimately show ?thesis using E(1-3) unfolding r decode_outcome_def sum.case prod.case by blast
next
  case (Inr x)
  then show ?thesis using assms by (cases x) (simp add: decode_outcome_def decoded_weaken)
qed

lemma decode_with_backend_ptr_mode_outcome:
  assumes features: "list_all (cpu_of machine) (required_features backend)"
    and fit: "length input div 4 * 3 + slack_used has_slack policy \<le> length mem"
  shows "\<exists>r. decode_with_backend_ptr_mode machine address backend a has_slack policy input mem = Some r
    \<and> decode_outcome a (slack_used has_slack policy) (policy = ValidatedBlocksOnly) input mem r"
proof (cases "is_x86 (arch_of machine)")
  case True
  let ?s = "has_slack \<and> policy = Partial" and ?v = "policy = ValidatedBlocksOnly"
  have exact: "\<exists>r. decode_x86 machine address (decoder_of a) ExactStore backend input mem = Some r
      \<and> decode_outcome a 0 ?v input mem r"
    using decode_x86_outcome [OF features, of "decoder_of a" input ExactStore mem address ?v] fit by simp
  have padded: "\<exists>r. decode_x86 machine address (decoder_of a) PaddedStore backend input mem = Some r
      \<and> decode_outcome a 4 ?v input mem r" if ?s
    using decode_x86_outcome [OF features, of "decoder_of a" input PaddedStore mem address ?v] fit that
    by (simp add: slack_used_def)
  have "\<exists>r. decode_x86_alphabet machine address backend a ?s input mem = Some r
      \<and> decode_outcome a (slack_used has_slack policy) ?v input mem r"
    using exact padded decode_outcome_weaken [of a 0 ?v input mem _ 4]
    by (cases a; cases ?s; simp add: decode_x86_alphabet_def decode_x86_store_def slack_used_def; blast)
  then show ?thesis using True by (simp add: decode_with_backend_ptr_mode_def)
next
  case False
  have fit0: "length input div 4 * 3 + 0 \<le> length mem" using fit by simp
  show ?thesis
  proof (cases "arch_of machine = Arch_AArch64 \<and> backend = Base64_Neon")
    case True
    have "\<exists>r. decode_with_backend_ptr_mode machine address backend a has_slack policy input mem = Some r
        \<and> decode_outcome a 0 (policy = ValidatedBlocksOnly) input mem r"
      using False True features neon.kernel_outcome [OF disjI1 [OF TrueI] fit0]
        neon_blocks.kernel_outcome [OF disjI1 [OF TrueI] fit0]
      by (cases a; cases policy; simp add: decode_with_backend_ptr_mode_def neon_alphabet_def; metis)
    then show ?thesis using decode_outcome_weaken by blast
  next
    case no_neon: False
    show ?thesis
      unfolding decode_with_backend_ptr_mode_def if_not_P [OF False] if_not_P [OF no_neon]
      by (simp add: decodes_nothing)
  qed
qed

lemma decode_with_runtime_backend_outcome:
  assumes "selected_backend machine = Some selection"
    and "length input div 4 * 3 + slack_used has_slack policy \<le> length mem"
  shows "\<exists>r. decode_with_runtime_backend machine address a has_slack policy input mem = Some r
    \<and> decode_outcome a (slack_used has_slack policy) (policy = ValidatedBlocksOnly) input mem r"
  using decode_with_backend_ptr_mode_outcome [OF selected_backend_runs [OF assms(1)] assms(2)] assms(1)
  by (simp add: decode_with_runtime_backend_def)

text \<open>The selected decoder as an instance of the contract of a kernel, within its slack.\<close>

interpretation runtime: decode_kernel
    "\<lambda>input mem. if selected_backend machine = None then Some (Inr (0, 0, mem))
       else decode_with_runtime_backend machine address a has_slack policy input mem"
    a "slack_used has_slack policy" "policy = ValidatedBlocksOnly" True
  for machine address a has_slack policy
proof (unfold_locales, goal_cases)
  case (1 input mem)
  then show ?case
    using decode_with_runtime_backend_outcome [of machine _ input has_slack policy mem address a]
    by (cases "selected_backend machine") (simp_all add: decodes_nothing)
qed

lemma decode_standard_validated_decoded:
  assumes "selected_backend machine = Some selection"
    and "length input div 4 * 3 \<le> length mem" "all_symbols Standard input"
  shows "\<exists>n m. decode_standard_validated_with_runtime_backend machine address input mem = Some (n, n div 4 * 3, m)
    \<and> decoded Standard 0 input n mem m"
proof -
  note features = selected_backend_runs [OF assms(1)]
  let ?b = "runtime_backend selection"
  have "\<exists>n m. decode_standard_validated_with_backend_inner machine address ?b input mem = Some (n, n div 4 * 3, m)
    \<and> decoded Standard 0 input n mem m"
  proof (cases "is_x86 (arch_of machine)")
    case True
    have ok: "check_input ValidatedStandardDecoder \<or> all_symbols (decoder_alphabet ValidatedStandardDecoder) input"
      and fit: "length input div 4 * 3 + slack_of ExactStore \<le> length mem"
      using assms(2,3) by simp_all
    obtain r where r: "decode_x86 machine address ValidatedStandardDecoder ExactStore ?b input mem = Some r"
      "decode_outcome (decoder_alphabet ValidatedStandardDecoder) (slack_of ExactStore) True input mem r"
      using decode_x86_outcome [OF features ok fit] by blast
    show ?thesis
    proof (cases r)
      case (Inl x)
      then show ?thesis using r(2) assms(3) by (cases x) (simp add: decode_outcome_def)
    next
      case (Inr x)
      then show ?thesis
        using True r by (cases x) (simp add: decode_standard_validated_with_backend_inner_def decode_outcome_def)
    qed
  next
    case False
    show ?thesis
    proof (cases "arch_of machine = Arch_AArch64 \<and> ?b = Base64_Neon")
      case True
      then show ?thesis
        using False features neon_standard_validated_decoded [OF assms(2,3)]
        by (simp add: decode_standard_validated_with_backend_inner_def)
    next
      case no_neon: False
      show ?thesis
        unfolding decode_standard_validated_with_backend_inner_def if_not_P [OF False] if_not_P [OF no_neon]
        by (simp add: decoded_start)
    qed
  qed
  then show ?thesis using assms(1) by (simp add: decode_standard_validated_with_runtime_backend_def)
qed

lemma validated_nothing: "validated a input (Inr 0)"
  by (simp add: validated_def)

lemma validate_x86_outcome:
  assumes "list_all (cpu_of machine) (required_features backend)"
  shows "\<exists>r. validate_x86 machine (decoder_of a) backend input = Some r \<and> validated a input r"
proof -
  note defs = validate_x86_def validate_x86_kernel_def
  show ?thesis
  proof (cases backend)
    case Base64_Avx512Vbmi
    then have "validate_x86 machine (decoder_of a) backend input = avx512_validate (cpu_of machine) (decoder_of a) input"
      "cpu_of machine Avx2" using assms(1) by (simp_all add: defs)
    then show ?thesis using avx512_validate_outcome [of "cpu_of machine" "decoder_of a" input] by simp
  next
    case Base64_Avx2
    then have "validate_x86 machine (decoder_of a) backend input = avx2_validate (decoder_of a) input"
      using assms(1) by (simp add: defs)
    then show ?thesis using avx2.validate_outcome by simp
  next
    case Base64_Sse41
    then have "validate_x86 machine (decoder_of a) backend input = sse41_validate (decoder_of a) input"
      using assms(1) by (simp add: defs)
    then show ?thesis using sse41.validate_outcome by simp
  next
    case Base64_Ssse3
    then have "validate_x86 machine (decoder_of a) backend input = ssse3_validate (decoder_of a) input"
      using assms(1) by (simp add: defs)
    then show ?thesis using ssse3.validate_outcome by simp
  qed (simp_all add: defs validated_nothing)
qed

lemma validate_with_runtime_backend_outcome:
  assumes "selected_backend machine = Some selection"
  shows "\<exists>r. validate_with_runtime_backend machine a input = Some r \<and> validated a input r"
proof -
  note features = selected_backend_runs [OF assms]
  let ?b = "runtime_backend selection"
  have "\<exists>r. validate_with_backend_inner machine ?b a input = Some r \<and> validated a input r"
  proof (cases "is_x86 (arch_of machine)")
    case True
    then have "validate_with_backend_inner machine ?b a input = validate_x86 machine (decoder_of a) ?b input"
      by (cases a) (simp_all add: validate_with_backend_inner_def)
    then show ?thesis using validate_x86_outcome [OF features] by simp
  next
    case False
    show ?thesis
    proof (cases "arch_of machine = Arch_AArch64 \<and> ?b = Base64_Neon")
      case True
      have "\<exists>urlsafe mixed. neon_alphabet urlsafe mixed = a
          \<and> validate_with_backend_inner machine ?b a input = neon_validate urlsafe mixed input"
        using False True features
        by (cases a) (simp_all add: validate_with_backend_inner_def neon_alphabet_def, blast+)
      then show ?thesis using neon.validate_outcome by metis
    next
      case no_neon: False
      show ?thesis
        unfolding validate_with_backend_inner_def if_not_P [OF False] if_not_P [OF no_neon]
        by (simp add: validated_nothing)
    qed
  qed
  then show ?thesis using assms by (simp add: validate_with_runtime_backend_def)
qed

text \<open>A prefix decoder is there exactly where an x86 kernel is selected.\<close>

definition prefix_result :: "decode_alphabet \<Rightarrow> bytes \<Rightarrow> bytes \<Rightarrow> (nat \<times> nat) option \<times> bytes \<Rightarrow> bool" where
  "prefix_result a input mem = (\<lambda>(r, m).
     (case r of None \<Rightarrow> m = mem | Some (n, d) \<Rightarrow> d = n div 4 * 3 \<and> decoded a 0 input n mem m))"

lemma decode_valid_prefix_x86_result:
  assumes "list_all (cpu_of machine) (required_features backend)" "length input div 4 * 3 \<le> length mem"
  shows "\<exists>r m. decode_valid_prefix_x86 machine address (decoder_of a) backend input mem = Some (r, m)
    \<and> prefix_result a input mem (r, m) \<and> (r = None \<longleftrightarrow> backend = Base64_Scalar \<or> backend = Base64_Neon)"
proof -
  note defs = decode_valid_prefix_x86_def decode_valid_prefix_x86_kernel_def
  have result: ?thesis
    if "decode_valid_prefix_x86 machine address (decoder_of a) backend input mem =
        do { (n, d, m) \<leftarrow> run; Some (Some (n, d), m) }" "prefix_decoded a input mem run"
      "\<not> (backend = Base64_Scalar \<or> backend = Base64_Neon)" for run
    using that by (auto simp: prefix_decoded_def prefix_result_def)
  show ?thesis
  proof (cases backend)
    case Base64_Avx512Vbmi
    then have "cpu_of machine Avx2" using assms(1) by simp
    then have "prefix_decoded a input mem (avx512_decode_prefix (cpu_of machine) address (decoder_of a) input mem)"
      using avx512_decode_prefix_decoded [of "cpu_of machine" "decoder_of a" input mem address] assms(2) by simp
    then show ?thesis
      using Base64_Avx512Vbmi assms(1) by (intro result) (simp_all add: defs)
  next
    case Base64_Avx2
    then show ?thesis
      using assms avx2.prefix_outcome [OF assms(2)] by (intro result) (simp_all add: defs)
  next
    case Base64_Sse41
    then show ?thesis
      using assms sse41.prefix_outcome [OF assms(2)] by (intro result) (simp_all add: defs)
  next
    case Base64_Ssse3
    then show ?thesis
      using assms ssse3.prefix_outcome [OF assms(2)] by (intro result) (simp_all add: defs)
  qed (simp_all add: defs prefix_result_def)
qed

lemma decode_valid_prefix_result:
  assumes "selected_backend machine = Some selection" "length input div 4 * 3 \<le> length mem"
  shows "\<exists>r m. decode_valid_prefix_with_runtime_backend machine address a input mem = Some (r, m)
    \<and> prefix_result a input mem (r, m)
    \<and> (r = None \<longleftrightarrow> \<not> is_x86 (arch_of machine) \<or> runtime_backend selection = Base64_Scalar)"
proof (cases "is_x86 (arch_of machine)")
  case True
  let ?b = "runtime_backend selection"
  have "decode_valid_prefix_x86_alphabet machine address ?b a input mem
      = decode_valid_prefix_x86 machine address (decoder_of a) ?b input mem"
    by (cases a) (simp_all add: decode_valid_prefix_x86_alphabet_def)
  then have "decode_valid_prefix_with_runtime_backend machine address a input mem
      = decode_valid_prefix_x86 machine address (decoder_of a) ?b input mem"
    using True assms(1) by (simp add: decode_valid_prefix_with_runtime_backend_def)
  then show ?thesis
    using decode_valid_prefix_x86_result [OF selected_backend_runs [OF assms(1)] assms(2)]
      selected_backend_family(1) [OF assms(1) True] True by simp
next
  case False
  then show ?thesis
    by (simp add: decode_valid_prefix_with_runtime_backend_def prefix_result_def)
qed

end
