(* ===== verification/Base64_Decode.thy ===== *)
theory Base64_Decode
  imports Base64_Decode_Dispatch Base64_Encode
begin

text \<open>
  The decoders of \<open>src/base64/decode/api.rs\<close>: the layout of padded and unpadded text, the kernel
  and the scalar steps after it, and the public functions.  An internal decoder returns what the
  memory holds in both outcomes; \<open>None\<close> is a panic or an access outside a region.
\<close>

section \<open>Layouts\<close>

record layout =
  layout_input_len :: nat
  layout_padding :: nat
  layout_output_len :: nat

definition decode_layout :: "bytes \<Rightarrow> base64_error + layout" where
  "decode_layout input =
     (if input = [] then Inr \<lparr>layout_input_len = 0, layout_padding = 0, layout_output_len = 0\<rparr>
      else if length input AND 3 \<noteq> 0 then Inl InvalidInput
      else
        let n = length input;
            padding =
              (if 2 \<le> n \<and> input ! (n - 2) = ascii CHR ''='' \<and> input ! (n - 1) = ascii CHR ''='' then 2
               else if 1 \<le> n \<and> input ! (n - 1) = ascii CHR ''='' then 1 else 0)
        in Inr \<lparr>layout_input_len = n, layout_padding = padding, layout_output_len = n div 4 * 3 - padding\<rparr>)"

definition decode_unpadded_layout :: "bytes \<Rightarrow> base64_error + layout" where
  "decode_unpadded_layout input =
     (let complete_quartets = length input div 4;
          tail = length input mod 4;
          tail_len = (if tail = 0 then Some 0 else if tail = 2 then Some 1 else if tail = 3 then Some 2 else None)
      in case tail_len of
           None \<Rightarrow> Inl InvalidInput
         | Some tail_len \<Rightarrow>
             if complete_quartets * 3 \<le> USIZE_MAX \<and> complete_quartets * 3 + tail_len \<le> USIZE_MAX
             then Inr \<lparr>layout_input_len = length input, layout_padding = 0,
                       layout_output_len = complete_quartets * 3 + tail_len\<rparr>
             else Inl InvalidInput)"

definition b64decoded_len :: "bytes \<Rightarrow> base64_error + nat" where
  "b64decoded_len input =
     (case decode_layout input of
        Inl e \<Rightarrow> Inl e
      | Inr layout \<Rightarrow>
          if ascii CHR ''='' \<in> set (take (length input - layout_padding layout) input) then Inl InvalidInput
          else Inr (layout_output_len layout))"

section \<open>Decoding to memory\<close>

definition decode_to_ptr_with_layout_mode ::
  "machine \<Rightarrow> nat \<Rightarrow> bytes \<Rightarrow> bytes \<Rightarrow> layout \<Rightarrow> decode_alphabet \<Rightarrow> bool \<Rightarrow> error_write_policy
    \<Rightarrow> (base64_error \<times> bytes + bytes) option" where
  "decode_to_ptr_with_layout_mode machine address input output layout alphabet output_has_store_slack
     error_write_policy =
     do {
       let padding = layout_padding layout;
       guard (padding = 0 \<or> 4 \<le> length input);
       let simd_len = (if padding = 0 then length input else length input - 4);
       let table = table_of alphabet;
       and_then
         (if simd_len < 16 then Some (Inr (0, 0, output))
          else decode_with_runtime_backend machine address alphabet output_has_store_slack error_write_policy
            (take simd_len input) output) (\<lambda>(source, state).
       and_then (try_while simd_len 8 8 (\<lambda>source (destination, output). do {
           block \<leftarrow> slice input source 8;
           and_then (decode_eight_ptr block output destination table) (\<lambda>output.
             Some (Inr (destination + 6, output))) }) source state) (\<lambda>(source, state).
       and_then (try_while simd_len 1 4 (\<lambda>source (destination, output). do {
           quad \<leftarrow> slice input source 4;
           and_then (decode_quad_ptr quad output destination 0 table) (\<lambda>output.
             Some (Inr (destination + 3, output))) }) source state) (\<lambda>(source, destination, output).
       if padding \<noteq> 0 then do {
         quad \<leftarrow> slice input source 4;
         decode_quad_ptr quad output destination padding table }
       else Some (Inr output))))
     }"

definition decode_to_ptr_with_unpadded_layout_mode ::
  "machine \<Rightarrow> nat \<Rightarrow> bytes \<Rightarrow> bytes \<Rightarrow> layout \<Rightarrow> decode_alphabet \<Rightarrow> error_write_policy
    \<Rightarrow> (base64_error \<times> bytes + bytes) option" where
  "decode_to_ptr_with_unpadded_layout_mode machine address input output layout alphabet error_write_policy =
     (let prefix_len = length input div 4 * 4;
          prefix_layout = \<lparr>layout_input_len = prefix_len, layout_padding = 0,
            layout_output_len = prefix_len div 4 * 3\<rparr>;
          tail = drop prefix_len input
      in and_then (decode_to_ptr_with_layout_mode machine address (take prefix_len input) output prefix_layout
           alphabet False error_write_policy) (\<lambda>output.
         and_then (if tail \<noteq> []
           then decode_unpadded_tail_ptr tail output (layout_output_len prefix_layout) (table_of alphabet)
           else Some (Inr output)) (\<lambda>output. do {
         guard (layout_output_len prefix_layout + length tail - length tail div 2 = layout_output_len layout);
         Some (Inr output) })))"

definition decode_to_ptr_with_layout ::
  "machine \<Rightarrow> nat \<Rightarrow> bytes \<Rightarrow> bytes \<Rightarrow> layout \<Rightarrow> decode_alphabet \<Rightarrow> bool
    \<Rightarrow> (base64_error \<times> bytes + bytes) option" where
  "decode_to_ptr_with_layout machine address input output layout alphabet output_has_store_slack =
     decode_to_ptr_with_layout_mode machine address input output layout alphabet output_has_store_slack Partial"

definition decode_to_ptr_with_unpadded_layout ::
  "machine \<Rightarrow> nat \<Rightarrow> bytes \<Rightarrow> bytes \<Rightarrow> layout \<Rightarrow> decode_alphabet
    \<Rightarrow> (base64_error \<times> bytes + bytes) option" where
  "decode_to_ptr_with_unpadded_layout machine address input output layout alphabet =
     decode_to_ptr_with_unpadded_layout_mode machine address input output layout alphabet Partial"

section \<open>Decoding to a slice\<close>

definition decode_to_slice_with_layout_and_alphabet ::
  "machine \<Rightarrow> nat \<Rightarrow> bytes \<Rightarrow> bytes \<Rightarrow> layout \<Rightarrow> decode_alphabet
    \<Rightarrow> (base64_error \<times> bytes + bytes) option" where
  "decode_to_slice_with_layout_and_alphabet machine address input output layout alphabet =
     do {
       guard (length input = layout_input_len layout);
       guard (length output = layout_output_len layout);
       decode_to_ptr_with_layout machine address input output layout alphabet False
     }"

definition decode_to_slice_with_layout ::
  "machine \<Rightarrow> nat \<Rightarrow> bytes \<Rightarrow> bytes \<Rightarrow> layout \<Rightarrow> bool \<Rightarrow> (base64_error \<times> bytes + bytes) option" where
  "decode_to_slice_with_layout machine address input output layout urlsafe =
     (let alphabet = (if urlsafe then UrlSafe else Standard)
      in decode_to_slice_with_layout_and_alphabet machine address input output layout alphabet)"

definition decode_to_slice_with_unpadded_layout_and_alphabet ::
  "machine \<Rightarrow> nat \<Rightarrow> bytes \<Rightarrow> bytes \<Rightarrow> layout \<Rightarrow> decode_alphabet
    \<Rightarrow> (base64_error \<times> bytes + bytes) option" where
  "decode_to_slice_with_unpadded_layout_and_alphabet machine address input output layout alphabet =
     do {
       guard (length input = layout_input_len layout);
       guard (length output = layout_output_len layout);
       decode_to_ptr_with_unpadded_layout_mode machine address input output layout alphabet Partial
     }"

definition decode_to_slice_with_unpadded_layout_and_alphabet_validated_blocks ::
  "machine \<Rightarrow> nat \<Rightarrow> bytes \<Rightarrow> bytes \<Rightarrow> layout \<Rightarrow> decode_alphabet
    \<Rightarrow> (base64_error \<times> bytes + bytes) option" where
  "decode_to_slice_with_unpadded_layout_and_alphabet_validated_blocks machine address input output layout alphabet =
     do {
       guard (length input = layout_input_len layout);
       guard (length output = layout_output_len layout);
       decode_to_ptr_with_unpadded_layout_mode machine address input output layout alphabet ValidatedBlocksOnly
     }"

definition decode_to_slice_with_layout_and_alphabet_validated_blocks ::
  "machine \<Rightarrow> nat \<Rightarrow> bytes \<Rightarrow> bytes \<Rightarrow> layout \<Rightarrow> decode_alphabet
    \<Rightarrow> (base64_error \<times> bytes + bytes) option" where
  "decode_to_slice_with_layout_and_alphabet_validated_blocks machine address input output layout alphabet =
     do {
       guard (length input = layout_input_len layout);
       guard (length output = layout_output_len layout);
       decode_to_ptr_with_layout_mode machine address input output layout alphabet False ValidatedBlocksOnly
     }"

section \<open>The public decoders\<close>

text \<open>The caller's slice is part of the result: what it holds after the call, also after an error.\<close>

definition b64decode_into_with_alphabet ::
  "machine \<Rightarrow> nat \<Rightarrow> bytes \<Rightarrow> bytes \<Rightarrow> bool \<Rightarrow> ((base64_error + nat) \<times> bytes) option" where
  "b64decode_into_with_alphabet machine address input output urlsafe =
     (case decode_layout input of
        Inl e \<Rightarrow> Some (Inl e, output)
      | Inr layout \<Rightarrow>
          let required = layout_output_len layout in
          if length output < required then Some (Inl (OutputTooSmall required (length output)), output)
          else do {
            r \<leftarrow> decode_to_slice_with_layout machine address input (take required output) layout urlsafe;
            Some (case r of
                Inl (e, prefix) \<Rightarrow> (Inl e, prefix @ drop required output)
              | Inr prefix \<Rightarrow> (Inr required, prefix @ drop required output)) })"

definition b64decode_into ::
  "machine \<Rightarrow> nat \<Rightarrow> bytes \<Rightarrow> bytes \<Rightarrow> ((base64_error + nat) \<times> bytes) option" where
  "b64decode_into machine address input output =
     b64decode_into_with_alphabet machine address input output False"

definition b64decode_urlsafe_into ::
  "machine \<Rightarrow> nat \<Rightarrow> bytes \<Rightarrow> bytes \<Rightarrow> ((base64_error + nat) \<times> bytes) option" where
  "b64decode_urlsafe_into machine address input output =
     b64decode_into_with_alphabet machine address input output True"

definition b64decode_with_alphabet ::
  "machine \<Rightarrow> nat \<Rightarrow> (nat \<Rightarrow> u8) \<Rightarrow> bytes \<Rightarrow> bool \<Rightarrow> (base64_error + bytes) option" where
  "b64decode_with_alphabet machine address memory input urlsafe =
     (case decode_layout input of
        Inl e \<Rightarrow> Some (Inl e)
      | Inr layout \<Rightarrow>
          if layout_output_len layout = 0 then Some (Inr [])
          else do {
            let simd_len = length input - of_bool (layout_padding layout \<noteq> 0) * 4;
            let output_has_store_slack = 16 \<le> simd_len;
            guard (output_has_store_slack \<longrightarrow> layout_output_len layout + DECODE_STORE_PADDING \<le> USIZE_MAX);
            let allocation_len = (if output_has_store_slack then layout_output_len layout + DECODE_STORE_PADDING
              else layout_output_len layout);
            output \<leftarrow> allocate_uninitialized_output memory allocation_len;
            let alphabet = (if urlsafe then UrlSafe else Standard);
            r \<leftarrow> decode_to_ptr_with_layout machine address input output layout alphabet output_has_store_slack;
            (case r of
               Inl (e, _) \<Rightarrow> Some (Inl e)
             | Inr output \<Rightarrow> do {
                 result \<leftarrow> assume_output_initialized output (layout_output_len layout);
                 Some (Inr result) }) })"

definition b64decode :: "machine \<Rightarrow> nat \<Rightarrow> (nat \<Rightarrow> u8) \<Rightarrow> bytes \<Rightarrow> (base64_error + bytes) option" where
  "b64decode machine address memory input = b64decode_with_alphabet machine address memory input False"

definition b64decode_urlsafe :: "machine \<Rightarrow> nat \<Rightarrow> (nat \<Rightarrow> u8) \<Rightarrow> bytes \<Rightarrow> (base64_error + bytes) option" where
  "b64decode_urlsafe machine address memory input = b64decode_with_alphabet machine address memory input True"

section \<open>Validation, and decoding of validated text\<close>

definition validate_alphabet :: "machine \<Rightarrow> bytes \<Rightarrow> decode_alphabet \<Rightarrow> (base64_error + unit) option" where
  "validate_alphabet machine input alphabet =
     and_then (if 16 \<le> length input then validate_with_runtime_backend machine alphabet input else Some (Inr 0))
       (\<lambda>source. do {
         guard (source \<le> length input);
         let table = table_of alphabet;
         Some (if list_ex (\<lambda>b. table ! unat b = INVALID_VALUE) (drop source input) then Inl InvalidInput
           else Inr ()) })"

definition decode_standard_validated_to_ptr :: "machine \<Rightarrow> nat \<Rightarrow> bytes \<Rightarrow> bytes \<Rightarrow> (nat \<times> bytes) option" where
  "decode_standard_validated_to_ptr machine address input output =
     do {
       guard (length input mod 4 \<noteq> 1);
       let prefix_len = length input div 4 * 4;
       (source, state) \<leftarrow> (if 16 \<le> prefix_len
         then decode_standard_validated_with_runtime_backend machine address (take prefix_len input) output
         else Some (0, 0, output));
       (source, state) \<leftarrow> scan_while prefix_len 8 8 (\<lambda>source (destination, output). do {
         block \<leftarrow> slice input source 8;
         output \<leftarrow> decode_eight_validated_ptr block output destination STANDARD_DECODE;
         Some (destination + 6, output) }) source state;
       (source, destination, output) \<leftarrow> scan_while prefix_len 1 4 (\<lambda>source (destination, output). do {
         quad \<leftarrow> slice input source 4;
         output \<leftarrow> decode_quad_validated_ptr quad output destination STANDARD_DECODE;
         Some (destination + 3, output) }) source state;
       let tail = drop prefix_len input;
       (destination, output) \<leftarrow> (if tail \<noteq> [] then do {
           output \<leftarrow> decode_unpadded_tail_validated_ptr tail output destination STANDARD_DECODE;
           Some (destination + (length tail - length tail div 2), output) }
         else Some (destination, output));
       guard (source = prefix_len);
       guard (destination = prefix_len div 4 * 3 + length tail - length tail div 2);
       Some (destination, output)
     }"

section \<open>The layout of a text\<close>

lemma length_and_3: "n AND 3 = n mod 4" for n :: nat
  using take_bit_eq_mask [of 2 n] by (simp add: take_bit_eq_mod mask_eq_exp_minus_1)

lemma nth_last_rev: "n < length xs \<Longrightarrow> xs ! (length xs - Suc n) = rev xs ! n"
  by (simp add: rev_nth)

lemma trailing_padding_cases:
  "trailing_padding input =
     (if 2 \<le> length input \<and> input ! (length input - 2) = 61 \<and> input ! (length input - 1) = 61 then 2
      else if 1 \<le> length input \<and> input ! (length input - 1) = 61 then 1 else 0)"
proof (cases "rev input")
  case (Cons z zs)
  then have input: "input = rev zs @ [z]" by (metis rev.simps(2) rev_rev_ident)
  show ?thesis
  proof (cases zs)
    case Nil
    then show ?thesis by (simp add: trailing_padding_def input ascii_def)
  next
    case (Cons y ys)
    then show ?thesis by (simp add: trailing_padding_def input ascii_def nth_append)
  qed
qed (simp add: trailing_padding_def)

lemma decode_layout_eq:
  "decode_layout input =
     (if length input mod 4 \<noteq> 0 then Inl InvalidInput
      else Inr \<lparr>layout_input_len = length input, layout_padding = trailing_padding input,
        layout_output_len = length input div 4 * 3 - trailing_padding input\<rparr>)"
  unfolding decode_layout_def length_and_3 trailing_padding_cases
  by (simp add: Let_def ascii_def)

lemma trailing_padding_le: "trailing_padding input \<le> 2" "trailing_padding input \<le> length input"
  by (simp_all add: trailing_padding_cases)

text \<open>The text a layout describes, without its padding.\<close>

definition unpadded :: "bytes \<Rightarrow> bytes" where
  "unpadded input = take (length input - trailing_padding input) input"

lemma decode_spec_unpadded:
  "decode_spec a input =
     (if length input mod 4 = 0 \<and> all_symbols a (unpadded input) then Some (decoded_bytes a (unpadded input)) else None)"
proof -
  have "(n - p) mod 4 \<noteq> 1" if "p \<le> 2" "p \<le> n" "n mod 4 = 0" for n p :: nat
  proof
    assume "(n - p) mod 4 = 1"
    then have "(1 + p) mod 4 = (n - p + p) mod 4" by (metis mod_add_left_eq)
    with that have "(1 + p) mod 4 = 0" by simp
    moreover have "1 + p < 4" using that(1) by simp
    ultimately show False by simp
  qed
  from this [OF trailing_padding_le] have "length input mod 4 = 0 \<longrightarrow> length (unpadded input) mod 4 \<noteq> 1"
    by (simp add: unpadded_def)
  then show ?thesis by (simp add: decode_spec_def decode_unpadded_spec_eq unpadded_def)
qed

section \<open>A decoded text\<close>

definition complete :: "decode_alphabet \<Rightarrow> nat \<Rightarrow> bytes \<Rightarrow> bytes \<Rightarrow> bytes \<Rightarrow> bool" where
  "complete a slack text mem mem' \<longleftrightarrow>
     all_symbols a text \<and> length mem' = length mem
     \<and> take (length text * 3 div 4) mem' = decoded_bytes a text
     \<and> drop (length text * 3 div 4 + slack) mem' = drop (length text * 3 div 4 + slack) mem"

text \<open>
  What a decoder of a text does with the memory: it decodes all of the text, or the text has
  another character; then it has changed nothing but the space of the decoded text, and with a
  policy of validated blocks only it has decoded a prefix of the text and changed nothing else.
\<close>

definition decode_result ::
  "decode_alphabet \<Rightarrow> nat \<Rightarrow> bool \<Rightarrow> bytes \<Rightarrow> bytes \<Rightarrow> base64_error \<times> bytes + bytes \<Rightarrow> bool" where
  "decode_result a slack v text mem r =
     (case r of
        Inr m \<Rightarrow> complete a slack text mem m
      | Inl (e, m) \<Rightarrow> e = InvalidInput \<and> \<not> all_symbols a text \<and> length m = length mem
          \<and> drop (length text * 3 div 4 + slack) m = drop (length text * 3 div 4 + slack) mem
          \<and> (v \<longrightarrow> (\<exists>n. decoded a slack text n mem m)))"

lemma decoded_complete:
  assumes "decoded a slack text (length text) mem m"
  shows "complete a slack text mem m"
proof -
  have "length text div 4 * 3 = length text * 3 div 4" using decodedD(1) [OF assms] by (auto elim!: dvdE)
  then show ?thesis using decodedD [OF assms] by (simp add: complete_def)
qed

text \<open>An error after a decoded prefix.\<close>

lemma decode_result_error:
  assumes "decoded a slack text n mem m" "\<not> all_symbols a text"
  shows "decode_result a slack v text mem (Inl (InvalidInput, m))"
proof -
  have "n div 4 * 3 \<le> length text * 3 div 4" using decodedD(1,2) [OF assms(1)] by (auto elim!: dvdE)
  then have "drop (length text * 3 div 4 + slack) m = drop (length text * 3 div 4 + slack) mem"
    by (intro drop_drop_eq [OF decodedD(6) [OF assms(1)]]) simp
  then show ?thesis using assms decodedD(4) [OF assms(1)] by (auto simp: decode_result_def)
qed

text \<open>The last two or three characters after complete groups.\<close>

lemma complete_tail:
  assumes "decoded a slack text (length text) mem m" "length tail = 2 \<or> length tail = 3"
    and "all_symbols a tail" "length text div 4 * 3 + (length tail - 1) \<le> length mem"
  shows "\<exists>m'. store m (length text div 4 * 3) (decoded_bytes a tail) = Some m'
    \<and> complete a slack (text @ tail) mem m'"
proof -
  note D = decodedD [OF assms(1)]
  let ?d = "length text div 4 * 3"
  have len: "length (decoded_bytes a tail) = length tail - 1"
    using assms(2) by (auto simp: length_decoded_bytes)
  have whole: "length (text @ tail) * 3 div 4 = ?d + (length tail - 1)"
    using D(1) assms(2) by (auto elim!: dvdE)
  define m' where m'_eq: "m' = take ?d m @ decoded_bytes a tail @ drop (?d + (length tail - 1)) m"
  have m': "store m ?d (decoded_bytes a tail) = Some m'"
    using assms(4) D(4) unfolding m'_eq store_def len by simp
  have l: "length (take ?d m @ decoded_bytes a tail) = ?d + (length tail - 1)"
    using assms(4) D(4) unfolding length_append len by simp
  have "take (length (take ?d m @ decoded_bytes a tail)) m' = take ?d m @ decoded_bytes a tail"
    unfolding m'_eq append_assoc [symmetric] by (rule append_eq_conv_conj [THEN iffD1, THEN conjunct1, OF refl, symmetric])
  then have "take (?d + (length tail - 1)) m' = decoded_bytes a text @ decoded_bytes a tail"
    unfolding l using D(5) by simp
  also have "\<dots> = decoded_bytes a (text @ tail)" using D(1) by (simp add: decoded_bytes_append)
  finally have 1: "take (?d + (length tail - 1)) m' = decoded_bytes a (text @ tail)" .
  have "drop (?d + (length tail - 1) + slack) m' = drop (?d + (length tail - 1) + slack) m"
    by (rule drop_drop_eq [OF store_frame(2) [OF m', unfolded len]]) simp
  also have "\<dots> = drop (?d + (length tail - 1) + slack) mem"
    by (rule drop_drop_eq [OF D(6)]) simp
  finally show ?thesis
    using 1 m' D(3,4) assms(3) length_store [OF m']
    unfolding complete_def whole all_symbols_simps(3) by simp
qed

section \<open>The scalar loops\<close>

text \<open>A loop whose test looks only at the offset, at aligned offsets.\<close>

lemma try_while_aligned:
  assumes "0 < w" "w dvd len" "w dvd off"
  shows "try_while len 1 w body off s = try_while len w w body off s"
  using assms(3)
proof (induction "Suc len - off" arbitrary: off s rule: less_induct)
  case less
  have "off + 1 \<le> len \<longleftrightarrow> off + w \<le> len"
    using dvd_imp_le [OF dvd_diff_nat [OF assms(2) less.prems]] assms(1) by auto
  moreover have "try_while len 1 w body (off + w) = try_while len w w body (off + w)" if "off + w \<le> len"
    by (rule ext, rule less.hyps) (use that assms(1) less.prems in auto)
  ultimately show ?case
    by (subst (1 2) try_while.simps) (simp add: assms(1) cong: if_cong)
qed

lemma scalar_group:
  assumes "k \<le> length input" "c = w div 4 * 3"
    and step: "\<And>block m d. length block = w \<Longrightarrow> f block m d =
      (if all_symbols a block then store m d (decoded_bytes a block) \<bind> (\<lambda>m. Some (Inr m))
       else Some (Inl (InvalidInput, m)))"
  shows "group_step a slack (take k input) w (\<lambda>n d m. (InvalidInput, m)) (\<lambda>source (destination, output). do {
      block \<leftarrow> slice input source w;
      and_then (f block output destination) (\<lambda>output. Some (Inr (destination + c, output))) })"
    (is "group_step _ _ _ _ _ ?body")
  unfolding group_step_def
proof (intro allI impI)
  fix off d m assume fit: "off + w \<le> length (take k input)"
  let ?b = "take w (drop off input)"
  have b: "slice input off w = Some ?b" "length ?b = w" using fit assms(1) by (simp_all add: slice_simps)
  have block: "take w (drop off (take k input)) = ?b" 
  proof -
    have "w \<le> k - off" using fit by auto
    then show ?thesis by (simp add: drop_take min_absorb1)
  qed
  have "?body off (d, m) = (if all_symbols a ?b
      then store m d (decoded_bytes a ?b) \<bind> (\<lambda>m. Some (Inr (d + c, m))) else Some (Inl (InvalidInput, m)))"
    by (simp add: b(1) step [OF b(2)] and_then_def bind_assoc)
  then show "if all_symbols a (take w (drop off (take k input)))
    then \<exists>rest. length rest \<le> slack \<and> ?body off (d, m) =
      store m d (decoded_bytes a (take w (drop off (take k input))) @ rest)
        \<bind> (\<lambda>m. Some (Inr (d + w div 4 * 3, m)))
    else ?body off (d, m) = Some (Inl (InvalidInput, m))"
    unfolding block assms(2) by (auto intro: exI [of _ "[]"])
qed

lemma group_eight:
  assumes "k \<le> length input"
  shows "group_step a slack (take k input) 8 (\<lambda>n d m. (InvalidInput, m)) (\<lambda>source (destination, output). do {
      block \<leftarrow> slice input source 8;
      and_then (decode_eight_ptr block output destination (table_of a)) (\<lambda>output.
        Some (Inr (destination + 6, output))) })"
  using scalar_group [OF assms, of 6 8 "\<lambda>b m d. decode_eight_ptr b m d (table_of a)" a slack]
  by (simp add: decode_eight_eq)

lemma group_quad:
  assumes "k \<le> length input"
  shows "group_step a slack (take k input) 4 (\<lambda>n d m. (InvalidInput, m)) (\<lambda>source (destination, output). do {
      quad \<leftarrow> slice input source 4;
      and_then (decode_quad_ptr quad output destination 0 (table_of a)) (\<lambda>output.
        Some (Inr (destination + 3, output))) })"
  using scalar_group [OF assms, of 3 4 "\<lambda>b m d. decode_quad_ptr b m d 0 (table_of a)" a slack]
  by (simp add: decode_quad_eq)

text \<open>Both loops reach the end of the complete groups, or a group with another character.\<close>

lemma scalar_loops:
  fixes rest :: "nat \<times> nat \<times> bytes \<Rightarrow> (base64_error \<times> bytes + bytes) option"
  assumes "4 dvd k" "k \<le> length input" "decoded a slack (take k input) n mem m" "k div 4 * 3 + slack \<le> length mem"
  defines "loops \<equiv> and_then (try_while k 8 8 (\<lambda>source (destination, output). do {
           block \<leftarrow> slice input source 8;
           and_then (decode_eight_ptr block output destination (table_of a)) (\<lambda>output.
             Some (Inr (destination + 6, output))) }) n (n div 4 * 3, m)) (\<lambda>(source, state).
       and_then (try_while k 1 4 (\<lambda>source (destination, output). do {
           quad \<leftarrow> slice input source 4;
           and_then (decode_quad_ptr quad output destination 0 (table_of a)) (\<lambda>output.
             Some (Inr (destination + 3, output))) }) source state) rest)"
  obtains n' m' where "loops = Some (Inl (InvalidInput, m'))" "decoded a slack (take k input) n' mem m'"
      "\<not> all_symbols a (take k input)"
    | m' where "loops = rest (k, k div 4 * 3, m')" "decoded a slack (take k input) k mem m'"
proof -
  have len: "length (take k input) = k" using assms(2) by simp
  have fit: "length (take k input) div 4 * 3 + slack \<le> length mem" using assms(4) len by simp
  obtain r where r: "try_while k 8 8 (\<lambda>source (destination, output). do {
           block \<leftarrow> slice input source 8;
           and_then (decode_eight_ptr block output destination (table_of a)) (\<lambda>output.
             Some (Inr (destination + 6, output))) }) n (n div 4 * 3, m) = Some r"
      "reached a slack (take k input) mem (\<lambda>n d m. (InvalidInput, m)) r"
    using reached_loop [OF group_eight [OF assms(2)] _ _ assms(3) fit, unfolded len] by auto
  show thesis
  proof (cases r)
    case (Inl e)
    then obtain n' m' where "e = (InvalidInput, m')" "decoded a slack (take k input) n' mem m'"
      "\<not> all_symbols a (take k input)" using r(2) by (auto simp: reached_def)
    then show thesis by (intro that(1)) (simp_all add: loops_def r(1) Inl)
  next
    case (Inr x)
    then obtain n1 m1 where x: "x = (n1, n1 div 4 * 3, m1)" and D1: "decoded a slack (take k input) n1 mem m1"
      using r(2) by (cases x) (auto simp: reached_def)
    obtain r' where r': "try_while k 4 4 (\<lambda>source (destination, output). do {
           quad \<leftarrow> slice input source 4;
           and_then (decode_quad_ptr quad output destination 0 (table_of a)) (\<lambda>output.
             Some (Inr (destination + 3, output))) }) n1 (n1 div 4 * 3, m1) = Some r'"
      "case r' of
         Inl e \<Rightarrow> \<exists>n m. e = (InvalidInput, m) \<and> decoded a slack (take k input) n mem m \<and> \<not> all_symbols a (take k input)
       | Inr (n, d, m) \<Rightarrow> d = n div 4 * 3 \<and> decoded a slack (take k input) n mem m \<and> k < n + 4"
      using group_step_loop [OF group_quad [OF assms(2)] _ _ D1 fit, unfolded len] by auto
    have loops: "loops = and_then (Some r') rest"
      by (simp only: loops_def r(1) Inr x and_then_simps prod.case
          try_while_aligned [OF zero_less_numeral assms(1) decodedD(1) [OF D1]] r'(1))
    show thesis
    proof (cases r')
      case (Inl e)
      then obtain n' m' where "e = (InvalidInput, m')" "decoded a slack (take k input) n' mem m'"
        "\<not> all_symbols a (take k input)" using r'(2) by auto
      then show thesis by (intro that(1)) (simp_all add: loops Inl)
    next
      case (Inr y)
      then obtain n2 m2 where y: "y = (n2, n2 div 4 * 3, m2)" and D2: "decoded a slack (take k input) n2 mem m2"
        and "k < n2 + 4" using r'(2) by (cases y) auto
      then have "n2 = k"
        using assms(1) decodedD(1,2) [OF D2] len by (auto elim!: dvdE)
      then show thesis using D2 by (intro that(2)) (simp_all add: loops Inr y)
    qed
  qed
qed

section \<open>Every decoder keeps the contract of its policy\<close>

lemma decoded_append: "decoded a slack text n mem m \<Longrightarrow> decoded a slack (text @ tail) n mem m"
  using decoded_prefix [of a slack "length text" "text @ tail"] by simp

lemma decode_outcome_result:
  assumes "decode_outcome a slack v text mem (Inl x)"
  shows "decode_result a slack v (text @ tail) mem (Inl x)"
proof -
  obtain e m where x: "x = (e, m)" by (cases x)
  have E: "e = InvalidInput" "\<not> all_symbols a text" "length m = length mem"
    "drop (length text div 4 * 3 + slack) m = drop (length text div 4 * 3 + slack) mem"
    "v \<longrightarrow> (\<exists>n. decoded a slack text n mem m)"
    using assms unfolding x decode_outcome_def sum.case prod.case by blast+
  have le: "length text div 4 * 3 \<le> length (text @ tail) * 3 div 4" by simp
  have "drop (length (text @ tail) * 3 div 4 + slack) m = drop (length (text @ tail) * 3 div 4 + slack) mem"
    by (rule drop_drop_eq [OF E(4) add_right_mono [OF le]])
  moreover have "decoded a slack (text @ tail) n mem m" if "decoded a slack text n mem m" for n
    using that by (rule decoded_append)
  then have "v \<longrightarrow> (\<exists>n. decoded a slack (text @ tail) n mem m)" using E(5) by blast
  moreover have "\<not> all_symbols a (text @ tail)" using E(2) by simp
  ultimately show ?thesis
    using E(1,3) unfolding x decode_result_def sum.case prod.case by blast
qed

lemma decode_to_ptr_with_layout_mode_result:
  fixes input :: bytes and layout :: layout
  defines "p \<equiv> layout_padding layout"
  assumes selected: "selected_backend machine = Some selection"
    and "length input mod 4 = 0" "p \<le> 2" "p \<noteq> 0 \<Longrightarrow> input \<noteq> []"
    and room: "length input div 4 * 3 - p + slack_used has_slack policy \<le> length mem"
  shows "\<exists>r. decode_to_ptr_with_layout_mode machine address input mem layout a has_slack policy = Some r
    \<and> decode_result a (slack_used has_slack policy) (policy = ValidatedBlocksOnly)
        (take (length input - p) input) mem r"
proof -
  let ?s = "slack_used has_slack policy" and ?v = "policy = ValidatedBlocksOnly"
  define k where "k = (if p = 0 then length input else length input - 4)"
  define pre where "pre = take k input"
  define tail where "tail = (if p = 0 then [] else take (4 - p) (drop k input))"
  have n4: "4 dvd length input" using assms(3) by auto
  have n: "p \<noteq> 0 \<Longrightarrow> 4 \<le> length input" using n4 assms(5) by (auto dest: dvd_imp_le)
  have k: "4 dvd k" "k \<le> length input" using n4 n by (auto simp: k_def)
  have len: "length pre = k" using k(2) by (simp add: pre_def)
  have whole: "take (length input - p) input = pre @ tail"
    using n assms(4) by (auto simp: pre_def tail_def k_def simp flip: take_add)
  have quarter: "length input div 4 * 3 - p = k div 4 * 3 + (if p = 0 then 0 else 3 - p)"
  proof (cases "p = 0")
    case False
    obtain j where j: "length input = 4 * j" using n4 by (auto elim: dvdE)
    with n [OF False] obtain i where "j = Suc i" by (cases j) auto
    with j False assms(4) show ?thesis by (simp add: k_def)
  qed (simp add: k_def)
  have fit: "length pre div 4 * 3 + ?s \<le> length mem" using room quarter len by simp
  define kernel where "kernel =
     (if k < 16 then Some (Inr (0, 0, mem)) else decode_with_runtime_backend machine address a has_slack policy pre mem)"
  have "\<exists>r. kernel = Some r \<and> decode_outcome a ?s ?v pre mem r"
    using decode_with_runtime_backend_outcome [OF selected fit] by (simp add: kernel_def decodes_nothing)
  then obtain r where r: "kernel = Some r" "decode_outcome a ?s ?v pre mem r" by blast
  let ?rest = "\<lambda>(source, destination, output).
     if p \<noteq> 0 then do { quad \<leftarrow> slice input source 4; decode_quad_ptr quad output destination p (table_of a) }
     else Some (Inr output)"
  let ?loops = "\<lambda>(source, state).
     and_then (try_while k 8 8 (\<lambda>source (destination, output). do {
         block \<leftarrow> slice input source 8;
         and_then (decode_eight_ptr block output destination (table_of a)) (\<lambda>output.
           Some (Inr (destination + 6, output))) }) source state) (\<lambda>(source, state).
     and_then (try_while k 1 4 (\<lambda>source (destination, output). do {
         quad \<leftarrow> slice input source 4;
         and_then (decode_quad_ptr quad output destination 0 (table_of a)) (\<lambda>output.
           Some (Inr (destination + 3, output))) }) source state) ?rest)"
  have run: "decode_to_ptr_with_layout_mode machine address input mem layout a has_slack policy
      = and_then (Some r) ?loops"
  proof -
    have "p = 0 \<or> 4 \<le> length input" using n by blast
    then show ?thesis
      unfolding r(1) [symmetric] kernel_def pre_def k_def p_def decode_to_ptr_with_layout_mode_def Let_def
      by simp
  qed
  show ?thesis
  proof (cases r)
    case (Inl x)
    then show ?thesis using decode_outcome_result [of a ?s ?v pre mem x tail] r(2) by (simp add: run whole)
  next
    case (Inr x)
    then obtain n1 m1 where x: "x = (n1, n1 div 4 * 3, m1)" and D: "decoded a ?s (take k input) n1 mem m1"
      using r(2) by (cases x) (auto simp: decode_outcome_def pre_def)
    have fit': "k div 4 * 3 + ?s \<le> length mem" using fit len by simp
    show ?thesis
    proof (cases rule: scalar_loops [OF k D fit', of ?rest])
      case (1 n' m')
      have "decoded a ?s (pre @ tail) n' mem m'"
        unfolding pre_def using 1(2) by (rule decoded_append)
      moreover have "\<not> all_symbols a (pre @ tail)" using 1(3) by (simp add: pre_def)
      ultimately show ?thesis
        using 1(1) decode_result_error [of a ?s "pre @ tail" n' mem m' ?v] by (simp add: run Inr x whole)
    next
      case (2 m')
      have D2: "decoded a ?s pre (length pre) mem m'" using 2(2) unfolding len by (simp only: pre_def)
      show ?thesis
      proof (cases "p = 0")
        case True
        then show ?thesis
          unfolding whole using 2(1) decoded_complete [OF D2] by (simp add: run Inr x tail_def decode_result_def)
      next
        case False
        let ?quad = "drop k input"
        have p: "p = 1 \<or> p = 2" using False assms(4) by auto
        have quad: "slice input k 4 = Some ?quad" "length ?quad = 4"
          using False n by (simp_all add: slice_simps k_def)
        have tail: "tail = take (4 - p) ?quad" "length tail = 2 \<or> length tail = 3"
          using False p quad(2) by (auto simp: tail_def)
        have runs: "decode_to_ptr_with_layout_mode machine address input mem layout a has_slack policy
          = (if all_symbols a tail then store m' (k div 4 * 3) (decoded_bytes a tail) \<bind> (\<lambda>m. Some (Inr m))
             else Some (Inl (InvalidInput, m')))"
          using 2(1) False decode_quad_padding_eq [OF quad(2) p, of m' "k div 4 * 3" a]
          by (simp add: run Inr x quad(1) tail(1))
        show ?thesis
        proof (cases "all_symbols a tail")
          case True
          have "length pre div 4 * 3 + (length tail - 1) \<le> length mem"
            using room quarter False p tail(1) quad(2) len by auto
          from complete_tail [OF D2 tail(2) True this] show ?thesis
            using True by (auto simp: runs len whole decode_result_def)
        next
          case no: False
          have "decoded a ?s (pre @ tail) (length pre) mem m'"
            using D2 by (rule decoded_append)
          then show ?thesis
            using no decode_result_error [of a ?s "pre @ tail" "length pre" mem m' ?v] by (simp add: runs whole)
        qed
      qed
    qed
  qed
qed

lemma layout_text: "length input mod 4 = 0 \<Longrightarrow> length (unpadded input) * 3 div 4 = length input div 4 * 3 - trailing_padding input"
proof -
  assume "length input mod 4 = 0"
  then obtain j where j: "length input = 4 * j" by (auto elim!: dvdE simp: mod_eq_0_iff_dvd)
  moreover have "trailing_padding input = 0 \<or> trailing_padding input = 1 \<or> trailing_padding input = 2"
    using trailing_padding_le(1) [of input] by linarith
  ultimately show ?thesis using trailing_padding_le(2) [of input] by (cases j) (auto simp: unpadded_def)
qed

text \<open>With the layout that \<open>decode_layout\<close> returns.\<close>

lemma decode_with_own_layout:
  assumes "selected_backend machine = Some selection" "decode_layout input = Inr layout"
    and "layout_output_len layout + slack_used has_slack policy \<le> length mem"
  shows "\<exists>r. decode_to_ptr_with_layout_mode machine address input mem layout a has_slack policy = Some r
    \<and> decode_result a (slack_used has_slack policy) (policy = ValidatedBlocksOnly) (unpadded input) mem r"
proof -
  have L: "length input mod 4 = 0" "layout_padding layout = trailing_padding input"
    "layout_output_len layout = length input div 4 * 3 - trailing_padding input"
    using assms(2) by (auto simp: decode_layout_eq split: if_splits)
  have "trailing_padding input \<noteq> 0 \<Longrightarrow> input \<noteq> []" using trailing_padding_le(2) [of input] by auto
  then show ?thesis
    using decode_to_ptr_with_layout_mode_result [OF assms(1) L(1), of layout has_slack policy mem address a]
      assms(3) trailing_padding_le(1) [of input]
    by (simp add: L(2,3) unpadded_def)
qed

lemma decode_to_ptr_with_unpadded_layout_mode_result:
  assumes "selected_backend machine = Some selection" "decode_unpadded_layout input = Inr layout"
    and "layout_output_len layout \<le> length mem"
  shows "\<exists>r. decode_to_ptr_with_unpadded_layout_mode machine address input mem layout a policy = Some r
    \<and> decode_result a 0 (policy = ValidatedBlocksOnly) input mem r"
proof -
  let ?v = "policy = ValidatedBlocksOnly"
  define k where "k = length input div 4 * 4"
  define L where "L = \<lparr>layout_input_len = k, layout_padding = 0, layout_output_len = k div 4 * 3\<rparr>"
  define tail where "tail = drop k input"
  have k: "4 dvd k" "k \<le> length input" by (simp_all add: k_def)
  have whole: "input = take k input @ tail" by (simp add: tail_def)
  have len: "length tail = length input mod 4" by (simp add: tail_def k_def minus_div_mult_eq_mod)
  have out: "length input mod 4 \<noteq> 1"
    "layout_output_len layout = k div 4 * 3 + (if length input mod 4 = 0 then 0 else length input mod 4 - 1)"
    using assms(2) by (auto simp: decode_unpadded_layout_def k_def Let_def split: if_splits)
  have tail: "tail = [] \<or> length tail = 2 \<or> length tail = 3"
    using out(1) len mod_less_divisor [of 4 "length input"] by (cases tail) (simp_all, linarith)
  have slack: "slack_used False policy = 0" by (simp add: slack_used_def)
  obtain r where r: "decode_to_ptr_with_layout_mode machine address (take k input) mem L a False policy = Some r"
    "decode_result a 0 ?v (take k input) mem r"
    using decode_to_ptr_with_layout_mode_result [OF assms(1), of "take k input" L False policy mem address a]
      k out(2) assms(3) by (auto simp: L_def slack)
  have run: "decode_to_ptr_with_unpadded_layout_mode machine address input mem layout a policy =
      and_then (Some r) (\<lambda>output.
        and_then (if tail \<noteq> [] then decode_unpadded_tail_ptr tail output (k div 4 * 3) (table_of a)
          else Some (Inr output)) (\<lambda>output. do {
        guard (k div 4 * 3 + length tail - length tail div 2 = layout_output_len layout);
        Some (Inr output) }))"
    unfolding r(1) [symmetric] decode_to_ptr_with_unpadded_layout_mode_def Let_def tail_def L_def k_def
    by (simp only: layout.select_convs)
  have total: "k div 4 * 3 + length tail - length tail div 2 = layout_output_len layout"
    using out(2) tail unfolding len [symmetric] by auto
  show ?thesis
  proof (cases r)
    case (Inl x)
    obtain e m where x: "x = (e, m)" by (cases x)
    have E: "e = InvalidInput" "\<not> all_symbols a (take k input)" "length m = length mem"
      "drop (k * 3 div 4 + 0) m = drop (k * 3 div 4 + 0) mem" "?v \<longrightarrow> (\<exists>n. decoded a 0 (take k input) n mem m)"
      using r(2) k(2) unfolding Inl x decode_result_def sum.case prod.case by (simp_all add: min_absorb2)
    have le: "k * 3 div 4 \<le> length input * 3 div 4" using k(2) by (intro div_le_mono mult_le_mono1)
    have "drop (length input * 3 div 4 + 0) m = drop (length input * 3 div 4 + 0) mem"
      by (rule drop_drop_eq [OF E(4) add_right_mono [OF le]])
    moreover have "?v \<longrightarrow> (\<exists>n. decoded a 0 input n mem m)"
      using E(5) decoded_prefix by blast
    moreover have "\<not> all_symbols a input" using E(2) not_all_symbols_block [of a k 0 input] by simp
    ultimately show ?thesis
      using E(1,3) unfolding run Inl x and_then_simps decode_result_def by simp
  next
    case (Inr m)
    have C: "complete a 0 (take k input) mem m" using r(2) by (simp add: Inr decode_result_def)
    have D: "decoded a 0 (take k input) (length (take k input)) mem m"
    proof -
      have "length (take k input) div 4 * 3 = length (take k input) * 3 div 4" using k by (auto elim!: dvdE)
      then show ?thesis using C k by (simp add: complete_def decoded_def)
    qed
    show ?thesis
    proof (cases "tail = []")
      case True
      then have "take k input = input" using whole by simp
      then show ?thesis using C total True by (simp add: run Inr decode_result_def)
    next
      case False
      have l: "length (take k input) div 4 * 3 = k div 4 * 3" using k(2) by (simp add: min_absorb2)
      have tail: "length tail = 2 \<or> length tail = 3" using tail False by blast
      show ?thesis
      proof (cases "all_symbols a tail")
        case True
        have "length (take k input) div 4 * 3 + (length tail - 1) \<le> length mem"
          using assms(3) out(2) tail len l by auto
        from complete_tail [OF D tail True this] obtain m' where
          "store m (k div 4 * 3) (decoded_bytes a tail) = Some m'" "complete a 0 (take k input @ tail) mem m'"
          unfolding l by blast
        then show ?thesis
          using False True total whole
          by (simp add: run Inr decode_unpadded_tail_eq [OF tail] decode_result_def)
      next
        case no: False
        have "decoded a 0 input (length (take k input)) mem m" by (rule decoded_prefix [OF D])
        moreover have "\<not> all_symbols a input" using no whole all_symbols_simps(3) by metis
        ultimately show ?thesis
          using False no decode_result_error by (simp add: run Inr decode_unpadded_tail_eq [OF tail])
      qed
    qed
  qed
qed

section \<open>The public functions\<close>

lemma decode_alphabet_of_if: "(if u then UrlSafe else Standard) = decode_alphabet_of u"
  by (simp add: decode_alphabet_of_def)

lemma decode_result_cases:
  assumes "decode_result a slack v (unpadded input) mem r" "length input mod 4 = 0"
  obtains (symbols) bytes m where "r = Inr m" "decode_spec a input = Some bytes"
      "length bytes = length input div 4 * 3 - trailing_padding input" "length m = length mem"
      "take (length bytes) m = bytes" "drop (length bytes + slack) m = drop (length bytes + slack) mem"
    | (others) m where "r = Inl (InvalidInput, m)" "decode_spec a input = None" "length m = length mem"
      "drop (length input div 4 * 3 - trailing_padding input + slack) m
        = drop (length input div 4 * 3 - trailing_padding input + slack) mem"
      "v \<Longrightarrow> \<exists>n. decoded a slack (unpadded input) n mem m"
proof (cases r)
  case (Inl x)
  obtain e m where x: "x = (e, m)" by (cases x)
  have "e = InvalidInput" "\<not> all_symbols a (unpadded input)" "length m = length mem"
    "drop (length (unpadded input) * 3 div 4 + slack) m = drop (length (unpadded input) * 3 div 4 + slack) mem"
    "v \<longrightarrow> (\<exists>n. decoded a slack (unpadded input) n mem m)"
    using assms(1) unfolding Inl x decode_result_def sum.case prod.case by blast+
  then show thesis using others [of m] by (simp add: Inl x decode_spec_unpadded layout_text [OF assms(2)])
next
  case (Inr m)
  then have "complete a slack (unpadded input) mem m" using assms(1) by (simp add: decode_result_def)
  moreover have "length (decoded_bytes a (unpadded input)) = length (unpadded input) * 3 div 4"
    by (rule length_decoded_bytes)
  ultimately show thesis
    using symbols [of m "decoded_bytes a (unpadded input)"] assms(2)
    by (simp add: Inr decode_spec_unpadded complete_def layout_text [OF assms(2), symmetric])
qed

lemma decode_spec_length:
  assumes "decode_spec a input = Some bytes"
  shows "length bytes = length input div 4 * 3 - trailing_padding input" "length input mod 4 = 0"
  using assms layout_text [of input]
  by (auto simp: decode_spec_unpadded length_decoded_bytes split: if_splits)

lemma b64decode_with_alphabet_eq:
  assumes selected: "selected_backend machine = Some selection" and "length input \<le> ISIZE_MAX"
  shows "b64decode_with_alphabet machine address memory input u =
    Some (case decode_spec (decode_alphabet_of u) input of None \<Rightarrow> Inl InvalidInput | Some bytes \<Rightarrow> Inr bytes)"
proof (cases "length input mod 4 = 0")
  case False
  then show ?thesis by (simp add: b64decode_with_alphabet_def decode_layout_eq decode_spec_unpadded)
next
  case True
  let ?a = "decode_alphabet_of u"
  define p where "p = trailing_padding input"
  define out where "out = length input div 4 * 3 - p"
  define L where "L = \<lparr>layout_input_len = length input, layout_padding = p, layout_output_len = out\<rparr>"
  have L: "decode_layout input = Inr L" using True by (simp add: decode_layout_eq L_def out_def p_def)
  obtain j where j: "length input = 4 * j" using True by (auto elim!: dvdE simp: mod_eq_0_iff_dvd)
  have p: "p \<le> 2" "p \<le> length input" unfolding p_def by (rule trailing_padding_le)+
  show ?thesis
  proof (cases "input = []")
    case True
    then show ?thesis
      by (simp add: b64decode_with_alphabet_def decode_layout_def decode_spec_unpadded unpadded_def)
  next
    case False
    then have pos: "out \<noteq> 0" using j p(1) by (cases j) (auto simp: out_def)
    define slack where "slack = (16 \<le> length input - of_bool (p \<noteq> 0) * 4)"
    define alloc where "alloc = out + slack_used slack Partial"
    have alloc: "alloc \<le> ISIZE_MAX" "out + DECODE_STORE_PADDING \<le> USIZE_MAX"
      using assms(2) j by (auto simp: alloc_def out_def slack_used_def slack_def ISIZE_MAX_def USIZE_MAX_def
          DECODE_STORE_PADDING_def split: if_splits)
    have alloc_if: "(if slack then out + DECODE_STORE_PADDING else out) = alloc"
      by (simp add: alloc_def slack_used_def DECODE_STORE_PADDING_def)
    let ?mem = "map memory [0..<alloc]"
    have fields: "layout_output_len L = out" "layout_padding L = p" by (simp_all add: L_def)
    have "layout_output_len L + slack_used slack Partial \<le> length ?mem" by (simp add: L_def alloc_def)
    from decode_with_own_layout [OF selected L this, of address ?a] obtain r where
      r: "decode_to_ptr_with_layout_mode machine address input ?mem L ?a slack Partial = Some r"
        "decode_result ?a (slack_used slack Partial) (Partial = ValidatedBlocksOnly) (unpadded input) ?mem r"
      by blast
    have run: "b64decode_with_alphabet machine address memory input u =
      (case r of Inl (e, _) \<Rightarrow> Some (Inl e)
       | Inr output \<Rightarrow> do { result \<leftarrow> assume_output_initialized output out; Some (Inr result) })"
      unfolding b64decode_with_alphabet_def L sum.case Let_def decode_alphabet_of_if
        decode_to_ptr_with_layout_def fields slack_def [symmetric] alloc_if
      using r(1) alloc pos by (simp add: allocate_uninitialized_output_def)
    from r(2) True show ?thesis
    proof (cases rule: decode_result_cases)
      case (symbols bytes m)
      then show ?thesis by (simp add: run assume_output_initialized_def out_def p_def alloc_def)
    next
      case (others m)
      then show ?thesis by (simp add: run)
    qed
  qed
qed

lemma b64decode_into_with_alphabet_result:
  fixes input :: bytes
  defines "n \<equiv> length input div 4 * 3 - trailing_padding input"
  assumes selected: "selected_backend machine = Some selection"
  shows "\<exists>result after. b64decode_into_with_alphabet machine address input output u = Some (result, after)
    \<and> length after = length output \<and> drop n after = drop n output
    \<and> (if length input mod 4 \<noteq> 0 then result = Inl InvalidInput \<and> after = output
       else if length output < n then result = Inl (OutputTooSmall n (length output)) \<and> after = output
       else case decode_spec (decode_alphabet_of u) input of
         None \<Rightarrow> result = Inl InvalidInput
       | Some bytes \<Rightarrow> result = Inr n \<and> after = bytes @ drop n output)"
proof -
  let ?a = "decode_alphabet_of u"
  show ?thesis
  proof (cases "length input mod 4 = 0")
    case False
    then show ?thesis by (simp add: b64decode_into_with_alphabet_def decode_layout_eq)
  next
    case True
    define L where "L = \<lparr>layout_input_len = length input, layout_padding = trailing_padding input,
      layout_output_len = n\<rparr>"
    have L: "decode_layout input = Inr L" using True by (simp add: decode_layout_eq L_def n_def)
    have fields: "layout_output_len L = n" "layout_input_len L = length input" by (simp_all add: L_def)
    show ?thesis
    proof (cases "length output < n")
      case small: True
      then show ?thesis
        using True L fields by (simp add: b64decode_into_with_alphabet_def)
    next
      case False
      then have out: "length (take n output) = n" by simp
      then have "layout_output_len L + slack_used False Partial \<le> length (take n output)"
        by (simp add: fields slack_used_def)
      from decode_with_own_layout [OF selected L this, of address ?a] obtain r where
        r: "decode_to_ptr_with_layout_mode machine address input (take n output) L ?a False Partial = Some r"
          "decode_result ?a (slack_used False Partial) (Partial = ValidatedBlocksOnly) (unpadded input) (take n output) r"
        by blast
      have "decode_to_slice_with_layout machine address input (take n output) L u = Some r"
        using r(1) out
        by (simp add: decode_to_slice_with_layout_def decode_to_slice_with_layout_and_alphabet_def fields
            decode_to_ptr_with_layout_def decode_alphabet_of_def)
      then have run: "b64decode_into_with_alphabet machine address input output u = Some (case r of
          Inl (e, prefix) \<Rightarrow> (Inl e, prefix @ drop n output)
        | Inr prefix \<Rightarrow> (Inr n, prefix @ drop n output))"
        using False by (simp add: b64decode_into_with_alphabet_def L fields)
      from r(2) True show ?thesis
      proof (cases rule: decode_result_cases)
        case (symbols bytes m)
        then have "m = bytes" "length bytes = n" using out by (simp_all add: n_def)
        then show ?thesis using True False symbols(1,2) by (simp add: run)
      next
        case (others m)
        then show ?thesis using True False out by (simp add: run)
      qed
    qed
  qed
qed

lemma b64decoded_len_eq:
  "b64decoded_len input =
    (if length input mod 4 = 0 \<and> 61 \<notin> set (unpadded input)
     then Inr (length input div 4 * 3 - trailing_padding input) else Inl InvalidInput)"
  by (simp add: b64decoded_len_def decode_layout_eq unpadded_def ascii_def)

lemma b64decoded_len_of_text:
  assumes "decode_spec a input = Some bytes"
  shows "b64decoded_len input = Inr (length bytes)"
proof -
  have "all_symbols a (unpadded input)" using assms by (simp add: decode_spec_unpadded split: if_splits)
  then have "61 \<notin> set (unpadded input)" by (auto simp: all_symbols_def list_all_iff)
  then show ?thesis using decode_spec_length [OF assms] by (simp add: b64decoded_len_eq)
qed

lemma validate_alphabet_eq:
  assumes "selected_backend machine = Some selection"
  shows "validate_alphabet machine input a = Some (if all_symbols a input then Inr () else Inl InvalidInput)"
proof -
  obtain r where r: "(if 16 \<le> length input then validate_with_runtime_backend machine a input else Some (Inr 0)) = Some r"
    "validated a input r"
    using validate_with_runtime_backend_outcome [OF assms, of a input] validated_nothing
    by (cases "16 \<le> length input") auto
  have rest: "list_ex (\<lambda>b. table_of a ! unat b = INVALID_VALUE) xs \<longleftrightarrow> \<not> all_symbols a xs" for xs
    by (induction xs) (simp_all add: invalid_iff_no_symbol)
  show ?thesis
  proof (cases r)
    case (Inl e)
    then show ?thesis using r by (simp add: validate_alphabet_def validated_def)
  next
    case (Inr n)
    then have n: "n \<le> length input" "all_symbols a (take n input)" using r(2) by (simp_all add: validated_def)
    have "all_symbols a input \<longleftrightarrow> all_symbols a (drop n input)"
      using n(2) all_symbols_simps(3) [of a "take n input" "drop n input"] by simp
    then show ?thesis using n(1) by (simp add: validate_alphabet_def r(1) Inr rest Let_def)
  qed
qed

section \<open>Decoding of trusted text\<close>

lemma scan_while_aligned:
  assumes "0 < w" "w dvd len" "w dvd off"
  shows "scan_while len 1 w f off s = scan_while len w w f off s"
  using assms(3)
proof (induction "Suc len - off" arbitrary: off s rule: less_induct)
  case less
  have "off + 1 \<le> len \<longleftrightarrow> off + w \<le> len"
    using dvd_imp_le [OF dvd_diff_nat [OF assms(2) less.prems]] assms(1) by auto
  moreover have "scan_while len 1 w f (off + w) = scan_while len w w f (off + w)" if "off + w \<le> len"
    by (rule ext, rule less.hyps) (use that assms(1) less.prems in auto)
  ultimately show ?case
    by (subst (1 2) scan_while.simps) (simp add: assms(1) cong: if_cong)
qed

lemma validated_loop:
  assumes "all_symbols a pre" "4 dvd w" "0 < w" "c = w div 4 * 3" "length pre div 4 * 3 \<le> length mem"
    and "decoded a 0 pre n mem m" "pre = take k input" "k \<le> length input"
    and step: "\<And>block m d. length block = w \<Longrightarrow> f block m d = store m d (decoded_bytes a block)"
  shows "\<exists>n' m'. scan_while k w w (\<lambda>source (destination, output). do {
         block \<leftarrow> slice input source w;
         output \<leftarrow> f block output destination;
         Some (destination + c, output) }) n (n div 4 * 3, m) = Some (n', n' div 4 * 3, m')
       \<and> decoded a 0 pre n' mem m' \<and> k < n' + w"
    (is "\<exists>n' m'. scan_while k w w ?f _ _ = _ \<and> _")
proof -
  let ?I = "\<lambda>off s. fst s = off div 4 * 3 \<and> decoded a 0 pre off mem (snd s)"
  have len: "length pre = k" using assms(7,8) by simp
  have step: "\<exists>s'. ?f off s = Some s' \<and> ?I (off + w) s'" if I: "?I off s" and fit: "off + w \<le> k" for off s
  proof -
    obtain m where s: "s = (off div 4 * 3, m)" and D: "decoded a 0 pre off mem m" using I by (cases s) simp
    let ?b = "take w (drop off input)"
    have b: "slice input off w = Some ?b" "length ?b = w" using fit assms(8) by (simp_all add: slice_simps)
    have "w \<le> k - off" using fit by simp
    then have block: "take w (drop off pre) = ?b" using assms(7) by (simp add: drop_take min_absorb1)
    have "all_symbols a (take w (drop off pre))"
      using assms(1) not_all_symbols_block [of a w off pre] by blast
    then obtain m' where "store m (off div 4 * 3) (decoded_bytes a ?b) = Some m'" "decoded a 0 pre (off + w) mem m'"
      using decoded_exact_step [OF D assms(2)] fit len assms(5) block by auto
    moreover have "off div 4 * 3 + c = (off + w) div 4 * 3"
      using decodedD(1) [OF D] assms(2,4) by (auto elim!: dvdE)
    ultimately show ?thesis by (simp add: s b(1) step [OF b(2)])
  qed
  have "\<exists>off' s'. scan_while k w w ?f n (n div 4 * 3, m) = Some (off', s') \<and> ?I off' s' \<and> k < off' + w"
    by (rule scan_while_total [where I = ?I, OF assms(3) _ step]) (use assms(6) in simp)
  then show ?thesis by auto
qed

lemma complete_memory:
  assumes "complete a 0 text mem m"
  shows "m = decoded_bytes a text @ drop (length text * 3 div 4) mem"
  using assms append_take_drop_id [of "length text * 3 div 4" m] by (simp add: complete_def)

lemma decode_standard_validated_to_ptr_eq:
  assumes selected: "selected_backend machine = Some selection" and "all_symbols Standard input"
    and mod: "length input mod 4 \<noteq> 1" and room: "length input * 3 div 4 \<le> length mem"
  shows "decode_standard_validated_to_ptr machine address input mem =
    Some (length input * 3 div 4, decoded_bytes Standard input @ drop (length input * 3 div 4) mem)"
proof -
  define k where "k = length input div 4 * 4"
  define pre where "pre = take k input"
  define tail where "tail = drop k input"
  have k: "4 dvd k" "k \<le> length input" by (simp_all add: k_def)
  have len: "length pre = k" using k(2) by (simp add: pre_def)
  have whole: "input = pre @ tail" by (simp add: pre_def tail_def)
  have ltail: "length tail = length input mod 4" by (simp add: tail_def k_def minus_div_mult_eq_mod)
  have tails: "tail = [] \<or> length tail = 2 \<or> length tail = 3"
    using mod ltail mod_less_divisor [of 4 "length input"] by (cases tail) (simp_all, linarith)
  have ok: "all_symbols Standard pre" "all_symbols Standard tail"
    using assms(2) whole all_symbols_simps(3) by metis+
  have total: "length input * 3 div 4 = k div 4 * 3 + (length tail - length tail div 2)"
    using k(1) len tails unfolding whole length_append by (auto elim!: dvdE)
  then have fit: "length pre div 4 * 3 \<le> length mem" using room len by simp
  define kernel where "kernel = (if 16 \<le> k then decode_standard_validated_with_runtime_backend machine address pre mem
    else Some (0, 0, mem))"
  have "\<exists>n m. kernel = Some (n, n div 4 * 3, m) \<and> decoded Standard 0 pre n mem m"
    using decode_standard_validated_decoded [OF selected fit ok(1)] by (auto simp: kernel_def decoded_start)
  then obtain n m where n: "kernel = Some (n, n div 4 * 3, m)" "decoded Standard 0 pre n mem m" by blast
  have eight: "decode_eight_validated_ptr b m d STANDARD_DECODE = store m d (decoded_bytes Standard b)"
    if "length b = 8" for b m d using decode_eight_validated_eq [OF that, of m d Standard] by simp
  have quad: "decode_quad_validated_ptr b m d STANDARD_DECODE = store m d (decoded_bytes Standard b)"
    if "length b = 4" for b m d using decode_quad_validated_eq [OF that, of m d Standard] by simp
  obtain n1 m1 where 1: "scan_while k 8 8 (\<lambda>source (destination, output). do {
         block \<leftarrow> slice input source 8;
         output \<leftarrow> decode_eight_validated_ptr block output destination STANDARD_DECODE;
         Some (destination + 6, output) }) n (n div 4 * 3, m) = Some (n1, n1 div 4 * 3, m1)"
      "decoded Standard 0 pre n1 mem m1"
    using validated_loop [OF ok(1) _ _ _ fit n(2) pre_def k(2), of 8 6
        "\<lambda>b m d. decode_eight_validated_ptr b m d STANDARD_DECODE"] eight by auto
  obtain n2 m2 where 2: "scan_while k 4 4 (\<lambda>source (destination, output). do {
         quad \<leftarrow> slice input source 4;
         output \<leftarrow> decode_quad_validated_ptr quad output destination STANDARD_DECODE;
         Some (destination + 3, output) }) n1 (n1 div 4 * 3, m1) = Some (n2, n2 div 4 * 3, m2)"
      "decoded Standard 0 pre n2 mem m2" "k < n2 + 4"
    using validated_loop [OF ok(1) _ _ _ fit 1(2) pre_def k(2), of 4 3
        "\<lambda>b m d. decode_quad_validated_ptr b m d STANDARD_DECODE"] quad by auto
  have n2: "n2 = k" using k(1) decodedD(1,2) [OF 2(2)] 2(3) len by (auto elim!: dvdE)
  have aligned: "scan_while k 1 4 f n1 s = scan_while k 4 4 f n1 s" for f and s :: "nat \<times> bytes"
    by (rule scan_while_aligned [OF _ k(1) decodedD(1) [OF 1(2)]]) simp
  let ?rest = "do {
      (destination, output) \<leftarrow> (if tail \<noteq> [] then do {
          output \<leftarrow> decode_unpadded_tail_validated_ptr tail m2 (k div 4 * 3) STANDARD_DECODE;
          Some (k div 4 * 3 + (length tail - length tail div 2), output) }
        else Some (k div 4 * 3, m2));
      guard (k = k);
      guard (destination = k div 4 * 3 + length tail - length tail div 2);
      Some (destination, output) }"
  have "guard (length input mod 4 \<noteq> 1) = Some ()" using mod by simp
  then have run: "decode_standard_validated_to_ptr machine address input mem = ?rest"
    unfolding decode_standard_validated_to_ptr_def Let_def k_def [symmetric] pre_def [symmetric]
      tail_def [symmetric] kernel_def [symmetric]
    by (simp only: n(1) 1(1) aligned 2(1) n2 Option.bind.simps prod.case)
  have D: "decoded Standard 0 pre (length pre) mem m2" using 2(2) by (simp add: n2 len)
  show ?thesis
  proof (cases "tail = []")
    case True
    then have "complete Standard 0 input mem m2" using decoded_complete [OF D] whole by simp
    from complete_memory [OF this] show ?thesis
      unfolding run total using True by simp
  next
    case False
    then have tail: "length tail = 2 \<or> length tail = 3" using tails by blast
    have l: "length pre div 4 * 3 = k div 4 * 3" by (simp add: len)
    have "length pre div 4 * 3 + (length tail - 1) \<le> length mem" using room total tail l by auto
    from complete_tail [OF D tail ok(2) this] obtain m' where
      m': "store m2 (k div 4 * 3) (decoded_bytes Standard tail) = Some m'" "complete Standard 0 input mem m'"
      unfolding l whole [symmetric] by blast
    have "decode_unpadded_tail_validated_ptr tail m2 (k div 4 * 3) STANDARD_DECODE = Some m'"
      using decode_unpadded_tail_validated_eq [OF tail, of m2 "k div 4 * 3" Standard] m'(1) by simp
    then have "?rest = Some (length input * 3 div 4, m')"
      using False tail by (simp add: total)
    then show ?thesis unfolding run using complete_memory [OF m'(2)] by simp
  qed
qed

section \<open>Properties\<close>

text \<open>
  C28: on every machine whose detection ends, the decoders return the bytes of the specification
  (the values of the symbols, their bits regrouped) for a text of complete groups with its padding
  at the end and symbols of the alphabet before it, and \<open>InvalidInput\<close> for every other text; no
  input that a slice can hold makes them panic or leave their allocation, whichever kernel is
  selected, wherever the allocation lies and whatever it held before.
\<close>
theorem b64decode_correct:
  assumes "selected_backend machine = Some selection" "length input \<le> ISIZE_MAX"
  shows "b64decode machine address memory input =
      Some (case decode_spec Standard input of None \<Rightarrow> Inl InvalidInput | Some bytes \<Rightarrow> Inr bytes)
    \<and> b64decode_urlsafe machine address memory input =
      Some (case decode_spec UrlSafe input of None \<Rightarrow> Inl InvalidInput | Some bytes \<Rightarrow> Inr bytes)"
  using b64decode_with_alphabet_eq [OF assms, of address memory]
  by (simp add: b64decode_def b64decode_urlsafe_def decode_alphabet_of_def)

lemma hello_text: "encode_spec STANDARD_ALPHABET (map of_char ''hello'') = map of_char ''aGVsbG8=''"
  by (simp add: encode_spec_def encode_unpadded_spec_def padding_for_def symbol_def STANDARD_ALPHABET_bytes)

lemma hello_decoded: "decode_spec Standard (map of_char ''aGVsbG8='') = Some (map of_char ''hello'')"
  using decode_encode_spec [of False "map of_char ''hello''"]
  by (simp only: alphabet_of_cases decode_alphabet_of_def if_False hello_text)

lemma b64decode_correct_witness:
  "b64decode example_machine 4096 (\<lambda>_. 7) (map of_char ''aGVsbG8='') = Some (Inr (map of_char ''hello''))
   \<and> b64decode example_machine 4096 (\<lambda>_. 7) (map of_char ''aGVsbG8'') = Some (Inl InvalidInput)"
proof -
  have "length (map of_char ''aGVsbG8='' :: bytes) \<le> ISIZE_MAX" "length (map of_char ''aGVsbG8'' :: bytes) \<le> ISIZE_MAX"
    by (simp_all add: ISIZE_MAX_def)
  note sizes = this
  have "decode_spec Standard (map of_char ''aGVsbG8'') = None" by (simp add: decode_spec_def)
  then show ?thesis
    using b64decode_correct [OF example_selected sizes(1), of 4096 "\<lambda>_. 7"]
      b64decode_correct [OF example_selected sizes(2), of 4096 "\<lambda>_. 7"]
    by (simp only: hello_decoded option.case simp_thms)
qed

text \<open>
  C29: decoding what an encoder returned gives the encoder's input, for both alphabets, also where
  the two run on different machines with different kernels.
\<close>
theorem b64decode_encode:
  assumes "selected_backend machine = Some selection" "selected_backend machine' = Some selection'"
    and "(length input + 2) div 3 * 4 \<le> ISIZE_MAX"
  shows "(\<exists>encoded. b64encode machine address memory input = Some encoded
      \<and> b64decode machine' address' memory' encoded = Some (Inr input))
    \<and> (\<exists>encoded. b64encode_urlsafe machine address memory input = Some encoded
      \<and> b64decode_urlsafe machine' address' memory' encoded = Some (Inr input))"
proof -
  have "b64encode_with_alphabet machine address memory input u = Some (encode_spec (alphabet_of u) input)" for u
    using b64encode_with_alphabet_eq [OF assms(1)] assms(3) by simp
  moreover have "b64decode_with_alphabet machine' address' memory' (encode_spec (alphabet_of u) input) u = Some (Inr input)" for u
    using b64decode_with_alphabet_eq [OF assms(2), of "encode_spec (alphabet_of u) input"] assms(3)
    by (simp add: length_encode_spec decode_encode_spec)
  ultimately show ?thesis
    by (simp add: b64encode_def b64encode_urlsafe_def b64decode_def b64decode_urlsafe_def)
qed

lemma b64decode_encode_witness:
  "\<exists>encoded. b64encode example_machine 0 (\<lambda>_. 1) [0xfb, 0xff] = Some encoded
    \<and> b64decode example_machine 32 (\<lambda>_. 2) encoded = Some (Inr [0xfb, 0xff])"
proof -
  have "(length ([0xfb, 0xff] :: bytes) + 2) div 3 * 4 \<le> ISIZE_MAX" by (simp add: ISIZE_MAX_def)
  from b64decode_encode [OF example_selected example_selected this, of 0 "\<lambda>_. 1" 32 "\<lambda>_. 2"]
  show ?thesis by (rule conjunct1)
qed

text \<open>
  C31: decoding into a caller's slice: a text whose length is no multiple of four and a slice that
  is too short are reported before anything is written; a text with another character is reported,
  possibly after a part of the decoded space was written; otherwise the bytes are at the start of
  the slice and their number is returned.  In every case each byte after the decoded space keeps
  its value.
\<close>
theorem b64decode_into_correct:
  assumes "selected_backend machine = Some selection"
  shows "let n = length input div 4 * 3 - trailing_padding input in
    \<exists>result after. b64decode_into machine address input output = Some (result, after)
      \<and> length after = length output \<and> drop n after = drop n output
      \<and> (if length input mod 4 \<noteq> 0 then result = Inl InvalidInput \<and> after = output
         else if length output < n then result = Inl (OutputTooSmall n (length output)) \<and> after = output
         else case decode_spec Standard input of
           None \<Rightarrow> result = Inl InvalidInput
         | Some bytes \<Rightarrow> result = Inr n \<and> after = bytes @ drop n output)"
  using b64decode_into_with_alphabet_result [OF assms, of address input "output" False]
  by (simp only: b64decode_into_def decode_alphabet_of_def if_False Let_def)

lemma b64decode_into_correct_witness:
  "b64decode_into example_machine 0 (map of_char ''aGVsbG8='') [1, 2, 3, 4, 5, 6, 7]
     = Some (Inr 5, map of_char ''hello'' @ [6, 7])
   \<and> b64decode_into example_machine 0 (map of_char ''aGVsbG8='') [1, 2] = Some (Inl (OutputTooSmall 5 2), [1, 2])"
proof -
  have n: "length (map of_char ''aGVsbG8='' :: bytes) div 4 * 3 - trailing_padding (map of_char ''aGVsbG8='') = 5"
    "length (map of_char ''aGVsbG8='' :: bytes) mod 4 = 0"
    by (simp_all add: trailing_padding_def ascii_def)
  show ?thesis
    using b64decode_into_correct [OF example_selected, of "map of_char ''aGVsbG8=''" 0 "[1, 2, 3, 4, 5, 6, 7]",
        unfolded Let_def n hello_decoded]
      b64decode_into_correct [OF example_selected, of "map of_char ''aGVsbG8=''" 0 "[1, 2]",
        unfolded Let_def n hello_decoded]
    by auto
qed

text \<open>
  C36: the announced length of a decoded text is exact: it is the number of bytes of every text that
  decodes, in either alphabet; and it is refused exactly for texts whose length is no multiple of
  four or that have the padding character before the trailing padding, so that no text with a
  refused length decodes.
\<close>
theorem b64decoded_len_exact:
  "(case decode_spec a input of
      Some bytes \<Rightarrow> b64decoded_len input = Inr (length bytes)
    | None \<Rightarrow> True)
   \<and> (b64decoded_len input = Inl InvalidInput \<or> b64decoded_len input = Inr (length input div 4 * 3 - trailing_padding input))
   \<and> ((\<exists>n. b64decoded_len input = Inr n) \<longleftrightarrow> 4 dvd length input
      \<and> ascii CHR ''='' \<notin> set (take (length input - trailing_padding input) input))"
proof -
  have "case decode_spec a input of Some bytes \<Rightarrow> b64decoded_len input = Inr (length bytes) | None \<Rightarrow> True"
    by (simp add: b64decoded_len_of_text split: option.split)
  then show ?thesis
    by (simp add: b64decoded_len_eq unpadded_def ascii_def mod_eq_0_iff_dvd)
qed

text \<open>
  C35: the alphabet check accepts exactly the texts whose bytes are all symbols, on every machine:
  the scan of the bytes that the selected kernel left over completes its answer, and it never
  starts behind the text.
\<close>
theorem validate_alphabet_exact:
  assumes "selected_backend machine = Some selection"
  shows "validate_alphabet machine input a =
    Some (if \<forall>b \<in> set input. symbol_value a b \<noteq> None then Inr () else Inl InvalidInput)"
  using validate_alphabet_eq [OF assms, of input a] by (simp add: all_symbols_def list_all_iff)

lemma validate_alphabet_exact_witness:
  "validate_alphabet example_machine [61, 65] Mixed = Some (Inl InvalidInput)"
  using validate_alphabet_exact [OF example_selected, of "[61, 65]" Mixed] by simp

text \<open>
  C30: a decoder that may write validated blocks only, given the layout of its input and a slice of
  its size, decodes the text or, when it reports an error, has written the bytes of some prefix of
  complete valid groups and has left every later byte as it was, so that a caller can go on from
  there.
\<close>
theorem validated_blocks_only:
  assumes "selected_backend machine = Some selection" "decode_layout input = Inr layout"
    and "length output = layout_output_len layout"
  shows "\<exists>r. decode_to_slice_with_layout_and_alphabet_validated_blocks machine address input output layout a = Some r
    \<and> (case r of
         Inr after \<Rightarrow> decode_spec a input = Some after
       | Inl (e, after) \<Rightarrow> e = InvalidInput \<and> decode_spec a input = None
           \<and> (\<exists>n. 4 dvd n \<and> n \<le> length input
                \<and> (\<exists>prefix. decode_unpadded_spec a (take n input) = Some prefix
                      \<and> after = prefix @ drop (length prefix) output)))"
proof -
  have L: "length input mod 4 = 0" "layout_input_len layout = length input"
    "layout_output_len layout = length input div 4 * 3 - trailing_padding input"
    using assms(2) by (auto simp: decode_layout_eq split: if_splits)
  have "layout_output_len layout + slack_used False ValidatedBlocksOnly \<le> length output"
    by (simp add: slack_used_def assms(3))
  from decode_with_own_layout [OF assms(1,2) this, of address a] obtain r where
    r: "decode_to_ptr_with_layout_mode machine address input output layout a False ValidatedBlocksOnly = Some r"
      "decode_result a (slack_used False ValidatedBlocksOnly) True (unpadded input) output r"
    by auto
  have run: "decode_to_slice_with_layout_and_alphabet_validated_blocks machine address input output layout a = Some r"
    using r(1) by (simp add: decode_to_slice_with_layout_and_alphabet_validated_blocks_def L(2) assms(3))
  have prefix: "\<exists>n. 4 dvd n \<and> n \<le> length input \<and> (\<exists>prefix. decode_unpadded_spec a (take n input) = Some prefix
      \<and> m = prefix @ drop (length prefix) output)" if "decoded a 0 (unpadded input) n output m" for n m
  proof -
    have "decoded a 0 input n output m" using that unfolding unpadded_def by (rule decoded_prefix)
    note D = decodedD [OF this]
    have "length (decoded_bytes a (take n input)) = n div 4 * 3"
      using D(1,2) by (auto simp: length_decoded_bytes elim!: dvdE)
    then have "m = decoded_bytes a (take n input) @ drop (length (decoded_bytes a (take n input))) output"
      using D(5,6) append_take_drop_id [of "n div 4 * 3" m] by simp
    moreover have "decode_unpadded_spec a (take n input) = Some (decoded_bytes a (take n input))"
      using D(1,2,3) by (simp add: decode_unpadded_spec_eq min_absorb2)
    ultimately show ?thesis using D(1,2) by blast
  qed
  from r(2) L(1) show ?thesis
  proof (cases rule: decode_result_cases)
    case (symbols bytes m)
    then have "m = bytes" using assms(3) L(3) by simp
    then show ?thesis using symbols(1,2) by (simp add: run)
  next
    case (others m)
    then show ?thesis using prefix by (auto simp: run slack_used_def)
  qed
qed

lemma validated_blocks_only_witness:
  "decode_to_slice_with_layout_and_alphabet_validated_blocks example_machine 0 [33, 65, 65, 65] [1, 2, 3]
     \<lparr>layout_input_len = 4, layout_padding = 0, layout_output_len = 3\<rparr> Mixed = Some (Inl (InvalidInput, [1, 2, 3]))"
proof -
  let ?in = "[33, 65, 65, 65] :: bytes"
  let ?L = "\<lparr>layout_input_len = 4, layout_padding = 0, layout_output_len = 3\<rparr>"
  have L: "decode_layout ?in = Inr ?L" by (simp add: decode_layout_eq trailing_padding_cases)
  have no: "symbol_value Mixed 33 = None" by code_simp
  then have none: "decode_spec Mixed ?in = None"
    by (simp add: decode_spec_def trailing_padding_cases decode_unpadded_spec_eq)
  have first: "n = 0" if "4 dvd n" "n \<le> length ?in" "decode_unpadded_spec Mixed (take n ?in) = Some prefix" for n prefix
    using that no by (cases n) (auto simp: decode_unpadded_spec_eq split: if_splits)
  obtain r where r: "decode_to_slice_with_layout_and_alphabet_validated_blocks example_machine 0 ?in [1, 2, 3] ?L Mixed = Some r"
    "case r of
         Inr after \<Rightarrow> decode_spec Mixed ?in = Some after
       | Inl (e, after) \<Rightarrow> e = InvalidInput \<and> decode_spec Mixed ?in = None
           \<and> (\<exists>n. 4 dvd n \<and> n \<le> length ?in
                \<and> (\<exists>prefix. decode_unpadded_spec Mixed (take n ?in) = Some prefix
                      \<and> after = prefix @ drop (length prefix) [1, 2, 3]))"
    using validated_blocks_only [OF example_selected L, of "[1, 2, 3]" 0 Mixed] by auto
  show ?thesis
  proof (cases r)
    case (Inr x)
    then show ?thesis using r(2) none by simp
  next
    case (Inl x)
    obtain e m where x: "x = (e, m)" by (cases x)
    obtain n prefix where n: "4 dvd n" "n \<le> length ?in" "decode_unpadded_spec Mixed (take n ?in) = Some prefix"
      "m = prefix @ drop (length prefix) [1, 2, 3]" "e = InvalidInput"
      using r(2) unfolding Inl x sum.case prod.case by blast
    from first [OF n(1-3)] have "prefix = []" using n(3) by (simp add: decode_unpadded_spec_eq)
    then show ?thesis using r(1) n(4,5) by (simp add: Inl x)
  qed
qed

text \<open>
  C32: unpadded text: the layout is refused exactly for a text with a single character after its
  complete groups, and it announces the number of decoded bytes; with that layout and a slice of
  that size the decoder returns the bytes of the specification or \<open>InvalidInput\<close>.
\<close>
theorem decode_unpadded_correct:
  assumes "selected_backend machine = Some selection" "length input \<le> ISIZE_MAX"
    and "length output = length input * 3 div 4"
  shows "case decode_unpadded_layout input of
      Inl e \<Rightarrow> e = InvalidInput \<and> length input mod 4 = 1
    | Inr layout \<Rightarrow> length input mod 4 \<noteq> 1 \<and> layout_output_len layout = length input * 3 div 4
        \<and> (\<exists>r. decode_to_slice_with_unpadded_layout_and_alphabet machine address input output layout a = Some r
            \<and> (case r of
                 Inr after \<Rightarrow> decode_unpadded_spec a input = Some after
               | Inl (e, after) \<Rightarrow> e = InvalidInput \<and> decode_unpadded_spec a input = None
                   \<and> length after = length output))"
proof (cases "decode_unpadded_layout input")
  case (Inl e)
  have "length input div 4 * 3 + 2 \<le> USIZE_MAX" using assms(2) by (simp add: ISIZE_MAX_def USIZE_MAX_def)
  then have bound: "length input div 4 * 3 + t \<le> USIZE_MAX" if "t \<le> 2" for t using that by linarith
  have "e = InvalidInput \<and> length input mod 4 = 1"
  proof -
    have "n mod 4 = 0 \<or> n mod 4 = 1 \<or> n mod 4 = 2 \<or> n mod 4 = 3" for n :: nat by arith
    from this [of "length input"] show ?thesis
      using Inl bound [of 0] bound [of 1] bound [of 2]
      by (elim disjE) (simp_all add: decode_unpadded_layout_def)
  qed
  then show ?thesis by (simp add: Inl)
next
  case (Inr layout)
  have L: "length input mod 4 \<noteq> 1" "layout_input_len layout = length input"
    "layout_output_len layout = length input div 4 * 3 + (if length input mod 4 = 0 then 0 else length input mod 4 - 1)"
    using Inr by (auto simp: decode_unpadded_layout_def Let_def split: if_splits)
  have quarter: "n div 4 * 3 + (if n mod 4 = 0 then 0 else n mod 4 - 1) = n * 3 div 4" if "n mod 4 \<noteq> 1" for n :: nat
  proof -
    obtain q r where n: "n = 4 * q + r" and r: "r = 0 \<or> r = 1 \<or> r = 2 \<or> r = 3"
      by (rule that [of "n div 4" "n mod 4"]) (simp, arith)
    have "n div 4 = q" "n mod 4 = r" "n * 3 div 4 = 3 * q + r * 3 div 4"
      using r unfolding n by (auto simp: algebra_simps div_nat_eqI)
    with that r show ?thesis by (elim disjE) simp_all
  qed
  then have size: "layout_output_len layout = length input * 3 div 4" using L(1,3) by simp
  obtain r where r: "decode_to_ptr_with_unpadded_layout_mode machine address input output layout a Partial = Some r"
    "decode_result a 0 (Partial = ValidatedBlocksOnly) input output r"
    using decode_to_ptr_with_unpadded_layout_mode_result
        [OF assms(1) Inr, of "output" address a Partial, unfolded size assms(3), OF order_refl]
    by blast
  have run: "decode_to_slice_with_unpadded_layout_and_alphabet machine address input output layout a = Some r"
    using r(1) assms(3) by (simp add: decode_to_slice_with_unpadded_layout_and_alphabet_def L(2) size)
  have "case r of
       Inr after \<Rightarrow> decode_unpadded_spec a input = Some after
     | Inl (e, after) \<Rightarrow> e = InvalidInput \<and> decode_unpadded_spec a input = None \<and> length after = length output"
  proof (cases r)
    case (Inl x)
    then show ?thesis using r(2) by (cases x) (simp add: decode_result_def decode_unpadded_spec_eq)
  next
    case (Inr m)
    then have C: "complete a 0 input output m" using r(2) by (simp add: decode_result_def)
    then have "m = decoded_bytes a input" using complete_memory [OF C] assms(3) by simp
    then show ?thesis using C L(1) by (simp add: Inr complete_def decode_unpadded_spec_eq)
  qed
  then show ?thesis using Inr L(1) size run by simp
qed

lemma decode_unpadded_correct_witness:
  "decode_to_slice_with_unpadded_layout_and_alphabet example_machine 8 (encode_unpadded_spec URLSAFE_ALPHABET [1]) [9]
      \<lparr>layout_input_len = 2, layout_padding = 0, layout_output_len = 1\<rparr> UrlSafe = Some (Inr [1])"
proof -
  let ?in = "encode_unpadded_spec URLSAFE_ALPHABET [1]"
  have len: "length ?in = 2" by (simp add: length_encode_unpadded)
  have L: "decode_unpadded_layout ?in = Inr \<lparr>layout_input_len = 2, layout_padding = 0, layout_output_len = 1\<rparr>"
    by (simp add: decode_unpadded_layout_def len USIZE_MAX_def)
  have spec: "decode_unpadded_spec UrlSafe ?in = Some [1]"
    using decode_encode_unpadded [of True "[1]"]
    by (simp only: alphabet_of_cases decode_alphabet_of_def if_True)
  have sizes: "length ?in \<le> ISIZE_MAX" "length ([9] :: bytes) = length ?in * 3 div 4"
    by (simp_all add: len ISIZE_MAX_def)
  from decode_unpadded_correct [OF example_selected sizes, of 8 UrlSafe, unfolded L sum.case spec] obtain r where
    r: "decode_to_slice_with_unpadded_layout_and_alphabet example_machine 8 ?in [9]
        \<lparr>layout_input_len = 2, layout_padding = 0, layout_output_len = 1\<rparr> UrlSafe = Some r"
      "case r of Inr after \<Rightarrow> Some [1] = Some after
        | Inl (e, after) \<Rightarrow> e = InvalidInput \<and> Some [1 :: u8] = None \<and> length after = length ([9] :: bytes)"
    by blast
  then show ?thesis by (cases r) auto
qed

text \<open>
  C34: the decoder of the valid prefix needs no check of its input: it consumes some prefix of
  complete groups of symbols, writes exactly their bytes at the start of the output, leaves every
  later byte alone, and answers \<open>None\<close>, with the output untouched, exactly where no x86 kernel is
  selected.
\<close>
theorem decode_valid_prefix_exact:
  assumes "selected_backend machine = Some selection" "length input div 4 * 3 \<le> length output"
  shows "\<exists>r after. decode_valid_prefix_with_runtime_backend machine address a input output = Some (r, after)
    \<and> (r = None \<longleftrightarrow> \<not> is_x86 (arch_of machine) \<or> runtime_backend selection = Base64_Scalar)
    \<and> (case r of
         None \<Rightarrow> after = output
       | Some (n, d) \<Rightarrow> 4 dvd n \<and> n \<le> length input \<and> d = n div 4 * 3
           \<and> (\<exists>prefix. decode_unpadded_spec a (take n input) = Some prefix \<and> length prefix = d
                \<and> after = prefix @ drop d output))"
proof -
  obtain r m where r: "decode_valid_prefix_with_runtime_backend machine address a input output = Some (r, m)"
    "prefix_result a input output (r, m)"
    "r = None \<longleftrightarrow> \<not> is_x86 (arch_of machine) \<or> runtime_backend selection = Base64_Scalar"
    using decode_valid_prefix_result [OF assms] by blast
  have "case r of
         None \<Rightarrow> m = output
       | Some (n, d) \<Rightarrow> 4 dvd n \<and> n \<le> length input \<and> d = n div 4 * 3
           \<and> (\<exists>prefix. decode_unpadded_spec a (take n input) = Some prefix \<and> length prefix = d
                \<and> m = prefix @ drop d output)"
  proof (cases r)
    case (Some x)
    obtain n d where x: "x = (n, d)" by (cases x)
    have d: "d = n div 4 * 3" and "decoded a 0 input n output m"
      using r(2) by (simp_all add: Some x prefix_result_def)
    note D = decodedD [OF this(2)]
    have "length (decoded_bytes a (take n input)) = d"
      using D(1,2) by (auto simp: d length_decoded_bytes elim!: dvdE)
    moreover have "m = decoded_bytes a (take n input) @ drop d output"
      using D(5,6) append_take_drop_id [of d m] by (simp add: d)
    moreover have "decode_unpadded_spec a (take n input) = Some (decoded_bytes a (take n input))"
      using D(1,2,3) by (simp add: decode_unpadded_spec_eq min_absorb2)
    ultimately show ?thesis using D(1,2) d by (simp add: Some x)
  qed (use r(2) in \<open>simp add: prefix_result_def\<close>)
  with r(1,3) show ?thesis by blast
qed

lemma decode_valid_prefix_exact_witness:
  "\<exists>n d after. decode_valid_prefix_with_runtime_backend example_machine 0 Mixed [65, 65, 65, 65] [7, 7, 7]
      = Some (Some (n, d), after) \<and> d = n div 4 * 3"
proof -
  have "length ([65, 65, 65, 65] :: bytes) div 4 * 3 \<le> length ([7, 7, 7] :: bytes)" by simp
  from decode_valid_prefix_exact [OF example_selected this, of 0 Mixed] obtain r after where
    r: "decode_valid_prefix_with_runtime_backend example_machine 0 Mixed [65, 65, 65, 65] [7, 7, 7] = Some (r, after)"
      "r \<noteq> None" "case r of None \<Rightarrow> True | Some (n, d) \<Rightarrow> d = n div 4 * 3"
    by (auto simp: example_machine_def is_x86_def split: option.splits)
  then show ?thesis by (cases r) auto
qed

text \<open>
  C33: the decoder that packs text without checking it agrees with the checked one: on every text
  that the specification decodes over the standard alphabet it writes the same bytes, returns their
  number and leaves the rest of the output alone; the kernels that trust their input never report
  an error there, so the code's \<open>expect\<close> cannot fail.
\<close>
theorem decode_standard_validated_exact:
  assumes "selected_backend machine = Some selection" "decode_unpadded_spec Standard input = Some bytes"
    and "length bytes \<le> length output"
  shows "decode_standard_validated_to_ptr machine address input output =
    Some (length bytes, bytes @ drop (length bytes) output)"
proof -
  have ok: "length input mod 4 \<noteq> 1" "all_symbols Standard input" "bytes = decoded_bytes Standard input"
    using assms(2) by (auto simp: decode_unpadded_spec_eq split: if_splits)
  then have "length bytes = length input * 3 div 4" by (simp add: length_decoded_bytes)
  with decode_standard_validated_to_ptr_eq [OF assms(1) ok(2,1), of "output" address] assms(3) ok(3)
  show ?thesis by simp
qed

lemma decode_standard_validated_exact_witness:
  "decode_standard_validated_to_ptr example_machine 0 (encode_unpadded_spec STANDARD_ALPHABET [1, 2]) [7, 7, 7, 7]
    = Some (2, [1, 2, 7, 7])"
proof -
  have "decode_unpadded_spec Standard (encode_unpadded_spec STANDARD_ALPHABET [1, 2]) = Some [1, 2]"
    using decode_encode_unpadded [of False "[1, 2]"]
    by (simp only: alphabet_of_cases decode_alphabet_of_def if_False)
  from decode_standard_validated_exact [OF example_selected this, of "[7, 7, 7, 7]" 0] show ?thesis by simp
qed

end
