(* ===== verification/Base64_Scan.thy ===== *)
theory Base64_Scan
  imports Base64_Decode
begin

text \<open>
  Byte scanning and translation for the Python decoders: \<open>src/bindings/base64/scan.rs\<close> with
  \<open>scan/scalar.rs\<close>, \<open>scan/x86.rs\<close> and \<open>scan/aarch64.rs\<close>.  A vector routine classifies the bytes
  of a register; the locale \<open>byte_classifier\<close> holds what the counting and the prefix loop need
  of that.  \<open>None\<close> is a read outside of the input or a missing CPU feature.  SSE2 and POPCNT are
  used by this file only, so their detection is a record of its own.
\<close>

section \<open>Scalar routines\<close>

type_synonym altchars = "(u8 \<times> u8) option"

definition is_lenient_symbol :: "u8 \<Rightarrow> altchars \<Rightarrow> bool" where
  "is_lenient_symbol byte altchars \<longleftrightarrow>
     byte - ascii CHR ''A'' \<le> ascii CHR ''Z'' - ascii CHR ''A''
     \<or> byte - ascii CHR ''a'' \<le> ascii CHR ''z'' - ascii CHR ''a''
     \<or> byte - ascii CHR ''0'' \<le> ascii CHR ''9'' - ascii CHR ''0''
     \<or> byte = ascii CHR ''+'' \<or> byte = ascii CHR ''/''
     \<or> (case altchars of None \<Rightarrow> False | Some (alt_plus, alt_slash) \<Rightarrow> byte = alt_plus \<or> byte = alt_slash)"

text \<open>\<open>u8::is_ascii_alphanumeric\<close> and \<open>Iterator::position\<close> of the standard library.\<close>

definition is_ascii_alphanumeric :: "u8 \<Rightarrow> bool" where
  "is_ascii_alphanumeric byte \<longleftrightarrow>
     ascii CHR ''A'' \<le> byte \<and> byte \<le> ascii CHR ''Z'' \<or> ascii CHR ''a'' \<le> byte \<and> byte \<le> ascii CHR ''z''
     \<or> ascii CHR ''0'' \<le> byte \<and> byte \<le> ascii CHR ''9''"

primrec position :: "('a \<Rightarrow> bool) \<Rightarrow> 'a list \<Rightarrow> nat option" where
  "position P [] = None"
| "position P (x # xs) = (if P x then Some 0 else map_option Suc (position P xs))"

definition unwrap_or :: "'a option \<Rightarrow> 'a \<Rightarrow> 'a" where
  "unwrap_or r d = (case r of None \<Rightarrow> d | Some x \<Rightarrow> x)"

definition scalar_symbol_count :: "bytes \<Rightarrow> altchars \<Rightarrow> nat" where
  "scalar_symbol_count input altchars = length (filter (\<lambda>byte. is_lenient_symbol byte altchars) input)"

definition scalar_alphanumeric_prefix :: "bytes \<Rightarrow> nat" where
  "scalar_alphanumeric_prefix input =
     unwrap_or (position (\<lambda>byte. \<not> is_ascii_alphanumeric byte) input) (length input)"

definition scalar_symbol_prefix :: "bytes \<Rightarrow> altchars \<Rightarrow> nat" where
  "scalar_symbol_prefix input altchars =
     unwrap_or (position (\<lambda>byte. \<not> is_lenient_symbol byte altchars) input) (length input)"

definition translate_byte :: "u8 \<Rightarrow> u8 \<Rightarrow> u8 \<Rightarrow> u8 \<Rightarrow> u8 \<Rightarrow> u8" where
  "translate_byte source0 target0 source1 target1 byte =
     (if byte = source0 then target0 else if byte = source1 then target1 else byte)"

definition scalar_translate :: "bytes \<Rightarrow> u8 \<Rightarrow> u8 \<Rightarrow> u8 \<Rightarrow> u8 \<Rightarrow> bytes" where
  "scalar_translate input source0 target0 source1 target1 =
     map (translate_byte source0 target0 source1 target1) input"

section \<open>Instructions\<close>

definition max_epu8 :: "bytes \<Rightarrow> bytes \<Rightarrow> bytes" where
  "max_epu8 v w = map2 max v w"

definition min_epu8 :: "bytes \<Rightarrow> bytes \<Rightarrow> bytes" where
  "min_epu8 v w = map2 min v w"

text \<open>\<open>u32::count_ones\<close>, and \<open>u32::trailing_zeros\<close>, which is 32 for zero.\<close>

definition count_ones :: "u32 \<Rightarrow> nat" where
  "count_ones m = length (filter (bit m) [0..<32])"

definition trailing_zeros_32 :: "u32 \<Rightarrow> nat" where
  "trailing_zeros_32 m = length (takeWhile (\<lambda>i. \<not> bit m i) [0..<32])"

text \<open>NEON comparisons, complement, and the wrapping sum of the bytes.\<close>

definition vcge :: "bytes \<Rightarrow> bytes \<Rightarrow> bytes" where
  "vcge v w = map2 (\<lambda>a b. if b \<le> a then - 1 else 0) v w"

definition vcle :: "bytes \<Rightarrow> bytes \<Rightarrow> bytes" where
  "vcle v w = map2 (\<lambda>a b. if a \<le> b then - 1 else 0) v w"

definition vmvn :: "bytes \<Rightarrow> bytes" where
  "vmvn v = map NOT v"

definition vaddv :: "bytes \<Rightarrow> u8" where
  "vaddv v = fold (+) v 0"

section \<open>x86\<close>

text \<open>The two other characters, or twice a letter that is a symbol anyway.\<close>

definition extra_symbols :: "altchars \<Rightarrow> u8 \<times> u8" where
  "extra_symbols altchars = unwrap_or altchars (ascii CHR ''A'', ascii CHR ''A'')"

definition valid_avx2 :: "bytes \<Rightarrow> bytes \<Rightarrow> bytes \<Rightarrow> bytes \<Rightarrow> bytes \<Rightarrow> bytes" where
  "valid_avx2 bytes high_classes low_classes extra0 extra1 =
     (let high_nibbles = and_si (srli_epi16 4 bytes) (set1 32 (0x0f :: u8));
          high_matches = shuffle_epi8 high_classes high_nibbles;
          low_mismatches = shuffle_epi8 low_classes bytes;
          errors = andnot_si low_mismatches high_matches;
          standard = cmpeq_epi8 errors (replicate 32 0)
      in or_si standard (or_si (cmpeq_epi8 bytes extra0) (cmpeq_epi8 bytes extra1)))"

definition range_avx2 :: "bytes \<Rightarrow> u8 \<Rightarrow> u8 \<Rightarrow> bytes" where
  "range_avx2 bytes lower upper =
     and_si (cmpeq_epi8 (max_epu8 bytes (set1 32 lower)) bytes)
       (cmpeq_epi8 (min_epu8 bytes (set1 32 upper)) bytes)"

definition symbol_count_avx2 :: "bytes \<Rightarrow> altchars \<Rightarrow> nat option" where
  "symbol_count_avx2 input altchars =
     do {
       let (extra0, extra1) = extra_symbols altchars;
       let extra0 = set1 32 extra0;
       let extra1 = set1 32 extra1;
       let high_classes = broadcastsi128 STANDARD_HIGH_CLASSES;
       let low_classes = broadcastsi128 STANDARD_LOW_CLASSES_COMPLEMENT;
       (source, symbols) \<leftarrow> scan_while (length input) 32 32 (\<lambda>source symbols. do {
         bytes \<leftarrow> slice input source 32;
         let valid = valid_avx2 bytes high_classes low_classes extra0 extra1;
         Some (symbols + count_ones (movemask_epi8 valid)) }) 0 0;
       Some (symbols + length (filter (\<lambda>byte. is_lenient_symbol byte altchars) (drop source input)))
     }"

definition alphanumeric_prefix_avx2 :: "bytes \<Rightarrow> nat option" where
  "alphanumeric_prefix_avx2 input =
     do {
       r \<leftarrow> try_while (length input) 32 32 (\<lambda>source _. do {
         bytes \<leftarrow> slice input source 32;
         let valid = or_si (or_si (range_avx2 bytes (ascii CHR ''A'') (ascii CHR ''Z''))
                               (range_avx2 bytes (ascii CHR ''a'') (ascii CHR ''z'')))
                             (range_avx2 bytes (ascii CHR ''0'') (ascii CHR ''9''));
         let mask = movemask_epi8 valid;
         (if mask \<noteq> - 1 then Some (Inl (source + trailing_zeros_32 (NOT mask))) else Some (Inr ())) }) 0 ();
       Some (case r of
           Inl n \<Rightarrow> n
         | Inr (source, _) \<Rightarrow> source
             + unwrap_or (position (\<lambda>byte. \<not> is_ascii_alphanumeric byte) (drop source input)) (length input - source))
     }"

definition symbol_prefix_avx2 :: "bytes \<Rightarrow> altchars \<Rightarrow> nat option" where
  "symbol_prefix_avx2 input altchars =
     do {
       let (extra0, extra1) = extra_symbols altchars;
       let extra0 = set1 32 extra0;
       let extra1 = set1 32 extra1;
       let high_classes = broadcastsi128 STANDARD_HIGH_CLASSES;
       let low_classes = broadcastsi128 STANDARD_LOW_CLASSES_COMPLEMENT;
       r \<leftarrow> try_while (length input) 32 32 (\<lambda>source _. do {
         bytes \<leftarrow> slice input source 32;
         let mask = movemask_epi8 (valid_avx2 bytes high_classes low_classes extra0 extra1);
         (if mask \<noteq> - 1 then Some (Inl (source + trailing_zeros_32 (NOT mask))) else Some (Inr ())) }) 0 ();
       Some (case r of
           Inl n \<Rightarrow> n
         | Inr (source, _) \<Rightarrow> source
             + unwrap_or (position (\<lambda>byte. \<not> is_lenient_symbol byte altchars) (drop source input)) (length input - source))
     }"

definition translate_avx2 :: "bytes \<Rightarrow> u8 \<Rightarrow> u8 \<Rightarrow> u8 \<Rightarrow> u8 \<Rightarrow> bytes option" where
  "translate_avx2 input source0 target0 source1 target1 =
     do {
       let source0_vector = set1 32 source0;
       let target0_vector = set1 32 target0;
       let source1_vector = set1 32 source1;
       let target1_vector = set1 32 target1;
       (offset, input) \<leftarrow> scan_while (length input) 32 32 (\<lambda>offset input. do {
         bytes \<leftarrow> slice input offset 32;
         let mask0 = cmpeq_epi8 bytes source0_vector;
         let translated0 = or_si (and_si mask0 target0_vector) (andnot_si mask0 bytes);
         let mask1 = cmpeq_epi8 bytes source1_vector;
         let translated1 = or_si (and_si mask1 target1_vector) (andnot_si mask1 translated0);
         store input offset translated1 }) 0 input;
       Some (take offset input @ map (\<lambda>byte. if byte = source0 then target0
               else if byte = source1 then target1 else byte) (drop offset input))
     }"

definition range_sse2 :: "bytes \<Rightarrow> u8 \<Rightarrow> u8 \<Rightarrow> bytes" where
  "range_sse2 bytes lower upper =
     and_si (cmpeq_epi8 (max_epu8 bytes (set1 16 lower)) bytes)
       (cmpeq_epi8 (min_epu8 bytes (set1 16 upper)) bytes)"

definition valid_sse2 :: "bytes \<Rightarrow> bytes \<Rightarrow> bytes \<Rightarrow> bytes" where
  "valid_sse2 bytes extra0 extra1 =
     (let upper = range_sse2 bytes (ascii CHR ''A'') (ascii CHR ''Z'');
          lower = range_sse2 bytes (ascii CHR ''a'') (ascii CHR ''z'');
          digits = range_sse2 bytes (ascii CHR ''0'') (ascii CHR ''9'')
      in or_si (or_si upper lower)
           (or_si digits
             (or_si
               (or_si (cmpeq_epi8 bytes (set1 16 (ascii CHR ''+'')))
                 (cmpeq_epi8 bytes (set1 16 (ascii CHR ''/''))))
               (or_si (cmpeq_epi8 bytes extra0) (cmpeq_epi8 bytes extra1)))))"

definition symbol_count_sse2 :: "bytes \<Rightarrow> altchars \<Rightarrow> nat option" where
  "symbol_count_sse2 input altchars =
     do {
       let (extra0, extra1) = extra_symbols altchars;
       let extra0 = set1 16 extra0;
       let extra1 = set1 16 extra1;
       (source, symbols) \<leftarrow> scan_while (length input) 16 16 (\<lambda>source symbols. do {
         bytes \<leftarrow> slice input source 16;
         let valid = valid_sse2 bytes extra0 extra1;
         Some (symbols + count_ones (movemask_epi8 valid)) }) 0 0;
       Some (symbols + length (filter (\<lambda>byte. is_lenient_symbol byte altchars) (drop source input)))
     }"

definition alphanumeric_prefix_sse2 :: "bytes \<Rightarrow> nat option" where
  "alphanumeric_prefix_sse2 input =
     do {
       r \<leftarrow> try_while (length input) 16 16 (\<lambda>source _. do {
         bytes \<leftarrow> slice input source 16;
         let valid = or_si (or_si (range_sse2 bytes (ascii CHR ''A'') (ascii CHR ''Z''))
                               (range_sse2 bytes (ascii CHR ''a'') (ascii CHR ''z'')))
                             (range_sse2 bytes (ascii CHR ''0'') (ascii CHR ''9''));
         let mask = movemask_epi8 valid;
         (if mask \<noteq> 0xffff then Some (Inl (source + trailing_zeros_32 (NOT mask AND 0xffff)))
          else Some (Inr ())) }) 0 ();
       Some (case r of
           Inl n \<Rightarrow> n
         | Inr (source, _) \<Rightarrow> source
             + unwrap_or (position (\<lambda>byte. \<not> is_ascii_alphanumeric byte) (drop source input)) (length input - source))
     }"

definition symbol_prefix_sse2 :: "bytes \<Rightarrow> altchars \<Rightarrow> nat option" where
  "symbol_prefix_sse2 input altchars =
     do {
       let (extra0, extra1) = extra_symbols altchars;
       let extra0 = set1 16 extra0;
       let extra1 = set1 16 extra1;
       r \<leftarrow> try_while (length input) 16 16 (\<lambda>source _. do {
         bytes \<leftarrow> slice input source 16;
         let mask = movemask_epi8 (valid_sse2 bytes extra0 extra1);
         (if mask \<noteq> 0xffff then Some (Inl (source + trailing_zeros_32 (NOT mask AND 0xffff)))
          else Some (Inr ())) }) 0 ();
       Some (case r of
           Inl n \<Rightarrow> n
         | Inr (source, _) \<Rightarrow> source
             + unwrap_or (position (\<lambda>byte. \<not> is_lenient_symbol byte altchars) (drop source input)) (length input - source))
     }"

definition translate_sse2 :: "bytes \<Rightarrow> u8 \<Rightarrow> u8 \<Rightarrow> u8 \<Rightarrow> u8 \<Rightarrow> bytes option" where
  "translate_sse2 input source0 target0 source1 target1 =
     do {
       let source0_vector = set1 16 source0;
       let target0_vector = set1 16 target0;
       let source1_vector = set1 16 source1;
       let target1_vector = set1 16 target1;
       (offset, input) \<leftarrow> scan_while (length input) 16 16 (\<lambda>offset input. do {
         bytes \<leftarrow> slice input offset 16;
         let mask0 = cmpeq_epi8 bytes source0_vector;
         let translated0 = or_si (and_si mask0 target0_vector) (andnot_si mask0 bytes);
         let mask1 = cmpeq_epi8 bytes source1_vector;
         let translated1 = or_si (and_si mask1 target1_vector) (andnot_si mask1 translated0);
         store input offset translated1 }) 0 input;
       Some (take offset input @ map (\<lambda>byte. if byte = source0 then target0
               else if byte = source1 then target1 else byte) (drop offset input))
     }"

section \<open>AArch64\<close>

definition neon_range :: "bytes \<Rightarrow> u8 \<Rightarrow> u8 \<Rightarrow> bytes" where
  "neon_range bytes lower upper =
     and_si (vcge bytes (replicate 16 lower)) (vcle bytes (replicate 16 upper))"

text \<open>The expression \<open>valid\<close>, which both loops contain.\<close>

definition neon_valid :: "bytes \<Rightarrow> u8 \<Rightarrow> u8 \<Rightarrow> bytes" where
  "neon_valid bytes extra0 extra1 =
     or_si (or_si (neon_range bytes (ascii CHR ''A'') (ascii CHR ''Z''))
         (neon_range bytes (ascii CHR ''a'') (ascii CHR ''z'')))
       (or_si (neon_range bytes (ascii CHR ''0'') (ascii CHR ''9''))
         (or_si
           (or_si (cmpeq_epi8 bytes (replicate 16 (ascii CHR ''+'')))
             (cmpeq_epi8 bytes (replicate 16 (ascii CHR ''/''))))
           (or_si (cmpeq_epi8 bytes (replicate 16 extra0)) (cmpeq_epi8 bytes (replicate 16 extra1)))))"

definition neon_symbol_count :: "bytes \<Rightarrow> altchars \<Rightarrow> nat option" where
  "neon_symbol_count input altchars =
     do {
       let (extra0, extra1) = extra_symbols altchars;
       (source, symbols) \<leftarrow> scan_while (length input) 16 16 (\<lambda>source symbols. do {
         bytes \<leftarrow> slice input source 16;
         let valid = neon_valid bytes extra0 extra1;
         Some (symbols + unat (vaddv (vshr_n_u8 7 valid))) }) 0 0;
       Some (symbols + length (filter (\<lambda>byte. is_lenient_symbol byte altchars) (drop source input)))
     }"

definition neon_symbol_prefix :: "bytes \<Rightarrow> altchars \<Rightarrow> nat option" where
  "neon_symbol_prefix input altchars =
     do {
       let (extra0, extra1) = extra_symbols altchars;
       r \<leftarrow> try_while (length input) 16 16 (\<lambda>source _. do {
         bytes \<leftarrow> slice input source 16;
         let valid = neon_valid bytes extra0 extra1;
         let invalid = vmvn valid;
         (if vmaxv invalid \<noteq> 0 then do {
            lanes \<leftarrow> store (replicate 16 0) 0 valid;
            Some (Inl (source + unwrap_or (position (\<lambda>lane. lane = 0) lanes) 16)) }
          else Some (Inr ())) }) 0 ();
       Some (case r of
           Inl n \<Rightarrow> n
         | Inr (source, _) \<Rightarrow> source
             + unwrap_or (position (\<lambda>byte. \<not> is_lenient_symbol byte altchars) (drop source input)) (length input - source))
     }"

definition neon_translate :: "bytes \<Rightarrow> u8 \<Rightarrow> u8 \<Rightarrow> u8 \<Rightarrow> u8 \<Rightarrow> bytes option" where
  "neon_translate input source0 target0 source1 target1 =
     do {
       (offset, input) \<leftarrow> scan_while (length input) 16 16 (\<lambda>offset input. do {
         bytes \<leftarrow> slice input offset 16;
         let translated0 = vbsl (cmpeq_epi8 bytes (replicate 16 source0)) (replicate 16 target0) bytes;
         let translated1 = vbsl (cmpeq_epi8 bytes (replicate 16 source1)) (replicate 16 target1) translated0;
         store input offset translated1 }) 0 input;
       Some (take offset input @ scalar_translate (drop offset input) source0 target0 source1 target1)
     }"

section \<open>Dispatch\<close>

record scan_features =
  has_sse2 :: bool
  has_popcnt :: bool

definition lenient_symbol_count ::
  "machine \<Rightarrow> scan_features \<Rightarrow> bytes \<Rightarrow> altchars \<Rightarrow> nat option" where
  "lenient_symbol_count machine scan input altchars =
     (if is_x86 (arch_of machine) \<and> 32 \<le> length input \<and> cpu_of machine Avx2 then
        target_feature (cpu_of machine) [Avx2]
          (if has_popcnt scan then do { guard (has_popcnt scan); symbol_count_avx2 input altchars }
           else symbol_count_avx2 input altchars)
      else if is_x86 (arch_of machine) \<and> 16 \<le> length input \<and> has_sse2 scan then
        do { guard (has_sse2 scan); symbol_count_sse2 input altchars }
      else if arch_of machine = Arch_AArch64 \<and> 16 \<le> length input then
        target_feature (cpu_of machine) [Neon] (neon_symbol_count input altchars)
      else Some (scalar_symbol_count input altchars))"

definition select_alphanumeric_prefix_for_x86 ::
  "machine \<Rightarrow> scan_features \<Rightarrow> bool \<Rightarrow> bool \<Rightarrow> bytes \<Rightarrow> nat option" where
  "select_alphanumeric_prefix_for_x86 machine scan avx2 sse2 =
     (if avx2 then (\<lambda>input. target_feature (cpu_of machine) [Avx2] (alphanumeric_prefix_avx2 input))
      else if sse2 then (\<lambda>input. do { guard (has_sse2 scan); alphanumeric_prefix_sse2 input })
      else (\<lambda>input. Some (scalar_alphanumeric_prefix input)))"

definition select_symbol_prefix_for_x86 ::
  "machine \<Rightarrow> scan_features \<Rightarrow> bool \<Rightarrow> bool \<Rightarrow> bytes \<Rightarrow> altchars \<Rightarrow> nat option" where
  "select_symbol_prefix_for_x86 machine scan avx2 sse2 =
     (if avx2 then (\<lambda>input altchars. target_feature (cpu_of machine) [Avx2] (symbol_prefix_avx2 input altchars))
      else if sse2 then (\<lambda>input altchars. do { guard (has_sse2 scan); symbol_prefix_sse2 input altchars })
      else (\<lambda>input altchars. Some (scalar_symbol_prefix input altchars)))"

definition select_alphanumeric_prefix :: "machine \<Rightarrow> scan_features \<Rightarrow> bytes \<Rightarrow> nat option" where
  "select_alphanumeric_prefix machine scan =
     (if is_x86 (arch_of machine)
      then select_alphanumeric_prefix_for_x86 machine scan (cpu_of machine Avx2) (has_sse2 scan)
      else (\<lambda>input. Some (scalar_alphanumeric_prefix input)))"

definition select_symbol_prefix :: "machine \<Rightarrow> scan_features \<Rightarrow> bytes \<Rightarrow> altchars \<Rightarrow> nat option" where
  "select_symbol_prefix machine scan =
     (if is_x86 (arch_of machine)
      then select_symbol_prefix_for_x86 machine scan (cpu_of machine Avx2) (has_sse2 scan)
      else if arch_of machine = Arch_AArch64
      then (\<lambda>input altchars. target_feature (cpu_of machine) [Neon] (neon_symbol_prefix input altchars))
      else (\<lambda>input altchars. Some (scalar_symbol_prefix input altchars)))"

definition select_translate_bytes_for_x86 ::
  "machine \<Rightarrow> scan_features \<Rightarrow> bool \<Rightarrow> bool \<Rightarrow> bytes \<Rightarrow> u8 \<Rightarrow> u8 \<Rightarrow> u8 \<Rightarrow> u8 \<Rightarrow> bytes option" where
  "select_translate_bytes_for_x86 machine scan avx2 sse2 =
     (if avx2 then (\<lambda>input s0 t0 s1 t1. target_feature (cpu_of machine) [Avx2] (translate_avx2 input s0 t0 s1 t1))
      else if sse2 then (\<lambda>input s0 t0 s1 t1. do { guard (has_sse2 scan); translate_sse2 input s0 t0 s1 t1 })
      else (\<lambda>input s0 t0 s1 t1. Some (scalar_translate input s0 t0 s1 t1)))"

definition select_translate_bytes ::
  "machine \<Rightarrow> scan_features \<Rightarrow> bytes \<Rightarrow> u8 \<Rightarrow> u8 \<Rightarrow> u8 \<Rightarrow> u8 \<Rightarrow> bytes option" where
  "select_translate_bytes machine scan =
     (if is_x86 (arch_of machine)
      then select_translate_bytes_for_x86 machine scan (cpu_of machine Avx2) (has_sse2 scan)
      else if arch_of machine = Arch_AArch64
      then (\<lambda>input s0 t0 s1 t1. target_feature (cpu_of machine) [Neon] (neon_translate input s0 t0 s1 t1))
      else (\<lambda>input s0 t0 s1 t1. Some (scalar_translate input s0 t0 s1 t1)))"

text \<open>The cell caches what the first call selected, from features that do not change.\<close>

record decode_byte_kernels =
  kernels_scanner :: "bytes \<Rightarrow> nat option"
  kernels_symbol_prefix :: "bytes \<Rightarrow> altchars \<Rightarrow> nat option"
  kernels_translate :: "bytes \<Rightarrow> u8 \<Rightarrow> u8 \<Rightarrow> u8 \<Rightarrow> u8 \<Rightarrow> bytes option"

definition decode_byte_kernels_of :: "machine \<Rightarrow> scan_features \<Rightarrow> decode_byte_kernels" where
  "decode_byte_kernels_of machine scan =
     \<lparr>kernels_scanner = select_alphanumeric_prefix machine scan,
      kernels_symbol_prefix = select_symbol_prefix machine scan,
      kernels_translate = select_translate_bytes machine scan\<rparr>"

section \<open>Masks\<close>

text \<open>The register that answers a test of every byte.\<close>

definition mask_of :: "('a \<Rightarrow> bool) \<Rightarrow> 'a list \<Rightarrow> bytes" where
  "mask_of P v = map (\<lambda>b. if P b then - 1 else 0) v"

lemma length_mask_of [simp]: "length (mask_of P v) = length v"
  by (simp add: mask_of_def)

named_theorems mask_simps "tests of the bytes of a register"

lemma or_mask_of [mask_simps]: "or_si (mask_of P v) (mask_of Q v) = mask_of (\<lambda>b. P b \<or> Q b) v"
  by (induction v) (auto simp: or_si_def mask_of_def)

lemma and_mask_of [mask_simps]: "and_si (mask_of P v) (mask_of Q v) = mask_of (\<lambda>b. P b \<and> Q b) v"
  by (induction v) (auto simp: and_si_def mask_of_def)

lemma cmpeq_mask_of [mask_simps]: "length v = n \<Longrightarrow> cmpeq_epi8 v (replicate n x) = mask_of (\<lambda>b. b = x) v"
  by (simp add: cmpeq_const mask_of_def)

lemma range_mask_of [mask_simps]:
  "length v = n \<Longrightarrow> cmpeq_epi8 (max_epu8 v (replicate n lower)) v = mask_of (\<lambda>b. lower \<le> b) v"
  "length v = n \<Longrightarrow> cmpeq_epi8 (min_epu8 v (replicate n upper)) v = mask_of (\<lambda>b. b \<le> upper) v"
  "length v = n \<Longrightarrow> vcge v (replicate n lower) = mask_of (\<lambda>b. lower \<le> b) v"
  "length v = n \<Longrightarrow> vcle v (replicate n upper) = mask_of (\<lambda>b. b \<le> upper) v"
  by (induction v arbitrary: n)
    (auto simp: cmpeq_epi8_def max_epu8_def min_epu8_def vcge_def vcle_def mask_of_def max_def min_def)

lemma vmvn_mask_of [mask_simps]: "vmvn (mask_of P v) = mask_of (\<lambda>b. \<not> P b) v"
  by (simp add: vmvn_def mask_of_def)

lemma mask_of_cong: "(\<And>b. P b = Q b) \<Longrightarrow> mask_of P v = mask_of Q v"
  by (simp add: mask_of_def)

lemma bit_movemask: "length v \<le> 32 \<Longrightarrow> bit (movemask_epi8 (mask_of P v)) i \<longleftrightarrow> i < length v \<and> P (v ! i)"
  by (auto simp: movemask_epi8_def mask_of_def bit_horner_sum_bit_word_iff nth_append split: if_splits)

lemma filter_upt_nth: "map ((!) v) (filter (\<lambda>i. P (v ! i)) [0..<length v]) = filter P v"
proof -
  have "filter P (map ((!) v) [0..<length v]) = map ((!) v) (filter (P \<circ> (!) v) [0..<length v])"
    by (rule filter_map)
  then show ?thesis by (simp add: map_nth comp_def)
qed

lemma count_ones_mask:
  assumes "length v \<le> 32"
  shows "count_ones (movemask_epi8 (mask_of P v)) = length (filter P v)"
proof -
  have "[0..<32] = [0..<length v] @ [length v..<32]" using upt_add_eq_append [of 0 "length v" "32 - length v"] assms by simp
  then have "filter (bit (movemask_epi8 (mask_of P v))) [0..<32] = filter (\<lambda>i. P (v ! i)) [0..<length v]"
    by (auto simp: bit_movemask assms filter_empty_conv intro!: filter_cong)
  then show ?thesis
    unfolding count_ones_def by (metis filter_upt_nth length_map)
qed

lemma takeWhile_upt_nth: "length (takeWhile (\<lambda>i. P (v ! i)) [0..<length v]) = length (takeWhile P v)"
proof -
  have "takeWhile P (map ((!) v) [0..<length v]) = map ((!) v) (takeWhile (P \<circ> (!) v) [0..<length v])"
    by (rule takeWhile_map)
  then have "length (takeWhile P v) = length (takeWhile (P \<circ> (!) v) [0..<length v])"
    by (metis length_map map_nth)
  then show ?thesis by (simp add: comp_def)
qed

text \<open>The first byte that fails the test, under the mask of a register of \<open>w\<close> bytes.\<close>

lemma trailing_zeros_mask:
  assumes "length v = w" "w \<le> 32" "\<not> list_all P v"
  shows "trailing_zeros_32 (NOT (movemask_epi8 (mask_of P v)) AND mask w) = length (takeWhile P v)"
proof -
  let ?m = "NOT (movemask_epi8 (mask_of P v)) AND mask w"
  have bits: "\<not> bit ?m i \<longleftrightarrow> P (v ! i)" if "i < length v" for i
    using that assms by (simp add: bit_simps bit_movemask)
  obtain k where k: "k < length v" "\<not> P (v ! k)" using assms(3) by (auto simp: list_all_length)
  have "[0..<32] = [0..<length v] @ [length v..<32]"
    using upt_add_eq_append [of 0 "length v" "32 - length v"] assms by simp
  then have "takeWhile (\<lambda>i. \<not> bit ?m i) [0..<32] = takeWhile (\<lambda>i. \<not> bit ?m i) [0..<length v]"
    using k bits [of k] by (simp add: takeWhile_append1 [of k])
  also have "\<dots> = takeWhile (\<lambda>i. P (v ! i)) [0..<length v]"
    using bits by (intro takeWhile_cong) auto
  finally show ?thesis by (simp add: trailing_zeros_32_def takeWhile_upt_nth)
qed

lemma movemask_all:
  assumes "length v = w" "w \<le> 32"
  shows "movemask_epi8 (mask_of P v) = mask w \<longleftrightarrow> list_all P v"
proof
  assume *: "movemask_epi8 (mask_of P v) = mask w"
  have "P (v ! i)" if "i < w" for i
  proof -
    have "bit (movemask_epi8 (mask_of P v)) i" unfolding * using that assms(2) by (simp add: bit_simps)
    then show ?thesis using bit_movemask [of v P i] assms by simp
  qed
  then show "list_all P v" using assms(1) by (simp add: list_all_length)
next
  assume "list_all P v"
  then show "movemask_epi8 (mask_of P v) = mask w"
    using assms by (intro bit_word_eqI) (auto simp: bit_movemask list_all_length bit_simps)
qed

lemma position_takeWhile:
  "unwrap_or (position (\<lambda>b. \<not> P b) v) (length v) = length (takeWhile P v)"
  by (induction v) (auto simp: unwrap_or_def split: option.splits)

lemma position_takeWhile_drop:
  "unwrap_or (position (\<lambda>b. \<not> P b) (drop k v)) (length v - k) = length (takeWhile P (drop k v))"
  using position_takeWhile [of P "drop k v"] by simp

section \<open>The loops over registers\<close>

lemma count_loop:
  assumes "0 < w"
    and "\<And>off n. off + w \<le> length input \<Longrightarrow> body off n = Some (n + length (filter P (take w (drop off input))))"
  shows "\<exists>off n. scan_while (length input) w w body 0 0 = Some (off, n)
    \<and> n + length (filter P (drop off input)) = length (filter P input)"
proof -
  have "\<exists>off n. scan_while (length input) w w body 0 0 = Some (off, n)
    \<and> n + length (filter P (drop off input)) = length (filter P input) \<and> length input < off + w"
  proof (rule scan_while_total [OF assms(1)])
    fix off n assume I: "n + length (filter P (drop off input)) = length (filter P input)" "off + w \<le> length input"
    have "drop off input = take w (drop off input) @ drop (off + w) input"
      by (metis add.commute append_take_drop_id drop_drop)
    then have "length (filter P (drop off input)) = length (filter P (take w (drop off input)))
        + length (filter P (drop (off + w) input))"
      by (metis filter_append length_append)
    with I assms(2) show "\<exists>n'. body off n = Some n'
        \<and> n' + length (filter P (drop (off + w) input)) = length (filter P input)"
      by simp
  qed simp
  then show ?thesis by blast
qed

lemma prefix_loop:
  assumes "0 < w"
    and "\<And>off. off + w \<le> length input \<Longrightarrow> body off () =
      Some (if list_all P (take w (drop off input)) then Inr ()
        else Inl (off + length (takeWhile P (take w (drop off input)))))"
  shows "\<exists>r. try_while (length input) w w body 0 () = Some r
    \<and> (case r of Inl n \<Rightarrow> n = length (takeWhile P input)
       | Inr (off, _) \<Rightarrow> off + length (takeWhile P (drop off input)) = length (takeWhile P input))"
proof -
  define I where "I off (s :: unit) \<longleftrightarrow> off + length (takeWhile P (drop off input)) = length (takeWhile P input)" for off s
  have "\<exists>r. try_while (length input) w w body 0 () = Some r
    \<and> (case r of Inl n \<Rightarrow> n = length (takeWhile P input) | Inr (off, s) \<Rightarrow> I off s \<and> length input < off + w)"
  proof (rule try_while_total [OF assms(1)])
    fix off s assume I: "I off s" "off + w \<le> length input"
    have d: "drop off input = take w (drop off input) @ drop (off + w) input"
      by (metis add.commute append_take_drop_id drop_drop)
    show "\<exists>r. body off s = Some r \<and> (case r of Inl n \<Rightarrow> n = length (takeWhile P input) | Inr s' \<Rightarrow> I (off + w) s')"
    proof (cases "list_all P (take w (drop off input))")
      case True
      then have "takeWhile P (drop off input) = take w (drop off input) @ takeWhile P (drop (off + w) input)"
        by (subst d) (simp add: list_all_iff takeWhile_append2)
      with I have "I (off + w) ()" by (simp add: I_def)
      then show ?thesis using assms(2) [OF I(2)] True by simp
    next
      case False
      then have "takeWhile P (drop off input) = takeWhile P (take w (drop off input))"
        by (subst d) (auto simp: list_all_iff intro: takeWhile_append1)
      then show ?thesis using assms(2) [OF I(2)] False I(1) by (simp add: I_def)
    qed
  qed (simp add: I_def)
  then show ?thesis by (auto simp: I_def split: sum.splits)
qed

lemma prefix_finish:
  assumes "\<exists>r. loop = Some r
    \<and> (case r of Inl n \<Rightarrow> n = N | Inr (off, _) \<Rightarrow> off + length (takeWhile P (drop off input)) = N)"
  shows "loop \<bind> (\<lambda>r. Some (case r of Inl n \<Rightarrow> n
       | Inr (source, _) \<Rightarrow> source + unwrap_or (position (\<lambda>b. \<not> P b) (drop source input)) (length input - source)))
    = Some N"
proof -
  obtain r where r: "loop = Some r"
    "case r of Inl n \<Rightarrow> n = N | Inr (off, _) \<Rightarrow> off + length (takeWhile P (drop off input)) = N"
    using assms by blast
  then show ?thesis by (cases r) (auto simp: position_takeWhile_drop)
qed

lemma translate_loop:
  assumes "0 < w"
    and "\<And>off m. off + w \<le> length m \<Longrightarrow> length m = length input \<Longrightarrow> body off m = store m off (map f (take w (drop off m)))"
  shows "\<exists>off m. scan_while (length input) w w body 0 input = Some (off, m)
    \<and> take off m @ map f (drop off m) = map f input"
proof -
  have "\<exists>off m. scan_while (length input) w w body 0 input = Some (off, m)
    \<and> (off \<le> length input \<and> m = map f (take off input) @ drop off input) \<and> length input < off + w"
  proof (rule scan_while_total [OF assms(1)])
    fix off m assume I: "off \<le> length input \<and> m = map f (take off input) @ drop off input" "off + w \<le> length input"
    have "store m off (map f (take w (drop off m))) = Some (map f (take (off + w) input) @ drop (off + w) input)"
      using I by (simp add: store_def take_add add.commute)
    then show "\<exists>m'. body off m = Some m' \<and> off + w \<le> length input
        \<and> m' = map f (take (off + w) input) @ drop (off + w) input"
      using I assms(2) by simp
  qed simp
  then obtain off m where *: "scan_while (length input) w w body 0 input = Some (off, m)"
    "off \<le> length input" "m = map f (take off input) @ drop off input" by blast
  then have "take off m @ map f (drop off m) = map f input"
    by (simp flip: map_append)
  with *(1) show ?thesis by blast
qed

section \<open>Classifiers\<close>

text \<open>A routine that tests every byte of a register of \<open>width\<close> bytes.\<close>

locale byte_classifier =
  fixes classify :: "bytes \<Rightarrow> bytes" and P :: "u8 \<Rightarrow> bool" and width :: nat
  assumes classify_mask: "length v = width \<Longrightarrow> classify v = mask_of P v"
    and width_bounds: "0 < width" "width \<le> 32"
begin

lemma count_registers:
  "\<exists>off n. scan_while (length input) width width (\<lambda>source symbols.
      slice input source width \<bind> (\<lambda>v. Some (symbols + count_ones (movemask_epi8 (classify v))))) 0 0 = Some (off, n)
    \<and> n + length (filter P (drop off input)) = length (filter P input)"
  using width_bounds by (intro count_loop) (simp_all add: slice_simps classify_mask count_ones_mask)

lemma prefix_registers:
  "\<exists>r. try_while (length input) width width (\<lambda>source _. slice input source width \<bind> (\<lambda>v.
      if movemask_epi8 (classify v) \<noteq> mask width
      then Some (Inl (source + trailing_zeros_32 (NOT (movemask_epi8 (classify v)) AND mask width)))
      else Some (Inr ()))) 0 () = Some r
    \<and> (case r of Inl n \<Rightarrow> n = length (takeWhile P input)
       | Inr (off, _) \<Rightarrow> off + length (takeWhile P (drop off input)) = length (takeWhile P input))"
  using width_bounds
  by (intro prefix_loop) (simp_all add: slice_simps classify_mask movemask_all trailing_zeros_mask)

lemma prefix_result:
  "try_while (length input) width width (\<lambda>source _. slice input source width \<bind> (\<lambda>v.
      if movemask_epi8 (classify v) \<noteq> mask width
      then Some (Inl (source + trailing_zeros_32 (NOT (movemask_epi8 (classify v)) AND mask width)))
      else Some (Inr ()))) 0 ()
    \<bind> (\<lambda>r. Some (case r of Inl n \<Rightarrow> n
         | Inr (source, _) \<Rightarrow> source + unwrap_or (position (\<lambda>b. \<not> P b) (drop source input)) (length input - source)))
    = Some (length (takeWhile P input))"
  by (rule prefix_finish [OF prefix_registers])

text \<open>NEON sums the top bits, and looks for the first clear byte.\<close>

lemma classified_sum: "length v = width \<Longrightarrow> unat (vaddv (vshr_n_u8 7 (classify v))) = length (filter P v)"
proof -
  have "fold (+) (vshr_n_u8 7 (mask_of P v)) x = x + of_nat (length (filter P v))" for x :: u8 and v
    by (induction v arbitrary: x) (simp_all add: vshr_n_u8_def mask_of_def drop_bit_eq_div)
  moreover assume v: "length v = width"
  moreover have "length (filter P v) < 256" using v width_bounds(2) length_filter_le [of P v] by simp
  ultimately show ?thesis by (simp add: vaddv_def classify_mask unsigned_of_nat take_bit_nat_eq_self)
qed

lemma classified_first:
  assumes "length v = width"
  shows "vmaxv (vmvn (classify v)) = 0 \<longleftrightarrow> list_all P v"
    "unwrap_or (position (\<lambda>lane. lane = 0) (classify v)) width = length (takeWhile P v)"
proof -
  show "vmaxv (vmvn (classify v)) = 0 \<longleftrightarrow> list_all P v"
    by (simp add: vmaxv_clean classify_mask assms mask_simps) (simp add: clean_map mask_of_def list_all_iff)
  have "position (\<lambda>lane. lane = 0) (mask_of P v) = position (\<lambda>b. \<not> P b) v"
    by (induction v) (simp_all add: mask_of_def)
  then show "unwrap_or (position (\<lambda>lane. lane = 0) (classify v)) width = length (takeWhile P v)"
    using position_takeWhile [of P v] by (simp add: classify_mask assms)
qed

end

section \<open>Every routine agrees with the scalar one\<close>

lemma tests_of_bytes:
  "entries_from (\<lambda>b _. (b - 65 \<le> 25 \<longleftrightarrow> 65 \<le> b \<and> b \<le> 90) \<and> (b - 97 \<le> 25 \<longleftrightarrow> 97 \<le> b \<and> b \<le> 122)
     \<and> (b - 48 \<le> 9 \<longleftrightarrow> 48 \<le> b \<and> b \<le> 57)) 0 STANDARD_DECODE"
  "entries_from (\<lambda>b v. is_lenient_symbol b None \<longleftrightarrow> v \<noteq> 255) 0 STANDARD_DECODE"
  by code_simp+

lemma byte_ranges:
  "b - 65 \<le> 25 \<longleftrightarrow> 65 \<le> b \<and> b \<le> 90" "b - 97 \<le> 25 \<longleftrightarrow> 97 \<le> b \<and> b \<le> 122" "b - 48 \<le> 9 \<longleftrightarrow> 48 \<le> b \<and> b \<le> 57"
  for b :: u8
  using tests_of_bytes(1) [THEN entries_of_table, of b] by (simp_all add: STANDARD_DECODE_def)

lemma lenient_without_altchars: "is_lenient_symbol b None \<longleftrightarrow> symbol_value Standard b \<noteq> None"
  using tests_of_bytes(2) [THEN entries_of_table, of b] invalid_iff_no_symbol [of Standard b]
  by (simp add: STANDARD_DECODE_def INVALID_VALUE_byte)

text \<open>Without other characters the code compares with a letter twice.\<close>

lemma lenient_with_extra:
  "is_lenient_symbol b altchars \<longleftrightarrow> is_lenient_symbol b None
     \<or> b = fst (extra_symbols altchars) \<or> b = snd (extra_symbols altchars)"
  by (cases altchars) (auto simp: is_lenient_symbol_def extra_symbols_def unwrap_or_def)

lemma lenient_ranges:
  "is_lenient_symbol b altchars \<longleftrightarrow> (65 \<le> b \<and> b \<le> 90 \<or> 97 \<le> b \<and> b \<le> 122) \<or> 48 \<le> b \<and> b \<le> 57
     \<or> (b = 43 \<or> b = 47) \<or> b = fst (extra_symbols altchars) \<or> b = snd (extra_symbols altchars)"
  by (subst lenient_with_extra) (auto simp: is_lenient_symbol_def byte_ranges)

interpretation avx2_symbols: byte_classifier
  "\<lambda>v. valid_avx2 v (broadcastsi128 STANDARD_HIGH_CLASSES) (broadcastsi128 STANDARD_LOW_CLASSES_COMPLEMENT)
     (set1 32 (fst (extra_symbols altchars))) (set1 32 (snd (extra_symbols altchars)))"
  "\<lambda>b. is_lenient_symbol b altchars" 32 for altchars
proof
  fix v :: bytes assume v: "length v = 32"
  have high: "and_si (srli_epi16 4 v) (replicate 32 15) = map hi v"
    using high_nibbles_32 [OF v] by (simp add: avx2_high_nibbles_def set1_byte)
  have "andnot_si (map (look STANDARD_LOW_CLASSES_COMPLEMENT) v) (map (\<lambda>b. look STANDARD_HIGH_CLASSES (hi b)) v)
      = map (error_32 StandardDecoder) v"
    by (rule nth_equalityI) (simp_all add: andnot_si_def)
  then have "cmpeq_epi8 (andnot_si (map (look STANDARD_LOW_CLASSES_COMPLEMENT) v)
      (map (\<lambda>b. look STANDARD_HIGH_CLASSES (hi b)) v)) (replicate 32 0) = mask_of (\<lambda>b. is_lenient_symbol b None) v"
    using v character_32(1) [of StandardDecoder]
    by (simp add: cmpeq_mask_of) (simp add: mask_of_def lenient_without_altchars)
  then show "valid_avx2 v (broadcastsi128 STANDARD_HIGH_CLASSES) (broadcastsi128 STANDARD_LOW_CLASSES_COMPLEMENT)
     (set1 32 (fst (extra_symbols altchars))) (set1 32 (snd (extra_symbols altchars)))
     = mask_of (\<lambda>b. is_lenient_symbol b altchars) v"
    by (simp add: valid_avx2_def high v shuffle_broadcast comp_def set1_byte mask_simps lenient_with_extra [of _ altchars])
qed simp_all

interpretation sse2_symbols: byte_classifier
  "\<lambda>v. valid_sse2 v (set1 16 (fst (extra_symbols altchars))) (set1 16 (snd (extra_symbols altchars)))"
  "\<lambda>b. is_lenient_symbol b altchars" 16 for altchars
  by unfold_locales
    (simp_all add: valid_sse2_def range_sse2_def set1_byte mask_simps lenient_ranges)

interpretation neon_symbols: byte_classifier
  "\<lambda>v. neon_valid v (fst (extra_symbols altchars)) (snd (extra_symbols altchars))"
  "\<lambda>b. is_lenient_symbol b altchars" 16 for altchars
  by unfold_locales
    (simp_all add: neon_valid_def neon_range_def mask_simps lenient_ranges)

interpretation avx2_alphanumeric: byte_classifier
  "\<lambda>v. or_si (or_si (range_avx2 v (ascii CHR ''A'') (ascii CHR ''Z'')) (range_avx2 v (ascii CHR ''a'') (ascii CHR ''z'')))
     (range_avx2 v (ascii CHR ''0'') (ascii CHR ''9''))"
  is_ascii_alphanumeric 32
  by unfold_locales (simp_all add: range_avx2_def set1_byte mask_simps is_ascii_alphanumeric_def [abs_def])

interpretation sse2_alphanumeric: byte_classifier
  "\<lambda>v. or_si (or_si (range_sse2 v (ascii CHR ''A'') (ascii CHR ''Z'')) (range_sse2 v (ascii CHR ''a'') (ascii CHR ''z'')))
     (range_sse2 v (ascii CHR ''0'') (ascii CHR ''9''))"
  is_ascii_alphanumeric 16
  by unfold_locales (simp_all add: range_sse2_def set1_byte mask_simps is_ascii_alphanumeric_def [abs_def])

lemma mask_32: "mask 32 = (- 1 :: u32)" and mask_16: "mask 16 = (0xffff :: u32)"
  by (simp_all add: mask_eq_exp_minus_1)

lemma and_all: "x AND - 1 = x" for x :: u32
  by (simp add: bit_eq_iff bit_simps)

text \<open>Both select instructions: a byte that equals a source becomes its target.\<close>

lemma select_by_mask:
  assumes "length v = n" "source0 = source1 \<longrightarrow> target0 = target1"
  defines "translated0 \<equiv> or_si (and_si (cmpeq_epi8 v (replicate n source0)) (replicate n target0))
      (andnot_si (cmpeq_epi8 v (replicate n source0)) v)"
  shows "or_si (and_si (cmpeq_epi8 v (replicate n source1)) (replicate n target1))
      (andnot_si (cmpeq_epi8 v (replicate n source1)) translated0)
    = map (translate_byte source0 target0 source1 target1) v"
  using assms(1,2) unfolding translated0_def
  by (intro nth_equalityI)
    (auto simp: or_si_def and_si_def andnot_si_def cmpeq_epi8_def translate_byte_def)

lemma select_by_vbsl:
  assumes "length v = n" "source0 = source1 \<longrightarrow> target0 = target1"
  shows "vbsl (cmpeq_epi8 v (replicate n source1)) (replicate n target1)
      (vbsl (cmpeq_epi8 v (replicate n source0)) (replicate n target0) v)
    = map (translate_byte source0 target0 source1 target1) v"
  using assms by (intro nth_equalityI) (auto simp: vbsl_def cmpeq_epi8_def translate_byte_def)

lemma symbol_counts:
  "symbol_count_avx2 input altchars = Some (scalar_symbol_count input altchars)"
  "symbol_count_sse2 input altchars = Some (scalar_symbol_count input altchars)"
  "neon_symbol_count input altchars = Some (scalar_symbol_count input altchars)"
proof -
  show "symbol_count_avx2 input altchars = Some (scalar_symbol_count input altchars)"
    using avx2_symbols.count_registers [of input altchars]
    by (auto simp: symbol_count_avx2_def scalar_symbol_count_def case_prod_beta Let_def)
  show "symbol_count_sse2 input altchars = Some (scalar_symbol_count input altchars)"
    using sse2_symbols.count_registers [of input altchars]
    by (auto simp: symbol_count_sse2_def scalar_symbol_count_def case_prod_beta Let_def)
  have "\<exists>off n. scan_while (length input) 16 16 (\<lambda>source symbols. slice input source 16 \<bind> (\<lambda>v.
      Some (symbols + unat (vaddv (vshr_n_u8 7 (neon_valid v (fst (extra_symbols altchars)) (snd (extra_symbols altchars)))))))) 0 0
      = Some (off, n)
    \<and> n + length (filter (\<lambda>b. is_lenient_symbol b altchars) (drop off input))
      = length (filter (\<lambda>b. is_lenient_symbol b altchars) input)"
    by (intro count_loop) (simp_all add: slice_simps neon_symbols.classified_sum)
  then show "neon_symbol_count input altchars = Some (scalar_symbol_count input altchars)"
    by (auto simp: neon_symbol_count_def scalar_symbol_count_def case_prod_beta Let_def)
qed

lemma scalar_prefixes:
  "scalar_symbol_prefix input altchars = length (takeWhile (\<lambda>b. is_lenient_symbol b altchars) input)"
  "scalar_alphanumeric_prefix input = length (takeWhile is_ascii_alphanumeric input)"
  by (simp_all add: scalar_symbol_prefix_def scalar_alphanumeric_prefix_def position_takeWhile)

lemma alphanumeric_prefixes:
  "alphanumeric_prefix_avx2 input = Some (scalar_alphanumeric_prefix input)"
  "alphanumeric_prefix_sse2 input = Some (scalar_alphanumeric_prefix input)"
proof -
  show "alphanumeric_prefix_avx2 input = Some (scalar_alphanumeric_prefix input)"
    unfolding alphanumeric_prefix_avx2_def scalar_prefixes Let_def
    by (rule avx2_alphanumeric.prefix_result [unfolded mask_32 and_all])
  show "alphanumeric_prefix_sse2 input = Some (scalar_alphanumeric_prefix input)"
    unfolding alphanumeric_prefix_sse2_def scalar_prefixes Let_def
    by (rule sse2_alphanumeric.prefix_result [unfolded mask_16])
qed

lemma symbol_prefixes:
  "symbol_prefix_avx2 input altchars = Some (scalar_symbol_prefix input altchars)"
  "symbol_prefix_sse2 input altchars = Some (scalar_symbol_prefix input altchars)"
  "neon_symbol_prefix input altchars = Some (scalar_symbol_prefix input altchars)"
proof -
  obtain extra0 extra1 where e: "extra_symbols altchars = (extra0, extra1)" by fastforce
  show "symbol_prefix_avx2 input altchars = Some (scalar_symbol_prefix input altchars)"
    unfolding symbol_prefix_avx2_def scalar_prefixes Let_def e prod.case
    by (rule avx2_symbols.prefix_result [where altchars = altchars, unfolded mask_32 and_all e fst_conv snd_conv])
  show "symbol_prefix_sse2 input altchars = Some (scalar_symbol_prefix input altchars)"
    unfolding symbol_prefix_sse2_def scalar_prefixes Let_def e prod.case
    by (rule sse2_symbols.prefix_result [where altchars = altchars, unfolded mask_16 e fst_conv snd_conv])
  have len: "length (neon_valid v e f) = length v" if "length v = 16" for v e f
    using that by (simp add: neon_valid_def neon_range_def mask_simps)
  show "neon_symbol_prefix input altchars = Some (scalar_symbol_prefix input altchars)"
    unfolding neon_symbol_prefix_def scalar_prefixes Let_def e prod.case
    by (intro prefix_finish prefix_loop)
      (use neon_symbols.classified_first [where altchars = altchars, unfolded e fst_conv snd_conv]
        in \<open>simp_all add: slice_simps store_def len\<close>)
qed

lemma translate_kernels:
  assumes "source0 = source1 \<longrightarrow> target0 = target1"
  shows "translate_avx2 input source0 target0 source1 target1 = Some (scalar_translate input source0 target0 source1 target1)"
    "translate_sse2 input source0 target0 source1 target1 = Some (scalar_translate input source0 target0 source1 target1)"
    "neon_translate input source0 target0 source1 target1 = Some (scalar_translate input source0 target0 source1 target1)"
proof -
  let ?f = "translate_byte source0 target0 source1 target1"
  have loop: "(scan_while (length input) w w (\<lambda>offset m. slice m offset w \<bind> (\<lambda>v. store m offset (g v))) 0 input
      \<bind> (\<lambda>(off, m). Some (take off m @ map ?f (drop off m)))) = Some (map ?f input)"
    if "0 < w" "\<And>v. length v = w \<Longrightarrow> g v = map ?f v" for w g
  proof -
    have "\<exists>off m. scan_while (length input) w w (\<lambda>offset m. slice m offset w \<bind> (\<lambda>v. store m offset (g v))) 0 input
      = Some (off, m) \<and> take off m @ map ?f (drop off m) = map ?f input"
      using that by (intro translate_loop) (simp_all add: slice_simps)
    then show ?thesis by auto
  qed
  have bytes: "(\<lambda>byte. if byte = source0 then target0 else if byte = source1 then target1 else byte) = ?f"
    by (simp add: translate_byte_def [abs_def])
  show "translate_avx2 input source0 target0 source1 target1 = Some (scalar_translate input source0 target0 source1 target1)"
    using loop [OF _ select_by_mask [OF _ assms], of 32]
    by (simp only: translate_avx2_def scalar_translate_def Let_def set1_byte bytes zero_less_numeral)
  show "translate_sse2 input source0 target0 source1 target1 = Some (scalar_translate input source0 target0 source1 target1)"
    using loop [OF _ select_by_mask [OF _ assms], of 16]
    by (simp only: translate_sse2_def scalar_translate_def Let_def set1_byte bytes zero_less_numeral)
  show "neon_translate input source0 target0 source1 target1 = Some (scalar_translate input source0 target0 source1 target1)"
    using loop [OF _ select_by_vbsl [OF _ assms], of 16]
    by (simp only: neon_translate_def scalar_translate_def Let_def zero_less_numeral)
qed

text \<open>Every AArch64 target of the compiler has NEON.\<close>

definition neon_baseline :: "machine \<Rightarrow> bool" where
  "neon_baseline machine \<longleftrightarrow> (arch_of machine = Arch_AArch64 \<longrightarrow> cpu_of machine Neon)"

lemma lenient_symbol_count_eq:
  "neon_baseline machine \<Longrightarrow>
    lenient_symbol_count machine scan input altchars = Some (scalar_symbol_count input altchars)"
  by (auto simp: lenient_symbol_count_def neon_baseline_def symbol_counts)

lemma decode_byte_kernels_eq:
  assumes "neon_baseline machine"
  shows "kernels_scanner (decode_byte_kernels_of machine scan) input = Some (scalar_alphanumeric_prefix input)"
    "kernels_symbol_prefix (decode_byte_kernels_of machine scan) input altchars = Some (scalar_symbol_prefix input altchars)"
    "source0 = source1 \<longrightarrow> target0 = target1 \<Longrightarrow>
      kernels_translate (decode_byte_kernels_of machine scan) input source0 target0 source1 target1
        = Some (scalar_translate input source0 target0 source1 target1)"
  using assms
  by (auto simp: decode_byte_kernels_of_def select_alphanumeric_prefix_def select_symbol_prefix_def
      select_translate_bytes_def select_alphanumeric_prefix_for_x86_def select_symbol_prefix_for_x86_def
      select_translate_bytes_for_x86_def neon_baseline_def alphanumeric_prefixes symbol_prefixes translate_kernels)

text \<open>
  C39: on every processor the selected byte kernels compute what the plain description says: the
  number of symbols, the length of the longest prefix of letters and digits, the length of the
  longest prefix of symbols, and, provided that equal sources have equal targets, the text with both
  characters replaced; none of them reads or writes outside of its input.  The proviso is needed: for
  one source with two targets the scalar routine takes the first target and the vector routines the
  second.  Every \<open>Translation\<close> that the crate builds satisfies it (\<open>translation_new_sources\<close>).
\<close>
theorem byte_kernels_agree:
  assumes "neon_baseline machine" "source0 = source1 \<Longrightarrow> target0 = target1"
  shows "lenient_symbol_count machine scan input altchars
      = Some (length (filter (\<lambda>b. is_lenient_symbol b altchars) input))
    \<and> kernels_scanner (decode_byte_kernels_of machine scan) input
      = Some (length (takeWhile is_ascii_alphanumeric input))
    \<and> kernels_symbol_prefix (decode_byte_kernels_of machine scan) input altchars
      = Some (length (takeWhile (\<lambda>b. is_lenient_symbol b altchars) input))
    \<and> kernels_translate (decode_byte_kernels_of machine scan) input source0 target0 source1 target1
      = Some (map (\<lambda>b. if b = source0 then target0 else if b = source1 then target1 else b) input)"
  using assms
  by (simp add: lenient_symbol_count_eq decode_byte_kernels_eq scalar_prefixes scalar_symbol_count_def
      scalar_translate_def translate_byte_def [abs_def])

lemma byte_kernels_agree_witness:
  "kernels_symbol_prefix (decode_byte_kernels_of example_machine \<lparr>has_sse2 = True, has_popcnt = True\<rparr>)
     (map of_char ''YWJj-ZGVm'') None = Some 4"
proof -
  have "neon_baseline example_machine" by (simp add: neon_baseline_def example_machine_def)
  from byte_kernels_agree [OF this, of 45 45 43 43 "\<lparr>has_sse2 = True, has_popcnt = True\<rparr>"
      "map of_char ''YWJj-ZGVm''" None]
  show ?thesis by (simp add: is_lenient_symbol_def)
qed

end
