(* ===== verification/Base64_Staging.thy ===== *)
theory Base64_Staging
  imports Base64_Scan
begin

text \<open>
  Staged decoding of the Python bindings: the character translation of
  \<open>src/bindings/base64/configured.rs\<close> and the staging buffer and writer of
  \<open>src/bindings/base64/staging.rs\<close>.  The writer's \<open>output\<close> is the memory from its pointer on.  The
  outer option is a panic, an access outside of a region, or a missing CPU feature; the code's own
  \<open>None\<close> is \<open>Inl\<close>, with the memory that it leaves.  The buffer's uninitialised suffix cannot be
  observed, so the buffer is its initialised range.
\<close>

section \<open>Translation\<close>

record translation =
  trans_source0 :: u8
  trans_target0 :: u8
  trans_source1 :: u8
  trans_target1 :: u8
  trans_translate :: "bytes \<Rightarrow> u8 \<Rightarrow> u8 \<Rightarrow> u8 \<Rightarrow> u8 \<Rightarrow> bytes option"

text \<open>One turn of the loop over the two characters, with the pairs \<open>sources[i], targets[i]\<close> found so far.\<close>

definition translation_pair :: "bytes \<Rightarrow> u8 \<Rightarrow> (u8 \<times> u8) list \<Rightarrow> (u8 \<times> u8) list" where
  "translation_pair table byte pairs =
     (if byte \<in> set (map fst pairs) then pairs
      else let value = table ! unat byte in
        if value < 64 \<and> STANDARD_ALPHABET ! unat value \<noteq> byte
        then pairs @ [(byte, STANDARD_ALPHABET ! unat value)] else pairs)"

definition translation_new ::
  "bytes \<Rightarrow> altchars \<Rightarrow> (bytes \<Rightarrow> u8 \<Rightarrow> u8 \<Rightarrow> u8 \<Rightarrow> u8 \<Rightarrow> bytes option) \<Rightarrow> translation option" where
  "translation_new table altchars translate_bytes =
     do {
       (first, second) \<leftarrow> altchars;
       (case translation_pair table second (translation_pair table first []) of
          [] \<Rightarrow> None
        | [(source, target)] \<Rightarrow>
            Some \<lparr>trans_source0 = source, trans_target0 = target, trans_source1 = source, trans_target1 = target,
              trans_translate = translate_bytes\<rparr>
        | (source0, target0) # (source1, target1) # _ \<Rightarrow>
            Some \<lparr>trans_source0 = source0, trans_target0 = target0, trans_source1 = source1,
              trans_target1 = target1, trans_translate = translate_bytes\<rparr>)
     }"

definition translation_apply :: "translation \<Rightarrow> bytes \<Rightarrow> bytes option" where
  "translation_apply t input =
     trans_translate t input (trans_source0 t) (trans_target0 t) (trans_source1 t) (trans_target1 t)"

section \<open>The staging buffer\<close>

definition CONFIGURED_STAGING_CAPACITY :: nat where
  "CONFIGURED_STAGING_CAPACITY = 4096"

type_synonym staging_buffer = bytes

definition staging_remaining_capacity :: "staging_buffer \<Rightarrow> nat" where
  "staging_remaining_capacity staging = CONFIGURED_STAGING_CAPACITY - length staging"

definition staging_is_full :: "staging_buffer \<Rightarrow> bool" where
  "staging_is_full staging \<longleftrightarrow> length staging = CONFIGURED_STAGING_CAPACITY"

definition staging_extend_from_slice :: "staging_buffer \<Rightarrow> bytes \<Rightarrow> nat \<times> staging_buffer" where
  "staging_extend_from_slice staging input =
     (let copied = min (length input) (CONFIGURED_STAGING_CAPACITY - length staging)
      in (copied, staging @ take copied input))"

definition staging_push :: "staging_buffer \<Rightarrow> u8 \<Rightarrow> staging_buffer option" where
  "staging_push staging value =
     do { guard (length staging < CONFIGURED_STAGING_CAPACITY); Some (staging @ [value]) }"

section \<open>The writer\<close>

definition decode_staging ::
  "machine \<Rightarrow> nat \<Rightarrow> bool \<Rightarrow> bytes \<Rightarrow> bytes \<Rightarrow> (bytes + nat \<times> bytes) option" where
  "decode_staging machine address checked input output =
     (if checked then
        (case decode_unpadded_layout input of
           Inl _ \<Rightarrow> Some (Inl output)
         | Inr layout \<Rightarrow> do {
             r \<leftarrow> decode_to_ptr_with_unpadded_layout machine address input output layout Standard;
             Some (case r of Inl (_, output) \<Rightarrow> Inl output | Inr output \<Rightarrow> Inr (layout_output_len layout, output)) })
      else do {
        (written, output) \<leftarrow> decode_standard_validated_to_ptr machine address input output;
        Some (Inr (written, output)) })"

record staging_writer =
  writer_output :: bytes
  writer_written :: nat
  writer_translation :: "translation option"
  writer_staging :: staging_buffer

definition staging_writer_new :: "bytes \<Rightarrow> translation option \<Rightarrow> staging_writer" where
  "staging_writer_new output translation =
     \<lparr>writer_output = output, writer_written = 0, writer_translation = translation, writer_staging = []\<rparr>"

definition writer_set_translation :: "translation option \<Rightarrow> staging_writer \<Rightarrow> staging_writer option" where
  "writer_set_translation translation w =
     do { guard (writer_staging w = []); Some (w\<lparr>writer_translation := translation\<rparr>) }"

text \<open>\<open>self.written += decode_staging(input, self.output.add(self.written))?\<close>\<close>

definition writer_decode ::
  "machine \<Rightarrow> nat \<Rightarrow> bool \<Rightarrow> bytes \<Rightarrow> staging_writer \<Rightarrow> (bytes + staging_writer) option" where
  "writer_decode machine address checked input w =
     do {
       let written = writer_written w;
       guard (written \<le> length (writer_output w));
       r \<leftarrow> decode_staging machine (address + written) checked input (drop written (writer_output w));
       Some (case r of
           Inl output \<Rightarrow> Inl (take written (writer_output w) @ output)
         | Inr (n, output) \<Rightarrow> Inr (w\<lparr>writer_output := take written (writer_output w) @ output,
             writer_written := written + n\<rparr>))
     }"

definition writer_flush ::
  "machine \<Rightarrow> nat \<Rightarrow> bool \<Rightarrow> staging_writer \<Rightarrow> (bytes + staging_writer) option" where
  "writer_flush machine address checked w =
     do {
       staging \<leftarrow> (case writer_translation w of
           None \<Rightarrow> Some (writer_staging w)
         | Some translation \<Rightarrow> translation_apply translation (writer_staging w));
       and_then (writer_decode machine address checked staging w) (\<lambda>w.
         Some (Inr (w\<lparr>writer_staging := []\<rparr>)))
     }"

text \<open>
  The loops hold the input that is left.  Each turn but a first one on a full buffer makes
  progress; a loop that did not would not end, which is \<open>None\<close>.
\<close>

partial_function (option) push_staged_symbols ::
  "machine \<Rightarrow> nat \<Rightarrow> bool \<Rightarrow> bytes \<Rightarrow> staging_writer \<Rightarrow> (bytes + staging_writer) option" where
  "push_staged_symbols machine address checked input w =
     (if input = [] then Some (Inr w)
      else do {
        let (copied, staging) = staging_extend_from_slice (writer_staging w) input;
        let w = w\<lparr>writer_staging := staging\<rparr>;
        r \<leftarrow> (if staging_is_full staging then writer_flush machine address checked w else Some (Inr w));
        (case r of
           Inl output \<Rightarrow> Some (Inl output)
         | Inr w \<Rightarrow> push_staged_symbols machine address checked (drop copied input) w) })"

partial_function (option) push_direct_symbols ::
  "machine \<Rightarrow> nat \<Rightarrow> bool \<Rightarrow> bytes \<Rightarrow> staging_writer \<Rightarrow> (bytes + staging_writer) option" where
  "push_direct_symbols machine address checked input w =
     (if input = [] then Some (Inr w)
      else
        let direct = length input div 4 * 4 in
        if writer_staging w = [] \<and> direct \<noteq> 0 then do {
          r \<leftarrow> writer_decode machine address checked (take direct input) w;
          (case r of
             Inl output \<Rightarrow> Some (Inl output)
           | Inr w \<Rightarrow> push_direct_symbols machine address checked (drop direct input) w) }
        else do {
          let copied = min (length input) (staging_remaining_capacity (writer_staging w));
          r \<leftarrow> push_staged_symbols machine address checked (take copied input) w;
          (case r of
             Inl output \<Rightarrow> Some (Inl output)
           | Inr w \<Rightarrow> push_direct_symbols machine address checked (drop copied input) w) })"

definition writer_push_symbols ::
  "machine \<Rightarrow> nat \<Rightarrow> bool \<Rightarrow> bytes \<Rightarrow> staging_writer \<Rightarrow> (bytes + staging_writer) option" where
  "writer_push_symbols machine address checked input w =
     (if writer_translation w \<noteq> None then push_staged_symbols machine address checked input w
      else push_direct_symbols machine address checked input w)"

definition writer_push_value ::
  "machine \<Rightarrow> nat \<Rightarrow> bool \<Rightarrow> u8 \<Rightarrow> staging_writer \<Rightarrow> (bytes + staging_writer) option" where
  "writer_push_value machine address checked value w =
     do {
       symbol \<leftarrow> get STANDARD_ALPHABET (unat value);
       staging \<leftarrow> staging_push (writer_staging w) symbol;
       let w = w\<lparr>writer_staging := staging\<rparr>;
       (if staging_is_full staging then writer_flush machine address checked w else Some (Inr w))
     }"

definition writer_finish ::
  "machine \<Rightarrow> nat \<Rightarrow> bool \<Rightarrow> staging_writer \<Rightarrow> (bytes + nat \<times> bytes) option" where
  "writer_finish machine address checked w =
     and_then (if writer_staging w \<noteq> [] then writer_flush machine address checked w else Some (Inr w)) (\<lambda>w.
       Some (Inr (writer_written w, writer_output w)))"

section \<open>What the translation does\<close>

fun translation_byte :: "translation option \<Rightarrow> u8 \<Rightarrow> u8" where
  "translation_byte None b = b"
| "translation_byte (Some t) b =
     translate_byte (trans_source0 t) (trans_target0 t) (trans_source1 t) (trans_target1 t) b"

text \<open>The two characters become the standard symbols of their values, everything else stays.\<close>

lemma translation_new_byte:
  "translation_byte (translation_new table (Some (p, s)) translate_bytes) b =
     (if (b = p \<or> b = s) \<and> table ! unat b < 64 then STANDARD_ALPHABET ! unat (table ! unat b) else b)"
  by (auto simp: translation_new_def translation_pair_def translate_byte_def Let_def)

lemma translation_new_sources:
  assumes "translation_new table altchars translate_bytes = Some t"
  shows "trans_translate t = translate_bytes" "trans_source0 t = trans_source1 t \<longrightarrow> trans_target0 t = trans_target1 t"
  using assms by (auto simp: translation_new_def translation_pair_def Let_def split: bind_splits if_splits)

lemma translation_new_apply:
  assumes "neon_baseline machine"
    and "translation_new table altchars (kernels_translate (decode_byte_kernels_of machine scan)) = Some t"
  shows "translation_apply t input = Some (map (translation_byte (Some t)) input)"
  using translation_new_sources [OF assms(2)]
  by (simp add: translation_apply_def decode_byte_kernels_eq [OF assms(1)] scalar_translate_def cong: map_cong)

definition translation_total :: "translation option \<Rightarrow> bool" where
  "translation_total tr \<longleftrightarrow> (case tr of None \<Rightarrow> True
     | Some t \<Rightarrow> \<forall>input. translation_apply t input = Some (map (translation_byte tr) input))"

section \<open>The writer decodes its stream\<close>

lemma decode_unpadded_layout_valid:
  assumes "length x mod 4 \<noteq> 1" "length x \<le> ISIZE_MAX"
  shows "\<exists>layout. decode_unpadded_layout x = Inr layout \<and> layout_output_len layout = length x * 3 div 4"
proof -
  obtain q r where x: "length x = 4 * q + r" and r: "r = 0 \<or> r = 2 \<or> r = 3"
  proof (rule that)
    show "length x = 4 * (length x div 4) + length x mod 4" by simp
    have "length x mod 4 < 4" by simp
    with assms(1) show "length x mod 4 = 0 \<or> length x mod 4 = 2 \<or> length x mod 4 = 3" by linarith
  qed
  have "q * 3 + t \<le> USIZE_MAX" if "t \<le> 2" for t
    using assms(2) that by (simp add: x ISIZE_MAX_def USIZE_MAX_def)
  from this [of 0] this [of 1] this [of 2]
  have "q * 3 \<le> USIZE_MAX" "Suc (q * 3) \<le> USIZE_MAX" "Suc (Suc (q * 3)) \<le> USIZE_MAX" by simp_all
  moreover have "length x div 4 = q" "length x mod 4 = r" "length x * 3 div 4 = q * 3 + r * 3 div 4"
    using r by (auto simp: x)
  ultimately show ?thesis
    using r by (elim disjE) (simp_all add: decode_unpadded_layout_def)
qed

lemma decode_unpadded_symbols:
  assumes "selected_backend machine = Some selection" "all_symbols a x" "length x mod 4 \<noteq> 1"
    and "length x * 3 div 4 \<le> length mem" "length x \<le> ISIZE_MAX"
  obtains layout where "decode_unpadded_layout x = Inr layout" "layout_output_len layout = length x * 3 div 4"
    "decode_to_ptr_with_unpadded_layout machine address x mem layout a
      = Some (Inr (decoded_bytes a x @ drop (length x * 3 div 4) mem))"
proof -
  obtain layout where L: "decode_unpadded_layout x = Inr layout" "layout_output_len layout = length x * 3 div 4"
    using decode_unpadded_layout_valid [OF assms(3,5)] by blast
  obtain r where r: "decode_to_ptr_with_unpadded_layout machine address x mem layout a = Some r"
    "decode_result a 0 False x mem r"
    using decode_to_ptr_with_unpadded_layout_mode_result [OF assms(1) L(1), of mem address a Partial]
      assms(4) by (auto simp: L(2) decode_to_ptr_with_unpadded_layout_def)
  obtain m where m: "r = Inr m" "complete a 0 x mem m"
    using r(2) assms(2) by (cases r) (auto simp: decode_result_def)
  then have "m = decoded_bytes a x @ drop (length x * 3 div 4) mem"
    using append_take_drop_id [of "length x * 3 div 4" m] by (simp add: complete_def)
  with L r(1) m(1) show thesis by (intro that) simp_all
qed

lemma decode_staging_valid:
  assumes "selected_backend machine = Some selection" "all_symbols Standard x" "length x mod 4 \<noteq> 1"
    and "length x * 3 div 4 \<le> length mem" "length x \<le> ISIZE_MAX"
  shows "decode_staging machine address checked x mem =
    Some (Inr (length x * 3 div 4, decoded_bytes Standard x @ drop (length x * 3 div 4) mem))"
proof (cases checked)
  case True
  obtain layout where "decode_unpadded_layout x = Inr layout" "layout_output_len layout = length x * 3 div 4"
    "decode_to_ptr_with_unpadded_layout machine address x mem layout Standard
      = Some (Inr (decoded_bytes Standard x @ drop (length x * 3 div 4) mem))"
    using assms by (rule decode_unpadded_symbols)
  then show ?thesis using True by (simp add: decode_staging_def)
next
  case False
  then show ?thesis
    using decode_standard_validated_to_ptr_eq [OF assms(1,2,3,4)] by (simp add: decode_staging_def)
qed

text \<open>
  A writer that has taken \<open>text\<close>: some whole groups of it are decoded behind the start of \<open>mem\<close>, the
  rest is staged as it came.
\<close>

definition writer_holds :: "translation option \<Rightarrow> bytes \<Rightarrow> bytes \<Rightarrow> staging_writer \<Rightarrow> bool" where
  "writer_holds tr mem text w \<longleftrightarrow> writer_translation w = tr
     \<and> (\<exists>k. 4 dvd k \<and> k \<le> length text \<and> writer_written w = k div 4 * 3 \<and> writer_staging w = drop k text
          \<and> writer_output w = decoded_bytes Standard (map (translation_byte tr) (take k text)) @ drop (k div 4 * 3) mem)"

definition writer_ready :: "staging_writer \<Rightarrow> bool" where
  "writer_ready w \<longleftrightarrow> length (writer_staging w) < CONFIGURED_STAGING_CAPACITY"

lemma writer_new_holds: "writer_holds tr mem [] (staging_writer_new mem tr)" "writer_ready (staging_writer_new mem tr)"
  by (simp_all add: writer_holds_def staging_writer_new_def writer_ready_def CONFIGURED_STAGING_CAPACITY_def)

text \<open>What the stream must be: symbols once translated, with room for their bytes.\<close>

definition stream_fits :: "translation option \<Rightarrow> bytes \<Rightarrow> bytes \<Rightarrow> bool" where
  "stream_fits tr mem text \<longleftrightarrow> all_symbols Standard (map (translation_byte tr) text)
     \<and> length text * 3 div 4 \<le> length mem \<and> length text \<le> ISIZE_MAX"

lemma stream_fits_prefix: "stream_fits tr mem (x @ y) \<Longrightarrow> stream_fits tr mem x"
  by (auto simp: stream_fits_def intro: order_trans [OF div_le_mono])

lemma length_translated: "length (map (translation_byte tr) x) = length x" by simp

text \<open>Decoding behind the written bytes, of all that the writer has taken and of \<open>new\<close> symbols.\<close>

lemma writer_decode_next:
  assumes "selected_backend machine = Some selection"
    and "writer_output w = decoded_bytes Standard x @ drop (length x div 4 * 3) mem"
    and "writer_written w = length x div 4 * 3" "4 dvd length x"
    and "all_symbols Standard y" "length y mod 4 \<noteq> 1" "length y \<le> ISIZE_MAX"
    and "length (x @ y) * 3 div 4 \<le> length mem"
  shows "writer_decode machine address checked y w = Some (Inr (w
    \<lparr>writer_output := decoded_bytes Standard (x @ y) @ drop (length (x @ y) * 3 div 4) mem,
     writer_written := length (x @ y) * 3 div 4\<rparr>))"
proof -
  obtain q where q: "length x = 4 * q" using assms(4) by (elim dvdE)
  have len: "length (x @ y) * 3 div 4 = 3 * q + length y * 3 div 4"
    by (simp add: q)
  have "length (decoded_bytes Standard x) = 3 * q" by (simp add: length_decoded_bytes q)
  then have out: "take (3 * q) (writer_output w) = decoded_bytes Standard x"
    "drop (3 * q) (writer_output w) = drop (3 * q) mem" "3 * q \<le> length (writer_output w)"
    by (simp_all add: assms(2) q mult.commute)
  have "decode_staging machine (address + 3 * q) checked y (drop (3 * q) mem) = Some (Inr (length y * 3 div 4,
      decoded_bytes Standard y @ drop (length y * 3 div 4) (drop (3 * q) mem)))"
    using assms(8) len by (intro decode_staging_valid [OF assms(1,5,6) _ assms(7)]) simp
  moreover have "drop (length y * 3 div 4) (drop (3 * q) mem) = drop (3 * q + length y * 3 div 4) mem"
    by (simp only: drop_drop add.commute)
  moreover have "writer_written w = 3 * q" by (simp add: assms(3) q)
  ultimately show ?thesis
    unfolding len decoded_bytes_append [OF assms(4)] writer_decode_def
    by (simp only: Let_def out guard_True bind.bind_lunit option.case sum.case prod.case append.assoc simp_thms)
qed

lemma writer_holdsE:
  assumes "writer_holds tr mem text w"
  obtains x y where "text = x @ y" "4 dvd length x" "writer_translation w = tr"
    "writer_written w = length x div 4 * 3" "writer_staging w = y"
    "writer_output w = decoded_bytes Standard (map (translation_byte tr) x) @ drop (length x div 4 * 3) mem"
proof -
  obtain k where "4 dvd k" "k \<le> length text" "writer_written w = k div 4 * 3" "writer_staging w = drop k text"
    "writer_output w = decoded_bytes Standard (map (translation_byte tr) (take k text)) @ drop (k div 4 * 3) mem"
    "writer_translation w = tr"
    using assms by (auto simp: writer_holds_def)
  then show thesis by (intro that [of "take k text" "drop k text"]) simp_all
qed

lemma writer_holdsI:
  assumes "text = x @ y" "4 dvd length x" "writer_translation w = tr"
    "writer_written w = length x div 4 * 3" "writer_staging w = y"
    "writer_output w = decoded_bytes Standard (map (translation_byte tr) x) @ drop (length x div 4 * 3) mem"
  shows "writer_holds tr mem text w"
  unfolding writer_holds_def using assms by (intro conjI exI [of _ "length x"]) simp_all

text \<open>A flush decodes all that is staged.\<close>

lemma writer_flush_eq:
  assumes "selected_backend machine = Some selection" "translation_total tr"
    and "writer_holds tr mem text w" "stream_fits tr mem text" "length text mod 4 \<noteq> 1"
  shows "writer_flush machine address checked w = Some (Inr (w
    \<lparr>writer_output := decoded_bytes Standard (map (translation_byte tr) text) @ drop (length text * 3 div 4) mem,
     writer_written := length text * 3 div 4, writer_staging := []\<rparr>))"
proof -
  let ?f = "map (translation_byte tr)"
  obtain x y where w: "text = x @ y" "4 dvd length x" "writer_translation w = tr"
    "writer_written w = length x div 4 * 3" "writer_staging w = y"
    "writer_output w = decoded_bytes Standard (?f x) @ drop (length x div 4 * 3) mem"
    using assms(3) by (rule writer_holdsE)
  have translated: "(case writer_translation w of None \<Rightarrow> Some (writer_staging w)
      | Some t \<Rightarrow> translation_apply t (writer_staging w)) = Some (?f y)"
    using assms(2) by (cases tr) (simp_all add: w(3,5) translation_total_def map_idI)
  have fits: "all_symbols Standard (?f y)" "length (?f y) mod 4 \<noteq> 1" "length (?f y) \<le> ISIZE_MAX"
    "length (?f x @ ?f y) * 3 div 4 \<le> length mem"
    using assms(4,5) w(2) by (auto simp: stream_fits_def w(1) elim!: dvdE)
  from writer_decode_next [OF assms(1) _ _ _ fits, of w address checked] w(2,4,6)
  show ?thesis by (simp add: writer_flush_def translated w(1))
qed

lemma extend_staging:
  assumes "writer_holds tr mem text w" "writer_ready w" "input \<noteq> []"
  defines "copied \<equiv> fst (staging_extend_from_slice (writer_staging w) input)"
  shows "0 < copied" "copied \<le> length input"
    "writer_holds tr mem (text @ take copied input)
       (w\<lparr>writer_staging := snd (staging_extend_from_slice (writer_staging w) input)\<rparr>)"
proof -
  show "0 < copied" "copied \<le> length input"
    using assms(2,3) by (simp_all add: copied_def staging_extend_from_slice_def writer_ready_def Let_def)
  obtain x y where w: "text = x @ y" "4 dvd length x" "writer_translation w = tr"
    "writer_written w = length x div 4 * 3" "writer_staging w = y"
    "writer_output w = decoded_bytes Standard (map (translation_byte tr) x) @ drop (length x div 4 * 3) mem"
    using assms(1) by (rule writer_holdsE)
  have "snd (staging_extend_from_slice (writer_staging w) input) = y @ take copied input"
    by (simp add: copied_def staging_extend_from_slice_def Let_def w(5))
  then show "writer_holds tr mem (text @ take copied input)
       (w\<lparr>writer_staging := snd (staging_extend_from_slice (writer_staging w) input)\<rparr>)"
    using w by (intro writer_holdsI [where x = x and y = "y @ take copied input"]) simp_all
qed

text \<open>A full buffer is flushed at once, so the writer is ready again.\<close>

lemma flush_when_full:
  assumes "selected_backend machine = Some selection" "translation_total tr"
    and "writer_holds tr mem text w" "stream_fits tr mem text" "length (writer_staging w) \<le> CONFIGURED_STAGING_CAPACITY"
  shows "\<exists>w'. (if staging_is_full (writer_staging w) then writer_flush machine address checked w else Some (Inr w))
    = Some (Inr w') \<and> writer_holds tr mem text w' \<and> writer_ready w'"
proof (cases "staging_is_full (writer_staging w)")
  case True
  obtain x y where w: "text = x @ y" "4 dvd length x" "writer_translation w = tr" "writer_staging w = y"
    using assms(3) by (rule writer_holdsE)
  have "length y = 4 * 1024" using True w(4) by (simp add: staging_is_full_def CONFIGURED_STAGING_CAPACITY_def)
  then have d: "4 dvd length text" using w(1,2) by simp
  then have n: "length text mod 4 \<noteq> 1" "length text * 3 div 4 = length text div 4 * 3" by (auto elim!: dvdE)
  have "writer_holds tr mem text (w
    \<lparr>writer_output := decoded_bytes Standard (map (translation_byte tr) text) @ drop (length text * 3 div 4) mem,
     writer_written := length text * 3 div 4, writer_staging := []\<rparr>)"
    using d n w(3) by (intro writer_holdsI [where x = "text" and y = "[]"]) simp_all
  then show ?thesis
    using True writer_flush_eq [OF assms(1-4) n(1), of address checked]
    by (simp add: writer_ready_def CONFIGURED_STAGING_CAPACITY_def)
next
  case False
  then show ?thesis using assms(3,5) by (simp add: staging_is_full_def writer_ready_def)
qed

lemma push_staged_symbols_holds:
  assumes "selected_backend machine = Some selection" "translation_total tr"
  shows "writer_holds tr mem text w \<Longrightarrow> writer_ready w \<Longrightarrow> stream_fits tr mem (text @ input) \<Longrightarrow>
    \<exists>w'. push_staged_symbols machine address checked input w = Some (Inr w')
      \<and> writer_holds tr mem (text @ input) w' \<and> writer_ready w'"
proof (induction "length input" arbitrary: input "text" w rule: less_induct)
  case less
  show ?case
  proof (cases "input = []")
    case True
    then show ?thesis using less.prems by (simp add: push_staged_symbols.simps)
  next
    case False
    let ?e = "staging_extend_from_slice (writer_staging w) input"
    let ?w = "w\<lparr>writer_staging := snd ?e\<rparr>"
    note e = extend_staging [OF less.prems(1,2) False]
    have "stream_fits tr mem (text @ take (fst ?e) input)"
      using less.prems(3) stream_fits_prefix [of tr mem "text @ take (fst ?e) input" "drop (fst ?e) input"] by simp
    moreover have "length (writer_staging ?w) \<le> CONFIGURED_STAGING_CAPACITY"
      using less.prems(2) by (simp add: staging_extend_from_slice_def writer_ready_def Let_def)
    ultimately obtain w' where w': "(if staging_is_full (writer_staging ?w) then writer_flush machine address checked ?w
        else Some (Inr ?w)) = Some (Inr w')"
      "writer_holds tr mem (text @ take (fst ?e) input) w'" "writer_ready w'"
      using flush_when_full [OF assms e(3)] by blast
    have "push_staged_symbols machine address checked input w
        = push_staged_symbols machine address checked (drop (fst ?e) input) w'"
      using False w'(1) by (subst push_staged_symbols.simps) (simp add: case_prod_beta)
    moreover have "length (drop (fst ?e) input) < length input" using e(1,2) by simp
    ultimately show ?thesis
      using less.hyps [of "drop (fst ?e) input", OF _ w'(2,3)] less.prems(3) by simp
  qed
qed

text \<open>Without a translation complete quartets go straight to the output.\<close>

lemma writer_decode_direct:
  assumes "selected_backend machine = Some selection" "writer_holds None mem text w" "writer_staging w = []"
    and "stream_fits None mem (text @ x)" "4 dvd length x"
  shows "\<exists>w'. writer_decode machine address checked x w = Some (Inr w')
    \<and> writer_holds None mem (text @ x) w' \<and> writer_ready w'"
proof -
  obtain z y where "text = z @ y" and w: "4 dvd length z" "writer_translation w = None"
    "writer_written w = length z div 4 * 3" "writer_staging w = y"
    "writer_output w = decoded_bytes Standard z @ drop (length z div 4 * 3) mem"
    using assms(2) by (rule writer_holdsE) (simp add: map_idI)
  then have z: "z = text" using assms(3) by simp
  have "all_symbols Standard x" "length x mod 4 \<noteq> 1" "length x \<le> ISIZE_MAX" "length (z @ x) * 3 div 4 \<le> length mem"
    using assms(4,5) by (auto simp: stream_fits_def z map_idI elim!: dvdE)
  note d = writer_decode_next [OF assms(1) w(5,3,1) this, of address checked]
  have len: "4 dvd length (z @ x)" using w(1) assms(5) by simp
  then have n: "length (z @ x) * 3 div 4 = length (z @ x) div 4 * 3" by (auto elim!: dvdE)
  have "writer_holds None mem (text @ x) (w\<lparr>writer_output := decoded_bytes Standard (z @ x)
      @ drop (length (z @ x) * 3 div 4) mem, writer_written := length (z @ x) * 3 div 4\<rparr>)"
    using w len assms(3) unfolding n by (intro writer_holdsI [where x = "z @ x" and y = "[]"]) (simp_all add: z map_idI)
  then show ?thesis
    unfolding d using assms(3) by (simp add: writer_ready_def CONFIGURED_STAGING_CAPACITY_def)
qed

lemma push_direct_symbols_holds:
  assumes "selected_backend machine = Some selection"
  shows "writer_holds None mem text w \<Longrightarrow> writer_ready w \<Longrightarrow> stream_fits None mem (text @ input) \<Longrightarrow>
    \<exists>w'. push_direct_symbols machine address checked input w = Some (Inr w')
      \<and> writer_holds None mem (text @ input) w' \<and> writer_ready w'"
proof (induction "length input" arbitrary: input "text" w rule: less_induct)
  case less
  let ?direct = "length input div 4 * 4"
  let ?copied = "min (length input) (staging_remaining_capacity (writer_staging w))"
  have fits: "stream_fits None mem (text @ take n input)" for n
    using less.prems(3) stream_fits_prefix [of None mem "text @ take n input" "drop n input"] by simp
  have rest: "\<exists>w''. push_direct_symbols machine address checked (drop n input) w' = Some (Inr w'')
      \<and> writer_holds None mem (text @ input) w'' \<and> writer_ready w''"
    if "0 < n" "input \<noteq> []" "writer_holds None mem (text @ take n input) w'" "writer_ready w'" for n w'
    using less.hyps [of "drop n input", OF _ that(3,4)] that(1,2) less.prems(3) by simp
  consider "input = []" | "input \<noteq> []" "writer_staging w = [] \<and> ?direct \<noteq> 0"
    | "input \<noteq> []" "\<not> (writer_staging w = [] \<and> ?direct \<noteq> 0)" by blast
  then show ?case
  proof cases
    case 1
    then show ?thesis using less.prems by (simp add: push_direct_symbols.simps)
  next
    case 2
    obtain w' where w': "writer_decode machine address checked (take ?direct input) w = Some (Inr w')"
      "writer_holds None mem (text @ take ?direct input) w'" "writer_ready w'"
      using writer_decode_direct [OF assms less.prems(1) conjunct1 [OF 2(2)] fits [of ?direct]] by auto
    with 2 rest [of ?direct w'] show ?thesis by (subst push_direct_symbols.simps) (simp add: Let_def)
  next
    case 3
    obtain w' where w': "push_staged_symbols machine address checked (take ?copied input) w = Some (Inr w')"
      "writer_holds None mem (text @ take ?copied input) w'" "writer_ready w'"
      using push_staged_symbols_holds [OF assms _ less.prems(1,2) fits [of ?copied]]
      by (auto simp: translation_total_def)
    moreover have "0 < ?copied"
      using 3(1) less.prems(2) by (simp add: staging_remaining_capacity_def writer_ready_def)
    ultimately show ?thesis
      using 3 rest [of ?copied w'] by (subst push_direct_symbols.simps) (auto simp: Let_def)
  qed
qed

lemma writer_push_symbols_holds:
  assumes "selected_backend machine = Some selection" "translation_total tr"
    and "writer_holds tr mem text w" "writer_ready w" "stream_fits tr mem (text @ input)"
  shows "\<exists>w'. writer_push_symbols machine address checked input w = Some (Inr w')
    \<and> writer_holds tr mem (text @ input) w' \<and> writer_ready w'"
proof -
  have "writer_translation w = tr" using assms(3) by (simp add: writer_holds_def)
  then show ?thesis
    using push_staged_symbols_holds [OF assms, of address checked]
      push_direct_symbols_holds [OF assms(1), of mem "text" w input address checked] assms(3-5)
    by (cases "tr = None") (auto simp: writer_push_symbols_def)
qed

lemma writer_finish_eq:
  assumes "selected_backend machine = Some selection" "translation_total tr"
    and "writer_holds tr mem text w" "stream_fits tr mem text" "length text mod 4 \<noteq> 1"
  shows "writer_finish machine address checked w = Some (Inr (length text * 3 div 4,
    decoded_bytes Standard (map (translation_byte tr) text) @ drop (length text * 3 div 4) mem))"
proof (cases "writer_staging w = []")
  case True
  obtain x y where w: "text = x @ y" "4 dvd length x" "writer_written w = length x div 4 * 3" "writer_staging w = y"
    "writer_output w = decoded_bytes Standard (map (translation_byte tr) x) @ drop (length x div 4 * 3) mem"
    using assms(3) by (rule writer_holdsE)
  moreover have "length x * 3 div 4 = length x div 4 * 3" using w(2) by (auto elim!: dvdE)
  ultimately show ?thesis using True by (simp add: writer_finish_def)
next
  case False
  then show ?thesis using writer_flush_eq [OF assms, of address checked] by (simp add: writer_finish_def)
qed

text \<open>One stretch of symbols through a new writer.\<close>

lemma writer_decodes:
  assumes "selected_backend machine = Some selection" "translation_total tr"
    and "stream_fits tr mem text" "length text mod 4 \<noteq> 1"
  shows "and_then (writer_push_symbols machine address checked text (staging_writer_new mem tr))
      (writer_finish machine address checked)
    = Some (Inr (length text * 3 div 4,
        decoded_bytes Standard (map (translation_byte tr) text) @ drop (length text * 3 div 4) mem))"
proof -
  obtain w' where "writer_push_symbols machine address checked text (staging_writer_new mem tr) = Some (Inr w')"
    "writer_holds tr mem text w'"
    using writer_push_symbols_holds [OF assms(1,2) writer_new_holds, of mem "text" address checked] assms(3) by auto
  then show ?thesis using writer_finish_eq [OF assms(1,2) _ assms(3,4), of w' address checked] by simp
qed

text \<open>A single value is staged as its standard symbol.\<close>

lemma writer_push_value_holds:
  assumes "selected_backend machine = Some selection" "translation_total tr"
    and "writer_holds tr mem text w" "writer_ready w" "value < 64"
    and "stream_fits tr mem (text @ [STANDARD_ALPHABET ! unat value])"
  shows "\<exists>w'. writer_push_value machine address checked value w = Some (Inr w')
    \<and> writer_holds tr mem (text @ [STANDARD_ALPHABET ! unat value]) w' \<and> writer_ready w'"
proof -
  let ?b = "STANDARD_ALPHABET ! unat value"
  let ?w = "w\<lparr>writer_staging := writer_staging w @ [?b]\<rparr>"
  obtain x y where w: "text = x @ y" "4 dvd length x" "writer_translation w = tr"
    "writer_written w = length x div 4 * 3" "writer_staging w = y"
    "writer_output w = decoded_bytes Standard (map (translation_byte tr) x) @ drop (length x div 4 * 3) mem"
    using assms(3) by (rule writer_holdsE)
  have "writer_holds tr mem (text @ [?b]) ?w"
    using w by (intro writer_holdsI [where x = x and y = "y @ [?b]"]) simp_all
  then have "\<exists>w'. (if staging_is_full (writer_staging ?w) then writer_flush machine address checked ?w else Some (Inr ?w))
      = Some (Inr w') \<and> writer_holds tr mem (text @ [?b]) w' \<and> writer_ready w'"
    using assms(4) by (intro flush_when_full [OF assms(1,2) _ assms(6)]) (simp_all add: writer_ready_def)
  moreover have "unat value < 64" using assms(5) by (simp add: word_less_nat_alt)
  ultimately show ?thesis
    using assms(4) by (simp add: writer_push_value_def staging_push_def writer_ready_def get_Some Let_def)
qed

end
