(* ===== verification/Base64_Lenient.thy ===== *)
theory Base64_Lenient
  imports Base64_Staging Base64_Prepared
begin

text \<open>
  Lenient decoding of the Python bindings, \<open>src/bindings/base64/lenient.rs\<close>: characters outside of
  the alphabet are skipped, and padding follows the rules of CPython, of the versions that go on
  after a complete padding sequence as well as of those that stop there.  The constant parameter
  \<open>WRITE\<close> is \<open>write\<close>; \<open>output\<close> is the memory from the destination on, of which \<open>room\<close>
  (\<open>provided\<close>) bytes may be written; \<open>None\<close> is as everywhere a panic, an access outside of a region or
  a loop that does not end.

  \<open>lenient_spec\<close> reads a text character by character.  The decoder's state is compared with it by the
  invariant \<open>job_holds\<close>: which values have been read, which of their bytes are written, and which bits
  and how much padding the open quantum holds.  Each path of a turn (skipping, the prefix kernel,
  staged runs, quartets, single characters) keeps it and reads further or ends as the
  specification does; the loop then ends by the input that is left.  Snapshots of inputs that
  other threads may change, and the release of the interpreter lock, are left out.
\<close>

section \<open>Tables and lengths\<close>

datatype lenient_decode_error = LenientInvalidInput | LenientOutputTooSmall

definition STANDARD_LENIENT_TABLE :: bytes where
  "STANDARD_LENIENT_TABLE =
     fold (\<lambda>value table. table[unat (STANDARD_ALPHABET ! value) := of_nat value]) [0..<64] (replicate 256 64)"

definition MIXED_LENIENT_TABLE :: bytes where
  "MIXED_LENIENT_TABLE =
     (STANDARD_LENIENT_TABLE[unat (ascii CHR ''-'') := 62])[unat (ascii CHR ''_'') := 63]"

definition lenient_decode_table :: "altchars \<Rightarrow> bytes" where
  "lenient_decode_table altchars =
     (case altchars of
        None \<Rightarrow> STANDARD_LENIENT_TABLE
      | Some (alt_plus, alt_slash) \<Rightarrow> (STANDARD_LENIENT_TABLE[unat alt_plus := 62])[unat alt_slash := 63])"

text \<open>The table that \<open>with_lenient_table\<close> of \<open>policy.rs\<close> passes; its prepared copy is the same table.\<close>

definition lenient_table_for :: "altchars \<Rightarrow> bytes" where
  "lenient_table_for altchars =
     (if altchars = None then STANDARD_LENIENT_TABLE
      else if altchars = Some (ascii CHR ''-'', ascii CHR ''_'') then MIXED_LENIENT_TABLE
      else lenient_decode_table altchars)"

definition decoded_symbol_len :: "nat \<Rightarrow> nat" where
  "decoded_symbol_len nsymbols =
     nsymbols div 4 * 3 + (if nsymbols mod 4 = 2 then 1 else if nsymbols mod 4 = 3 then 2 else 0)"

definition ends_with :: "bytes \<Rightarrow> bytes \<Rightarrow> bool" where
  "ends_with input suffix \<longleftrightarrow>
     length suffix \<le> length input \<and> drop (length input - length suffix) input = suffix"

definition decoded_len_upper_bound :: "bytes \<Rightarrow> bytes \<Rightarrow> nat" where
  "decoded_len_upper_bound input table =
     (let trailing_padding =
        (if 64 \<le> table ! unat (ascii CHR ''='')
         then of_bool (ends_with input [ascii CHR ''='']) + of_bool (ends_with input [ascii CHR ''='', ascii CHR ''=''])
         else 0)
      in decoded_symbol_len (length input - trailing_padding))"

text \<open>The check at the end of the input.\<close>

definition lenient_incomplete :: "bool \<Rightarrow> nat \<Rightarrow> nat \<Rightarrow> bool" where
  "lenient_incomplete padded quad_pos pads \<longleftrightarrow> quad_pos = 1 \<or> padded \<and> quad_pos \<noteq> 0 \<and> quad_pos + pads < 4"

section \<open>The exact length\<close>

text \<open>The loop of the versions that stop: \<open>Inl\<close> is the early return.\<close>

partial_function (option) lenient_count_loop ::
  "(bytes \<Rightarrow> altchars \<Rightarrow> nat option) \<Rightarrow> bytes \<Rightarrow> altchars \<Rightarrow> bool \<Rightarrow> nat \<Rightarrow> nat \<Rightarrow> nat \<Rightarrow> (nat + nat \<times> nat) option" where
  "lenient_count_loop symbol_prefix input altchars padded source nsymbols pads =
     (if source < length input then do {
        run \<leftarrow> symbol_prefix (drop source input) altchars;
        (if run \<noteq> 0 then lenient_count_loop symbol_prefix input altchars padded (source + run) (nsymbols + run) 0
         else do {
           byte \<leftarrow> get input source;
           let source = source + 1;
           (if padded \<and> byte = ascii CHR ''='' \<and> \<not> is_lenient_symbol (ascii CHR ''='') altchars then
              let pads = pads + 1; quad_pos = nsymbols mod 4 in
              (if 2 \<le> quad_pos \<and> 4 \<le> quad_pos + pads then Some (Inl (decoded_symbol_len nsymbols))
               else lenient_count_loop symbol_prefix input altchars padded source nsymbols pads)
            else lenient_count_loop symbol_prefix input altchars padded source nsymbols pads) }) }
      else Some (Inr (nsymbols, pads)))"

definition lenient_decoded_len ::
  "machine \<Rightarrow> scan_features \<Rightarrow> bytes \<Rightarrow> altchars \<Rightarrow> bool \<Rightarrow> bool \<Rightarrow> (lenient_decode_error + nat) option" where
  "lenient_decoded_len machine scan input altchars padded continue_after_padding =
     (if continue_after_padding then do {
        nsymbols \<leftarrow> lenient_symbol_count machine scan input altchars;
        let quad_pos = nsymbols mod 4;
        let pads =
          (if padded \<and> \<not> is_lenient_symbol (ascii CHR ''='') altchars \<and> quad_pos \<noteq> 0
           then length (filter (\<lambda>byte. byte = ascii CHR ''='')
             (takeWhile (\<lambda>byte. \<not> is_lenient_symbol byte altchars) (rev input)))
           else 0);
        Some (if lenient_incomplete padded quad_pos pads then Inl LenientInvalidInput
              else Inr (decoded_symbol_len nsymbols)) }
      else do {
        r \<leftarrow> lenient_count_loop (kernels_symbol_prefix (decode_byte_kernels_of machine scan)) input altchars padded 0 0 0;
        Some (case r of
            Inl n \<Rightarrow> Inr n
          | Inr (nsymbols, pads) \<Rightarrow>
              if lenient_incomplete padded (nsymbols mod 4) pads then Inl LenientInvalidInput
              else Inr (decoded_symbol_len nsymbols)) })"

section \<open>The decoder\<close>

record lenient_state =
  ls_source :: nat
  ls_written :: nat
  ls_quad_pos :: nat
  ls_leftchar :: u8
  ls_pads :: nat
  ls_output :: bytes

datatype lenient_flow =
    Continue lenient_state
  | Break lenient_state
  | Return "lenient_decode_error \<times> bytes + nat \<times> bytes"

definition fast_alphabet :: "altchars \<Rightarrow> decode_alphabet option" where
  "fast_alphabet altchars =
     (case altchars of
        None \<Rightarrow> Some Standard
      | Some a \<Rightarrow> if a = (ascii CHR ''-'', ascii CHR ''_'') then Some Mixed else None)"

text \<open>The inner loop that skips what cannot start a quantum; it holds the input that is left.\<close>

fun lenient_skip :: "bytes \<Rightarrow> bool \<Rightarrow> bytes \<Rightarrow> nat \<Rightarrow> nat \<Rightarrow> nat \<times> nat" where
  "lenient_skip table padded (byte # rest) source pads =
     (if 64 \<le> table ! unat byte
      then lenient_skip table padded rest (source + 1) (if padded \<and> byte = ascii CHR ''='' then pads + 1 else pads)
      else (source, pads))"
| "lenient_skip table padded [] source pads = (source, pads)"

text \<open>The kernel for a valid prefix, and whether there is one.\<close>

definition lenient_prefix ::
  "machine \<Rightarrow> nat \<Rightarrow> bool \<Rightarrow> bytes \<Rightarrow> nat \<Rightarrow> altchars \<Rightarrow> lenient_state \<Rightarrow> (bool \<times> lenient_state) option" where
  "lenient_prefix machine address write input room altchars s =
     (case fast_alphabet altchars of
        Some alphabet \<Rightarrow>
          if write \<and> ls_quad_pos s = 0 then do {
            let input_capacity = (room - ls_written s) div 12 * 16;
            let candidate_len = min (length input - ls_source s) input_capacity;
            candidate \<leftarrow> slice input (ls_source s) candidate_len;
            guard (ls_written s \<le> length (ls_output s));
            (r, output) \<leftarrow> decode_valid_prefix_with_runtime_backend machine (address + ls_written s) alphabet
              candidate (drop (ls_written s) (ls_output s));
            let output = take (ls_written s) (ls_output s) @ output;
            (case r of
               None \<Rightarrow> Some (False, s\<lparr>ls_output := output\<rparr>)
             | Some (consumed, decoded_len) \<Rightarrow>
                 if consumed \<noteq> 0 then do {
                   guard (decoded_len = consumed div 4 * 3);
                   Some (True, s\<lparr>ls_source := ls_source s + consumed, ls_written := ls_written s + decoded_len,
                     ls_pads := 0, ls_output := output\<rparr>) }
                 else Some (True, s\<lparr>ls_output := output\<rparr>)) }
          else Some (False, s)
      | None \<Rightarrow> Some (False, s))"

text \<open>The bytes of a long run of symbols.\<close>

definition lenient_run_bytes ::
  "machine \<Rightarrow> scan_features \<Rightarrow> nat \<Rightarrow> bytes \<Rightarrow> altchars \<Rightarrow> bytes \<Rightarrow> bytes \<Rightarrow> bytes option" where
  "lenient_run_bytes machine scan address table altchars run_symbols output =
     (case fast_alphabet altchars of
        Some alphabet \<Rightarrow>
          (case decode_unpadded_layout run_symbols of
             Inl _ \<Rightarrow> None
           | Inr layout \<Rightarrow> do {
               r \<leftarrow> decode_to_ptr_with_unpadded_layout machine address run_symbols output layout alphabet;
               (case r of Inl _ \<Rightarrow> None | Inr output \<Rightarrow> Some output) })
      | None \<Rightarrow> do {
          let translation = translation_new table altchars (kernels_translate (decode_byte_kernels_of machine scan));
          r \<leftarrow> and_then (writer_push_symbols machine address False run_symbols (staging_writer_new output translation))
                 (writer_finish machine address False);
          (case r of
             Inl _ \<Rightarrow> None
           | Inr (staged, output) \<Rightarrow> do { guard (staged = length run_symbols div 4 * 3); Some output }) })"

text \<open>A run of at least sixteen symbols; \<open>None\<close> inside is a shorter run.\<close>

definition lenient_run ::
  "machine \<Rightarrow> scan_features \<Rightarrow> nat \<Rightarrow> bool \<Rightarrow> bytes \<Rightarrow> nat \<Rightarrow> bytes \<Rightarrow> altchars \<Rightarrow> lenient_state
    \<Rightarrow> lenient_flow option option" where
  "lenient_run machine scan address write input room table altchars s =
     do {
       run \<leftarrow> kernels_symbol_prefix (decode_byte_kernels_of machine scan) (drop (ls_source s) input) altchars;
       let run = run div 4 * 4;
       (if 16 \<le> run then
          let decoded_len = run div 4 * 3 in
          if room - ls_written s < decoded_len then Some (Some (Return (Inl (LenientOutputTooSmall, ls_output s))))
          else do {
            run_symbols \<leftarrow> slice input (ls_source s) run;
            output \<leftarrow> (if write then do {
                guard (ls_written s \<le> length (ls_output s));
                output \<leftarrow> lenient_run_bytes machine scan (address + ls_written s) table altchars run_symbols
                  (drop (ls_written s) (ls_output s));
                Some (take (ls_written s) (ls_output s) @ output) }
              else Some (ls_output s));
            Some (Some (Continue (s\<lparr>ls_source := ls_source s + run, ls_written := ls_written s + decoded_len,
              ls_pads := 0, ls_output := output\<rparr>))) }
        else Some None)
     }"

text \<open>The loop over single quartets, on the input that is left.\<close>

fun lenient_quartets ::
  "bool \<Rightarrow> nat \<Rightarrow> bytes \<Rightarrow> bytes \<Rightarrow> lenient_state \<Rightarrow> (lenient_decode_error \<times> bytes + lenient_state) option" where
  "lenient_quartets write room table (a # b # c # d # rest) s =
     (let first = table ! unat a; second = table ! unat b; third = table ! unat c; fourth = table ! unat d in
      if 64 \<le> first OR second OR third OR fourth then Some (Inr s)
      else if room - ls_written s < 3 then Some (Inl (LenientOutputTooSmall, ls_output s))
      else do {
        let decoded_quartet = [push_bit 2 first OR drop_bit 4 second, push_bit 4 second OR drop_bit 2 third,
          push_bit 6 third OR fourth];
        output \<leftarrow> (if write then store (ls_output s) (ls_written s) decoded_quartet else Some (ls_output s));
        lenient_quartets write room table rest
          (s\<lparr>ls_written := ls_written s + 3, ls_source := ls_source s + 4, ls_output := output\<rparr>) })"
| "lenient_quartets write room table _ s = Some (Inr s)"

text \<open>The value of one symbol, by the position in its quantum.\<close>

definition lenient_emit ::
  "bool \<Rightarrow> nat \<Rightarrow> u8 \<Rightarrow> nat \<Rightarrow> u8 \<Rightarrow> lenient_state \<Rightarrow> lenient_flow option" where
  "lenient_emit write room byte quad_pos leftchar s =
     (if ls_written s = room then Some (Return (Inl (LenientOutputTooSmall, ls_output s)))
      else do {
        output \<leftarrow> (if write then store (ls_output s) (ls_written s) [byte] else Some (ls_output s));
        Some (Continue (s\<lparr>ls_written := ls_written s + 1, ls_quad_pos := quad_pos, ls_leftchar := leftchar,
          ls_output := output\<rparr>)) })"

definition lenient_value_step :: "bool \<Rightarrow> nat \<Rightarrow> u8 \<Rightarrow> lenient_state \<Rightarrow> lenient_flow option" where
  "lenient_value_step write room value s =
     (let leftchar = ls_leftchar s in
      if ls_quad_pos s = 0 then Some (Continue (s\<lparr>ls_quad_pos := 1, ls_leftchar := value\<rparr>))
      else if ls_quad_pos s = 1 then
        lenient_emit write room (push_bit 2 leftchar OR drop_bit 4 value) 2 (value AND 0x0f) s
      else if ls_quad_pos s = 2 then
        lenient_emit write room (push_bit 4 leftchar OR drop_bit 2 value) 3 (value AND 0x03) s
      else if ls_quad_pos s = 3 then lenient_emit write room (push_bit 6 leftchar OR value) 0 0 s
      else None)"

definition lenient_byte_step ::
  "bool \<Rightarrow> bytes \<Rightarrow> nat \<Rightarrow> bytes \<Rightarrow> bool \<Rightarrow> bool \<Rightarrow> lenient_state \<Rightarrow> lenient_flow option" where
  "lenient_byte_step write input room table padded continue_after_padding s =
     do {
       byte \<leftarrow> get input (ls_source s);
       let s = s\<lparr>ls_source := ls_source s + 1\<rparr>;
       let value = table ! unat byte;
       (if padded \<and> byte = ascii CHR ''='' \<and> 64 \<le> table ! unat (ascii CHR ''='') then
          let s = s\<lparr>ls_pads := ls_pads s + 1\<rparr> in
          if \<not> continue_after_padding \<and> 2 \<le> ls_quad_pos s \<and> 4 \<le> ls_quad_pos s + ls_pads s
          then Some (Return (Inr (ls_written s, ls_output s)))
          else Some (Continue s)
        else if 64 \<le> value then Some (Continue s)
        else lenient_value_step write room value (s\<lparr>ls_pads := 0\<rparr>))
     }"

text \<open>One turn of the outer loop.\<close>

definition lenient_turn ::
  "machine \<Rightarrow> scan_features \<Rightarrow> nat \<Rightarrow> bool \<Rightarrow> bytes \<Rightarrow> nat \<Rightarrow> bytes \<Rightarrow> altchars \<Rightarrow> bool \<Rightarrow> bool \<Rightarrow> lenient_state
    \<Rightarrow> lenient_flow option" where
  "lenient_turn machine scan address write input room table altchars padded continue_after_padding s =
     (let s = (if ls_quad_pos s = 0 then
          let (source, pads) = lenient_skip table padded (drop (ls_source s) input) (ls_source s) (ls_pads s)
          in s\<lparr>ls_source := source, ls_pads := pads\<rparr> else s)
      in if ls_quad_pos s = 0 \<and> ls_source s = length input then Some (Break s)
      else do {
        (prefix_kernel_available, s) \<leftarrow> lenient_prefix machine address write input room altchars s;
        long \<leftarrow> (if \<not> prefix_kernel_available \<and> ls_quad_pos s = 0
          then lenient_run machine scan address write input room table altchars s else Some None);
        (case long of
           Some flow \<Rightarrow> Some flow
         | None \<Rightarrow> do {
             r \<leftarrow> (if ls_quad_pos s = 0 then lenient_quartets write room table (drop (ls_source s) input) s
               else Some (Inr s));
             (case r of
                Inl e \<Rightarrow> Some (Return (Inl e))
              | Inr s \<Rightarrow>
                  if ls_source s = length input then Some (Break s)
                  else lenient_byte_step write input room table padded continue_after_padding s) }) })"

partial_function (option) lenient_loop ::
  "(lenient_state \<Rightarrow> lenient_flow option) \<Rightarrow> nat \<Rightarrow> lenient_state
    \<Rightarrow> (lenient_decode_error \<times> bytes + nat \<times> bytes + lenient_state) option" where
  "lenient_loop turn len s =
     (if ls_source s < len then do {
        flow \<leftarrow> turn s;
        (case flow of
           Continue s \<Rightarrow> lenient_loop turn len s
         | Break s \<Rightarrow> Some (Inr (Inr s))
         | Return (Inl e) \<Rightarrow> Some (Inl e)
         | Return (Inr r) \<Rightarrow> Some (Inr (Inl r))) }
      else Some (Inr (Inr s)))"

definition decode_lenient_to_ptr ::
  "machine \<Rightarrow> scan_features \<Rightarrow> nat \<Rightarrow> bool \<Rightarrow> bytes \<Rightarrow> bytes \<Rightarrow> nat \<Rightarrow> bytes \<Rightarrow> altchars \<Rightarrow> bool \<Rightarrow> bool
    \<Rightarrow> (lenient_decode_error \<times> bytes + nat \<times> bytes) option" where
  "decode_lenient_to_ptr machine scan address write input output room table altchars padded
     continue_after_padding =
     do {
       r \<leftarrow> lenient_loop (lenient_turn machine scan address write input room table altchars padded
           continue_after_padding) (length input)
         \<lparr>ls_source = 0, ls_written = 0, ls_quad_pos = 0, ls_leftchar = 0, ls_pads = 0, ls_output = output\<rparr>;
       Some (case r of
           Inl e \<Rightarrow> Inl e
         | Inr (Inl result) \<Rightarrow> Inr result
         | Inr (Inr s) \<Rightarrow>
             if lenient_incomplete padded (ls_quad_pos s) (ls_pads s) then Inl (LenientInvalidInput, ls_output s)
             else Inr (ls_written s, ls_output s))
     }"

definition decode_lenient_slice_into ::
  "machine \<Rightarrow> scan_features \<Rightarrow> nat \<Rightarrow> bytes \<Rightarrow> bytes \<Rightarrow> nat \<Rightarrow> bytes \<Rightarrow> altchars \<Rightarrow> bool \<Rightarrow> bool
    \<Rightarrow> (base64_error \<times> bytes + nat \<times> bytes) option" where
  "decode_lenient_slice_into machine scan address input output room table altchars padded
     continue_after_padding =
     (let decode = do {
          r \<leftarrow> decode_lenient_to_ptr machine scan address True input output room table altchars padded
            continue_after_padding;
          Some (case r of Inl (_, output) \<Rightarrow> Inl (InvalidInput, output) | Inr result \<Rightarrow> Inr result) };
          maximum = decoded_len_upper_bound input table
      in if room < maximum then do {
           r \<leftarrow> lenient_decoded_len machine scan input altchars padded continue_after_padding;
           (case r of
              Inr needed \<Rightarrow>
                if room < needed then Some (Inl (OutputTooSmall needed room, output)) else decode
            | Inl _ \<Rightarrow> Some (Inl (InvalidInput, output))) }
         else decode)"

section \<open>The specification\<close>

text \<open>
  The value of a character: the two alternative characters, of which the second wins, come on top of
  the standard alphabet.  A text is read character by character: a symbol adds its value and resets
  the padding, padding is counted, anything else is skipped.  Where decoding does not go on after
  padding, a complete padding sequence ends the text.
\<close>

definition lenient_value :: "altchars \<Rightarrow> u8 \<Rightarrow> u8 option" where
  "lenient_value altchars b =
     (case altchars of
        None \<Rightarrow> symbol_value Standard b
      | Some (alt_plus, alt_slash) \<Rightarrow>
          if b = alt_slash then Some 63 else if b = alt_plus then Some 62 else symbol_value Standard b)"

fun lenient_absorb :: "altchars \<Rightarrow> bool \<Rightarrow> bool \<Rightarrow> bytes \<Rightarrow> bytes \<Rightarrow> nat \<Rightarrow> bytes \<times> nat" where
  "lenient_absorb altchars padded continues [] vals pads = (vals, pads)"
| "lenient_absorb altchars padded continues (b # rest) vals pads =
     (case lenient_value altchars b of
        Some v \<Rightarrow> lenient_absorb altchars padded continues rest (vals @ [v]) 0
      | None \<Rightarrow>
          if padded \<and> b = ascii CHR ''='' then
            (if \<not> continues \<and> 2 \<le> length vals mod 4 \<and> 4 \<le> length vals mod 4 + (pads + 1)
             then (vals, pads + 1) else lenient_absorb altchars padded continues rest vals (pads + 1))
          else lenient_absorb altchars padded continues rest vals pads)"

definition lenient_spec :: "altchars \<Rightarrow> bool \<Rightarrow> bool \<Rightarrow> bytes \<Rightarrow> bytes option" where
  "lenient_spec altchars padded continues input =
     (let (vals, pads) = lenient_absorb altchars padded continues input [] 0
      in if length vals mod 4 = 1 \<or> padded \<and> length vals mod 4 \<noteq> 0 \<and> length vals mod 4 + pads < 4 then None
         else Some (octets vals))"

section \<open>The tables hold the values\<close>

lemma STANDARD_LENIENT_TABLE_entries: "STANDARD_LENIENT_TABLE = map (\<lambda>v. if v = 255 then 64 else v) STANDARD_DECODE"
  unfolding STANDARD_LENIENT_TABLE_def STANDARD_ALPHABET_bytes by code_simp

lemma MIXED_DECODE_entries: "MIXED_DECODE = (STANDARD_DECODE[45 := 62])[95 := 63]"
  by code_simp

lemma lenient_table_for_eq: "lenient_table_for altchars = lenient_decode_table altchars"
  by (auto simp: lenient_table_for_def lenient_decode_table_def MIXED_LENIENT_TABLE_def split: option.splits)

lemma length_STANDARD_LENIENT_TABLE [simp]: "length STANDARD_LENIENT_TABLE = 256"
  by (simp add: STANDARD_LENIENT_TABLE_entries STANDARD_DECODE_def)

lemma unat_byte_less [simp]: "unat (b :: u8) < 256"
  using unsigned_less [of b] by simp

lemma standard_entry: "STANDARD_LENIENT_TABLE ! unat b = (case symbol_value Standard b of Some v \<Rightarrow> v | None \<Rightarrow> 64)"
proof -
  have "STANDARD_LENIENT_TABLE ! unat b = (if STANDARD_DECODE ! unat b = 255 then 64 else STANDARD_DECODE ! unat b)"
    by (simp add: STANDARD_LENIENT_TABLE_entries STANDARD_DECODE_def)
  then show ?thesis
    using symbol_value_less [of Standard b] table_value [of Standard b]
    by (auto simp: INVALID_VALUE_byte split: option.splits)
qed

lemma lenient_entry: "lenient_decode_table altchars ! unat b = (case lenient_value altchars b of Some v \<Rightarrow> v | None \<Rightarrow> 64)"
proof -
  have u: "unat c = unat b \<longleftrightarrow> b = c" for c :: u8 using word_unat_eq_iff [of b c] by metis
  show ?thesis
  proof (cases altchars)
    case None
    then show ?thesis by (simp add: lenient_decode_table_def lenient_value_def standard_entry)
  next
    case (Some a)
    obtain p q where a: "altchars = Some (p, q)" using Some by (cases a) simp
    have "lenient_decode_table altchars ! unat b = (if b = q then 63 else if b = p then 62 else STANDARD_LENIENT_TABLE ! unat b)"
      using u [of p] u [of q] by (simp add: a lenient_decode_table_def nth_list_update)
    then show ?thesis by (simp add: a lenient_value_def standard_entry)
  qed
qed

lemma lenient_value_less: "lenient_value altchars b = Some v \<Longrightarrow> v < 64"
  by (auto simp: lenient_value_def dest: symbol_value_less split: option.splits if_splits)

lemma lenient_entry_symbol: "64 \<le> lenient_decode_table altchars ! unat b \<longleftrightarrow> lenient_value altchars b = None"
  using lenient_value_less [of altchars b] by (auto simp: lenient_entry not_le [symmetric] split: option.splits)

lemma is_lenient_symbol_value: "is_lenient_symbol b altchars \<longleftrightarrow> lenient_value altchars b \<noteq> None"
  using lenient_without_altchars [of b]
  by (auto simp: is_lenient_symbol_def lenient_value_def split: option.splits)

lemma fast_alphabet_value:
  assumes "fast_alphabet altchars = Some a"
  shows "symbol_value a b = lenient_value altchars b"
proof (cases altchars)
  case None
  then show ?thesis using assms by (simp add: fast_alphabet_def lenient_value_def)
next
  case (Some c)
  then have c: "altchars = Some (45, 95)" "a = Mixed" using assms by (auto simp: fast_alphabet_def split: if_splits)
  have t: "symbol_value a b = (if table_of a ! unat b = 255 then None else Some (table_of a ! unat b))" for a
    using symbol_value_less [of a b] table_value [of a b] by (auto simp: INVALID_VALUE_byte split: option.splits)
  have u: "unat b = unat (95 :: u8) \<longleftrightarrow> b = 95" "unat b = unat (45 :: u8) \<longleftrightarrow> b = 45"
    by (rule word_unat_eq_iff [symmetric])+
  have "MIXED_DECODE ! unat b = (if b = 95 then 63 else if b = 45 then 62 else STANDARD_DECODE ! unat b)"
    using u by (auto simp: MIXED_DECODE_entries nth_list_update STANDARD_DECODE_def)
  then show ?thesis
    unfolding c(2) t [of Mixed] table_of.simps by (auto simp: c(1) lenient_value_def t [of Standard])
qed

section \<open>Reading a text\<close>

definition lenient_values :: "altchars \<Rightarrow> bytes \<Rightarrow> bytes" where
  "lenient_values altchars x = map (\<lambda>b. the (lenient_value altchars b)) x"

definition lenient_symbols :: "altchars \<Rightarrow> bytes \<Rightarrow> bool" where
  "lenient_symbols altchars x = list_all (\<lambda>b. lenient_value altchars b \<noteq> None) x"

lemma lenient_values_simps [simp]:
  "lenient_values altchars [] = []"
  "lenient_values altchars (b # x) = the (lenient_value altchars b) # lenient_values altchars x"
  "lenient_values altchars (x @ y) = lenient_values altchars x @ lenient_values altchars y"
  "length (lenient_values altchars x) = length x"
  by (simp_all add: lenient_values_def)

lemma lenient_symbols_simps [simp]:
  "lenient_symbols altchars []"
  "lenient_symbols altchars (b # x) \<longleftrightarrow> lenient_value altchars b \<noteq> None \<and> lenient_symbols altchars x"
  by (simp_all add: lenient_symbols_def)

lemma lenient_absorb_symbols:
  "lenient_symbols altchars x \<Longrightarrow> lenient_absorb altchars padded continues (x @ y) vals pads
    = lenient_absorb altchars padded continues y (vals @ lenient_values altchars x) (if x = [] then pads else 0)"
  by (induction x arbitrary: vals pads) auto

text \<open>Values are only added, and only for symbols.\<close>

lemma lenient_absorb_extends:
  "\<exists>z. fst (lenient_absorb altchars padded continues rest vals pads) = vals @ z
    \<and> length z \<le> length (filter (\<lambda>b. lenient_value altchars b \<noteq> None) rest)"
proof (induction rest arbitrary: vals pads)
  case (Cons b rest)
  show ?case
  proof (cases "lenient_value altchars b")
    case None
    then show ?thesis using Cons.IH [of vals pads] Cons.IH [of vals "pads + 1"] by auto
  next
    case (Some v)
    obtain z where "fst (lenient_absorb altchars padded continues rest (vals @ [v]) 0) = (vals @ [v]) @ z"
      "length z \<le> length (filter (\<lambda>b. lenient_value altchars b \<noteq> None) rest)"
      using Cons.IH by blast
    then show ?thesis by (intro exI [of _ "v # z"]) (simp add: Some)
  qed
qed simp

text \<open>Between quanta padding is skipped like anything else, whatever the count.\<close>

lemma lenient_skip_absorb:
  assumes "4 dvd length vals"
  shows "\<exists>k p. lenient_skip (lenient_decode_table altchars) padded rest source pads = (source + k, p) \<and> k \<le> length rest
    \<and> (k < length rest \<longrightarrow> lenient_value altchars (rest ! k) \<noteq> None)
    \<and> (\<forall>q. \<exists>q'. lenient_absorb altchars padded continues rest vals q
        = lenient_absorb altchars padded continues (drop k rest) vals q')"
proof (induction rest arbitrary: source pads)
  case (Cons b rest)
  have q0: "length vals mod 4 = 0" using assms by simp
  show ?case
  proof (cases "lenient_value altchars b")
    case None
    obtain k p where k: "lenient_skip (lenient_decode_table altchars) padded rest (source + 1)
        (if padded \<and> b = ascii CHR ''='' then pads + 1 else pads) = (source + 1 + k, p)" "k \<le> length rest"
      "k < length rest \<longrightarrow> lenient_value altchars (rest ! k) \<noteq> None"
      "\<forall>q. \<exists>q'. lenient_absorb altchars padded continues rest vals q
        = lenient_absorb altchars padded continues (drop k rest) vals q'"
      using Cons.IH by blast
    have "\<exists>q'. lenient_absorb altchars padded continues (b # rest) vals q
        = lenient_absorb altchars padded continues (drop k rest) vals q'" for q
      using k(4) [rule_format, of q] k(4) [rule_format, of "q + 1"] None q0 by auto
    with k None show ?thesis
      by (intro exI [of _ "Suc k"] exI [of _ p]) (auto simp: lenient_entry_symbol)
  next
    case (Some v)
    then show ?thesis
      by (intro exI [of _ 0] exI [of _ pads]) (auto simp: lenient_entry_symbol)
  qed
qed simp

section \<open>The state of the decoder\<close>

text \<open>The bits of an open quantum that no written byte holds yet.\<close>

fun partial_bits :: "bytes \<Rightarrow> u8" where
  "partial_bits [a] = a"
| "partial_bits [a, b] = b AND 0x0f"
| "partial_bits [a, b, c] = c AND 0x03"
| "partial_bits _ = 0"

record lenient_job =
  job_input :: bytes
  job_altchars :: altchars
  job_padded :: bool
  job_continues :: bool
  job_write :: bool
  job_room :: nat
  job_memory :: bytes

abbreviation job_absorb :: "lenient_job \<Rightarrow> bytes \<Rightarrow> bytes \<Rightarrow> nat \<Rightarrow> bytes \<times> nat" where
  "job_absorb J \<equiv> lenient_absorb (job_altchars J) (job_padded J) (job_continues J)"

definition job_total :: "lenient_job \<Rightarrow> bytes \<times> nat" where
  "job_total J = job_absorb J (job_input J) [] 0"

definition job_written :: "lenient_job \<Rightarrow> bytes \<Rightarrow> bytes" where
  "job_written J vals =
     (if job_write J then octets vals @ drop (length (octets vals)) (job_memory J) else job_memory J)"

text \<open>
  The decoder has read some of the input: whole quanta \<open>x\<close> and an open one \<open>y\<close>, whose padding it has
  counted.  Between quanta its count of padding means nothing.
\<close>

definition job_holds_at :: "lenient_job \<Rightarrow> bytes \<Rightarrow> bytes \<Rightarrow> nat \<Rightarrow> lenient_state \<Rightarrow> bool" where
  "job_holds_at J x y p s \<longleftrightarrow>
     ls_source s \<le> length (job_input J)
     \<and> job_total J = job_absorb J (drop (ls_source s) (job_input J)) (x @ y) p
     \<and> 4 dvd length x \<and> length y = ls_quad_pos s \<and> ls_quad_pos s < 4
     \<and> (y \<noteq> [] \<longrightarrow> ls_pads s = p \<and> ls_leftchar s = partial_bits y)
     \<and> ls_written s = length (octets (x @ y)) \<and> ls_written s \<le> job_room J
     \<and> ls_output s = job_written J (x @ y)"

definition job_holds :: "lenient_job \<Rightarrow> lenient_state \<Rightarrow> bool" where
  "job_holds J s \<longleftrightarrow> (\<exists>x y p. job_holds_at J x y p s)"

definition job_complete :: "lenient_job \<Rightarrow> nat \<times> bytes \<Rightarrow> bool" where
  "job_complete J r \<longleftrightarrow> (let (vals, pads) = job_total J in
     \<not> lenient_incomplete (job_padded J) (length vals mod 4) pads
     \<and> length (octets vals) \<le> job_room J \<and> r = (length (octets vals), job_written J vals))"

definition job_untouched :: "lenient_job \<Rightarrow> bytes \<Rightarrow> bool" where
  "job_untouched J output \<longleftrightarrow> length output = length (job_memory J)
     \<and> drop (job_room J) output = drop (job_room J) (job_memory J)"

definition job_overflows :: "lenient_job \<Rightarrow> lenient_decode_error \<times> bytes \<Rightarrow> bool" where
  "job_overflows J e \<longleftrightarrow> fst e = LenientOutputTooSmall
     \<and> job_room J < length (octets (fst (job_total J))) \<and> job_untouched J (snd e)"

definition job_valid :: "lenient_job \<Rightarrow> bool" where
  "job_valid J \<longleftrightarrow> job_room J \<le> length (job_memory J) \<and> length (job_input J) \<le> ISIZE_MAX"

fun flow_ok :: "lenient_job \<Rightarrow> lenient_state \<Rightarrow> lenient_flow \<Rightarrow> bool" where
  "flow_ok J s (Continue s') \<longleftrightarrow> job_holds J s' \<and> ls_source s < ls_source s'"
| "flow_ok J s (Break s') \<longleftrightarrow> job_holds J s' \<and> ls_source s' = length (job_input J)"
| "flow_ok J s (Return (Inl e)) \<longleftrightarrow> job_overflows J e"
| "flow_ok J s (Return (Inr r)) \<longleftrightarrow> job_complete J r"

lemma job_holds_start:
  "job_holds J \<lparr>ls_source = 0, ls_written = 0, ls_quad_pos = 0, ls_leftchar = 0, ls_pads = 0, ls_output = job_memory J\<rparr>"
  unfolding job_holds_def
  by (intro exI [of _ "[]"] exI [of _ 0]) (simp add: job_holds_at_def job_total_def job_written_def)

lemma job_written_untouched:
  assumes "job_valid J" "length (octets vals) \<le> job_room J"
  shows "job_untouched J (job_written J vals)"
  using assms by (simp add: job_untouched_def job_written_def job_valid_def)

lemma job_holds_untouched: "job_valid J \<Longrightarrow> job_holds J s \<Longrightarrow> job_untouched J (ls_output s)"
  by (auto simp: job_holds_def job_holds_at_def intro: job_written_untouched)

lemma job_room_fits:
  assumes "job_valid J" "job_holds J s" "n \<le> job_room J - ls_written s"
  shows "ls_written s + n \<le> length (ls_output s)"
proof -
  have "ls_written s \<le> job_room J" using assms(2) by (auto simp: job_holds_def job_holds_at_def)
  moreover have "length (ls_output s) = length (job_memory J)" "job_room J \<le> length (job_memory J)"
    using assms(1) job_holds_untouched [OF assms(1,2)] by (simp_all add: job_untouched_def job_valid_def)
  ultimately show ?thesis using assms(3) by linarith
qed

text \<open>What has been read needs more room than there is.\<close>

lemma job_overflowsI:
  assumes "job_valid J" "job_holds J s"
    and "job_total J = job_absorb J rest vals p" "job_room J < length (octets vals)"
  shows "job_overflows J (LenientOutputTooSmall, ls_output s)"
proof -
  obtain z where "fst (job_total J) = vals @ z" using lenient_absorb_extends assms(3) by metis
  then have "length (octets vals) \<le> length (octets (fst (job_total J)))"
    by (simp add: length_octets div_le_mono)
  then show ?thesis using assms by (simp add: job_overflows_def job_holds_untouched)
qed

section \<open>Between quanta\<close>

lemma job_holds_between:
  assumes "job_holds J s" "ls_quad_pos s = 0"
  obtains x p where "4 dvd length x" "job_total J = job_absorb J (drop (ls_source s) (job_input J)) x p"
    "ls_source s \<le> length (job_input J)" "ls_written s = length (octets x)" "ls_written s \<le> job_room J"
    "ls_output s = job_written J x"
  using assms by (auto simp: job_holds_def job_holds_at_def)

lemma job_holds_betweenI:
  assumes "4 dvd length x" "job_total J = job_absorb J (drop (ls_source s) (job_input J)) x p"
    "ls_source s \<le> length (job_input J)" "ls_written s = length (octets x)" "ls_written s \<le> job_room J"
    "ls_output s = job_written J x" "ls_quad_pos s = 0"
  shows "job_holds J s"
  unfolding job_holds_def
  by (intro exI [of _ x] exI [of _ "[]"] exI [of _ p]) (use assms in \<open>simp add: job_holds_at_def\<close>)

text \<open>Reading \<open>n\<close> more symbols that are whole quanta: the bytes to write, or no room for them.\<close>

lemma job_read_symbols:
  assumes "ls_source s + n \<le> length (job_input J)"
    and "lenient_symbols (job_altchars J) (take n (drop (ls_source s) (job_input J)))"
  shows "\<exists>q. job_absorb J (drop (ls_source s) (job_input J)) x p
    = job_absorb J (drop (ls_source s + n) (job_input J))
        (x @ lenient_values (job_altchars J) (take n (drop (ls_source s) (job_input J)))) q"
proof -
  have "drop (ls_source s) (job_input J)
      = take n (drop (ls_source s) (job_input J)) @ drop (ls_source s + n) (job_input J)"
    using append_take_drop_id [of n "drop (ls_source s) (job_input J)"] by (simp add: add.commute)
  then show ?thesis using lenient_absorb_symbols [OF assms(2)] by metis
qed

lemma job_consume:
  assumes "job_holds J s" "ls_quad_pos s = 0" "job_valid J"
    and "4 dvd n" "ls_source s + n \<le> length (job_input J)"
    and "lenient_symbols (job_altchars J) (take n (drop (ls_source s) (job_input J)))"
    and "n div 4 * 3 \<le> job_room J - ls_written s"
    and "output = (if job_write J then take (ls_written s) (ls_output s)
          @ octets (lenient_values (job_altchars J) (take n (drop (ls_source s) (job_input J))))
          @ drop (n div 4 * 3) (drop (ls_written s) (ls_output s))
        else ls_output s)"
  shows "job_holds J (s\<lparr>ls_source := ls_source s + n, ls_written := ls_written s + n div 4 * 3, ls_pads := pads,
    ls_output := output\<rparr>)"
proof -
  let ?w = "take n (drop (ls_source s) (job_input J))"
  let ?v = "lenient_values (job_altchars J) ?w"
  obtain x p where s: "4 dvd length x" "job_total J = job_absorb J (drop (ls_source s) (job_input J)) x p"
    "ls_source s \<le> length (job_input J)" "ls_written s = length (octets x)" "ls_written s \<le> job_room J"
    "ls_output s = job_written J x"
    using assms(1,2) by (rule job_holds_between)
  obtain q where q: "job_total J = job_absorb J (drop (ls_source s + n) (job_input J)) (x @ ?v) q"
    using job_read_symbols [OF assms(5,6)] s(2) by metis
  have len: "length ?w = n" using assms(5) by simp
  then have v: "length (octets ?v) = n div 4 * 3" using assms(4) by (auto simp: length_octets elim!: dvdE)
  have written: "ls_written s + n div 4 * 3 = length (octets (x @ ?v))" by (simp add: octets_append [OF s(1)] s(4) v)
  moreover have "output = job_written J (x @ ?v)"
    by (simp add: assms(8) s(4,6) job_written_def octets_append [OF s(1)] v add.commute)
  ultimately show ?thesis
    using q s(1,3,5) assms(2,4,5,7) len by (intro job_holds_betweenI [where x = "x @ ?v" and p = q]) simp_all
qed

lemma job_no_room:
  assumes "job_holds J s" "ls_quad_pos s = 0" "job_valid J"
    and "4 dvd n" "ls_source s + n \<le> length (job_input J)"
    and "lenient_symbols (job_altchars J) (take n (drop (ls_source s) (job_input J)))"
    and "job_room J - ls_written s < n div 4 * 3"
  shows "job_overflows J (LenientOutputTooSmall, ls_output s)"
proof -
  let ?v = "lenient_values (job_altchars J) (take n (drop (ls_source s) (job_input J)))"
  obtain x p where s: "4 dvd length x" "job_total J = job_absorb J (drop (ls_source s) (job_input J)) x p"
    "ls_written s = length (octets x)" "ls_written s \<le> job_room J"
    using assms(1,2) by (rule job_holds_between)
  obtain q where q: "job_total J = job_absorb J (drop (ls_source s + n) (job_input J)) (x @ ?v) q"
    using job_read_symbols [OF assms(5,6)] s(2) by metis
  have "length ?v = n" using assms(5) by simp
  then have "length (octets ?v) = n div 4 * 3" using assms(4) by (auto simp: length_octets elim!: dvdE)
  then have "job_room J < length (octets (x @ ?v))" using assms(7) s(3,4) by (simp add: octets_append [OF s(1)])
  then show ?thesis by (rule job_overflowsI [OF assms(3,1) q])
qed

text \<open>Skipping.\<close>

lemma job_skip:
  assumes "job_holds J s" "ls_quad_pos s = 0"
  shows "\<exists>source pads. lenient_skip (lenient_decode_table (job_altchars J)) (job_padded J) (drop (ls_source s) (job_input J))
      (ls_source s) (ls_pads s) = (source, pads)
    \<and> job_holds J (s\<lparr>ls_source := source, ls_pads := pads\<rparr>) \<and> ls_source s \<le> source"
proof -
  obtain x p where s: "4 dvd length x" "job_total J = job_absorb J (drop (ls_source s) (job_input J)) x p"
    "ls_source s \<le> length (job_input J)" "ls_written s = length (octets x)" "ls_written s \<le> job_room J"
    "ls_output s = job_written J x"
    using assms by (rule job_holds_between)
  obtain k pads where k: "lenient_skip (lenient_decode_table (job_altchars J)) (job_padded J) (drop (ls_source s) (job_input J))
      (ls_source s) (ls_pads s) = (ls_source s + k, pads)" "k \<le> length (drop (ls_source s) (job_input J))"
    "\<forall>q. \<exists>q'. job_absorb J (drop (ls_source s) (job_input J)) x q
       = job_absorb J (drop k (drop (ls_source s) (job_input J))) x q'"
    using lenient_skip_absorb [OF s(1)] by blast
  obtain q where "job_total J = job_absorb J (drop (ls_source s + k) (job_input J)) x q"
    using k(3) [rule_format, of p] s(2) by (auto simp: add.commute)
  then have "job_holds J (s\<lparr>ls_source := ls_source s + k, ls_pads := pads\<rparr>)"
    using s k(2) assms(2) by (intro job_holds_betweenI [where x = x and p = q]) simp_all
  with k(1) show ?thesis by auto
qed

section \<open>The steps of a turn\<close>

lemma take_takeWhile: "n \<le> length (takeWhile P xs) \<Longrightarrow> take n xs = take n (takeWhile P xs)"
  by (induction xs arbitrary: n) (auto simp: take_Cons' split: if_splits)

lemma quartet_clear: "64 \<le> a OR b OR c OR d \<longleftrightarrow> 64 \<le> a \<or> 64 \<le> b \<or> 64 \<le> c \<or> 64 \<le> d" for a b c d :: u8
  using sextet_iff_bits [of a] sextet_iff_bits [of b] sextet_iff_bits [of c] sextet_iff_bits [of d]
    sextet_iff_bits [of "a OR b OR c OR d"]
  by (simp add: not_less [symmetric] bit_or_iff) blast

lemma lenient_quartets_short: "length xs < 4 \<Longrightarrow> lenient_quartets w r t xs s = Some (Inr s)"
  by (induction w r t xs s rule: lenient_quartets.induct) simp_all

lemma job_quartets:
  assumes "job_valid J"
  shows "rest = drop (ls_source s) (job_input J) \<Longrightarrow> job_holds J s \<Longrightarrow> ls_quad_pos s = 0 \<Longrightarrow>
    \<exists>r. lenient_quartets (job_write J) (job_room J) (lenient_decode_table (job_altchars J)) rest s = Some r
      \<and> (case r of
           Inl e \<Rightarrow> job_overflows J e
         | Inr s' \<Rightarrow> job_holds J s' \<and> ls_quad_pos s' = 0 \<and> ls_source s \<le> ls_source s')"
proof (induction "length rest" arbitrary: rest s rule: less_induct)
  case less
  let ?t = "lenient_decode_table (job_altchars J)"
  show ?case
  proof (cases "4 \<le> length rest")
    case True
    then obtain a b c d tail where abcd: "rest = a # b # c # d # tail"
      by (auto simp: Suc_le_length_iff numeral_eq_Suc)
    have fits: "ls_source s + 4 \<le> length (job_input J)"
      using True unfolding less.prems(1) by simp
    have quad: "take 4 (drop (ls_source s) (job_input J)) = [a, b, c, d]" by (simp add: abcd flip: less.prems(1))
    have tail: "tail = drop (ls_source s + 4) (job_input J)"
      using arg_cong [OF less.prems(1), of "drop 4"] by (simp add: add.commute abcd)
    show ?thesis
    proof (cases "64 \<le> ?t ! unat a OR ?t ! unat b OR ?t ! unat c OR ?t ! unat d")
      case True
      then show ?thesis using less.prems(2,3) by (simp add: abcd)
    next
      case valid: False
      then have sym: "lenient_symbols (job_altchars J) (take 4 (drop (ls_source s) (job_input J)))"
        by (simp add: quad quartet_clear lenient_entry_symbol)
      show ?thesis
      proof (cases "job_room J - ls_written s < 3")
        case True
        then show ?thesis using valid job_no_room [OF less.prems(2,3) assms _ fits sym] by (simp add: abcd)
      next
        case room: False
        have w: "ls_written s + 3 \<le> length (ls_output s)"
          using room by (intro job_room_fits [OF assms less.prems(2)]) simp
        define quartet where "quartet = [push_bit 2 (?t ! unat a) OR drop_bit 4 (?t ! unat b),
          push_bit 4 (?t ! unat b) OR drop_bit 2 (?t ! unat c), push_bit 6 (?t ! unat c) OR ?t ! unat d]"
        have vals: "octets (lenient_values (job_altchars J) (take 4 (drop (ls_source s) (job_input J)))) = quartet"
          using sym unfolding quad by (auto simp: quartet_def lenient_entry)
        define after where "after = (if job_write J then take (ls_written s) (ls_output s)
            @ quartet @ drop 3 (drop (ls_written s) (ls_output s)) else ls_output s)"
        have st: "store (ls_output s) (ls_written s) quartet = Some (take (ls_written s) (ls_output s)
            @ quartet @ drop 3 (drop (ls_written s) (ls_output s)))"
          using w by (simp add: store_Some quartet_def numeral_eq_Suc)
        define s' where "s' = s\<lparr>ls_written := ls_written s + 3, ls_source := ls_source s + 4, ls_output := after\<rparr>"
        have s': "s' = s\<lparr>ls_source := ls_source s + 4, ls_written := ls_written s + 4 div 4 * 3, ls_pads := ls_pads s,
            ls_output := after\<rparr>"
          by (cases s) (simp add: s'_def)
        have holds: "job_holds J s'"
          unfolding s' using room
          by (intro job_consume [OF less.prems(2,3) assms _ fits sym]) (simp_all only: vals, simp_all add: after_def)
        have "lenient_quartets (job_write J) (job_room J) ?t rest s = lenient_quartets (job_write J) (job_room J) ?t tail s'"
          using valid room by (simp add: abcd Let_def after_def s'_def st flip: quartet_def)
        moreover have "tail = drop (ls_source s') (job_input J)" "ls_quad_pos s' = 0" "ls_source s \<le> ls_source s'"
          using tail less.prems(3) by (simp_all add: s'_def)
        ultimately show ?thesis
          using less.hyps [of tail s'] holds by (fastforce simp: abcd split: sum.splits)
      qed
    qed
  next
    case False
    then show ?thesis using less.prems(2,3) by (simp add: lenient_quartets_short)
  qed
qed

section \<open>The vector paths\<close>

lemma fast_alphabet_symbols:
  assumes "fast_alphabet altchars = Some a"
  shows "all_symbols a w \<longleftrightarrow> lenient_symbols altchars w"
    "all_symbols a w \<Longrightarrow> decoded_bytes a w = octets (lenient_values altchars w)"
proof -
  show "all_symbols a w \<longleftrightarrow> lenient_symbols altchars w"
    by (simp add: all_symbols_def lenient_symbols_def fast_alphabet_value [OF assms])
  assume "all_symbols a w"
  then have "symbol_values a w = lenient_values altchars w"
    by (auto simp: symbol_values_def lenient_values_def all_symbols_def list_all_iff table_value
        simp flip: fast_alphabet_value [OF assms] split: option.splits)
  then show "decoded_bytes a w = octets (lenient_values altchars w)" by (simp add: decoded_bytes_def)
qed

text \<open>The bound on the candidate keeps its bytes inside of the destination.\<close>

lemma prefix_room:
  assumes "n \<le> r div 12 * 16"
  shows "n div 4 * 3 \<le> (r :: nat)"
proof -
  have "n div 4 \<le> r div 12 * 16 div 4" using assms by (rule div_le_mono)
  then have "n div 4 * 3 \<le> r div 12 * 12" by simp
  then show ?thesis using div_times_less_eq_dividend [of r 12] by linarith
qed

lemma job_prefix:
  assumes "selected_backend machine = Some selection" "job_valid J" "job_holds J s"
  shows "\<exists>available s'. lenient_prefix machine address (job_write J) (job_input J) (job_room J) (job_altchars J) s
      = Some (available, s')
    \<and> job_holds J s' \<and> ls_quad_pos s' = ls_quad_pos s \<and> ls_source s \<le> ls_source s'"
proof (cases "\<exists>a. fast_alphabet (job_altchars J) = Some a \<and> job_write J \<and> ls_quad_pos s = 0")
  case False
  then show ?thesis using assms(3) by (auto simp: lenient_prefix_def split: option.splits)
next
  case True
  then obtain a where a: "fast_alphabet (job_altchars J) = Some a" "job_write J" "ls_quad_pos s = 0" by blast
  let ?len = "min (length (job_input J) - ls_source s) ((job_room J - ls_written s) div 12 * 16)"
  define c where "c = take ?len (drop (ls_source s) (job_input J))"
  have src: "ls_source s \<le> length (job_input J)" using assms(3) by (auto simp: job_holds_def job_holds_at_def)
  have c: "slice (job_input J) (ls_source s) ?len = Some c" using src by (simp add: slice_Some c_def)
  have room: "length c div 4 * 3 \<le> job_room J - ls_written s" by (rule prefix_room) (simp add: c_def)
  note fits = job_room_fits [OF assms(2,3)]
  let ?out = "drop (ls_written s) (ls_output s)"
  have "length c div 4 * 3 \<le> length ?out" using fits [OF room] by simp
  from decode_valid_prefix_result [OF assms(1) this, of "address + ls_written s" a]
  obtain r m where r: "decode_valid_prefix_with_runtime_backend machine (address + ls_written s) a c ?out = Some (r, m)"
    "prefix_result a c ?out (r, m)" by blast
  have w: "ls_written s \<le> length (ls_output s)" using fits [of 0] by simp
  have same: "s\<lparr>ls_output := take (ls_written s) (ls_output s) @ ?out\<rparr> = s" by (cases s) simp
  show ?thesis
  proof (cases r)
    case None
    then have "m = ?out" using r(2) by (simp add: prefix_result_def)
    then show ?thesis using a c r(1) w same assms(3) None by (auto simp: lenient_prefix_def)
  next
    case (Some nd)
    obtain n d where nd: "nd = (n, d)" by (cases nd)
    have d: "d = n div 4 * 3" and dec: "decoded a 0 c n ?out m"
      using r(2) by (simp_all add: Some nd prefix_result_def)
    note D = decodedD [OF dec]
    show ?thesis
    proof (cases "n = 0")
      case True
      then have "m = ?out" using D(6) by simp
      then show ?thesis using a c r(1) w same assms(3) Some nd True by (auto simp: lenient_prefix_def)
    next
      case False
      have n: "take n c = take n (drop (ls_source s) (job_input J))" "ls_source s + n \<le> length (job_input J)"
        using D(2) src by (auto simp: c_def)
      have sym: "lenient_symbols (job_altchars J) (take n (drop (ls_source s) (job_input J)))"
        using D(3) fast_alphabet_symbols(1) [OF a(1)] by (simp flip: n(1))
      have "n div 4 * 3 \<le> job_room J - ls_written s" using D(2) room by (meson div_le_mono le_trans mult_le_mono1)
      moreover have "m = octets (lenient_values (job_altchars J) (take n (drop (ls_source s) (job_input J))))
          @ drop (n div 4 * 3) ?out"
        using D(5,6) append_take_drop_id [of "n div 4 * 3" m] fast_alphabet_symbols(2) [OF a(1) D(3)] by (simp add: n(1))
      ultimately have "job_holds J (s\<lparr>ls_source := ls_source s + n, ls_written := ls_written s + n div 4 * 3, ls_pads := 0,
          ls_output := take (ls_written s) (ls_output s) @ m\<rparr>)"
        using a(2) by (intro job_consume [OF assms(3) a(3) assms(2) D(1) n(2) sym]) simp_all
      then show ?thesis using a c r(1) w Some nd False d by (auto simp: lenient_prefix_def)
    qed
  qed
qed

text \<open>A translated symbol has, in the standard alphabet, the value that the character had.\<close>

lemma translated_value:
  assumes "lenient_value (Some (p, q)) b = Some v"
  shows "symbol_value Standard (translation_byte (translation_new (lenient_decode_table (Some (p, q))) (Some (p, q)) k) b)
    = Some v"
proof -
  have "lenient_decode_table (Some (p, q)) ! unat b = v" "v < 64"
    using assms lenient_value_less [OF assms] by (simp_all add: lenient_entry)
  moreover have "symbol_value Standard (STANDARD_ALPHABET ! unat v) = Some v"
    using symbol_value_symbol [OF \<open>v < 64\<close>, of False] by (simp add: symbol_def alphabet_of_def decode_alphabet_of_def)
  ultimately show ?thesis
    using assms by (auto simp: translation_new_byte lenient_value_def split: if_splits)
qed

lemma lenient_run_bytes_eq:
  assumes "selected_backend machine = Some selection" "neon_baseline machine"
    and "lenient_symbols altchars w" "4 dvd length w" "length w div 4 * 3 \<le> length mem" "length w \<le> ISIZE_MAX"
  shows "lenient_run_bytes machine scan address (lenient_decode_table altchars) altchars w mem
    = Some (octets (lenient_values altchars w) @ drop (length w div 4 * 3) mem)"
proof -
  have n: "length w mod 4 \<noteq> 1" "length w * 3 div 4 = length w div 4 * 3" using assms(4) by (auto elim!: dvdE)
  show ?thesis
  proof (cases "fast_alphabet altchars")
    case (Some a)
    have sym: "all_symbols a w" using fast_alphabet_symbols(1) [OF Some] assms(3) by simp
    have "length w * 3 div 4 \<le> length mem" using assms(5) n(2) by simp
    from decode_unpadded_symbols [OF assms(1) sym n(1) this assms(6), of address] obtain layout where
      "decode_unpadded_layout w = Inr layout"
      "decode_to_ptr_with_unpadded_layout machine address w mem layout a
        = Some (Inr (decoded_bytes a w @ drop (length w * 3 div 4) mem))" by blast
    then show ?thesis
      using fast_alphabet_symbols(2) [OF Some sym] by (simp add: lenient_run_bytes_def Some n(2))
  next
    case None
    then obtain p q where pq: "altchars = Some (p, q)" by (auto simp: fast_alphabet_def split: option.splits)
    let ?tr = "translation_new (lenient_decode_table altchars) altchars (kernels_translate (decode_byte_kernels_of machine scan))"
    let ?x = "map (translation_byte ?tr) w"
    have val: "symbol_value Standard (translation_byte ?tr b) = lenient_value altchars b" if "b \<in> set w" for b
      using assms(3) that translated_value [of p q b] by (auto simp: pq lenient_symbols_def list_all_iff)
    have sym: "all_symbols Standard ?x"
      using assms(3) val by (auto simp: all_symbols_def lenient_symbols_def list_all_iff)
    have "symbol_values Standard ?x = lenient_values altchars w"
      using val assms(3) by (auto simp: symbol_values_def lenient_values_def lenient_symbols_def list_all_iff table_value
          simp flip: table_of.simps(1) split: option.splits)
    then have bytes: "decoded_bytes Standard ?x = octets (lenient_values altchars w)" by (simp add: decoded_bytes_def)
    have total: "translation_total ?tr"
      using translation_new_apply [OF assms(2)] by (auto simp: translation_total_def split: option.splits)
    have "stream_fits ?tr mem w" using sym assms(5,6) n(2) by (simp add: stream_fits_def)
    from writer_decodes [OF assms(1) total this n(1), of address False]
    show ?thesis by (simp add: lenient_run_bytes_def None n(2) bytes)
  qed
qed

lemma job_run:
  assumes "selected_backend machine = Some selection" "neon_baseline machine"
    and "job_valid J" "job_holds J s" "ls_quad_pos s = 0"
  shows "\<exists>r. lenient_run machine scan address (job_write J) (job_input J) (job_room J)
      (lenient_decode_table (job_altchars J)) (job_altchars J) s = Some r
    \<and> (case r of None \<Rightarrow> True | Some flow \<Rightarrow> flow_ok J s flow)"
proof -
  let ?rest = "drop (ls_source s) (job_input J)"
  let ?n = "length (takeWhile (\<lambda>b. is_lenient_symbol b (job_altchars J)) ?rest)"
  define run where "run = ?n div 4 * 4"
  have prefix: "kernels_symbol_prefix (decode_byte_kernels_of machine scan) ?rest (job_altchars J) = Some ?n"
    by (simp add: decode_byte_kernels_eq(2) [OF assms(2)] scalar_prefixes)
  show ?thesis
  proof (cases "16 \<le> run")
    case False
    then show ?thesis by (simp add: lenient_run_def prefix run_def Let_def)
  next
    case True
    have n: "run \<le> ?n" "4 dvd run" by (simp_all add: run_def)
    have src: "ls_source s \<le> length (job_input J)" using assms(4) by (auto simp: job_holds_def job_holds_at_def)
    have fits: "ls_source s + run \<le> length (job_input J)"
      using n(1) length_takeWhile_le [of "\<lambda>b. is_lenient_symbol b (job_altchars J)" ?rest] src by simp
    let ?w = "take run ?rest"
    have sym: "lenient_symbols (job_altchars J) ?w"
      unfolding take_takeWhile [OF n(1)]
      by (auto simp: lenient_symbols_def list_all_iff is_lenient_symbol_value dest!: in_set_takeD set_takeWhileD)
    have len: "length ?w = run" using fits by simp
    have w: "slice (job_input J) (ls_source s) run = Some ?w" using fits by (rule slice_Some)
    show ?thesis
    proof (cases "job_room J - ls_written s < run div 4 * 3")
      case small: True
      then show ?thesis
        using True job_no_room [OF assms(4,5,3) n(2) fits sym]
        by (simp add: lenient_run_def prefix Let_def flip: run_def)
    next
      case room: False
      then have "ls_written s + run div 4 * 3 \<le> length (ls_output s)"
        by (intro job_room_fits [OF assms(3,4)]) simp
      then have mem: "ls_written s \<le> length (ls_output s)" "length ?w div 4 * 3 \<le> length (drop (ls_written s) (ls_output s))"
        using len by simp_all
      have "length ?w \<le> ISIZE_MAX" using assms(3) fits len by (simp add: job_valid_def)
      from lenient_run_bytes_eq [OF assms(1,2) sym _ mem(2) this, of scan "address + ls_written s"] n(2) len
      have bytes: "lenient_run_bytes machine scan (address + ls_written s) (lenient_decode_table (job_altchars J))
          (job_altchars J) ?w (drop (ls_written s) (ls_output s))
        = Some (octets (lenient_values (job_altchars J) ?w) @ drop (run div 4 * 3) (drop (ls_written s) (ls_output s)))"
        by simp
      define after where "after = (if job_write J then take (ls_written s) (ls_output s)
          @ octets (lenient_values (job_altchars J) ?w) @ drop (run div 4 * 3) (drop (ls_written s) (ls_output s))
        else ls_output s)"
      have "job_holds J (s\<lparr>ls_source := ls_source s + run, ls_written := ls_written s + run div 4 * 3, ls_pads := 0,
          ls_output := after\<rparr>)"
        using room by (intro job_consume [OF assms(4,5,3) n(2) fits sym _ after_def]) simp
      then show ?thesis
        unfolding lenient_run_def prefix bind.bind_lunit Let_def run_def [symmetric]
        using True room mem(1) by (cases "job_write J") (simp_all add: w bytes after_def)
    qed
  qed
qed

section \<open>One character\<close>

text \<open>The bits of a value against what its quantum holds already.\<close>

lemma octets_open:
  "octets ([a, b]) = [push_bit 2 (partial_bits [a]) OR drop_bit 4 b]"
  "octets ([a, b, c]) = octets [a, b] @ [push_bit 4 (partial_bits [a, b]) OR drop_bit 2 c]"
  "octets ([a, b, c, d]) = octets [a, b, c] @ [push_bit 6 (partial_bits [a, b, c]) OR d]"
  by (simp_all add: byte_eq_bits bit_simps byte_high_bits)

text \<open>A written byte: the state after it, or no room.\<close>

lemma job_emit:
  assumes "job_valid J" "job_holds J s"
    and "job_total J = job_absorb J (drop (ls_source s + 1) (job_input J)) (x @ y) 0"
    and "ls_source s + 1 \<le> length (job_input J)" "4 dvd length x" "length y < 4"
    and "octets (x @ y) = vs @ [byte]" "ls_written s = length vs" "ls_output s = job_written J z" "octets z = vs"
    and "y \<noteq> [] \<Longrightarrow> leftchar = partial_bits y" "quad_pos = length y"
  shows "\<exists>flow. lenient_emit (job_write J) (job_room J) byte quad_pos leftchar
      (s\<lparr>ls_source := ls_source s + 1, ls_pads := 0\<rparr>) = Some flow \<and> flow_ok J s flow"
proof (cases "ls_written s = job_room J")
  case True
  then have "job_overflows J (LenientOutputTooSmall, ls_output s)"
    using assms(7,8) by (intro job_overflowsI [OF assms(1,2,3)]) simp
  then show ?thesis using True by (simp add: lenient_emit_def)
next
  case False
  then have room: "1 \<le> job_room J - ls_written s"
    using assms(2) by (auto simp: job_holds_def job_holds_at_def)
  have w: "ls_written s + 1 \<le> length (ls_output s)" by (rule job_room_fits [OF assms(1,2) room])
  define after where "after = (if job_write J then take (ls_written s) (ls_output s) @ [byte] @ drop (ls_written s + 1) (ls_output s)
      else ls_output s)"
  have "after = job_written J (x @ y)"
    by (simp add: after_def assms(7-10) job_written_def)
  then have "job_holds_at J x y 0 (s\<lparr>ls_source := ls_source s + 1, ls_pads := 0, ls_written := ls_written s + 1,
      ls_quad_pos := quad_pos, ls_leftchar := leftchar, ls_output := after\<rparr>)"
    using assms(3-8,11,12) room by (simp add: job_holds_at_def)
  then have "job_holds J (s\<lparr>ls_source := ls_source s + 1, ls_pads := 0, ls_written := ls_written s + 1,
      ls_quad_pos := quad_pos, ls_leftchar := leftchar, ls_output := after\<rparr>)"
    unfolding job_holds_def by blast
  then show ?thesis
    using False w by (cases "job_write J"; cases s) (simp_all add: lenient_emit_def store_Some after_def)
qed

text \<open>A symbol in an open or a new quantum.\<close>

lemma job_value:
  assumes "job_valid J" "job_holds_at J x y p s" "ls_source s + 1 \<le> length (job_input J)"
    and "job_total J = job_absorb J (drop (ls_source s + 1) (job_input J)) (x @ y @ [v]) 0"
  shows "\<exists>flow. lenient_value_step (job_write J) (job_room J) v (s\<lparr>ls_source := ls_source s + 1, ls_pads := 0\<rparr>) = Some flow
    \<and> flow_ok J s flow"
proof -
  have holds: "job_holds J s" using assms(2) unfolding job_holds_def by blast
  have s: "4 dvd length x" "length y = ls_quad_pos s" "ls_quad_pos s < 4" "y \<noteq> [] \<longrightarrow> ls_leftchar s = partial_bits y"
    "ls_written s = length (octets (x @ y))" "ls_written s \<le> job_room J" "ls_output s = job_written J (x @ y)"
    using assms(2) by (simp_all add: job_holds_at_def)
  note oct = octets_append [OF s(1)]
  consider "y = []" | a where "y = [a]" | a b where "y = [a, b]" | a b c where "y = [a, b, c]"
    using s(2,3) by (cases y rule: partial_bits.cases) auto
  then show ?thesis
  proof cases
    case 1
    have "job_holds_at J x [v] 0 (s\<lparr>ls_source := ls_source s + 1, ls_pads := 0, ls_quad_pos := 1, ls_leftchar := v\<rparr>)"
      using assms(3,4) s oct [of "[v]"] 1 by (simp add: job_holds_at_def job_written_def)
    then have "job_holds J (s\<lparr>ls_source := ls_source s + 1, ls_pads := 0, ls_quad_pos := 1, ls_leftchar := v\<rparr>)"
      unfolding job_holds_def by blast
    then show ?thesis using s(2) [symmetric] 1 by (simp add: lenient_value_step_def)
  next
    case 2
    then have "\<exists>flow. lenient_emit (job_write J) (job_room J) (push_bit 2 (ls_leftchar s) OR drop_bit 4 v) 2 (v AND 0x0f)
        (s\<lparr>ls_source := ls_source s + 1, ls_pads := 0\<rparr>) = Some flow \<and> flow_ok J s flow"
      using assms(3,4) s(1,4-7)
      by (intro job_emit [OF assms(1) holds, where x = x and y = "y @ [v]" and z = "x @ y" and vs = "octets (x @ y)"])
        (simp_all add: oct octets_open)
    then show ?thesis using s(2) [symmetric] 2 by (simp add: lenient_value_step_def)
  next
    case 3
    then have "\<exists>flow. lenient_emit (job_write J) (job_room J) (push_bit 4 (ls_leftchar s) OR drop_bit 2 v) 3 (v AND 0x03)
        (s\<lparr>ls_source := ls_source s + 1, ls_pads := 0\<rparr>) = Some flow \<and> flow_ok J s flow"
      using assms(3,4) s(1,4-7)
      by (intro job_emit [OF assms(1) holds, where x = x and y = "y @ [v]" and z = "x @ y" and vs = "octets (x @ y)"])
        (simp_all add: oct octets_open(2) [of _ _ v] del: octets.simps)
    then show ?thesis using s(2) [symmetric] 3 by (simp add: lenient_value_step_def)
  next
    case 4
    have "4 dvd Suc (Suc (Suc (Suc (length x))))" using s(1) by presburger
    with 4 have "\<exists>flow. lenient_emit (job_write J) (job_room J) (push_bit 6 (ls_leftchar s) OR v) 0 0
        (s\<lparr>ls_source := ls_source s + 1, ls_pads := 0\<rparr>) = Some flow \<and> flow_ok J s flow"
      using assms(3,4) s(1,4-7)
      by (intro job_emit [OF assms(1) holds, where x = "x @ y @ [v]" and y = "[]" and z = "x @ y" and vs = "octets (x @ y)"])
        (simp_all add: oct octets_open(3) [of _ _ _ v] del: octets.simps)
    then show ?thesis using s(2) [symmetric] 4 by (simp add: lenient_value_step_def)
  qed
qed

lemma job_byte:
  assumes "job_valid J" "job_holds J s" "ls_source s < length (job_input J)"
  shows "\<exists>flow. lenient_byte_step (job_write J) (job_input J) (job_room J) (lenient_decode_table (job_altchars J))
      (job_padded J) (job_continues J) s = Some flow \<and> flow_ok J s flow"
proof -
  define b where "b = job_input J ! ls_source s"
  let ?rest = "drop (ls_source s + 1) (job_input J)"
  have cons: "drop (ls_source s) (job_input J) = b # ?rest"
    using Cons_nth_drop_Suc [OF assms(3)] by (simp add: b_def)
  have b: "get (job_input J) (ls_source s) = Some b" using assms(3) by (simp add: get_Some b_def)
  obtain x y p where at: "job_holds_at J x y p s" using assms(2) unfolding job_holds_def by blast
  have s: "job_total J = job_absorb J (b # ?rest) (x @ y) p" "length (x @ y) mod 4 = ls_quad_pos s"
    "y \<noteq> [] \<longrightarrow> ls_pads s = p" "length y = ls_quad_pos s" "ls_written s = length (octets (x @ y))"
    "ls_written s \<le> job_room J" "ls_output s = job_written J (x @ y)"
    using at by (auto simp: job_holds_at_def cons elim!: dvdE)
  have pad_entry: "64 \<le> lenient_decode_table (job_altchars J) ! 61 \<longleftrightarrow> lenient_value (job_altchars J) 61 = None"
    using lenient_entry_symbol [of "job_altchars J" 61] by simp
  note step = lenient_byte_step_def b Let_def lenient_entry_symbol pad_entry
  have read: "job_holds J (s\<lparr>ls_source := ls_source s + 1, ls_pads := pads\<rparr>)"
    if "job_total J = job_absorb J ?rest (x @ y) q" "y \<noteq> [] \<longrightarrow> pads = q" for q pads
  proof -
    have "job_holds_at J x y q (s\<lparr>ls_source := ls_source s + 1, ls_pads := pads\<rparr>)"
      using at that assms(3) by (simp add: job_holds_at_def)
    then show ?thesis unfolding job_holds_def by blast
  qed
  show ?thesis
  proof (cases "lenient_value (job_altchars J) b")
    case None
    show ?thesis
    proof (cases "job_padded J \<and> b = 61")
      case pad: True
      show ?thesis
      proof (cases "\<not> job_continues J \<and> 2 \<le> ls_quad_pos s \<and> 4 \<le> ls_quad_pos s + (ls_pads s + 1)")
        case stop: True
        then have "ls_pads s = p" using s(3,4) by auto
        then have "job_total J = (x @ y, p + 1)" using None pad stop s(1,2) by simp
        then have "job_complete J (ls_written s, ls_output s)"
          using stop s(2,5-7) \<open>ls_pads s = p\<close> by (simp add: job_complete_def lenient_incomplete_def)
        then show ?thesis using None pad stop by (simp add: step)
      next
        case False
        have "\<not> (\<not> job_continues J \<and> 2 \<le> length (x @ y) mod 4 \<and> 4 \<le> length (x @ y) mod 4 + (p + 1))"
          using False s(2,3,4) by auto
        then have "job_total J = job_absorb J ?rest (x @ y) (p + 1)" using None pad s(1) by (auto split: if_splits)
        from read [OF this, of "ls_pads s + 1"] s(3) show ?thesis using None pad False by (auto simp: step)
      qed
    next
      case False
      then have "job_total J = job_absorb J ?rest (x @ y) p" using None s(1) False by (auto split: if_splits)
      moreover have "s\<lparr>ls_source := ls_source s + 1, ls_pads := ls_pads s\<rparr> = s\<lparr>ls_source := ls_source s + 1\<rparr>"
        by (cases s) simp
      ultimately have "job_holds J (s\<lparr>ls_source := ls_source s + 1\<rparr>)" using read [of p "ls_pads s"] s(3) by simp
      then show ?thesis using None False by (auto simp: step)
    qed
  next
    case (Some v)
    then have total: "job_total J = job_absorb J ?rest (x @ y @ [v]) 0" using s(1) by simp
    have v: "lenient_decode_table (job_altchars J) ! unat b = v" by (simp add: lenient_entry Some)
    from job_value [OF assms(1) at _ total] assms(3) Some v show ?thesis by (auto simp: step)
  qed
qed

section \<open>The loop\<close>

lemma flow_ok_earlier: "flow_ok J s' flow \<Longrightarrow> ls_source s \<le> ls_source s' \<Longrightarrow> flow_ok J s flow"
  by (cases "(J, s, flow)" rule: flow_ok.cases) auto

lemma job_turn:
  assumes "selected_backend machine = Some selection" "neon_baseline machine"
    and "job_valid J" "job_holds J s"
  shows "\<exists>flow. lenient_turn machine scan address (job_write J) (job_input J) (job_room J)
      (lenient_decode_table (job_altchars J)) (job_altchars J) (job_padded J) (job_continues J) s = Some flow
    \<and> flow_ok J s flow"
proof -
  let ?t = "lenient_decode_table (job_altchars J)"
  define s1 where "s1 = (if ls_quad_pos s = 0 then
      let (source, pads) = lenient_skip ?t (job_padded J) (drop (ls_source s) (job_input J)) (ls_source s) (ls_pads s)
      in s\<lparr>ls_source := source, ls_pads := pads\<rparr> else s)"
  have s1: "job_holds J s1" "ls_source s \<le> ls_source s1"
    using job_skip [OF assms(4)] assms(4) by (auto simp: s1_def)
  show ?thesis
  proof (cases "ls_quad_pos s1 = 0 \<and> ls_source s1 = length (job_input J)")
    case True
    then show ?thesis using s1(1) by (simp add: lenient_turn_def s1_def [symmetric])
  next
    case go: False
    obtain available s2 where s2: "lenient_prefix machine address (job_write J) (job_input J) (job_room J) (job_altchars J) s1
        = Some (available, s2)" "job_holds J s2" "ls_source s1 \<le> ls_source s2"
      using job_prefix [OF assms(1,3) s1(1)] by blast
    define long where "long = (if \<not> available \<and> ls_quad_pos s2 = 0
      then lenient_run machine scan address (job_write J) (job_input J) (job_room J) ?t (job_altchars J) s2 else Some None)"
    have "\<exists>r. long = Some r \<and> (case r of None \<Rightarrow> True | Some flow \<Rightarrow> flow_ok J s2 flow)"
      using job_run [OF assms(1-3) s2(2), of scan address] by (auto simp: long_def)
    then obtain r where r: "long = Some r" "\<And>flow. r = Some flow \<Longrightarrow> flow_ok J s flow"
      using flow_ok_earlier le_trans [OF s1(2) s2(3)] by fastforce
    define quads where "quads = (if ls_quad_pos s2 = 0
      then lenient_quartets (job_write J) (job_room J) ?t (drop (ls_source s2) (job_input J)) s2 else Some (Inr s2))"
    have "\<exists>q. quads = Some q
        \<and> (case q of Inl e \<Rightarrow> job_overflows J e | Inr s' \<Rightarrow> job_holds J s' \<and> ls_source s2 \<le> ls_source s')"
    proof (cases "ls_quad_pos s2 = 0")
      case True
      obtain q where "lenient_quartets (job_write J) (job_room J) ?t (drop (ls_source s2) (job_input J)) s2 = Some q"
        "case q of Inl e \<Rightarrow> job_overflows J e
          | Inr s' \<Rightarrow> job_holds J s' \<and> ls_quad_pos s' = 0 \<and> ls_source s2 \<le> ls_source s'"
        using job_quartets [OF assms(3) refl s2(2) True] by blast
      then show ?thesis using True by (intro exI [of _ q]) (auto simp: quads_def split: sum.splits)
    qed (simp add: quads_def s2(2))
    then obtain q where "quads = Some q"
      "case q of Inl e \<Rightarrow> job_overflows J e | Inr s' \<Rightarrow> job_holds J s' \<and> ls_source s2 \<le> ls_source s'"
      by blast
    then have q: "quads = Some q" "\<And>e. q = Inl e \<Longrightarrow> job_overflows J e"
      "\<And>s'. q = Inr s' \<Longrightarrow> job_holds J s' \<and> ls_source s2 \<le> ls_source s'"
      by simp_all
    note turn = lenient_turn_def s1_def [symmetric] s2(1) long_def [symmetric] quads_def [symmetric] r(1) q(1)
    show ?thesis
    proof (cases r)
      case (Some flow)
      then show ?thesis using go r(2) by (auto simp: turn)
    next
      case None
      show ?thesis
      proof (cases q)
        case (Inl e)
        then show ?thesis using go None q(2) by (auto simp: turn)
      next
        case (Inr s3)
        have s3: "job_holds J s3" "ls_source s \<le> ls_source s3" using q(3) [OF Inr] s1(2) s2(3) by auto
        show ?thesis
        proof (cases "ls_source s3 = length (job_input J)")
          case True
          then show ?thesis using go None Inr s3(1) by (auto simp: turn)
        next
          case False
          then have "ls_source s3 < length (job_input J)" using s3(1) by (auto simp: job_holds_def job_holds_at_def)
          from job_byte [OF assms(3) s3(1) this] show ?thesis
            using go None Inr False flow_ok_earlier [OF _ s3(2)] by (auto simp: turn)
        qed
      qed
    qed
  qed
qed

text \<open>The end of the input: everything has been read.\<close>

lemma job_end:
  assumes "job_holds J s" "ls_source s = length (job_input J)"
  shows "if lenient_incomplete (job_padded J) (ls_quad_pos s) (ls_pads s)
    then lenient_incomplete (job_padded J) (length (fst (job_total J)) mod 4) (snd (job_total J))
    else job_complete J (ls_written s, ls_output s)"
proof -
  obtain x y p where at: "job_holds_at J x y p s" using assms(1) unfolding job_holds_def by blast
  have s: "job_total J = (x @ y, p)" "length (x @ y) mod 4 = ls_quad_pos s" "ls_quad_pos s \<noteq> 0 \<longrightarrow> ls_pads s = p"
    "ls_written s = length (octets (x @ y))" "ls_written s \<le> job_room J" "ls_output s = job_written J (x @ y)"
    using at assms(2) by (auto simp: job_holds_at_def elim!: dvdE)
  have "lenient_incomplete (job_padded J) (ls_quad_pos s) (ls_pads s)
      \<longleftrightarrow> lenient_incomplete (job_padded J) (ls_quad_pos s) p"
    using s(3) by (auto simp: lenient_incomplete_def)
  then show ?thesis using s by (auto simp: job_complete_def)
qed

lemma job_loop:
  assumes "selected_backend machine = Some selection" "neon_baseline machine" "job_valid J"
  shows "job_holds J s \<Longrightarrow> \<exists>r. lenient_loop (lenient_turn machine scan address (job_write J) (job_input J) (job_room J)
      (lenient_decode_table (job_altchars J)) (job_altchars J) (job_padded J) (job_continues J)) (length (job_input J)) s = Some r
    \<and> (case r of
         Inl e \<Rightarrow> job_overflows J e
       | Inr (Inl result) \<Rightarrow> job_complete J result
       | Inr (Inr s') \<Rightarrow> job_holds J s' \<and> ls_source s' = length (job_input J))"
proof (induction "length (job_input J) - ls_source s" arbitrary: s rule: less_induct)
  case less
  show ?case
  proof (cases "ls_source s < length (job_input J)")
    case False
    moreover have "ls_source s \<le> length (job_input J)" using less.prems by (auto simp: job_holds_def job_holds_at_def)
    ultimately show ?thesis using less.prems by (subst lenient_loop.simps) simp
  next
    case True
    obtain flow where flow: "lenient_turn machine scan address (job_write J) (job_input J) (job_room J)
        (lenient_decode_table (job_altchars J)) (job_altchars J) (job_padded J) (job_continues J) s = Some flow" "flow_ok J s flow"
      using job_turn [OF assms less.prems] by blast
    show ?thesis
    proof (cases flow)
      case (Continue s')
      then have "job_holds J s'" "ls_source s < ls_source s'" using flow(2) by simp_all
      with less.hyps [of s'] True show ?thesis by (subst lenient_loop.simps) (simp add: flow(1) Continue)
    next
      case (Break s')
      then show ?thesis using True flow(2) by (subst lenient_loop.simps) (simp add: flow(1))
    next
      case (Return r)
      then show ?thesis using True flow(2) by (subst lenient_loop.simps) (cases r; simp add: flow(1))
    qed
  qed
qed

text \<open>The decoder on every text: too little room, incomplete text, or all bytes.\<close>

lemma decode_lenient_job:
  assumes "selected_backend machine = Some selection" "neon_baseline machine" "job_valid J"
  shows "\<exists>r. decode_lenient_to_ptr machine scan address (job_write J) (job_input J) (job_memory J) (job_room J)
      (lenient_decode_table (job_altchars J)) (job_altchars J) (job_padded J) (job_continues J) = Some r
    \<and> (case r of
         Inl e \<Rightarrow> job_overflows J e \<or> fst e = LenientInvalidInput \<and> job_untouched J (snd e)
           \<and> lenient_incomplete (job_padded J) (length (fst (job_total J)) mod 4) (snd (job_total J))
       | Inr result \<Rightarrow> job_complete J result)"
proof -
  from job_loop [OF assms job_holds_start, of scan address] obtain r where
    r: "lenient_loop (lenient_turn machine scan address (job_write J) (job_input J) (job_room J)
      (lenient_decode_table (job_altchars J)) (job_altchars J) (job_padded J) (job_continues J)) (length (job_input J))
      \<lparr>ls_source = 0, ls_written = 0, ls_quad_pos = 0, ls_leftchar = 0, ls_pads = 0, ls_output = job_memory J\<rparr> = Some r"
    and ok: "case r of Inl e \<Rightarrow> job_overflows J e | Inr (Inl result) \<Rightarrow> job_complete J result
      | Inr (Inr s') \<Rightarrow> job_holds J s' \<and> ls_source s' = length (job_input J)" by blast
  have "case r of Inr (Inr s') \<Rightarrow> (if lenient_incomplete (job_padded J) (ls_quad_pos s') (ls_pads s')
      then lenient_incomplete (job_padded J) (length (fst (job_total J)) mod 4) (snd (job_total J))
      else job_complete J (ls_written s', ls_output s')) \<and> job_untouched J (ls_output s') | _ \<Rightarrow> True"
    using ok job_end [of J] job_holds_untouched [OF assms(3)] by (auto split: sum.splits)
  with ok show ?thesis by (auto simp: decode_lenient_to_ptr_def r split: sum.splits if_splits)
qed

section \<open>The announced length\<close>

lemma decoded_symbol_len_octets: "decoded_symbol_len (length vals) = length (octets vals)"
proof -
  have "decoded_symbol_len n = n * 3 div 4" for n
  proof -
    have n: "n * 3 = n mod 4 * 3 + 4 * (n div 4 * 3)"
      using div_mult_mod_eq [of n 4] by linarith
    have "n mod 4 = 0 \<or> n mod 4 = 1 \<or> n mod 4 = 2 \<or> n mod 4 = 3" by linarith
    then show ?thesis unfolding n decoded_symbol_len_def by (elim disjE) simp_all
  qed
  then show ?thesis by (simp add: length_octets)
qed

text \<open>What the count gives for the values and the padding that the specification reads.\<close>

definition counted :: "bool \<Rightarrow> bytes \<times> nat \<Rightarrow> lenient_decode_error + nat" where
  "counted padded r =
     (if lenient_incomplete padded (length (fst r) mod 4) (snd r) then Inl LenientInvalidInput
      else Inr (length (octets (fst r))))"

text \<open>Where decoding goes on after padding, a pass over the symbols and one over the trailing padding suffice.\<close>

definition closing_pads :: "altchars \<Rightarrow> bool \<Rightarrow> bytes \<Rightarrow> nat" where
  "closing_pads altchars padded text_bytes =
     (if padded then length (filter (\<lambda>b. b = 61) (takeWhile (\<lambda>b. lenient_value altchars b = None) (rev text_bytes))) else 0)"

lemma closing_pads_Cons:
  "closing_pads altchars padded (b # rest) =
     closing_pads altchars padded rest
       + of_bool (padded \<and> b = 61 \<and> list_all (\<lambda>c. lenient_value altchars c = None) (b # rest))"
proof (cases "list_all (\<lambda>c. lenient_value altchars c = None) rest")
  case True
  then have all: "\<forall>c\<in>set rest. lenient_value altchars c = None" by (simp add: list_all_iff)
  have "takeWhile (\<lambda>b. lenient_value altchars b = None) (rev rest @ [b])
      = rev rest @ takeWhile (\<lambda>b. lenient_value altchars b = None) [b]"
    by (rule takeWhile_append2) (use all in simp)
  moreover have "takeWhile (\<lambda>b. lenient_value altchars b = None) (rev rest) = rev rest"
    using all by (subst takeWhile_eq_all_conv) simp
  ultimately show ?thesis using all by (auto simp only: closing_pads_def rev.simps) (auto simp: list_all_iff)
next
  case False
  then obtain c where "c \<in> set rest" "lenient_value altchars c \<noteq> None" by (auto simp: list_all_iff)
  then have "takeWhile (\<lambda>b. lenient_value altchars b = None) (rev rest @ [b])
      = takeWhile (\<lambda>b. lenient_value altchars b = None) (rev rest)"
    by (intro takeWhile_append1 [of c]) simp_all
  then show ?thesis using False by (simp add: closing_pads_def)
qed

lemma lenient_absorb_continues:
  "lenient_absorb altchars padded True rest vals pads =
     (vals @ lenient_values altchars (filter (\<lambda>b. lenient_value altchars b \<noteq> None) rest),
      closing_pads altchars padded rest
        + (if list_all (\<lambda>c. lenient_value altchars c = None) rest then pads else 0))"
proof (induction rest arbitrary: vals pads)
  case Nil
  then show ?case by (simp add: closing_pads_def)
next
  case (Cons b rest)
  then show ?case by (cases "lenient_value altchars b") (auto simp: closing_pads_Cons)
qed

text \<open>Where a complete padding sequence ends the text, the loop over runs follows the specification.\<close>

lemma lenient_count_loop_eq:
  assumes "\<And>x. symbol_prefix x altchars = Some (length (takeWhile (\<lambda>b. is_lenient_symbol b altchars) x))"
  shows "lenient_absorb altchars padded False input [] 0 = lenient_absorb altchars padded False (drop source input) vals pads
    \<Longrightarrow> source \<le> length input
    \<Longrightarrow> \<exists>r. lenient_count_loop symbol_prefix input altchars padded source (length vals) pads = Some r
      \<and> (case r of Inl n \<Rightarrow> Inr n
         | Inr (n, p) \<Rightarrow> if lenient_incomplete padded (n mod 4) p then Inl LenientInvalidInput else Inr (decoded_symbol_len n))
        = counted padded (lenient_absorb altchars padded False input [] 0)"
proof (induction "length input - source" arbitrary: source vals pads rule: less_induct)
  case less
  let ?P = "\<lambda>b. is_lenient_symbol b altchars"
  show ?case
  proof (cases "source < length input")
    case False
    then show ?thesis
      using less.prems by (subst lenient_count_loop.simps) (simp add: counted_def decoded_symbol_len_octets)
  next
    case True
    define run where "run = length (takeWhile ?P (drop source input))"
    have cons: "drop source input = input ! source # drop (source + 1) input"
      using Cons_nth_drop_Suc [OF True] by simp
    show ?thesis
    proof (cases "run = 0")
      case False
      have le: "source + run \<le> length input"
        using length_takeWhile_le [of ?P "drop source input"] True by (simp add: run_def)
      have split: "drop source input = takeWhile ?P (drop source input) @ drop (source + run) input"
        using takeWhile_dropWhile_id [of ?P "drop source input"]
        by (metis add.commute append_eq_conv_conj drop_drop run_def)
      have "lenient_symbols altchars (takeWhile ?P (drop source input))"
        by (auto simp: lenient_symbols_def list_all_iff is_lenient_symbol_value dest!: set_takeWhileD)
      from lenient_absorb_symbols [OF this, of padded False "drop (source + run) input" vals pads]
      have "lenient_absorb altchars padded False input [] 0 = lenient_absorb altchars padded False (drop (source + run) input)
          (vals @ lenient_values altchars (takeWhile ?P (drop source input))) 0"
        using False less.prems(1) split [symmetric] by (simp add: run_def)
      from less.hyps [OF _ this le] False True show ?thesis
        by (subst lenient_count_loop.simps) (simp add: assms flip: run_def)
    next
      case zero: True
      then have none: "lenient_value altchars (input ! source) = None"
        by (auto simp: run_def cons is_lenient_symbol_value split: if_splits)
      note loop = lenient_count_loop.simps [of symbol_prefix input altchars padded source]
      have "symbol_prefix (drop source input) altchars = Some 0" using zero by (simp add: assms run_def)
      note step = this True get_Some Let_def is_lenient_symbol_value
      have next_step: "\<exists>r. lenient_count_loop symbol_prefix input altchars padded (source + 1) (length vals) q = Some r
          \<and> (case r of Inl n \<Rightarrow> Inr n
             | Inr (n, p) \<Rightarrow> if lenient_incomplete padded (n mod 4) p then Inl LenientInvalidInput else Inr (decoded_symbol_len n))
            = counted padded (lenient_absorb altchars padded False input [] 0)"
        if "lenient_absorb altchars padded False (drop source input) vals pads
          = lenient_absorb altchars padded False (drop (source + 1) input) vals q" for q
        using less.hyps [of "source + 1" vals q] less.prems(1) True that by simp
      show ?thesis
      proof (cases "padded \<and> input ! source = 61")
        case False
        then have "lenient_absorb altchars padded False (drop source input) vals pads
            = lenient_absorb altchars padded False (drop (source + 1) input) vals pads"
          using none by (auto simp: cons)
        from next_step [OF this] show ?thesis using none False by (subst loop) (auto simp: step)
      next
        case pad: True
        show ?thesis
        proof (cases "2 \<le> length vals mod 4 \<and> 4 \<le> length vals mod 4 + (pads + 1)")
          case True
          then have "lenient_absorb altchars padded False input [] 0 = (vals, pads + 1)"
            using less.prems(1) none pad by (simp add: cons)
          then show ?thesis
            using True pad none
            by (subst loop) (simp add: step counted_def lenient_incomplete_def decoded_symbol_len_octets)
        next
          case False
          then have "lenient_absorb altchars padded False (drop source input) vals pads
              = lenient_absorb altchars padded False (drop (source + 1) input) vals (pads + 1)"
            using none pad by (auto simp: cons)
          from next_step [OF this] show ?thesis using none pad False by (subst loop) (auto simp: step)
        qed
      qed
    qed
  qed
qed

lemma lenient_decoded_len_eq:
  assumes "neon_baseline machine"
  shows "lenient_decoded_len machine scan input altchars padded continues
    = Some (counted padded (lenient_absorb altchars padded continues input [] 0))"
proof (cases continues)
  case True
  let ?f = "filter (\<lambda>b. lenient_value altchars b \<noteq> None) input"
  have count: "lenient_symbol_count machine scan input altchars = Some (length (lenient_values altchars ?f))"
    using assms by (simp add: lenient_symbol_count_eq scalar_symbol_count_def is_lenient_symbol_value)
  have closing: "closing_pads altchars padded input = 0" if "lenient_value altchars 61 \<noteq> None"
    using that by (auto simp: closing_pads_def filter_empty_conv dest!: set_takeWhileD)
  define pads where "pads = (if padded \<and> \<not> is_lenient_symbol 61 altchars \<and> length ?f mod 4 \<noteq> 0 then
      length (filter (\<lambda>b. b = 61) (takeWhile (\<lambda>b. \<not> is_lenient_symbol b altchars) (rev input))) else 0)"
  have pads: "lenient_incomplete padded (length ?f mod 4) pads
      \<longleftrightarrow> lenient_incomplete padded (length ?f mod 4) (closing_pads altchars padded input)"
    using closing by (auto simp: pads_def lenient_incomplete_def is_lenient_symbol_value closing_pads_def)
  have "lenient_decoded_len machine scan input altchars padded continues
      = Some (if lenient_incomplete padded (length ?f mod 4) pads then Inl LenientInvalidInput
          else Inr (decoded_symbol_len (length ?f)))"
    using True by (simp add: lenient_decoded_len_def count Let_def pads_def)
  also have "decoded_symbol_len (length ?f) = length (octets (lenient_values altchars ?f))"
    using decoded_symbol_len_octets [of "lenient_values altchars ?f"] by simp
  finally show ?thesis
    using True by (simp only: pads counted_def lenient_absorb_continues fst_conv snd_conv append_Nil
        lenient_values_simps(4) if_cancel add_0_right)
next
  case False
  from lenient_count_loop_eq [of "kernels_symbol_prefix (decode_byte_kernels_of machine scan)" altchars padded input 0 "[]" 0]
  obtain r where r: "lenient_count_loop (kernels_symbol_prefix (decode_byte_kernels_of machine scan)) input altchars padded 0 0 0
      = Some r"
    "(case r of Inl n \<Rightarrow> Inr n
         | Inr (n, p) \<Rightarrow> if lenient_incomplete padded (n mod 4) p then Inl LenientInvalidInput else Inr (decoded_symbol_len n))
        = counted padded (lenient_absorb altchars padded False input [] 0)"
    by (auto simp: decode_byte_kernels_eq(2) [OF assms] scalar_prefixes)
  then show ?thesis using False by (simp add: lenient_decoded_len_def)
qed

section \<open>The bound on the length\<close>

lemma length_filter_suffix:
  assumes "ends_with input suffix" "list_all (\<lambda>b. \<not> P b) suffix"
  shows "length (filter P input) + length suffix \<le> length input"
proof -
  let ?n = "length input - length suffix"
  have "input = take ?n input @ suffix" "length suffix \<le> length input"
    using assms(1) append_take_drop_id [of ?n input] by (simp_all add: ends_with_def)
  moreover have "filter P suffix = []" using assms(2) by (simp add: list_all_iff filter_empty_conv)
  ultimately have "filter P input = filter P (take ?n input)" by (metis append.right_neutral filter_append)
  then show ?thesis
    using length_filter_le [of P "take ?n input"] \<open>length suffix \<le> length input\<close> by simp
qed

lemma decoded_len_upper_bound_enough:
  "length (octets (fst (lenient_absorb altchars padded continues input [] 0)))
    \<le> decoded_len_upper_bound input (lenient_decode_table altchars)"
proof -
  let ?P = "\<lambda>b. lenient_value altchars b \<noteq> None"
  have entry: "64 \<le> lenient_decode_table altchars ! 61 \<longleftrightarrow> lenient_value altchars 61 = None"
    using lenient_entry_symbol [of altchars 61] by simp
  define t where "t = (if 64 \<le> lenient_decode_table altchars ! unat (ascii CHR ''='')
    then of_bool (ends_with input [ascii CHR ''='']) + of_bool (ends_with input [ascii CHR ''='', ascii CHR ''=''])
    else 0 :: nat)"
  have one: "ends_with input [61]" if "ends_with input [61, 61]"
  proof -
    have "2 \<le> length input" "drop (length input - 2) input = [61, 61]"
      using that by (simp_all add: ends_with_def numeral_2_eq_2)
    moreover from this(1) have "drop (length input - 1) input = drop 1 (drop (length input - 2) input)"
      unfolding drop_drop by (intro arg_cong2 [where f = drop]) simp_all
    ultimately show ?thesis by (simp add: ends_with_def)
  qed
  have "length (filter ?P input) + t \<le> length input"
    using length_filter_suffix [of input "[61]" ?P] length_filter_suffix [of input "[61, 61]" ?P] one
      length_filter_le [of ?P input]
    by (auto simp: t_def entry)
  moreover obtain z where "fst (lenient_absorb altchars padded continues input [] 0) = z" "length z \<le> length (filter ?P input)"
    using lenient_absorb_extends [of altchars padded continues input "[]" 0] by auto
  ultimately have "length (fst (lenient_absorb altchars padded continues input [] 0)) \<le> length input - t" by simp
  then have "length (octets (fst (lenient_absorb altchars padded continues input [] 0)))
      \<le> length (octets (replicate (length input - t) 0))"
    by (simp add: length_octets div_le_mono)
  also have "\<dots> = decoded_len_upper_bound input (lenient_decode_table altchars)"
    unfolding decoded_len_upper_bound_def Let_def t_def [symmetric]
    using decoded_symbol_len_octets [of "replicate (length input - t) 0"] by simp
  finally show ?thesis .
qed

section \<open>Decoding into a destination\<close>

lemma lenient_spec_counted:
  "lenient_spec altchars padded continues input =
     (let (vals, pads) = lenient_absorb altchars padded continues input [] 0
      in if lenient_incomplete padded (length vals mod 4) pads then None else Some (octets vals))"
  by (simp add: lenient_spec_def lenient_incomplete_def)

text \<open>The decoder against the specification, with any room.\<close>

lemma decode_lenient_to_ptr_result:
  assumes "selected_backend machine = Some selection" "neon_baseline machine"
    and "room \<le> length output" "length input \<le> ISIZE_MAX"
  shows "\<exists>r. decode_lenient_to_ptr machine scan address True input output room (lenient_decode_table altchars) altchars
      padded continues = Some r
    \<and> (case r of
         Inl (e, after) \<Rightarrow> length after = length output \<and> drop room after = drop room output
           \<and> (lenient_spec altchars padded continues input = None
             \<or> e = LenientOutputTooSmall
               \<and> room < length (octets (fst (lenient_absorb altchars padded continues input [] 0))))
       | Inr (n, after) \<Rightarrow> (\<exists>bytes. lenient_spec altchars padded continues input = Some bytes
           \<and> length bytes \<le> room \<and> n = length bytes \<and> after = bytes @ drop (length bytes) output))"
proof -
  define J where "J = \<lparr>job_input = input, job_altchars = altchars, job_padded = padded, job_continues = continues,
    job_write = True, job_room = room, job_memory = output\<rparr>"
  have "job_valid J" using assms(3,4) by (simp add: job_valid_def J_def)
  from decode_lenient_job [OF assms(1,2) this, of scan address] obtain r where
    r: "decode_lenient_to_ptr machine scan address True input output room (lenient_decode_table altchars) altchars
      padded continues = Some r"
    "case r of
         Inl e \<Rightarrow> job_overflows J e \<or> fst e = LenientInvalidInput \<and> job_untouched J (snd e)
           \<and> lenient_incomplete (job_padded J) (length (fst (job_total J)) mod 4) (snd (job_total J))
       | Inr result \<Rightarrow> job_complete J result"
    by (auto simp: J_def)
  have total: "job_total J = lenient_absorb altchars padded continues input [] 0" by (simp add: job_total_def J_def)
  have fields: "job_padded J = padded" "job_write J" "job_room J = room" "job_memory J = output" by (simp_all add: J_def)
  show ?thesis
  proof (cases r)
    case (Inl e)
    obtain k after where e: "e = (k, after)" by (cases e)
    show ?thesis
      using r(2) unfolding Inl e
      by (intro exI [of _ r])
        (auto simp: r(1) Inl e job_overflows_def job_untouched_def total fields lenient_spec_counted split_beta Let_def)
  next
    case (Inr result)
    then show ?thesis
      using r by (intro exI [of _ r])
        (auto simp: job_complete_def total fields lenient_spec_counted job_written_def split_beta Let_def)
  qed
qed

text \<open>
  C40: lenient decoding into a caller's memory, for every pair of alternative characters, with and
  without padding, and for both ways to go on after padding: a text that CPython's rules reject is
  reported, and writes no further than the room; a text whose bytes do not fit is reported with the
  number of bytes it needs, and nothing is written; otherwise the bytes are at the start of the
  memory, every other byte keeps its value, and their number is returned.  The vector decoder for
  a prefix, the runs that are translated and staged, the quartets and the single characters agree
  with one reading of the text, character by character.
\<close>
theorem decode_lenient_slice_into_correct:
  assumes "selected_backend machine = Some selection" "neon_baseline machine"
    and "room \<le> length output" "length input \<le> ISIZE_MAX"
  shows "\<exists>r. decode_lenient_slice_into machine scan address input output room (lenient_table_for altchars) altchars
      padded continues = Some r
    \<and> (case lenient_spec altchars padded continues input of
         None \<Rightarrow> \<exists>after. r = Inl (InvalidInput, after) \<and> length after = length output \<and> drop room after = drop room output
       | Some bytes \<Rightarrow>
           r = (if room < length bytes then Inl (OutputTooSmall (length bytes) room, output)
             else Inr (length bytes, bytes @ drop (length bytes) output)))"
proof -
  let ?total = "lenient_absorb altchars padded continues input [] 0"
  let ?table = "lenient_decode_table altchars"
  obtain r where r: "decode_lenient_to_ptr machine scan address True input output room ?table altchars padded continues = Some r"
    and ok: "case r of
         Inl (e, after) \<Rightarrow> length after = length output \<and> drop room after = drop room output
           \<and> (lenient_spec altchars padded continues input = None
             \<or> e = LenientOutputTooSmall \<and> room < length (octets (fst ?total)))
       | Inr (n, after) \<Rightarrow> (\<exists>bytes. lenient_spec altchars padded continues input = Some bytes
           \<and> length bytes \<le> room \<and> n = length bytes \<and> after = bytes @ drop (length bytes) output)"
    using decode_lenient_to_ptr_result [OF assms, of scan address altchars padded continues] by blast
  have spec: "lenient_spec altchars padded continues input =
      (case counted padded ?total of Inl _ \<Rightarrow> None | Inr _ \<Rightarrow> Some (octets (fst ?total)))"
    "counted padded ?total =
      (case lenient_spec altchars padded continues input of None \<Rightarrow> Inl LenientInvalidInput | Some bytes \<Rightarrow> Inr (length bytes))"
    by (simp_all add: lenient_spec_counted counted_def split_beta Let_def)
  have len: "lenient_decoded_len machine scan input altchars padded continues = Some (counted padded ?total)"
    by (rule lenient_decoded_len_eq [OF assms(2)])
  note enough = decoded_len_upper_bound_enough [of altchars padded continues input]
  show ?thesis
  proof (cases "room < decoded_len_upper_bound input ?table")
    case small: True
    show ?thesis
    proof (cases "lenient_spec altchars padded continues input")
      case None
      then show ?thesis
        using small by (simp add: decode_lenient_slice_into_def lenient_table_for_eq len spec(2))
    next
      case (Some bytes)
      then have "bytes = octets (fst ?total)" by (simp add: spec(1) split: sum.splits)
      then show ?thesis
        using small Some ok
        by (auto simp: decode_lenient_slice_into_def lenient_table_for_eq len spec(2) r split: sum.splits)
    qed
  next
    case False
    then have "\<not> room < length (octets (fst ?total))" using enough by simp
    then show ?thesis
      using False ok
      by (auto simp: decode_lenient_slice_into_def lenient_table_for_eq r split: sum.splits option.splits)
  qed
qed

lemma decode_lenient_slice_into_correct_witness:
  "decode_lenient_slice_into example_machine \<lparr>has_sse2 = True, has_popcnt = True\<rparr> 0 (map of_char ''Y.W=J!'') [7, 7, 7] 2
     (lenient_table_for (Some (42, 46))) (Some (42, 46)) False True = Some (Inl (OutputTooSmall 3 2, [7, 7, 7]))
   \<and> decode_lenient_slice_into example_machine \<lparr>has_sse2 = True, has_popcnt = True\<rparr> 0 (map of_char ''=Y W=I='') [7, 7, 7] 3
     (lenient_table_for None) None True True = Some (Inr (2, [97, 98, 7]))"
proof -
  have baseline: "neon_baseline example_machine" by (simp add: neon_baseline_def example_machine_def)
  have specs: "lenient_spec (Some (42, 46)) False True [89, 46, 87, 61, 74, 33] = Some [99, 245, 137]"
    "lenient_spec None True True [61, 89, 32, 87, 61, 73, 61] = Some [97, 98]"
    by code_simp+
  show ?thesis
    using decode_lenient_slice_into_correct [OF example_selected baseline, of 2 "[7, 7, 7]" "map of_char ''Y.W=J!''"
        "\<lparr>has_sse2 = True, has_popcnt = True\<rparr>" 0 "Some (42, 46)" False True]
      decode_lenient_slice_into_correct [OF example_selected baseline, of 3 "[7, 7, 7]" "map of_char ''=Y W=I=''"
        "\<lparr>has_sse2 = True, has_popcnt = True\<rparr>" 0 None True True]
    by (simp add: specs ISIZE_MAX_def)
qed

text \<open>A text that strict decoding accepts has the same bytes here.\<close>

lemma lenient_value_pad: "lenient_value None 61 = None"
  by code_simp

lemma lenient_spec_strict:
  assumes "decode_spec Standard input = Some bytes"
  shows "lenient_spec None True continues input = Some bytes"
proof -
  let ?u = "unpadded input"
  have u: "length input mod 4 = 0" "all_symbols Standard ?u" "bytes = decoded_bytes Standard ?u"
    using assms by (simp_all add: decode_spec_unpadded split: if_splits)
  have alphabet: "fast_alphabet None = Some Standard" by (simp add: fast_alphabet_def)
  define pad where "pad = replicate (trailing_padding input) (61 :: u8)"
  have input: "input = ?u @ pad"
  proof -
    have "drop (length input - trailing_padding input) input = pad"
      by (rule nth_equalityI) (auto simp: pad_def trailing_padding_cases less_Suc_eq numeral_2_eq_2)
    then show ?thesis by (metis append_take_drop_id unpadded_def)
  qed
  have len: "length ?u + trailing_padding input = length input"
    using trailing_padding_le(2) [of input] by (simp add: unpadded_def)
  define vals where "vals = lenient_values None ?u"
  have vals: "length vals = length ?u" "bytes = octets vals"
    using fast_alphabet_symbols [OF alphabet] u(2,3) by (simp_all add: vals_def)
  have read: "lenient_absorb None True continues input [] 0 = lenient_absorb None True continues pad vals 0"
    using fast_alphabet_symbols(1) [OF alphabet] u(2)
    by (subst input) (simp add: lenient_absorb_symbols vals_def)
  consider "trailing_padding input = 0" | "trailing_padding input = 1" | "trailing_padding input = 2"
    using trailing_padding_le(1) [of input] by linarith
  then show ?thesis
  proof cases
    case 1
    then have "length vals mod 4 = 0" using len u(1) vals(1) by simp
    then show ?thesis by (simp add: lenient_spec_def read pad_def 1 vals(2))
  next
    case 2
    then have "length vals mod 4 = 3" using len u(1) vals(1) by presburger
    then show ?thesis by (simp add: lenient_spec_def read pad_def 2 vals(2) lenient_value_pad)
  next
    case 3
    then have "length vals mod 4 = 2" using len u(1) vals(1) by presburger
    then show ?thesis by (simp add: lenient_spec_def read pad_def 3 vals(2) lenient_value_pad numeral_2_eq_2)
  qed
qed

section \<open>Decoding into a new object\<close>

text \<open>
  \<open>BytesWriter\<close> of \<open>staging.rs\<close>.  The interpreter's writer is a parameter: \<open>create\<close> gives a buffer of
  the capacity asked for, with any contents, and \<open>finish_with_size\<close> makes an object of the first
  bytes; either may raise an exception.
\<close>

definition writer_capacity_for_input :: "bytes \<Rightarrow> bytes \<Rightarrow> nat" where
  "writer_capacity_for_input input table =
     (if length input \<le> 256 then (length input + 3) div 4 * 3 else decoded_len_upper_bound input table)"

definition bytes_writer_try_new :: "(nat \<Rightarrow> py_error + bytes) \<Rightarrow> nat \<Rightarrow> py_error + bytes" where
  "bytes_writer_try_new create capacity =
     (if ISIZE_MAX < capacity then Inl (Py_Memory_Error ''Base64 output is too large'') else create capacity)"

definition bytes_writer_finish ::
  "(bytes \<Rightarrow> nat \<Rightarrow> py_error + bytes) \<Rightarrow> bytes \<Rightarrow> nat \<Rightarrow> py_error + bytes" where
  "bytes_writer_finish finish_with_size buffer len =
     (if ISIZE_MAX < len then Inl (Py_Memory_Error ''Base64 output is too large'') else finish_with_size buffer len)"

definition BASE64_DETACH_THRESHOLD :: nat where
  "BASE64_DETACH_THRESHOLD = 256 * 1024"

definition lenient_start :: "bytes \<Rightarrow> bytes \<Rightarrow> nat" where
  "lenient_start input table =
     (if length input < BASE64_DETACH_THRESHOLD then 0
      else unwrap_or (position (\<lambda>byte. table ! unat byte < 64) input) (length input))"

definition try_decode_lenient ::
  "machine \<Rightarrow> scan_features \<Rightarrow> nat \<Rightarrow> (nat \<Rightarrow> py_error + bytes) \<Rightarrow> (bytes \<Rightarrow> nat \<Rightarrow> py_error + bytes)
    \<Rightarrow> bytes \<Rightarrow> altchars \<Rightarrow> bool \<Rightarrow> bytes \<Rightarrow> bool \<Rightarrow> (py_error + base64_error + bytes) option" where
  "try_decode_lenient machine scan address create finish_with_size input altchars padded table
     continues_after_padding =
     (let input = drop (lenient_start input table) input;
          capacity = writer_capacity_for_input input table
      in case bytes_writer_try_new create capacity of
          Inl e \<Rightarrow> Some (Inl e)
        | Inr buffer \<Rightarrow> do {
            r \<leftarrow> decode_lenient_to_ptr machine scan address True input buffer capacity table altchars padded
              continues_after_padding;
            Some (case r of
                Inr (written, buffer) \<Rightarrow>
                  (case bytes_writer_finish finish_with_size buffer written of Inl e \<Rightarrow> Inl e | Inr object \<Rightarrow> Inr (Inr object))
              | Inl _ \<Rightarrow> Inr (Inl InvalidInput)) })"

text \<open>Discarded characters before the first symbol do not matter, padding included.\<close>

lemma lenient_absorb_leading:
  "(let (vals, pads) = lenient_absorb altchars padded continues input [] q
      in if lenient_incomplete padded (length vals mod 4) pads then None else Some (octets vals))
    = lenient_spec altchars padded continues (dropWhile (\<lambda>b. lenient_value altchars b = None) input)"
proof (induction input arbitrary: q)
  case Nil
  then show ?case by (simp add: lenient_spec_counted lenient_incomplete_def)
next
  case (Cons b input)
  show ?case
  proof (cases "lenient_value altchars b")
    case None
    then show ?thesis using Cons.IH [of q] Cons.IH [of "q + 1"] by (cases padded) simp_all
  next
    case (Some v)
    then show ?thesis by (simp add: lenient_spec_counted)
  qed
qed

lemma lenient_spec_leading:
  "lenient_spec altchars padded continues (drop (lenient_start input (lenient_decode_table altchars)) input)
    = lenient_spec altchars padded continues input"
proof -
  let ?P = "\<lambda>b. lenient_value altchars b = None"
  have "lenient_start input (lenient_decode_table altchars)
      = (if length input < BASE64_DETACH_THRESHOLD then 0 else length (takeWhile ?P input))"
    using position_takeWhile [of ?P input]
    by (simp add: lenient_start_def not_le [symmetric] lenient_entry_symbol)
  then have "drop (lenient_start input (lenient_decode_table altchars)) input
      = (if length input < BASE64_DETACH_THRESHOLD then input else dropWhile ?P input)"
    by (simp add: dropWhile_eq_drop)
  then show ?thesis
    using lenient_absorb_leading [of altchars padded continues input 0] by (simp add: lenient_spec_counted)
qed

lemma writer_capacity_enough:
  "length (octets (fst (lenient_absorb altchars padded continues input [] 0)))
    \<le> writer_capacity_for_input input (lenient_decode_table altchars)"
proof (cases "length input \<le> 256")
  case True
  obtain z where "fst (lenient_absorb altchars padded continues input [] 0) = z"
    "length z \<le> length (filter (\<lambda>b. lenient_value altchars b \<noteq> None) input)"
    using lenient_absorb_extends [of altchars padded continues input "[]" 0] by auto
  then have "length (fst (lenient_absorb altchars padded continues input [] 0)) \<le> length input"
    using length_filter_le le_trans by metis
  then have "length (octets (fst (lenient_absorb altchars padded continues input [] 0))) \<le> length input * 3 div 4"
    by (simp add: length_octets div_le_mono)
  also have "\<dots> \<le> (length input + 3) div 4 * 3" by presburger
  finally show ?thesis using True by (simp add: writer_capacity_for_input_def)
next
  case False
  then show ?thesis by (simp add: writer_capacity_for_input_def decoded_len_upper_bound_enough)
qed

lemma writer_capacity_bound:
  assumes "length input \<le> ISIZE_MAX"
  shows "writer_capacity_for_input input table \<le> ISIZE_MAX"
proof -
  have small: "(length input + 3) div 4 * 3 \<le> ISIZE_MAX" if "length input \<le> 256"
  proof -
    have "(length input + 3) div 4 * 3 \<le> length input + 3" by presburger
    then show ?thesis using that by (simp add: ISIZE_MAX_def)
  qed
  have "decoded_symbol_len n \<le> n" for n
    using decoded_symbol_len_octets [of "replicate n 0"] by (simp add: length_octets)
  then have "decoded_len_upper_bound input table \<le> length input"
    unfolding decoded_len_upper_bound_def Let_def using diff_le_self le_trans by blast
  then show ?thesis using assms small by (simp add: writer_capacity_for_input_def)
qed

text \<open>The exceptions are the interpreter's own; otherwise the object holds the bytes of the specification.\<close>

theorem try_decode_lenient_result:
  assumes "selected_backend machine = Some selection" "neon_baseline machine" "length input \<le> ISIZE_MAX"
    and "allocates create"
    and "\<And>buffer n object. n \<le> length buffer \<Longrightarrow> finish_with_size buffer n = Inr object \<Longrightarrow> object = take n buffer"
  shows "\<exists>capacity \<le> ISIZE_MAX. try_decode_lenient machine scan address create finish_with_size input altchars padded
      (lenient_table_for altchars) continues
    = Some (case create capacity of
        Inl e \<Rightarrow> Inl e
      | Inr buffer \<Rightarrow>
          (case lenient_spec altchars padded continues input of
             None \<Rightarrow> Inr (Inl InvalidInput)
           | Some bytes \<Rightarrow>
               (case finish_with_size (bytes @ drop (length bytes) buffer) (length bytes) of
                  Inl e \<Rightarrow> Inl e
                | Inr _ \<Rightarrow> Inr (Inr bytes))))"
proof -
  let ?table = "lenient_decode_table altchars"
  define rest where "rest = drop (lenient_start input ?table) input"
  define capacity where "capacity = writer_capacity_for_input rest ?table"
  have size: "length rest \<le> ISIZE_MAX" using assms(3) by (simp add: rest_def)
  then have small: "capacity \<le> ISIZE_MAX" unfolding capacity_def by (rule writer_capacity_bound)
  have spec: "lenient_spec altchars padded continues input = lenient_spec altchars padded continues rest"
    by (simp add: rest_def lenient_spec_leading)
  show ?thesis
  proof (intro exI [of _ capacity] conjI small)
    show "try_decode_lenient machine scan address create finish_with_size input altchars padded
        (lenient_table_for altchars) continues
      = Some (case create capacity of
          Inl e \<Rightarrow> Inl e
        | Inr buffer \<Rightarrow>
            (case lenient_spec altchars padded continues input of
               None \<Rightarrow> Inr (Inl InvalidInput)
             | Some bytes \<Rightarrow>
                 (case finish_with_size (bytes @ drop (length bytes) buffer) (length bytes) of
                    Inl e \<Rightarrow> Inl e
                  | Inr _ \<Rightarrow> Inr (Inr bytes))))"
    proof (cases "create capacity")
      case (Inl e)
      then show ?thesis
        using small by (simp add: try_decode_lenient_def lenient_table_for_eq Let_def bytes_writer_try_new_def
            flip: rest_def capacity_def)
    next
      case (Inr buffer)
      then have room: "capacity \<le> length buffer" using assms(4) by (simp add: allocates_def)
      obtain r where r: "decode_lenient_to_ptr machine scan address True rest buffer capacity ?table altchars padded continues
          = Some r"
        and ok: "case r of
             Inl (e, after) \<Rightarrow> length after = length buffer \<and> drop capacity after = drop capacity buffer
               \<and> (lenient_spec altchars padded continues rest = None
                 \<or> e = LenientOutputTooSmall
                   \<and> capacity < length (octets (fst (lenient_absorb altchars padded continues rest [] 0))))
           | Inr (n, after) \<Rightarrow> (\<exists>bytes. lenient_spec altchars padded continues rest = Some bytes
               \<and> length bytes \<le> capacity \<and> n = length bytes \<and> after = bytes @ drop (length bytes) buffer)"
        using decode_lenient_to_ptr_result [OF assms(1,2) room size, of scan address altchars padded continues] by blast
      have enough: "\<not> capacity < length (octets (fst (lenient_absorb altchars padded continues rest [] 0)))"
        using writer_capacity_enough [of altchars padded continues rest] by (simp add: capacity_def)
      have object: "object = bytes"
        if "finish_with_size (bytes @ drop (length bytes) buffer) (length bytes) = Inr object" for bytes object
        using assms(5) [OF _ that] by simp
      show ?thesis
      proof (cases r)
        case (Inl e)
        then have "lenient_spec altchars padded continues rest = None" using ok enough by (auto split: prod.splits)
        then show ?thesis
          using small Inr Inl r by (simp add: try_decode_lenient_def lenient_table_for_eq Let_def bytes_writer_try_new_def spec
              flip: rest_def capacity_def)
      next
        case (Inr result)
        then obtain bytes where bytes: "lenient_spec altchars padded continues rest = Some bytes" "length bytes \<le> capacity"
          "result = (length bytes, bytes @ drop (length bytes) buffer)"
          using ok by (auto split: prod.splits)
        then show ?thesis
          using small \<open>create capacity = Inr buffer\<close> Inr r object [of bytes]
          by (simp add: try_decode_lenient_def lenient_table_for_eq Let_def bytes_writer_try_new_def spec
              bytes_writer_finish_def split: sum.splits flip: rest_def capacity_def)
      qed
    qed
  qed
qed

end
