(* ===== verification/Spec2Isabelle.thy ===== *)
theory Spec2Isabelle
  imports Murmur_X86_32 Murmur_X86_128 Murmur_X64_128 Xxh_Batch Base64_Prepared Base64_Lenient
begin

text \<open>
  Verification library of hashcodecs-rs: MurmurHash3, XXH3 and Base64 with SIMD kernels that are
  selected at run time.  Paths are relative to \<open>src/\<close> of the crate.

  \<^bold>\<open>The program.\<close>  Three families of functions share one structure: a public function, a dispatch on
  the capabilities of the processor, one kernel per instruction set, and a scalar implementation
  that serves short inputs and what the kernels leave over.  \<open>backend.rs\<close> detects the
  capabilities; each family chooses its own backend from them (\<open>murmur3/dispatch.rs\<close>,
  \<open>xxhash/long_inputs/long_engine.rs\<close>, \<open>base64/backend.rs\<close>); the choice also decides whether an
  \<open>unsafe\<close> kernel may be called at all.  What makes such a program correct is that every kernel
  computes what the scalar code computes, on every input length, that no kernel reads or writes
  outside its regions, and that no kernel is called on a processor without its instructions.

  \<^bold>\<open>Reading the model.\<close>
  \<^item> Integers keep their width (\<open>Word\<close>); lengths and offsets are natural numbers, and the code's
    checks against \<open>usize\<close> and \<open>isize\<close> are written out (\<open>USIZE_MAX\<close>, \<open>ISIZE_MAX\<close>).  Both are those of
    a 64-bit target, as on every platform the crate is released for; the theorems also range over
    \<open>Arch_X86\<close>, but for a 32-bit build their length bounds would have to be read with 32-bit limits.
  \<^item> A slice or the memory behind a pointer is a list of bytes; \<open>get\<close>, \<open>slice\<close> and \<open>store\<close> are its
    accesses.  The option type around a result is \<open>None\<close> for a panic, a failed assertion (debug
    assertions included), an access outside a region, a call of a kernel without its features
    (\<open>target_feature\<close>; the MurmurHash3 kernels carry no such guard, there
    \<open>murmur_selection_supported\<close> says that only supported ones are selected), or a loop that does not
    end.  So \<open>f x = Some y\<close> states memory safety,
    absence of panics and termination together with the result.
  \<^item> A Rust \<open>Result\<close> is a sum.  A decoder's error carries the memory as the error left it, because
    callers see it.
  \<^item> Vector registers are lists of 16, 32 or 64 bytes, and each instruction is a function on them,
    defined from the vendors' descriptions (\<open>Vector_Ops\<close>, \<open>Byte_Vectors\<close>, \<open>Decode_Vectors\<close>).
    Inline assembly is modelled instruction by instruction.
  \<^item> What the code runs on is a parameter: the architecture of the build, the report of the
    processor (\<open>cpu_feature\<close> to truth value), the \<open>cpuid\<close> instruction, the address of an output and
    the content of a fresh allocation.  The theorems hold for all of them, with three hypotheses on
    the environment: detection of the caches ends, which \<open>detect_runtime_backend_ends\<close> proves for every
    processor whose descriptor lists have a null descriptor; an AArch64 processor has NEON
    (\<open>neon_baseline\<close>), for the byte scanning, which does not ask; and an allocation by the interpreter
    that succeeds has the length asked for, and an object finished from a buffer its first bytes.
  \<^item> Loops are \<open>foldM\<close>, \<open>scan_while\<close>, \<open>try_while\<close> and \<open>try_chunks\<close>, total by a measure on the offset;
    no fuel is used.  The scan of cache descriptors and the loops of the staging writer and of lenient decoding are
    \<open>partial_function\<close>s whose termination is a theorem.

  \<^bold>\<open>The theories.\<close>
  \<^item> \<open>Prelude\<close>, \<open>Byte_Words\<close>: memory, loops, chunks; little-endian words and lanes.
  \<^item> \<open>Cpu_Backend\<close>: \<open>backend.rs\<close>, the bit set of capabilities and its detection.
  \<^item> \<open>Murmur_Common\<close>, \<open>Murmur_X86_32\<close>, \<open>Murmur_X86_128\<close>, \<open>Murmur_X64_128\<close>: \<open>murmur3/\<close>.  Each variant
    has its reference (a fold over blocks), the scalar, SSE4.1 and AVX2 kernels, the one-call
    function and the incremental hasher with its block buffer.  The contract of a kernel and of a
    hasher are locales; the incremental hasher refines hashing the concatenation of its updates.
  \<^item> \<open>Xxh_Primitives\<close>, \<open>Xxh_Short\<close>, \<open>Xxh_Long\<close>, \<open>Xxh_X86\<close>, \<open>Xxh_Neon\<close>, \<open>Xxh_Engine\<close>, \<open>Xxh_Batch\<close>:
    \<open>xxhash/\<close>.  Inputs of at most 240 bytes by their length classes, longer inputs by stripes; the
    five kernels refine one accumulation over stripes; batches that interleave equal-shaped inputs
    give the hashes of the single inputs, in order.
  \<^item> \<open>Base64_Alphabet\<close>, \<open>Base64_Backend\<close>: alphabets, decode tables, the abstract codec (six-bit groups
    of a bit string), backend selection and cache policy.
  \<^item> \<open>Base64_Encode_Scalar\<close>, \<open>Base64_Encode_X86\<close>, \<open>Base64_Encode_Avx2\<close>, \<open>Base64_Encode_Avx512\<close>,
    \<open>Base64_Encode_Neon\<close>, \<open>Base64_Encode\<close>: \<open>base64/encode/\<close> and the encoding side of
    \<open>base64/runtime_dispatch.rs\<close>.  Each kernel is an interpretation of the locale \<open>encode_kernel\<close>: it
    stores the text of a prefix of whole groups and returns its length.
  \<^item> \<open>Base64_Wrapped_Output\<close>, \<open>Base64_Wrapped\<close>: line-wrapped output.  The cursor \<open>WrappedOutput\<close> of
    \<open>base64/encode/api.rs\<close> is a second \<open>encode_sink\<close>, so the kernels' loops are proved by the lemmas that
    serve plain output; the text they write is \<open>wrap_lines\<close>.
  \<^item> \<open>Base64_Prepared\<close>: the prepared encoder of \<open>bindings/base64/encode.rs\<close>: options, lengths, and the
    two ways of writing lines.
  \<^item> \<open>Base64_Decode_Scalar\<close>, \<open>Decode_Vectors\<close>, \<open>Decode_Kernels\<close>, \<open>Base64_Decode_Sse\<close>, \<open>Base64_Decode_Avx2\<close>,
    \<open>Base64_Decode_Avx512\<close>, \<open>Base64_Decode_Neon\<close>, \<open>Base64_Decode_Dispatch\<close>, \<open>Base64_Decode\<close>:
    \<open>base64/decode/\<close> and the decoding side of the dispatch.  The relation \<open>decoded\<close> says what a
    partly decoded region holds; the locales \<open>decode_kernel\<close>, \<open>validate_kernel\<close> and \<open>prefix_kernel\<close> are
    the contracts, with the store policy (how many bytes behind the result may be overwritten) and
    the error policy (what an erroneous decode may have written) as parameters, and every kernel
    interprets them.
  \<^item> \<open>Base64_Scan\<close>: the byte scanning and translation of \<open>bindings/base64/scan.rs\<close>, with the locale
    \<open>byte_classifier\<close> for a routine that tests every byte of a register.
  \<^item> \<open>Base64_Staging\<close>: the character translation of \<open>bindings/base64/configured.rs\<close> and the staging writer
    of \<open>bindings/base64/staging.rs\<close>; a writer decodes its stream however the stream is cut into pieces.
  \<^item> \<open>Base64_Lenient\<close>: lenient decoding of \<open>bindings/base64/lenient.rs\<close>, into a caller's memory or a new
    object: the decoder with its vector paths, the count of the bytes it will write and the bound on
    them, against \<open>lenient_spec\<close>, which reads a text character by character and agrees with \<open>decode_spec\<close>
    on the texts that strict decoding accepts.

  \<^bold>\<open>What the theorems show.\<close>  Hashes: every one-call, batched, prepared and incremental function
  equals its reference on every input, seed, architecture and processor.  Selection: the chosen
  backend is the most preferred supported one and its kernels are executable.  Base64: encoders
  return the specified text and decoders the specified bytes or the specified error, round trips
  across machines, errors reported before anything is written where the documentation promises it,
  bytes behind the result untouched, the exact content of a partly decoded region under the policy
  of validated blocks, and lengths that are exact and saturate or vanish where they would overflow.

  \<^bold>\<open>Not modelled.\<close>
  \<^item> \<open>OnceLock\<close> cells that cache a detection: the model detects at each call, and detection is a
    function of the machine, so the cached value is the same.
  \<^item> Memory ordering of streaming stores (\<open>sfence\<close>): the store is modelled, its visibility to other
    processors is not.
  \<^item> Code compiled only for tests, Kani and Miri, the fuzz targets and the benchmarks.
  \<^item> \<open>generated/rust/\<close>: argument tables of the Python module, generated.
  \<^item> \<open>bindings/\<close>, apart from the prepared encoder, the scanning routines, the staging writer and lenient decoding: the glue to CPython (argument
    parsing, buffers, objects, the interpreter lock) calls an interpreter whose behaviour is not in this repository.
\<close>

end
